(* ===== verification/Prelude.thy ===== *)
theory Prelude
  imports Main "HOL-Library.Word"
begin

text \<open>
  The shared base of the development: the bytes and words of the C program, the outcome of a
  C function (a value, a call of \<open>log_fatal\<close>, or an access outside an object), checked
  reads and writes of buffers, and big-endian numbers, which is what the \<open>memcpy\<close> and
  \<open>ntohl\<close>/\<open>htonl\<close> pairs of the program compute on every host.
\<close>

unbundle bit_operations_syntax

section \<open>Types\<close>

type_synonym byte = "8 word"
type_synonym u16 = "16 word"
type_synonym u32 = "32 word"

text \<open>The result codes of the ISC library and of OMAPI that the modelled functions return.\<close>

datatype isc_result =
    ISC_R_SUCCESS | ISC_R_NOMEMORY | ISC_R_NOSPACE | ISC_R_NOTFOUND | ISC_R_UNEXPECTED
  | ISC_R_FAILURE | ISC_R_IOERROR | DHCP_R_INVALIDARG

section \<open>Outcomes of C functions\<close>

text \<open>
  \<open>Ret v\<close> is a normal return with value \<open>v\<close>; \<open>Fatal\<close> is a call of \<open>log_fatal\<close>, which
  ends the process; \<open>Undef\<close> is an access outside the object it is made through. A theorem
  that a function returns \<open>Ret\<close> is therefore a memory safety theorem too.
\<close>

datatype 'a cres = Undef | Fatal | Ret 'a

named_theorems cres_simps \<open>rewrite rules for outcomes and checked accesses\<close>

fun cbind :: "'a cres \<Rightarrow> ('a \<Rightarrow> 'b cres) \<Rightarrow> 'b cres" where
  "cbind Undef f = Undef"
| "cbind Fatal f = Fatal"
| "cbind (Ret x) f = f x"

lemma cbind_Ret_iff [cres_simps]:
  "cbind m f = Ret y \<longleftrightarrow> (\<exists>x. m = Ret x \<and> f x = Ret y)"
  by (cases m) auto

lemma cbind_split:
  "P (cbind m f) \<longleftrightarrow>
     (m = Undef \<longrightarrow> P Undef) \<and> (m = Fatal \<longrightarrow> P Fatal) \<and> (\<forall>x. m = Ret x \<longrightarrow> P (f x))"
  by (cases m) auto

lemma cbind_assoc: "cbind (cbind m f) g = cbind m (\<lambda>x. cbind (f x) g)"
  by (cases m) auto

lemma cbind_cong [fundef_cong]:
  "m = m' \<Longrightarrow> (\<And>x. m' = Ret x \<Longrightarrow> f x = f' x) \<Longrightarrow> cbind m f = cbind m' f'"
  by (cases m') auto

text \<open>Checked reads and writes; an index of C type \<open>int\<close> may be negative.\<close>

definition rd :: "'a list \<Rightarrow> nat \<Rightarrow> 'a cres" where
  "rd xs i = (if i < length xs then Ret (xs ! i) else Undef)"

definition wr :: "'a list \<Rightarrow> nat \<Rightarrow> 'a \<Rightarrow> 'a list cres" where
  "wr xs i v = (if i < length xs then Ret (xs[i := v]) else Undef)"

definition rdi :: "'a list \<Rightarrow> int \<Rightarrow> 'a cres" where
  "rdi xs i = (if 0 \<le> i then rd xs (nat i) else Undef)"

lemma rd_Ret [cres_simps, simp]: "i < length xs \<Longrightarrow> rd xs i = Ret (xs ! i)"
  by (simp add: rd_def)

lemma rd_Undef [cres_simps, simp]: "length xs \<le> i \<Longrightarrow> rd xs i = Undef"
  by (simp add: rd_def)

lemma rd_eq_Ret_iff: "rd xs i = Ret v \<longleftrightarrow> i < length xs \<and> v = xs ! i"
  by (auto simp: rd_def)

lemma rd_not_Fatal [simp]: "rd xs i \<noteq> Fatal"
  by (simp add: rd_def)

lemma wr_Ret [cres_simps, simp]: "i < length xs \<Longrightarrow> wr xs i v = Ret (xs[i := v])"
  by (simp add: wr_def)

lemma wr_Undef [cres_simps, simp]: "length xs \<le> i \<Longrightarrow> wr xs i v = Undef"
  by (simp add: wr_def)

lemma wr_eq_Ret_iff: "wr xs i v = Ret ys \<longleftrightarrow> i < length xs \<and> ys = xs[i := v]"
  by (auto simp: wr_def)

lemma rdi_Ret [cres_simps]: "0 \<le> i \<Longrightarrow> nat i < length xs \<Longrightarrow> rdi xs i = Ret (xs ! nat i)"
  by (simp add: rdi_def)

text \<open>
  A destination that is only appended to is the list of the bytes written so far, with the
  capacity beside it; writing past the capacity is \<open>Undef\<close>.
\<close>

definition put :: "nat \<Rightarrow> 'a list \<Rightarrow> 'a list \<Rightarrow> 'a list cres" where
  "put cap out bs = (if length out + length bs \<le> cap then Ret (out @ bs) else Undef)"

lemma put_Ret [cres_simps, simp]: "length out + length bs \<le> cap \<Longrightarrow> put cap out bs = Ret (out @ bs)"
  by (simp add: put_def)

lemma put_eq_Ret_iff:
  "put cap out bs = Ret out' \<longleftrightarrow> length out + length bs \<le> cap \<and> out' = out @ bs"
  by (auto simp: put_def)

lemma put_not_Fatal [simp]: "put cap out bs \<noteq> Fatal"
  by (simp add: put_def)

section \<open>Bytes\<close>

lemma byte_255: "(255 :: byte) = - 1"
  by simp

lemma byte_and_255 [simp]: "x AND 255 = (x :: byte)"
  using bit.conj_one_right [of x] unfolding byte_255 .

lemma byte_minus_256 [simp]: "(- 256 :: byte) = 0"
  by simp

lemma byte_xor_255: "x XOR 255 = NOT (x :: byte)"
  using bit.xor_one_right [of x] unfolding byte_255 .

lemma byte_split: "(x AND m) OR (x AND NOT m) = (x :: byte)"
  by (rule bit_word_eqI) (auto simp: bit_simps)

section \<open>Big-endian numbers\<close>

fun be_acc :: "nat \<Rightarrow> byte list \<Rightarrow> nat" where
  "be_acc a [] = a"
| "be_acc a (b # bs) = be_acc (a * 256 + unat b) bs"

definition be_val :: "byte list \<Rightarrow> nat" where
  "be_val bs = be_acc 0 bs"

fun be_bytes :: "nat \<Rightarrow> nat \<Rightarrow> byte list" where
  "be_bytes 0 n = []"
| "be_bytes (Suc k) n = be_bytes k (n div 256) @ [word_of_nat (n mod 256)]"

lemma be_acc_eq: "be_acc a bs = a * 256 ^ length bs + be_val bs"
proof (induction bs arbitrary: a)
  case Nil
  then show ?case by (simp add: be_val_def)
next
  case (Cons b bs)
  have "be_val (b # bs) = unat b * 256 ^ length bs + be_val bs"
    using Cons.IH [of "unat b"] by (simp add: be_val_def)
  with Cons.IH [of "a * 256 + unat b"] show ?case
    by (simp add: algebra_simps)
qed

lemma be_val_Nil [simp]: "be_val [] = 0"
  by (simp add: be_val_def)

lemma be_val_Cons: "be_val (b # bs) = unat b * 256 ^ length bs + be_val bs"
  using be_acc_eq [of "unat b" bs] by (simp add: be_val_def)

lemma be_val_append: "be_val (xs @ ys) = be_val xs * 256 ^ length ys + be_val ys"
  by (induction xs) (auto simp: be_val_Cons power_add algebra_simps)

lemma unat_byte_less [simp]: "unat (b :: byte) < 256"
proof -
  have "unat b < 2 ^ LENGTH(8)" by (rule unsigned_less)
  then show ?thesis by simp
qed

lemma unat_u32_less [simp]: "unat (w :: u32) < 4294967296"
proof -
  have "unat w < 2 ^ LENGTH(32)" by (rule unsigned_less)
  then show ?thesis by simp
qed

lemma unat_byte_le [simp]: "unat (b :: byte) \<le> 255"
  using unat_byte_less [of b] by linarith

lemma be_val_less: "be_val bs < 256 ^ length bs"
proof (induction bs)
  case Nil
  then show ?case by simp
next
  case (Cons b bs)
  have "unat b * 256 ^ length bs + be_val bs < (unat b + 1) * 256 ^ length bs"
    using Cons.IH by simp
  also have "\<dots> \<le> 256 * 256 ^ length bs"
    using unat_byte_less [of b] by (intro mult_right_mono) linarith+
  finally show ?case by (simp add: be_val_Cons)
qed

lemma length_be_bytes [simp]: "length (be_bytes k n) = k"
  by (induction k arbitrary: n) auto

lemma be_bytes_numeral:
  "be_bytes (numeral k) n = be_bytes (pred_numeral k) (n div 256) @ [word_of_nat (n mod 256)]"
  by (simp only: numeral_eq_Suc [of k] be_bytes.simps)

lemma unat_byte_of_nat: "unat (word_of_nat n :: byte) = n mod 256"
  by (simp add: unat_of_nat)

lemma be_val_be_bytes: "be_val (be_bytes k n) = n mod 256 ^ k"
proof (induction k arbitrary: n)
  case 0
  then show ?case by simp
next
  case (Suc k)
  have "n mod (256 * 256 ^ k) = 256 * (n div 256 mod 256 ^ k) + n mod 256"
    by (rule mod_mult2_eq)
  with Suc.IH [of "n div 256"] show ?case
    by (simp add: be_val_append be_val_Cons unat_byte_of_nat)
qed

lemma be_bytes_be_val: "be_bytes (length bs) (be_val bs) = bs"
proof (induction bs rule: rev_induct)
  case Nil
  then show ?case by simp
next
  case (snoc b bs)
  have "(be_val bs * 256 + unat b) div 256 = be_val bs"
    and "(be_val bs * 256 + unat b) mod 256 = unat b"
    using unat_byte_less [of b] by simp_all
  with snoc.IH show ?case by (simp add: be_val_append be_val_Cons)
qed

lemma be_val_inject: "length xs = length ys \<Longrightarrow> be_val xs = be_val ys \<longleftrightarrow> xs = ys"
  by (metis be_bytes_be_val)

text \<open>
  The lexicographic order of byte strings of one length is the order of their numbers: the
  fact behind every byte-wise comparison of addresses.
\<close>

lemma be_val_Cons_less:
  assumes "length xs = length ys" and "x < y"
  shows "be_val (x # xs) < be_val (y # ys)"
proof -
  have "unat x + 1 \<le> unat y" using assms(2) by (simp add: word_less_nat_alt Suc_le_eq)
  then have "(unat x + 1) * 256 ^ length ys \<le> unat y * 256 ^ length ys"
    by (rule mult_right_mono) simp
  with be_val_less [of xs] assms(1) show ?thesis by (simp add: be_val_Cons)
qed

end
