(* ===== verification/Convert.thy ===== *)
theory Convert
  imports Prelude
begin

text \<open>
  The byte-order conversions of \<open>omapip/convert.c\<close> and the number formatting that
  \<open>common/tree.c\<close> uses for \<open>binary-to-ascii\<close>. A buffer argument is the list of the bytes
  that follow the pointer.
\<close>

section \<open>Reading and writing integers\<close>

definition getULong :: "byte list \<Rightarrow> u32 cres" where
  "getULong buf = (if length buf < 4 then Undef else Ret (word_of_nat (be_val (take 4 buf))))"

definition getLong :: "byte list \<Rightarrow> int cres" where
  "getLong buf =
     (if length buf < 4 then Undef
      else Ret (sint (word_of_nat (be_val (take 4 buf)) :: u32)))"

definition getUShort :: "byte list \<Rightarrow> u32 cres" where
  "getUShort buf = (if length buf < 2 then Undef else Ret (word_of_nat (be_val (take 2 buf))))"

text \<open>
  \<open>ntohs\<close> returns an unsigned 16-bit value, which the return converts to \<open>int32_t\<close>: the sign
  of the stored number is lost.
\<close>

definition getShort :: "byte list \<Rightarrow> int cres" where
  "getShort buf = (if length buf < 2 then Undef else Ret (int (be_val (take 2 buf))))"

definition getUChar :: "byte list \<Rightarrow> u32 cres" where
  "getUChar obuf = cbind (rd obuf 0) (\<lambda>b. Ret (ucast b))"

definition putULong :: "byte list \<Rightarrow> u32 \<Rightarrow> byte list cres" where
  "putULong obuf val =
     (if length obuf < 4 then Undef else Ret (be_bytes 4 (unat val) @ drop 4 obuf))"

definition putLong :: "byte list \<Rightarrow> int \<Rightarrow> byte list cres" where
  "putLong obuf val =
     (if length obuf < 4 then Undef
      else Ret (be_bytes 4 (unat (word_of_int val :: u32)) @ drop 4 obuf))"

definition putUShort :: "byte list \<Rightarrow> u32 \<Rightarrow> byte list cres" where
  "putUShort obuf val =
     (if length obuf < 2 then Undef
      else Ret (be_bytes 2 (unat (ucast val :: u16)) @ drop 2 obuf))"

definition putShort :: "byte list \<Rightarrow> int \<Rightarrow> byte list cres" where
  "putShort obuf val =
     (if length obuf < 2 then Undef
      else Ret (be_bytes 2 (unat (word_of_int val :: u16)) @ drop 2 obuf))"

definition putUChar :: "byte list \<Rightarrow> u32 \<Rightarrow> byte list cres" where
  "putUChar obuf val = wr obuf 0 (ucast val)"

section \<open>Number formatting\<close>

text \<open>
  The \<open>do \<dots> while\<close> loop of \<open>converted_length\<close>; \<open>pwr\<close> (the variable \<open>power\<close>) counts the digits. The loop goes on
  only while the 32-bit product grows, which bounds the number of its rounds.
\<close>

function (sequential) converted_length_loop :: "u32 \<Rightarrow> u32 \<Rightarrow> u32 \<Rightarrow> nat \<Rightarrow> nat" where
  "converted_length_loop number base newcolumn pwr =
     (let column = newcolumn
      in if number < column then pwr
         else let pwr = pwr + 1; newcolumn = column * base
              in if newcolumn > column
                 then converted_length_loop number base newcolumn pwr
                 else pwr)"
  by pat_completeness auto
termination
  by (relation "measure (\<lambda>(number, base, newcolumn, pwr). 2 ^ 32 - unat newcolumn)")
     (auto simp: word_less_nat_alt intro!: diff_less_mono2 unat_u32_less)

definition fetch_number :: "byte list \<Rightarrow> u32 \<Rightarrow> u32 cres option" where
  "fetch_number buf width =
     (if width = 1 then Some (getUChar buf)
      else if width = 2 then Some (getUShort buf)
      else if width = 4 then Some (getULong buf)
      else None)"

definition converted_length :: "byte list \<Rightarrow> u32 \<Rightarrow> u32 \<Rightarrow> nat cres" where
  "converted_length buf base width =
     (if base > 16 then Ret 0
      else case fetch_number buf width of
             None \<Rightarrow> Ret 0
           | Some m \<Rightarrow> cbind m (\<lambda>number. Ret (converted_length_loop number base base 1)))"

definition h2a :: "byte list" where
  "h2a = map (\<lambda>c. word_of_nat (of_char c)) ''0123456789abcdef''"

text \<open>The digits are stored from the last position to the first; \<open>number % 0\<close> is undefined.\<close>

fun binary_to_ascii_loop :: "nat \<Rightarrow> u32 \<Rightarrow> u32 \<Rightarrow> byte list \<Rightarrow> byte list cres" where
  "binary_to_ascii_loop 0 number base outbuf = Ret outbuf"
| "binary_to_ascii_loop (Suc i) number base outbuf =
     (if base = 0 then Undef
      else cbind (rd h2a (unat (number mod base)))
             (\<lambda>d. cbind (wr outbuf i d)
                (\<lambda>outbuf. binary_to_ascii_loop i (number div base) base outbuf)))"

definition binary_to_ascii ::
    "byte list \<Rightarrow> byte list \<Rightarrow> u32 \<Rightarrow> u32 \<Rightarrow> (nat \<times> byte list) cres" where
  "binary_to_ascii outbuf inbuf base width =
     cbind (converted_length inbuf base width) (\<lambda>pwr.
       if base > 16 then Ret (0, outbuf)
       else case fetch_number inbuf width of
              None \<Rightarrow> Ret (0, outbuf)
            | Some m \<Rightarrow> cbind m (\<lambda>number.
                cbind (binary_to_ascii_loop pwr number base outbuf) (\<lambda>outbuf.
                  Ret (pwr, outbuf))))"


section \<open>Round trips of the integer conversions\<close>

lemma be_val_be_bytes_u32: "be_val (be_bytes 4 (unat (v :: u32))) = unat v"
  by (simp add: be_val_be_bytes)

lemma getULong_putULong: "putULong obuf v = Ret b \<Longrightarrow> getULong b = Ret v"
  by (auto simp: putULong_def getULong_def be_val_be_bytes_u32 split: if_splits)

lemma getLong_putLong:
  assumes "putLong obuf v = Ret b" and "- (2 ^ 31) \<le> v" and "v < 2 ^ 31"
  shows "getLong b = Ret v"
proof -
  have "sint (word_of_int v :: u32) = v"
    using assms(2,3) by (simp add: int_word_sint)
  with assms(1) show ?thesis
    by (auto simp: putLong_def getLong_def be_val_be_bytes_u32 split: if_splits)
qed

lemma getUShort_putUShort:
  assumes "putUShort obuf v = Ret b"
  shows "getUShort b = Ret (v AND 0xFFFF)"
proof -
  have "unat (ucast v :: u16) < 2 ^ LENGTH(16)" by (rule unsigned_less)
  then have "be_val (be_bytes 2 (unat (ucast v :: u16))) = unat (ucast v :: u16)"
    by (simp add: be_val_be_bytes)
  moreover have "(word_of_nat (unat (ucast v :: u16)) :: u32) = v AND mask 16"
    by (rule bit_word_eqI) (auto simp: bit_simps)
  ultimately show ?thesis using assms
    by (auto simp: putUShort_def getUShort_def mask_numeral split: if_splits)
qed


section \<open>The digits of a number\<close>

declare converted_length_loop.simps [simp del]

lemma unat_mult_u32:
  "unat (a * b :: u32) = unat a * unat b mod 4294967296"
  by (simp add: unat_word_ariths)

text \<open>
  A value the loop leaves in \<open>column\<close> is the true power of the base, or it comes after a power
  that no 32-bit number reaches: either way the digits counted so far are not too few.
\<close>

definition col_ok :: "nat \<Rightarrow> nat \<Rightarrow> nat \<Rightarrow> bool" where
  "col_ok b c k \<longleftrightarrow> c = b ^ k \<or> 4294967296 \<le> b ^ k"

lemma col_ok_step: "2 \<le> b \<Longrightarrow> col_ok b c k \<Longrightarrow> col_ok b (c * b mod 4294967296) (Suc k)"
proof -
  assume b: "2 \<le> b" and ok: "col_ok b c k"
  show ?thesis
  proof (cases "4294967296 \<le> b ^ k")
    case True
    have "b ^ k \<le> b ^ Suc k" using b by (intro power_increasing) auto
    with True have "4294967296 \<le> b ^ Suc k" by linarith
    then show ?thesis unfolding col_ok_def by (rule disjI2)
  next
    case False
    with ok have "c = b ^ k" by (simp add: col_ok_def)
    then show ?thesis by (cases "c * b < 4294967296") (auto simp: col_ok_def mult.commute)
  qed
qed

lemma col_ok_stop:
  assumes "2 \<le> b" and "col_ok b c k" and "c * b mod 4294967296 \<le> c" and "0 < c"
  shows "4294967296 \<le> b ^ Suc k"
proof (cases "4294967296 \<le> b ^ k")
  case True
  moreover have "b ^ k \<le> b ^ Suc k" using assms(1) by (intro power_increasing) auto
  ultimately show ?thesis by linarith
next
  case False
  with assms(2) have c: "c = b ^ k" by (simp add: col_ok_def)
  have "c < c * b" using assms(1,4) by simp
  with assms(3) have "\<not> c * b < 4294967296" by (metis mod_less not_less)
  with c show ?thesis by (simp add: mult.commute)
qed

lemma converted_length_loop_enough:
  assumes "2 \<le> unat base" and "col_ok (unat base) (unat column) pwr" and "0 < column"
  shows "unat number < unat base ^ converted_length_loop number base column pwr"
  using assms
proof (induction number base column pwr rule: converted_length_loop.induct)
  case (1 number base column pwr)
  have lt: "unat number < 4294967296" by simp
  show ?case
  proof (cases "number < column")
    case True
    with 1(3) lt have "unat number < unat base ^ pwr"
      unfolding word_less_nat_alt col_ok_def by linarith
    with True show ?thesis by (subst converted_length_loop.simps) simp
  next
    case False
    show ?thesis
    proof (cases "column < column * base")
      case True
      then have "0 < column * base" by (metis word_gt_0 word_not_simps(1))
      with 1 False True show ?thesis
        by (subst converted_length_loop.simps) (auto simp: Let_def unat_mult_u32 col_ok_step)
    next
      case stop: False
      with 1 have "4294967296 \<le> unat base ^ Suc pwr"
        by (intro col_ok_stop [of _ "unat column"])
           (auto simp: word_less_nat_alt unat_mult_u32 not_less word_gt_0_no)
      with lt have "unat number < unat base ^ Suc pwr" by (rule less_le_trans)
      with stop False show ?thesis
        by (subst converted_length_loop.simps) (simp add: Let_def)
    qed
  qed
qed

text \<open>The number a list of digits denotes, most significant digit first.\<close>

definition digits_val :: "nat \<Rightarrow> nat list \<Rightarrow> nat" where
  "digits_val b ds = foldl (\<lambda>a d. a * b + d) 0 ds"

lemma digits_val_snoc [simp]: "digits_val b (ds @ [d]) = digits_val b ds * b + d"
  by (simp add: digits_val_def)

lemma digits_val_Nil [simp]: "digits_val b [] = 0"
  by (simp add: digits_val_def)

lemma length_h2a [simp]: "length h2a = 16"
  by (simp add: h2a_def)

lemma binary_to_ascii_loop_digits:
  assumes "2 \<le> unat base" and "unat base \<le> 16" and "k \<le> length outbuf"
    and "unat number < unat base ^ k"
  shows "\<exists>ds. length ds = k \<and> (\<forall>d \<in> set ds. d < unat base) \<and>
           digits_val (unat base) ds = unat number \<and>
           binary_to_ascii_loop k number base outbuf = Ret (map ((!) h2a) ds @ drop k outbuf)"
  using assms(3,4)
proof (induction k arbitrary: number outbuf)
  case 0
  then show ?case by simp
next
  case (Suc k)
  let ?b = "unat base" and ?d = "unat (number mod base)"
  have nz: "base \<noteq> 0" using assms(1) by auto
  have d: "?d = unat number mod ?b" and q: "unat (number div base) = unat number div ?b"
    by (simp_all add: unat_mod_distrib unat_div_distrib)
  have dlt: "?d < ?b" using assms(1) d by simp
  let ?out = "outbuf[k := h2a ! ?d]"
  have "unat number div ?b < ?b ^ k"
    using Suc.prems(2) assms(1) by (simp add: less_mult_imp_div_less mult.commute)
  with Suc.prems(1) obtain ds where ds: "length ds = k" "\<forall>d \<in> set ds. d < ?b"
      "digits_val ?b ds = unat number div ?b"
      "binary_to_ascii_loop k (number div base) base ?out = Ret (map ((!) h2a) ds @ drop k ?out)"
    using Suc.IH [of ?out "number div base"] q by auto
  have "drop k ?out = h2a ! ?d # drop (Suc k) outbuf"
    using Suc.prems(1) by (simp add: Cons_nth_drop_Suc [symmetric])
  with ds dlt d nz Suc.prems(1) assms(2) show ?case
    by (intro exI [of _ "ds @ [?d]"]) auto
qed
lemma converted_length_loop_least:
  assumes "2 \<le> unat base" and "unat number < unat base ^ m" and "unat base ^ m < 4294967296"
    and "unat column = unat base ^ pwr" and "pwr = 1 \<or> unat base ^ (pwr - 1) \<le> unat number"
  shows "let p = converted_length_loop number base column pwr
         in p = 1 \<or> unat base ^ (p - 1) \<le> unat number"
  using assms
proof (induction number base column pwr rule: converted_length_loop.induct)
  case (1 number base column pwr)
  show ?case
  proof (cases "number < column")
    case True
    with 1 show ?thesis by (subst converted_length_loop.simps) simp
  next
    case False
    then have le: "unat base ^ pwr \<le> unat number" using 1(5) by (simp add: word_less_nat_alt not_less)
    with 1(3) have "unat base ^ pwr < unat base ^ m" by linarith
    with 1(2) have "pwr < m" by (auto dest: power_less_imp_less_exp [rotated])
    then have "unat base ^ Suc pwr \<le> unat base ^ m" using 1(2) by (intro power_increasing) auto
    with 1(4) have "unat base ^ Suc pwr < 4294967296" by linarith
    then have new: "unat (column * base) = unat base ^ Suc pwr"
      using 1(5) by (simp add: unat_mult_u32 mult.commute)
    have "1 * unat base ^ pwr < unat base * unat base ^ pwr"
      using 1(2) by (intro mult_strict_right_mono) auto
    then have grow: "column < column * base"
      using new 1(5) by (simp add: word_less_nat_alt)
    from 1(1) [OF refl False refl refl grow 1(2-4)] new le grow False show ?thesis
      by (subst converted_length_loop.simps) (simp add: Let_def)
  qed
qed

section \<open>Properties\<close>

text \<open>The number the two routines read from their input.\<close>

definition number_of :: "byte list \<Rightarrow> u32 \<Rightarrow> nat" where
  "number_of buf width = be_val (take (unat width) buf)"

lemma unat_ucast_byte: "unat (ucast (b :: byte) :: u32) = unat b"
proof -
  have "unat b < 2 ^ 32" using unat_byte_less [of b] by (rule less_le_trans) simp
  then show ?thesis by (simp add: unsigned_ucast_eq take_bit_nat_eq_self)
qed

lemma fetch_number_Ret:
  assumes "width \<in> {1, 2, 4}" and "unat width \<le> length buf"
  shows "\<exists>number. fetch_number buf width = Some (Ret number) \<and> unat number = number_of buf width"
proof -
  have "be_val (take (unat width) buf) < 256 ^ length (take (unat width) buf)" by (rule be_val_less)
  also have "\<dots> \<le> 256 ^ 4" using assms by (intro power_increasing) auto
  finally have lt: "number_of buf width < 4294967296" by (simp add: number_of_def)
  consider "width = 1" | "width = 2" | "width = 4" using assms(1) by auto
  then show ?thesis
  proof cases
    case 1
    then obtain b bs where "buf = b # bs" using assms(2) by (cases buf) auto
    with 1 show ?thesis
      by (simp add: fetch_number_def getUChar_def number_of_def be_val_def unat_ucast_byte)
  next
    case 2
    with assms(2) lt show ?thesis
      by (simp add: fetch_number_def getUShort_def number_of_def unat_of_nat)
  next
    case 3
    with assms(2) lt show ?thesis
      by (simp add: fetch_number_def getULong_def number_of_def unat_of_nat)
  qed
qed

lemma base_facts:
  assumes "2 \<le> base" and "base \<le> (16 :: u32)"
  shows "2 \<le> unat base" "unat base \<le> 16" "\<not> 16 < base" "0 < base"
  using assms by (auto simp: word_le_nat_alt word_less_nat_alt)

text \<open>
  C25. For the widths and bases it accepts, \<open>binary_to_ascii\<close> fills the first \<open>converted_length\<close>
  characters of a sufficiently large output buffer with the digits of the number in the input,
  most significant digit first: read back in the same base they give the number again, and
  nothing past them is written.
\<close>

theorem binary_to_ascii_value:
  assumes "2 \<le> base" and "base \<le> 16" and "width \<in> {1, 2, 4}" and "unat width \<le> length inbuf"
    and "converted_length inbuf base width = Ret k" and "k \<le> length outbuf"
  shows "\<exists>ds. length ds = k \<and> (\<forall>d \<in> set ds. d < unat base) \<and>
           digits_val (unat base) ds = number_of inbuf width \<and>
           binary_to_ascii outbuf inbuf base width = Ret (k, map ((!) h2a) ds @ drop k outbuf)"
proof -
  note b = base_facts [OF assms(1,2)]
  obtain number where n: "fetch_number inbuf width = Some (Ret number)" "unat number = number_of inbuf width"
    using fetch_number_Ret [OF assms(3,4)] by blast
  then have k: "k = converted_length_loop number base base 1"
    using assms(5) b by (simp add: converted_length_def)
  then have "unat number < unat base ^ k"
    using converted_length_loop_enough [of base base 1 number] b by (simp add: col_ok_def)
  with binary_to_ascii_loop_digits [OF b(1,2) assms(6)] obtain ds where
    ds: "length ds = k" "\<forall>d \<in> set ds. d < unat base" "digits_val (unat base) ds = unat number"
      "binary_to_ascii_loop k number base outbuf = Ret (map ((!) h2a) ds @ drop k outbuf)"
    by blast
  with n b assms(5) show ?thesis
    by (intro exI [of _ ds]) (auto simp: binary_to_ascii_def)
qed

lemma converted_length_loop_stop:
  "number < column \<Longrightarrow> converted_length_loop number base column pwr = pwr"
  by (subst converted_length_loop.simps) (simp add: Let_def)

lemma converted_length_loop_more:
  "\<not> number < column \<Longrightarrow> column < column * base \<Longrightarrow>
   converted_length_loop number base column pwr =
     converted_length_loop number base (column * base) (pwr + 1)"
  by (subst converted_length_loop.simps) (simp add: Let_def)

lemma converted_length_loop_wrap:
  "\<not> number < column \<Longrightarrow> \<not> column < column * base \<Longrightarrow>
   converted_length_loop number base column pwr = pwr + 1"
  by (subst converted_length_loop.simps) (simp add: Let_def)

theorem binary_to_ascii_value_witness:
  "\<exists>ds. length ds = 2 \<and> (\<forall>d \<in> set ds. d < 16) \<and> digits_val 16 ds = number_of [0xAB] 1 \<and>
     binary_to_ascii [0, 0, 0] [0xAB] 16 1 = Ret (2, map ((!) h2a) ds @ drop 2 [0, 0, 0])"
proof -
  have "converted_length [0xAB] 16 1 = Ret 2"
    by (simp add: converted_length_def fetch_number_def getUChar_def
        converted_length_loop_stop converted_length_loop_more)
  from binary_to_ascii_value [of 16 1 "[0xAB]", OF _ _ _ _ this, of "[0, 0, 0]"] show ?thesis by simp
qed

text \<open>
  When the number has an upper bound that is a power of the base below \<open>2 ^ 32\<close>,
  \<open>converted_length\<close> is the exact number of digits: the least positive one whose power of the base
  exceeds the number.
\<close>

theorem converted_length_least:
  assumes "2 \<le> base" and "base \<le> 16" and "width \<in> {1, 2, 4}" and "unat width \<le> length buf"
    and "number_of buf width < unat base ^ m" and "unat base ^ m < 2 ^ 32"
  shows "\<exists>p. converted_length buf base width = Ret p \<and> number_of buf width < unat base ^ p \<and>
           (p = 1 \<or> unat base ^ (p - 1) \<le> number_of buf width)"
proof -
  note b = base_facts [OF assms(1,2)]
  obtain number where n: "fetch_number buf width = Some (Ret number)" "unat number = number_of buf width"
    using fetch_number_Ret [OF assms(3,4)] by blast
  have "unat number < unat base ^ converted_length_loop number base base 1"
    using converted_length_loop_enough [of base base 1 number] b by (simp add: col_ok_def)
  with converted_length_loop_least [of base number m base 1] n b assms(5,6) show ?thesis
    by (auto simp: converted_length_def Let_def)
qed

theorem converted_length_least_witness:
  "\<exists>p. converted_length [200] 10 1 = Ret p \<and> number_of [200] 1 < 10 ^ p \<and>
     (p = 1 \<or> 10 ^ (p - 1) \<le> number_of [200] 1)"
  using converted_length_least [of 10 1 "[200]" 3] by (simp add: number_of_def be_val_def)

text \<open>
  Beyond that bound the count is wrong: the product \<open>column * base\<close> wraps to a number that is
  larger than \<open>column\<close> again, the loop goes on, and the ten-digit decimal number 4294967295 is given
  eleven digits, the first of them a zero.
\<close>

theorem converted_length_decimal:
  "converted_length [255, 255, 255, 255] 10 4 = Ret 11 \<and>
   number_of [255, 255, 255, 255] 4 < 10 ^ 10"
  by (simp add: converted_length_def fetch_number_def getULong_def number_of_def be_val_def
      converted_length_loop_stop converted_length_loop_more converted_length_loop_wrap)

lemma getUChar_putUChar: "putUChar obuf v = Ret b \<Longrightarrow> getUChar b = Ret (v AND 0xFF)"
proof -
  have "(ucast (ucast v :: byte) :: u32) = v AND mask 8"
    by (rule bit_word_eqI) (auto simp: bit_simps)
  moreover assume "putUChar obuf v = Ret b"
  ultimately show ?thesis
    by (auto simp: putUChar_def getUChar_def wr_eq_Ret_iff mask_numeral)
qed

lemma unat_word_of_int_16:
  assumes "- (2 ^ 15) \<le> s" and "s < 2 ^ 15"
  shows "int (unat (word_of_int s :: u16)) = (if s < 0 then s + 2 ^ 16 else s)"
proof -
  have "int (unat (word_of_int s :: u16)) = s mod 65536"
    by (simp add: unsigned_of_int take_bit_eq_mod)
  moreover have "s mod 65536 = s + 65536" if "s < 0"
    using that assms by (intro int_mod_pos_eq [of _ _ "- 1"]) auto
  ultimately show ?thesis using assms by auto
qed

lemma getShort_putShort:
  assumes "putShort obuf s = Ret b" and "- (2 ^ 15) \<le> s" and "s < 2 ^ 15"
  shows "getShort b = Ret (if s < 0 then s + 2 ^ 16 else s)"
proof -
  have "unat (word_of_int s :: u16) < 2 ^ LENGTH(16)" by (rule unsigned_less)
  then have "be_val (be_bytes 2 (unat (word_of_int s :: u16))) = unat (word_of_int s :: u16)"
    by (simp add: be_val_be_bytes)
  then show ?thesis using assms unat_word_of_int_16 [OF assms(2,3)]
    by (auto simp: putShort_def getShort_def split: if_splits)
qed

text \<open>
  C26. Every conversion reads back what its counterpart wrote, for all values of the type, but not
  \<open>getShort\<close>: what \<open>putShort\<close> wrote for a negative number comes back \<open>2 ^ 16\<close> too large, so
  it is not the inverse its declared type suggests.
\<close>

theorem integer_round_trips:
  "(putULong ob ul = Ret b1 \<longrightarrow> getULong b1 = Ret ul) \<and>
   (putLong ob l = Ret b2 \<longrightarrow> - (2 ^ 31) \<le> l \<longrightarrow> l < 2 ^ 31 \<longrightarrow> getLong b2 = Ret l) \<and>
   (putUShort ob us = Ret b3 \<longrightarrow> getUShort b3 = Ret (us AND 0xFFFF)) \<and>
   (putUChar ob uc = Ret b4 \<longrightarrow> getUChar b4 = Ret (uc AND 0xFF)) \<and>
   (putShort ob s = Ret b5 \<longrightarrow> - (2 ^ 15) \<le> s \<longrightarrow> s < 2 ^ 15 \<longrightarrow>
      getShort b5 = Ret (if s < 0 then s + 2 ^ 16 else s))"
  using getULong_putULong getLong_putLong getUShort_putUShort getUChar_putUChar getShort_putShort
  by blast

theorem integer_round_trips_witness:
  "getULong [1, 2, 3, 4] = Ret 0x01020304 \<and> getLong [255, 255, 255, 254] = Ret (- 2) \<and>
   getUShort [2, 3] = Ret (0x10203 AND 0xFFFF) \<and> getUChar [2] = Ret (0x102 AND 0xFF) \<and>
   getShort [255, 254] = Ret 65534"
proof -
  have "putULong [0, 0, 0, 0] 0x01020304 = Ret [1, 2, 3, 4]" "putLong [0, 0, 0, 0] (- 2) = Ret [255, 255, 255, 254]"
    "putUShort [0, 0] 0x10203 = Ret [2, 3]" "putUChar [0] 0x102 = Ret [2]" "putShort [0, 0] (- 2) = Ret [255, 254]"
    by (simp_all add: putULong_def putLong_def putUShort_def putUChar_def putShort_def be_bytes_numeral)
  then show ?thesis
    using integer_round_trips [of "[0, 0, 0, 0]" "0x01020304" "[1, 2, 3, 4]" "- 2" "[255, 255, 255, 254]" 0 "[]" 0 "[]" 0 "[]"]
      integer_round_trips [of "[0, 0]" 0 "[]" 0 "[]" "0x10203" "[2, 3]" 0 "[]" "- 2" "[255, 254]"]
      integer_round_trips [of "[0]" 0 "[]" 0 "[]" 0 "[]" "0x102" "[2]" 0 "[]"]
    by simp
qed

end
