(* ===== verification/Inet.thy ===== *)
theory Inet
  imports Prelude
begin

text \<open>
  The address arithmetic of \<open>common/inet.c\<close> on \<open>struct iaddr\<close> (\<open>includes/inet.h\<close>), which
  serves IPv4 (4 bytes) and IPv6 (16 bytes). The number an address denotes is \<open>av\<close>; the lemmas
  relate every byte loop of the source to arithmetic on that number.
\<close>

section \<open>Data\<close>

record iaddr =
  ia_len :: nat
  iabuf :: "byte list"

record iaddrmatch =
  m_addr :: iaddr
  m_mask :: iaddr

record iaddrcidrnet =
  lo_addr :: iaddr
  cidr_bits :: int

text \<open>
  The C array has always 16 elements; a well-formed address uses at most those. The bytes of an
  uninitialised local structure that a function does not set are written as 0 below; the code
  does not read them.
\<close>

definition wf_iaddr :: "iaddr \<Rightarrow> bool" where
  "wf_iaddr a \<longleftrightarrow> length (iabuf a) = 16 \<and> ia_len a \<le> 16"

definition iabytes :: "iaddr \<Rightarrow> byte list" where
  "iabytes a = take (ia_len a) (iabuf a)"

definition av :: "iaddr \<Rightarrow> nat" where
  "av a = be_val (iabytes a)"

text \<open>The loop \<open>for (i = 0; i < n; i++) dst[i] = f (a[i], b[i])\<close> over two byte arrays.\<close>

fun byte_loop ::
    "(byte \<Rightarrow> byte \<Rightarrow> byte) \<Rightarrow> nat \<Rightarrow> nat \<Rightarrow> byte list \<Rightarrow> byte list \<Rightarrow> byte list \<Rightarrow> byte list cres" where
  "byte_loop f 0 i a b dst = Ret dst"
| "byte_loop f (Suc k) i a b dst =
     cbind (rd a i) (\<lambda>x. cbind (rd b i) (\<lambda>y. cbind (wr dst i (f x y)) (\<lambda>dst.
       byte_loop f k (Suc i) a b dst)))"

definition uninit :: "byte list" where
  "uninit = replicate 16 0"

section \<open>Operations\<close>

definition subnet_number :: "iaddr \<Rightarrow> iaddr \<Rightarrow> iaddr cres" where
  "subnet_number addr msk =
     (if ia_len addr > 16 then Fatal
      else if ia_len addr \<noteq> ia_len msk then Fatal
      else cbind (byte_loop (AND) (ia_len addr) 0 (iabuf addr) (iabuf msk) uninit) (\<lambda>buf.
             Ret \<lparr>ia_len = ia_len addr, iabuf = buf\<rparr>))"

fun ip_addr_loop :: "nat \<Rightarrow> int \<Rightarrow> byte list \<Rightarrow> byte list \<Rightarrow> iaddr \<Rightarrow> iaddr cres" where
  "ip_addr_loop 0 j habuf msk rv = Ret rv"
| "ip_addr_loop (Suc i) j habuf msk rv =
     cbind (rdi msk (int i + j)) (\<lambda>m. cbind (rd habuf i) (\<lambda>h.
       if m \<noteq> 0 then
         (if h > m XOR 0xFF then Ret (rv\<lparr>ia_len := 0\<rparr>)
          else if list_ex (\<lambda>b. b \<noteq> 0) (take i habuf) then Ret (rv\<lparr>ia_len := 0\<rparr>)
          else cbind (rdi (iabuf rv) (int i + j)) (\<lambda>x.
                 cbind (wr (iabuf rv) (nat (int i + j)) (x OR h)) (\<lambda>buf. Ret (rv\<lparr>iabuf := buf\<rparr>))))
       else cbind (wr (iabuf rv) (nat (int i + j)) h) (\<lambda>buf.
              ip_addr_loop i j habuf msk (rv\<lparr>iabuf := buf\<rparr>))))"

definition ip_addr :: "iaddr \<Rightarrow> iaddr \<Rightarrow> u32 \<Rightarrow> iaddr cres" where
  "ip_addr subnet msk host_address =
     (if ia_len subnet > 16 then Fatal
      else if ia_len subnet \<noteq> ia_len msk then Fatal
      else let habuf = be_bytes 4 (unat host_address)
           in ip_addr_loop 4 (int (ia_len subnet) - 4) habuf (iabuf msk) subnet)"

definition broadcast_addr :: "iaddr \<Rightarrow> iaddr \<Rightarrow> iaddr cres" where
  "broadcast_addr subnet msk =
     (if ia_len subnet > 16 then Fatal
      else if ia_len subnet \<noteq> ia_len msk then Fatal
      else cbind (byte_loop (\<lambda>s m. s OR (NOT m AND 255)) (ia_len subnet) 0
                    (iabuf subnet) (iabuf msk) uninit) (\<lambda>buf.
             Ret \<lparr>ia_len = ia_len subnet, iabuf = buf\<rparr>))"

text \<open>With fewer than four bytes the source address of the \<open>memcpy\<close> is before the array.\<close>

definition host_addr :: "iaddr \<Rightarrow> iaddr \<Rightarrow> u32 cres" where
  "host_addr addr msk =
     (if ia_len addr > 16 then Fatal
      else if ia_len addr \<noteq> ia_len msk then Fatal
      else cbind (byte_loop (\<lambda>a m. a AND NOT m) (ia_len addr) 0 (iabuf addr) (iabuf msk) uninit)
             (\<lambda>buf. if ia_len addr < 4 then Undef
                    else Ret (word_of_nat (be_val (take 4 (drop (ia_len addr - 4) buf))))))"

definition addr_eq :: "iaddr \<Rightarrow> iaddr \<Rightarrow> bool cres" where
  "addr_eq addr1 addr2 =
     (if ia_len addr1 > 16 then Fatal
      else if ia_len addr1 \<noteq> ia_len addr2 then Ret False
      else Ret (iabytes addr1 = iabytes addr2))"

fun addr_match_loop :: "nat \<Rightarrow> nat \<Rightarrow> byte list \<Rightarrow> byte list \<Rightarrow> byte list \<Rightarrow> bool cres" where
  "addr_match_loop 0 i addr msk net = Ret True"
| "addr_match_loop (Suc k) i addr msk net =
     cbind (rd addr i) (\<lambda>a. cbind (rd msk i) (\<lambda>m. cbind (rd net i) (\<lambda>n.
       if a AND m \<noteq> n then Ret False else addr_match_loop k (Suc i) addr msk net)))"

definition addr_match :: "iaddr \<Rightarrow> iaddrmatch \<Rightarrow> bool cres" where
  "addr_match addr match =
     (if ia_len addr \<noteq> ia_len (m_addr match) then Ret False
      else addr_match_loop (ia_len addr) 0 (iabuf addr) (iabuf (m_mask match))
             (iabuf (m_addr match)))"

fun addr_cmp_loop :: "nat \<Rightarrow> nat \<Rightarrow> byte list \<Rightarrow> byte list \<Rightarrow> int cres" where
  "addr_cmp_loop 0 i a1 a2 = Ret 0"
| "addr_cmp_loop (Suc k) i a1 a2 =
     cbind (rd a1 i) (\<lambda>x. cbind (rd a2 i) (\<lambda>y.
       if x < y then Ret (-1) else if x > y then Ret 1 else addr_cmp_loop k (Suc i) a1 a2))"

definition addr_cmp :: "iaddr \<Rightarrow> iaddr \<Rightarrow> int cres" where
  "addr_cmp a1 a2 =
     (if ia_len a1 \<noteq> ia_len a2 then Ret 0
      else addr_cmp_loop (ia_len a1) 0 (iabuf a1) (iabuf a2))"

text \<open>
  \<open>addr_or\<close> and \<open>addr_and\<close> fill \<open>*result\<close> and return whether any byte of it is not zero; on
  addresses of different lengths they leave it alone.
\<close>

definition addr_bitop :: "(byte \<Rightarrow> byte \<Rightarrow> byte) \<Rightarrow> iaddr \<Rightarrow> iaddr \<Rightarrow> iaddr \<Rightarrow> (bool \<times> iaddr) cres" where
  "addr_bitop f result a1 a2 =
     (if ia_len a1 \<noteq> ia_len a2 then Ret (False, result)
      else cbind (byte_loop f (ia_len a1) 0 (iabuf a1) (iabuf a2) (iabuf result)) (\<lambda>buf.
             Ret (list_ex (\<lambda>b. b \<noteq> 0) (take (ia_len a1) buf),
                  \<lparr>ia_len = ia_len a1, iabuf = buf\<rparr>)))"

definition addr_or :: "iaddr \<Rightarrow> iaddr \<Rightarrow> iaddr \<Rightarrow> (bool \<times> iaddr) cres" where
  "addr_or result a1 a2 = addr_bitop (OR) result a1 a2"

definition addr_and :: "iaddr \<Rightarrow> iaddr \<Rightarrow> iaddr \<Rightarrow> (bool \<times> iaddr) cres" where
  "addr_and result a1 a2 = addr_bitop (AND) result a1 a2"

text \<open>The \<open>for\<close> loop over the low-order bytes, then the test on the partly masked byte, which is a
  (signed) \<open>char\<close> of the source: its right shift is arithmetic.\<close>

fun zero_bytes_loop :: "nat \<Rightarrow> nat \<Rightarrow> nat \<Rightarrow> byte list \<Rightarrow> bool cres" where
  "zero_bytes_loop 0 i n buf = Ret True"
| "zero_bytes_loop (Suc k) i n buf =
     cbind (rdi buf (int n - int i)) (\<lambda>b.
       if b \<noteq> 0 then Ret False else zero_bytes_loop k (Suc i) n buf)"

definition is_cidr_mask_valid :: "iaddr \<Rightarrow> int \<Rightarrow> bool cres" where
  "is_cidr_mask_valid addr bits =
     (if bits < 0 then Ret False
      else if bits > int (ia_len addr) * 8 then Ret False
      else let zero_bits = nat (int (ia_len addr) * 8 - bits); zero_bytes = zero_bits div 8
           in cbind (zero_bytes_loop zero_bytes 1 (ia_len addr) (iabuf addr)) (\<lambda>ok.
                if \<not> ok then Ret False
                else let shift_bits = zero_bits mod 8
                     in if shift_bits = 0 then Ret True
                        else cbind (rdi (iabuf addr) (int (ia_len addr) - int zero_bytes - 1)) (\<lambda>b.
                               Ret (push_bit shift_bits (drop_bit shift_bits (sint b)) = sint b))))"


section \<open>Ranges as lists of networks\<close>

text \<open>
  \<open>range2cidr\<close>: the state of its loop is the address \<open>addr\<close>, the count \<open>bit\<close>, the inverted
  netmask \<open>msk\<close>, the last \<open>end_addr\<close>, the list built so far and the number of \<open>dmalloc\<close> calls
  that will still succeed. When the carry leaves the first byte the source reads
  \<open>addr.iabuf[-1]\<close>; \<open>junk\<close> stands for the byte it finds there.
\<close>

record r2c =
  r_addr :: iaddr
  r_bit :: nat
  r_mask :: iaddr
  r_end :: iaddr
  r_nets :: "iaddrcidrnet list"
  r_mem :: nat

fun carry_loop :: "byte \<Rightarrow> nat \<Rightarrow> nat \<Rightarrow> byte list \<Rightarrow> (nat \<times> nat \<times> byte list) cres" where
  \<comment> \<open>the first number is \<open>ofs + 1\<close>\<close>
  "carry_loop junk 0 tmp buf = Ret (0, tmp, buf)"
| "carry_loop junk (Suc ofs) tmp buf =
     (if tmp > 255 then
        cbind (wr buf ofs (word_of_nat (tmp - 256))) (\<lambda>buf.
          cbind (if ofs = 0 then Ret junk else rd buf (ofs - 1)) (\<lambda>b.
            carry_loop junk ofs (unat b + 1) buf))
      else Ret (Suc ofs, tmp, buf))"

definition range2cidr_save ::
    "byte \<Rightarrow> r2c \<Rightarrow> int \<Rightarrow> byte \<Rightarrow> (r2c + isc_result \<times> iaddrcidrnet list) cres" where
  "range2cidr_save junk s ofs val =
     (if r_mem s = 0 then Ret (Inr (ISC_R_NOMEMORY, []))
      else let addr = r_addr s;
               net = \<lparr>lo_addr = addr, cidr_bits = int (ia_len addr) * 8 - int (r_bit s)\<rparr>;
               nets = net # r_nets s
           in cbind (if ofs < 0 then Ret junk else rdi (iabuf addr) ofs) (\<lambda>b.
              cbind (carry_loop junk (nat (ofs + 1)) (unat b + unat val) (iabuf addr))
                (\<lambda>(k, tmp, buf).
                  if k = 0 then Ret (Inr (ISC_R_SUCCESS, nets))
                  else cbind (wr buf (k - 1) (word_of_nat tmp)) (\<lambda>buf.
                         Ret (Inl (s\<lparr>r_addr := addr\<lparr>iabuf := buf\<rparr>, r_bit := 0,
                                    r_mask := (r_mask s)\<lparr>iabuf := replicate 16 0\<rparr>,
                                    r_end := (r_end s)\<lparr>iabuf := replicate 16 0\<rparr>,
                                    r_nets := nets, r_mem := r_mem s - 1\<rparr>))))))"

definition range2cidr_step ::
    "byte \<Rightarrow> iaddr \<Rightarrow> r2c \<Rightarrow> (r2c + isc_result \<times> iaddrcidrnet list) cres" where
  "range2cidr_step junk hi s =
     cbind (addr_cmp (r_addr s) hi) (\<lambda>c.
       if c > 0 then Ret (Inr (ISC_R_SUCCESS, r_nets s))
       else let ofs = int (ia_len (r_addr s)) - int (r_bit s div 8) - 1;
                val = (push_bit (r_bit s mod 8) 1 :: byte)
            in cbind (if ofs \<ge> 0
                      then cbind (rdi (iabuf (r_mask s)) ofs) (\<lambda>m.
                             cbind (wr (iabuf (r_mask s)) (nat ofs) (m OR val)) (\<lambda>buf.
                               Ret ((r_mask s)\<lparr>iabuf := buf\<rparr>)))
                      else Ret (r_mask s)) (\<lambda>msk.
               cbind (addr_or (r_end s) (r_addr s) msk) (\<lambda>(_, end_addr).
               cbind (addr_cmp end_addr hi) (\<lambda>e.
               cbind (addr_and \<lparr>ia_len = 0, iabuf = uninit\<rparr> (r_addr s) msk) (\<lambda>(nz, _).
                 if ofs < 0 \<or> e > 0 \<or> nz
                 then range2cidr_save junk (s\<lparr>r_mask := msk, r_end := end_addr\<rparr>) ofs val
                 else Ret (Inl (s\<lparr>r_mask := msk, r_end := end_addr, r_bit := r_bit s + 1\<rparr>)))))))"

partial_function (option) range2cidr_loop ::
    "byte \<Rightarrow> iaddr \<Rightarrow> r2c \<Rightarrow> (isc_result \<times> iaddrcidrnet list) cres option" where
  "range2cidr_loop junk hi s =
     (case range2cidr_step junk hi s of
        Undef \<Rightarrow> Some Undef
      | Fatal \<Rightarrow> Some Fatal
      | Ret r \<Rightarrow> (case r of Inl s' \<Rightarrow> range2cidr_loop junk hi s' | Inr v \<Rightarrow> Some (Ret v)))"

text \<open>
  The pointer arguments that the source checks for \<open>NULL\<close> are options: \<open>result\<close> is the list
  that \<open>*result\<close> points to (\<open>[]\<close> for a null \<open>*result\<close>).
\<close>

definition range2cidr ::
    "byte \<Rightarrow> nat \<Rightarrow> iaddrcidrnet list option \<Rightarrow> iaddr option \<Rightarrow> iaddr option \<Rightarrow>
     (isc_result \<times> iaddrcidrnet list) cres option" where
  "range2cidr junk mem result lo hi =
     (case result of
        None \<Rightarrow> Some (Ret (DHCP_R_INVALIDARG, []))
      | Some nets \<Rightarrow>
          if nets \<noteq> [] then Some (Ret (DHCP_R_INVALIDARG, nets))
          else (case (lo, hi) of
                  (Some lo, Some hi) \<Rightarrow>
                    if ia_len lo \<noteq> ia_len hi then Some (Ret (DHCP_R_INVALIDARG, []))
                    else (case addr_cmp lo hi of
                            Undef \<Rightarrow> Some Undef
                          | Fatal \<Rightarrow> Some Fatal
                          | Ret c \<Rightarrow>
                              let (lo, hi) = (if c > 0 then (hi, lo) else (lo, hi))
                              in range2cidr_loop junk hi
                                   \<lparr>r_addr = lo, r_bit = 0,
                                    r_mask = \<lparr>ia_len = ia_len lo, iabuf = replicate 16 0\<rparr>,
                                    r_end = \<lparr>ia_len = 0, iabuf = uninit\<rparr>,
                                    r_nets = [], r_mem = mem\<rparr>)
                | _ \<Rightarrow> Some (Ret (DHCP_R_INVALIDARG, []))))"

definition free_iaddrcidrnetlist ::
    "iaddrcidrnet list option \<Rightarrow> isc_result \<times> iaddrcidrnet list option" where
  "free_iaddrcidrnetlist result =
     (case result of
        None \<Rightarrow> (DHCP_R_INVALIDARG, None)
      | Some [] \<Rightarrow> (DHCP_R_INVALIDARG, Some [])
      | Some (p # ps) \<Rightarrow> (ISC_R_SUCCESS, Some []))"

text \<open>The loop of \<open>piaddrmask\<close> that finds the width of a netmask.\<close>

function piaddrmask_loop :: "byte list \<Rightarrow> int \<Rightarrow> int cres" where
  "piaddrmask_loop buf mw =
     (if mw > 0 then
        let oct = (mw - 1) div 8; b = (drop_bit (nat ((mw - 1) mod 8)) 0x80 :: byte)
        in cbind (rdi buf oct) (\<lambda>x.
             if x = 0 then piaddrmask_loop buf (mw - 8)
             else if x AND b \<noteq> 0 then Ret mw
             else piaddrmask_loop buf (mw - 1))
      else Ret mw)"
  by pat_completeness auto
termination
  by (relation "measure (\<lambda>(buf, mw). nat mw)") auto

definition piaddrmask_width :: "iaddr \<Rightarrow> iaddr \<Rightarrow> int cres" where
  "piaddrmask_width addr msk =
     (if ia_len addr \<noteq> 4 \<and> ia_len addr \<noteq> 16 then Fatal
      else if ia_len addr \<noteq> ia_len msk then Fatal
      else cbind (piaddrmask_loop (iabuf msk) (int (ia_len msk) * 8)) (\<lambda>mw.
             if mw < 0 then Fatal else Ret mw))"

section \<open>Byte loops as arithmetic\<close>

lemma byte_loop_Ret:
  assumes "i + k \<le> length a" and "i + k \<le> length b" and "i + k \<le> length dst"
  shows "byte_loop f k i a b dst =
           Ret (take i dst @ map2 f (take k (drop i a)) (take k (drop i b)) @ drop (i + k) dst)"
  using assms
proof (induction k arbitrary: i dst)
  case 0
  then show ?case by simp
next
  case (Suc k)
  let ?dst = "dst[i := f (a ! i) (b ! i)]"
  have "take (Suc i) ?dst = take i dst @ [f (a ! i) (b ! i)]"
    using Suc.prems by (simp add: take_Suc_conv_app_nth)
  moreover have "take (Suc k) (drop i a) = a ! i # take k (drop (Suc i) a)"
      "take (Suc k) (drop i b) = b ! i # take k (drop (Suc i) b)"
    using Suc.prems by (simp_all add: Cons_nth_drop_Suc [symmetric])
  ultimately show ?case
    using Suc.prems Suc.IH [of "Suc i" ?dst] by simp
qed

lemma byte_loop_0:
  assumes "n \<le> length a" and "n \<le> length b" and "n \<le> length dst"
  shows "byte_loop f n 0 a b dst = Ret (map2 f (take n a) (take n b) @ drop n dst)"
  using byte_loop_Ret [of 0 n a b dst f] assms by simp

lemma addr_cmp_loop_Ret:
  assumes "i + k \<le> length a" and "i + k \<le> length b"
  shows "addr_cmp_loop k i a b =
           Ret (sgn (int (be_val (take k (drop i a))) - int (be_val (take k (drop i b)))))"
  using assms
proof (induction k arbitrary: i)
  case 0
  then show ?case by simp
next
  case (Suc k)
  let ?xs = "take k (drop (Suc i) a)" and ?ys = "take k (drop (Suc i) b)"
  have eq: "take (Suc k) (drop i a) = a ! i # ?xs" "take (Suc k) (drop i b) = b ! i # ?ys"
    and len: "length ?xs = length ?ys"
    using Suc.prems by (simp_all add: Cons_nth_drop_Suc [symmetric])
  consider "a ! i < b ! i" | "b ! i < a ! i" | "a ! i = b ! i" by (cases "a ! i" "b ! i" rule: linorder_cases)
  then show ?case
  proof cases
    case 1
    with be_val_Cons_less [OF len, of "a ! i" "b ! i"] eq Suc.prems show ?thesis by simp
  next
    case 2
    with be_val_Cons_less [OF len [symmetric], of "b ! i" "a ! i"] eq Suc.prems show ?thesis
      by simp
  next
    case 3
    with eq len Suc.prems Suc.IH [of "Suc i"] show ?thesis by (simp add: be_val_Cons)
  qed
qed

lemma addr_cmp_Ret:
  assumes "wf_iaddr a1" and "wf_iaddr a2" and "ia_len a1 = ia_len a2"
  shows "addr_cmp a1 a2 = Ret (sgn (int (av a1) - int (av a2)))"
  using assms by (simp add: addr_cmp_def addr_cmp_loop_Ret wf_iaddr_def av_def iabytes_def)

lemma bit_be_val:
  "bit (be_val xs) i \<longleftrightarrow> i < 8 * length xs \<and> bit (xs ! (length xs - 1 - i div 8)) (i mod 8)"
proof (induction xs arbitrary: i rule: rev_induct)
  case Nil
  then show ?case by simp
next
  case (snoc x xs)
  have "be_val (xs @ [x]) = push_bit 8 (be_val xs) + unat x"
    by (simp add: be_val_append be_val_Cons push_bit_eq_mult)
  also have "\<dots> = push_bit 8 (be_val xs) OR unat x"
    by (rule disjunctive_add) (auto simp: bit_simps dest: bit_imp_le_length)
  finally have eq: "be_val (xs @ [x]) = push_bit 8 (be_val xs) OR unat x" .
  show ?case
  proof (cases "i < 8")
    case True
    then show ?thesis by (auto simp: eq bit_simps)
  next
    case False
    then obtain j where "i = j + 8" by (metis le_add_diff_inverse2 not_less)
    moreover have "(j + 8) div 8 = Suc (j div 8)" by simp
    ultimately show ?thesis using snoc.IH [of j]
      by (auto simp: eq bit_simps nth_append dest: bit_imp_le_length)
  qed
qed


lemma be_val_map2_or:
  "length xs = length ys \<Longrightarrow> be_val (map2 (OR) xs ys) = be_val xs OR be_val ys"
  by (rule bit_eqI) (auto simp: bit_be_val bit_or_iff)

lemma be_val_map2_and:
  "length xs = length ys \<Longrightarrow> be_val (map2 (AND) xs ys) = be_val xs AND be_val ys"
  by (rule bit_eqI) (auto simp: bit_be_val bit_and_iff)

lemma be_val_set_bit:
  assumes "b < 8 * length xs"
  shows "be_val (xs[length xs - 1 - b div 8 := xs ! (length xs - 1 - b div 8) OR push_bit (b mod 8) 1])
           = be_val xs OR 2 ^ b"
proof (rule bit_eqI)
  fix i
  let ?o = "length xs - 1 - b div 8"
  have o: "?o < length xs" using assms by auto
  show "bit (be_val (xs[?o := xs ! ?o OR push_bit (b mod 8) 1])) i \<longleftrightarrow> bit (be_val xs OR 2 ^ b) i"
  proof (cases "i < 8 * length xs")
    case True
    then have eq: "length xs - 1 - i div 8 = ?o \<longleftrightarrow> i div 8 = b div 8"
      using assms by (auto simp: less_mult_imp_div_less mult.commute)
    have "i = b \<longleftrightarrow> i div 8 = b div 8 \<and> i mod 8 = b mod 8"
      by (metis div_mult_mod_eq)
    with True eq o assms show ?thesis
      by (auto simp: bit_be_val bit_simps nth_list_update)
  next
    case False
    with assms show ?thesis by (auto simp: bit_be_val bit_simps)
  qed
qed

lemma list_ex_nonzero_iff: "list_ex (\<lambda>b. b \<noteq> 0) bs \<longleftrightarrow> be_val bs \<noteq> 0"
  by (induction bs) (auto simp: be_val_Cons unat_eq_0)

text \<open>The value in progress of a carry at byte \<open>k\<close> of an \<open>n\<close>-byte number.\<close>

definition carry_val :: "nat \<Rightarrow> nat \<Rightarrow> nat \<Rightarrow> byte list \<Rightarrow> nat" where
  "carry_val n k tmp buf =
     be_val (take k buf) * 256 ^ (n - k) + tmp * 256 ^ (n - Suc k) +
     be_val (take (n - Suc k) (drop (Suc k) buf))"

lemma take_split_nth:
  assumes "k < n" and "n \<le> length xs"
  shows "take n xs = take k xs @ xs ! k # take (n - Suc k) (drop (Suc k) xs)"
proof -
  have "take n xs = take k xs @ take (n - k) (drop k xs)"
    by (metis assms(1) le_add_diff_inverse less_imp_le take_add)
  moreover have "take (n - k) (drop k xs) = xs ! k # take (n - Suc k) (drop (Suc k) xs)"
    using assms by (simp add: Cons_nth_drop_Suc [symmetric] Suc_diff_Suc [symmetric] del: diff_Suc_Suc)
  ultimately show ?thesis by simp
qed

lemma be_val_carry:
  assumes "k < n" and "n \<le> length buf" and "tmp < 256"
  shows "be_val (take n (buf[k := word_of_nat tmp])) = carry_val n k tmp buf"
proof -
  have "256 * 256 ^ (n - Suc k) = (256 :: nat) ^ (n - k)"
    using assms(1) by (metis Suc_diff_Suc power_Suc)
  with assms take_split_nth [OF assms(1), of "buf[k := word_of_nat tmp]"] show ?thesis
    by (simp add: be_val_append be_val_Cons unat_byte_of_nat carry_val_def)
qed

lemma carry_val_step:
  assumes "Suc k < n" and "n \<le> length buf" and "256 \<le> tmp" and "tmp < 512"
  shows "carry_val n k (unat (buf ! k) + 1) (buf[Suc k := word_of_nat (tmp - 256)]) =
         carry_val n (Suc k) tmp buf"
proof -
  let ?r = "take (n - Suc (Suc k)) (drop (Suc (Suc k)) buf)"
  have p: "(256 :: nat) ^ (n - k) = 256 * 256 ^ (n - Suc k)"
      "(256 :: nat) ^ (n - Suc k) = 256 * 256 ^ (n - Suc (Suc k))"
    using assms(1) by (metis Suc_diff_Suc Suc_lessD power_Suc)+
  have t: "take (Suc k) buf = take k buf @ [buf ! k]"
    using assms(1,2) by (intro take_Suc_conv_app_nth) simp
  have d: "take (n - Suc k) (drop (Suc k) (buf[Suc k := word_of_nat (tmp - 256)])) =
             word_of_nat (tmp - 256) # ?r"
    using assms(1,2) take_split_nth [of 0 "n - Suc k" "drop (Suc k) (buf[Suc k := word_of_nat (tmp - 256)])"]
    by simp
  define e where "e = tmp - 256"
  with assms(3,4) have e: "tmp = e + 256" "e < 256" by auto
  have l: "min (length buf - Suc (Suc k)) (n - Suc (Suc k)) = n - Suc (Suc k)" using assms(1,2) by simp
  show ?thesis
    unfolding carry_val_def t d p
    by (simp add: be_val_append be_val_Cons unat_byte_of_nat e l algebra_simps)
qed

lemma carry_loop_Ret:
  assumes "k < n" and "n \<le> length buf" and "tmp < 512"
  shows "(carry_val n k tmp buf < 256 ^ n \<longrightarrow>
            (\<exists>k' tmp' buf'. carry_loop junk (Suc k) tmp buf = Ret (Suc k', tmp', buf') \<and> k' < n \<and>
               length buf' = length buf \<and>
               be_val (take n (buf'[k' := word_of_nat tmp'])) = carry_val n k tmp buf)) \<and>
         (256 ^ n \<le> carry_val n k tmp buf \<longrightarrow>
            (\<exists>tmp' buf'. carry_loop junk (Suc k) tmp buf = Ret (0, tmp', buf')))"
  using assms
proof (induction k arbitrary: tmp buf)
  case 0
  show ?case
  proof (cases "tmp < 256")
    case True
    with 0 have "carry_val n 0 tmp buf < 256 ^ n"
      using be_val_less [of "take n (buf[0 := word_of_nat tmp])"] be_val_carry [OF 0(1,2) True]
      by simp
    with 0 True show ?thesis by (auto intro!: exI be_val_carry)
  next
    case False
    with 0 have "256 * 256 ^ (n - 1) \<le> tmp * 256 ^ (n - 1)" by (intro mult_right_mono) auto
    moreover have "(256 :: nat) ^ n = 256 * 256 ^ (n - 1)" using 0(1) by (metis Suc_pred' power_Suc)
    ultimately have "256 ^ n \<le> carry_val n 0 tmp buf" by (simp add: carry_val_def trans_le_add1)
    moreover have "buf \<noteq> []" using 0 by auto
    ultimately show ?thesis using False by auto
  qed
next
  case (Suc k)
  show ?case
  proof (cases "tmp < 256")
    case True
    with Suc have "carry_val n (Suc k) tmp buf < 256 ^ n"
      using be_val_less [of "take n (buf[Suc k := word_of_nat tmp])"] be_val_carry [OF Suc.prems(1,2) True]
      by simp
    with Suc.prems True show ?thesis by (auto intro!: exI be_val_carry)
  next
    case False
    let ?buf = "buf[Suc k := word_of_nat (tmp - 256)]" and ?tmp = "unat (buf ! k) + 1"
    have "carry_val n k ?tmp ?buf = carry_val n (Suc k) tmp buf"
      using Suc.prems False by (intro carry_val_step) auto
    moreover have "?tmp < 512" using unat_byte_le [of "buf ! k"] by linarith
    ultimately show ?thesis
      using Suc.prems False Suc.IH [of ?buf ?tmp] by simp
  qed
qed

definition cidr_big :: "nat \<Rightarrow> nat \<Rightarrow> nat \<Rightarrow> nat \<Rightarrow> bool" where
  "cidr_big n h a k \<longleftrightarrow> k = 8 * n \<or> \<not> 2 ^ Suc k dvd a \<or> h + 1 < a + 2 ^ Suc k"

text \<open>
  A list of networks tiles the numbers from \<open>a\<close> to \<open>h\<close>: each starts where the one before ends,
  is aligned to its size, and is as large as alignment and range allow.
\<close>

fun cidr_tiles :: "nat \<Rightarrow> nat \<Rightarrow> nat \<Rightarrow> iaddrcidrnet list \<Rightarrow> bool" where
  "cidr_tiles n h a [] \<longleftrightarrow> a = h + 1"
| "cidr_tiles n h a (x # xs) \<longleftrightarrow>
     (let k = nat (8 * int n - cidr_bits x)
      in 0 \<le> cidr_bits x \<and> cidr_bits x \<le> 8 * int n \<and> wf_iaddr (lo_addr x) \<and> ia_len (lo_addr x) = n \<and>
         av (lo_addr x) = a \<and> 2 ^ k dvd a \<and> a + 2 ^ k \<le> h + 1 \<and> cidr_big n h a k \<and>
         cidr_tiles n h (a + 2 ^ k) xs)"

definition r2c_inv :: "iaddr \<Rightarrow> r2c \<Rightarrow> bool" where
  "r2c_inv hi s \<longleftrightarrow>
     wf_iaddr hi \<and> wf_iaddr (r_addr s) \<and> ia_len (r_addr s) = ia_len hi \<and>
     wf_iaddr (r_mask s) \<and> ia_len (r_mask s) = ia_len hi \<and> length (iabuf (r_end s)) = 16 \<and>
     av (r_mask s) = mask (r_bit s) \<and> r_bit s \<le> 8 * ia_len hi \<and>
     2 ^ r_bit s dvd av (r_addr s) \<and> av (r_addr s) \<le> av hi + 1 \<and>
     (av (r_addr s) \<le> av hi \<longrightarrow> av (r_addr s) + 2 ^ r_bit s \<le> av hi + 1)"

lemma addr_bitop_Ret:
  assumes "wf_iaddr a" and "wf_iaddr b" and "ia_len a = ia_len b" and "length (iabuf r) = 16"
  shows "\<exists>c. addr_bitop f r a b = Ret (be_val (iabytes c) \<noteq> 0, c) \<and> wf_iaddr c \<and>
           ia_len c = ia_len a \<and> iabytes c = map2 f (iabytes a) (iabytes b)"
  using assms
  by (simp add: addr_bitop_def byte_loop_0 wf_iaddr_def iabytes_def list_ex_nonzero_iff)

lemma length_iabytes: "wf_iaddr a \<Longrightarrow> length (iabytes a) = ia_len a"
  by (simp add: wf_iaddr_def iabytes_def)

lemma addr_or_Ret:
  assumes "wf_iaddr a" and "wf_iaddr b" and "ia_len a = ia_len b" and "length (iabuf r) = 16"
  shows "\<exists>c nz. addr_or r a b = Ret (nz, c) \<and> wf_iaddr c \<and> ia_len c = ia_len a \<and>
           av c = av a OR av b"
  using addr_bitop_Ret [OF assms, of "(OR)"] assms(1-3)
  by (auto simp: addr_or_def av_def be_val_map2_or length_iabytes)

lemma addr_and_Ret:
  assumes "wf_iaddr a" and "wf_iaddr b" and "ia_len a = ia_len b" and "length (iabuf r) = 16"
  shows "\<exists>c. addr_and r a b = Ret (av a AND av b \<noteq> 0, c)"
  using addr_bitop_Ret [OF assms, of "(AND)"] assms(1-3)
  by (auto simp: addr_and_def av_def be_val_map2_and length_iabytes)

lemma av_less: "wf_iaddr a \<Longrightarrow> av a < 256 ^ ia_len a"
  using be_val_less [of "iabytes a"] by (simp add: av_def length_iabytes)

lemma mask_widen:
  assumes "wf_iaddr m" and "av m = mask k" and "k < 8 * ia_len m"
  shows "\<exists>buf x. rdi (iabuf m) (int (ia_len m) - int (k div 8) - 1) = Ret x \<and>
           wr (iabuf m) (nat (int (ia_len m) - int (k div 8) - 1)) (x OR push_bit (k mod 8) 1) = Ret buf \<and>
           wf_iaddr (m\<lparr>iabuf := buf\<rparr>) \<and> av (m\<lparr>iabuf := buf\<rparr>) = mask (Suc k)"
proof -
  let ?n = "ia_len m" and ?o = "ia_len m - 1 - k div 8"
  have len: "length (iabuf m) = 16" "?n \<le> 16" using assms(1) by (simp_all add: wf_iaddr_def)
  have div: "k div 8 < ?n" using assms(3) by (simp add: less_mult_imp_div_less mult.commute)
  then have o: "nat (int ?n - int (k div 8) - 1) = ?o" "0 \<le> int ?n - int (k div 8) - 1" "?o < ?n"
    by auto
  let ?buf = "(iabuf m)[?o := iabuf m ! ?o OR push_bit (k mod 8) 1]"
  have "take ?n ?buf = (take ?n (iabuf m))[?o := take ?n (iabuf m) ! ?o OR push_bit (k mod 8) 1]"
    using o(3) by (simp add: take_update_swap)
  then have "be_val (take ?n ?buf) = be_val (take ?n (iabuf m)) OR 2 ^ k"
    using be_val_set_bit [of k "take ?n (iabuf m)"] assms(3) len by simp
  then have "av (m\<lparr>iabuf := ?buf\<rparr>) = mask k OR 2 ^ k"
    using assms(2) by (simp add: av_def iabytes_def)
  then have "av (m\<lparr>iabuf := ?buf\<rparr>) = mask (Suc k)" by (simp add: mask_Suc_exp or.commute)
  moreover have "ia_len m - Suc (k div 8) < 16" using o len by linarith
  ultimately show ?thesis using o len
    by (intro exI [of _ ?buf] exI [of _ "iabuf m ! ?o"]) (simp add: rdi_def wf_iaddr_def)
qed

lemma carry_val_add:
  assumes "n \<le> length buf" and "k < 8 * n"
  shows "carry_val n (n - 1 - k div 8) (unat (buf ! (n - 1 - k div 8)) + 2 ^ (k mod 8)) buf =
         be_val (take n buf) + 2 ^ k"
proof -
  let ?o = "n - 1 - k div 8"
  have div: "k div 8 < n" using assms(2) by (simp add: less_mult_imp_div_less mult.commute)
  then have o: "?o < n" "n - Suc ?o = k div 8" by auto
  have "(2 :: nat) ^ (k mod 8 + 8 * (k div 8)) = 2 ^ (k mod 8) * 256 ^ (k div 8)"
    unfolding power_add power_mult by simp
  moreover have "k mod 8 + 8 * (k div 8) = k" by simp
  ultimately have p: "(2 :: nat) ^ (k mod 8) * 256 ^ (k div 8) = 2 ^ k" by metis
  have "be_val (take n buf) = carry_val n ?o (unat (buf ! ?o)) buf"
    using be_val_carry [OF o(1) assms(1), of "unat (buf ! ?o)"] by simp
  with p show ?thesis unfolding carry_val_def o(2) by (simp only: add_mult_distrib)
qed

lemma unat_push_bit_1: "k < 8 \<Longrightarrow> unat (push_bit k 1 :: byte) = 2 ^ k"
proof -
  assume "k < 8"
  then have "(2 :: nat) ^ k < 2 ^ 8" by (intro power_strict_increasing) auto
  moreover have "(push_bit k 1 :: byte) = word_of_nat (2 ^ k)" by simp
  ultimately show ?thesis by (simp only: unat_byte_of_nat) simp
qed

lemma range2cidr_save_Ret:
  assumes wf: "wf_iaddr (r_addr s)" and k: "r_bit s \<le> 8 * n" and n: "ia_len (r_addr s) = n"
    and mem: "0 < r_mem s"
  defines "net \<equiv> \<lparr>lo_addr = r_addr s, cidr_bits = int n * 8 - int (r_bit s)\<rparr>"
    and "ofs \<equiv> int n - int (r_bit s div 8) - 1"
    and "a \<equiv> av (r_addr s) + 2 ^ r_bit s"
  shows "(256 ^ n \<le> a \<longrightarrow> range2cidr_save junk s ofs (push_bit (r_bit s mod 8) 1) =
             Ret (Inr (ISC_R_SUCCESS, net # r_nets s))) \<and>
         (a < 256 ^ n \<longrightarrow>
           (\<exists>buf. range2cidr_save junk s ofs (push_bit (r_bit s mod 8) 1) =
             Ret (Inl (s\<lparr>r_addr := (r_addr s)\<lparr>iabuf := buf\<rparr>, r_bit := 0,
                        r_mask := (r_mask s)\<lparr>iabuf := replicate 16 0\<rparr>,
                        r_end := (r_end s)\<lparr>iabuf := replicate 16 0\<rparr>,
                        r_nets := net # r_nets s, r_mem := r_mem s - 1\<rparr>)) \<and>
              wf_iaddr ((r_addr s)\<lparr>iabuf := buf\<rparr>) \<and> av ((r_addr s)\<lparr>iabuf := buf\<rparr>) = a))"
proof (cases "r_bit s = 8 * n")
  case True
  then have "a \<ge> 256 ^ n" by (simp add: a_def power_mult)
  with True mem n show ?thesis
    by (simp add: range2cidr_save_def net_def ofs_def)
next
  case False
  define k0 where "k0 = n - 1 - r_bit s div 8"
  let ?buf = "iabuf (r_addr s)"
  have lt: "r_bit s < 8 * n" using False k by simp
  then have div: "r_bit s div 8 < n" by (simp add: less_mult_imp_div_less mult.commute)
  then have o: "k0 < n" "nat (ofs + 1) = Suc k0" "\<not> ofs < 0" "nat ofs = k0"
    by (auto simp: ofs_def k0_def)
  have len: "length ?buf = 16" "n \<le> 16" using wf n by (simp_all add: wf_iaddr_def)
  let ?tmp = "unat (?buf ! k0) + 2 ^ (r_bit s mod 8)"
  have v: "unat (push_bit (r_bit s mod 8) 1 :: byte) = 2 ^ (r_bit s mod 8)"
    by (rule unat_push_bit_1) simp
  have "(2 :: nat) ^ (r_bit s mod 8) \<le> 255" using v by (metis unat_byte_le)
  with unat_byte_le [of "?buf ! k0"] have "?tmp < 512" by linarith
  moreover have "carry_val n k0 ?tmp ?buf = a"
    using carry_val_add [OF _ lt, of ?buf] len n by (simp add: a_def av_def iabytes_def k0_def)
  ultimately have c:
      "(a < 256 ^ n \<longrightarrow> (\<exists>k' tmp' buf'. carry_loop junk (Suc k0) ?tmp ?buf = Ret (Suc k', tmp', buf') \<and>
          k' < n \<and> length buf' = 16 \<and> be_val (take n (buf'[k' := word_of_nat tmp'])) = a)) \<and>
       (256 ^ n \<le> a \<longrightarrow> (\<exists>tmp' buf'. carry_loop junk (Suc k0) ?tmp ?buf = Ret (0, tmp', buf')))"
    using carry_loop_Ret [of k0 n ?buf ?tmp junk] o len by simp
  have save: "range2cidr_save junk s ofs (push_bit (r_bit s mod 8) 1) =
      cbind (carry_loop junk (Suc k0) ?tmp ?buf) (\<lambda>(k, tmp, buf).
        if k = 0 then Ret (Inr (ISC_R_SUCCESS, net # r_nets s))
        else cbind (wr buf (k - 1) (word_of_nat tmp)) (\<lambda>buf.
          Ret (Inl (s\<lparr>r_addr := (r_addr s)\<lparr>iabuf := buf\<rparr>, r_bit := 0,
                      r_mask := (r_mask s)\<lparr>iabuf := replicate 16 0\<rparr>,
                      r_end := (r_end s)\<lparr>iabuf := replicate 16 0\<rparr>,
                      r_nets := net # r_nets s, r_mem := r_mem s - 1\<rparr>))))"
  proof -
    have "rdi ?buf ofs = Ret (?buf ! k0)" using o len by (simp add: rdi_def)
    then show ?thesis
      unfolding range2cidr_save_def Let_def o(2) v n net_def using mem o(3)
      by (simp del: carry_loop.simps)
  qed
  show ?thesis
  proof (intro conjI impI)
    assume "256 ^ n \<le> a"
    with c save show "range2cidr_save junk s ofs (push_bit (r_bit s mod 8) 1) =
        Ret (Inr (ISC_R_SUCCESS, net # r_nets s))" by auto
  next
    assume "a < 256 ^ n"
    with c obtain k' tmp' buf' where
        r: "carry_loop junk (Suc k0) ?tmp ?buf = Ret (Suc k', tmp', buf')" "k' < n" "length buf' = 16"
           "be_val (take n (buf'[k' := word_of_nat tmp'])) = a" by blast
    then show "\<exists>buf. range2cidr_save junk s ofs (push_bit (r_bit s mod 8) 1) =
        Ret (Inl (s\<lparr>r_addr := (r_addr s)\<lparr>iabuf := buf\<rparr>, r_bit := 0,
                   r_mask := (r_mask s)\<lparr>iabuf := replicate 16 0\<rparr>,
                   r_end := (r_end s)\<lparr>iabuf := replicate 16 0\<rparr>,
                   r_nets := net # r_nets s, r_mem := r_mem s - 1\<rparr>)) \<and>
        wf_iaddr ((r_addr s)\<lparr>iabuf := buf\<rparr>) \<and> av ((r_addr s)\<lparr>iabuf := buf\<rparr>) = a"
      using save len n
      by (intro exI [of _ "buf'[k' := word_of_nat tmp']"]) (simp add: wf_iaddr_def av_def iabytes_def)
  qed
qed

lemma or_mask_aligned:
  assumes "2 ^ k dvd (a :: nat)"
  shows "a OR mask k = a + mask k"
proof -
  have "take_bit k a = 0" using assms by (simp add: take_bit_eq_mod dvd_eq_mod_eq_0)
  then have "\<not> bit a i \<or> \<not> bit (mask k :: nat) i" for i
    by (metis bit_mask_iff bit_take_bit_iff bit_0_eq bot_fun_def bot_bool_def)
  then show ?thesis by (simp add: disjunctive_add)
qed

lemma cidr_too_big_iff:
  fixes a h :: nat
  shows "h < (a OR mask k) \<or> a AND mask k \<noteq> 0 \<longleftrightarrow> \<not> 2 ^ k dvd a \<or> h + 1 < a + 2 ^ k"
proof (cases "2 ^ k dvd a")
  case True
  then have "a AND mask k = 0" by (simp add: dvd_eq_mod_eq_0 take_bit_eq_mask [symmetric] take_bit_eq_mod)
  moreover have "(mask k :: nat) = 2 ^ k - 1" by (simp add: mask_eq_exp_minus_1)
  ultimately show ?thesis using True or_mask_aligned [OF True]
    by (auto simp: less_diff_conv)
next
  case False
  then have "a AND mask k \<noteq> 0" by (simp add: dvd_eq_mod_eq_0 take_bit_eq_mask [symmetric] take_bit_eq_mod)
  with False show ?thesis by simp
qed

lemma range2cidr_step_cases:
  assumes inv: "r2c_inv hi s" and le: "av (r_addr s) \<le> av hi"
  defines "n \<equiv> ia_len hi"
  shows "\<exists>msk end_addr. wf_iaddr msk \<and> ia_len msk = n \<and> length (iabuf end_addr) = 16 \<and>
           (r_bit s < 8 * n \<longrightarrow> av msk = mask (Suc (r_bit s))) \<and>
           range2cidr_step junk hi s =
             (if cidr_big n (av hi) (av (r_addr s)) (r_bit s)
              then range2cidr_save junk (s\<lparr>r_mask := msk, r_end := end_addr\<rparr>)
                     (int n - int (r_bit s div 8) - 1) (push_bit (r_bit s mod 8) 1)
              else Ret (Inl (s\<lparr>r_mask := msk, r_end := end_addr, r_bit := r_bit s + 1\<rparr>)))"
proof -
  from inv have wf: "wf_iaddr hi" "wf_iaddr (r_addr s)" "wf_iaddr (r_mask s)"
      and len: "ia_len (r_addr s) = n" "ia_len (r_mask s) = n" "length (iabuf (r_end s)) = 16"
      and msk: "av (r_mask s) = mask (r_bit s)" and k: "r_bit s \<le> 8 * n"
    by (simp_all add: r2c_inv_def n_def)
  let ?ofs = "int n - int (r_bit s div 8) - 1"
  obtain m where m: "(if ?ofs \<ge> 0
        then cbind (rdi (iabuf (r_mask s)) ?ofs) (\<lambda>m.
               cbind (wr (iabuf (r_mask s)) (nat ?ofs) (m OR push_bit (r_bit s mod 8) 1)) (\<lambda>buf.
                 Ret ((r_mask s)\<lparr>iabuf := buf\<rparr>)))
        else Ret (r_mask s)) = Ret m"
      and mwf: "wf_iaddr m" "ia_len m = n" "r_bit s < 8 * n \<longrightarrow> av m = mask (Suc (r_bit s))"
      and ofs: "?ofs < 0 \<longleftrightarrow> r_bit s = 8 * n"
  proof (cases "r_bit s = 8 * n")
    case True
    then have "?ofs < 0" by simp
    with that [of "r_mask s"] True wf(3) len(2) show ?thesis by simp
  next
    case False
    with k have lt: "r_bit s < 8 * n" by simp
    then have "0 \<le> ?ofs" using less_mult_imp_div_less [of "r_bit s" n 8] by (simp add: mult.commute)
    with that mask_widen [OF wf(3) msk] lt False len(2) show ?thesis by fastforce
  qed
  obtain e nz where e: "addr_or (r_end s) (r_addr s) m = Ret (nz, e)" "wf_iaddr e" "ia_len e = n"
      "av e = av (r_addr s) OR av m"
    using addr_or_Ret [OF wf(2) mwf(1) _ len(3)] len(1) mwf(2) by auto
  obtain d where d: "addr_and \<lparr>ia_len = 0, iabuf = uninit\<rparr> (r_addr s) m =
      Ret (av (r_addr s) AND av m \<noteq> 0, d)"
    using addr_and_Ret [OF wf(2) mwf(1), of "\<lparr>ia_len = 0, iabuf = uninit\<rparr>"] len(1) mwf(2)
    by (auto simp: uninit_def)
  have c1: "addr_cmp (r_addr s) hi = Ret (sgn (int (av (r_addr s)) - int (av hi)))"
    and c2: "addr_cmp e hi = Ret (sgn (int (av e) - int (av hi)))"
    using wf len e by (simp_all add: addr_cmp_Ret n_def)
  have big: "(?ofs < 0 \<or> 0 < sgn (int (av e) - int (av hi)) \<or> av (r_addr s) AND av m \<noteq> 0) \<longleftrightarrow>
      cidr_big n (av hi) (av (r_addr s)) (r_bit s)"
    using cidr_too_big_iff [of "av hi" "av (r_addr s)" "Suc (r_bit s)"] e(4) mwf(3) k ofs
    by (cases "r_bit s = 8 * n") (auto simp: cidr_big_def)
  have "range2cidr_step junk hi s =
      (if ?ofs < 0 \<or> 0 < sgn (int (av e) - int (av hi)) \<or> av (r_addr s) AND av m \<noteq> 0
       then range2cidr_save junk (s\<lparr>r_mask := m, r_end := e\<rparr>) ?ofs (push_bit (r_bit s mod 8) 1)
       else Ret (Inl (s\<lparr>r_mask := m, r_end := e, r_bit := r_bit s + 1\<rparr>)))"
    unfolding range2cidr_step_def Let_def len(1) using le
    by (simp only: c1 cbind.simps m e(1) c2 d prod.case) simp
  with big mwf e(2,3) show ?thesis
    by (intro exI [of _ m] exI [of _ e]) (simp add: wf_iaddr_def)
qed

lemma av_zero: "av \<lparr>ia_len = n, iabuf = replicate 16 0\<rparr> = 0"
proof -
  have "be_val (replicate m 0) = 0" for m by (induction m) (auto simp: be_val_Cons)
  then show ?thesis by (simp add: av_def iabytes_def)
qed

lemma r2c_inv_grow:
  assumes "r2c_inv hi s" and "av (r_addr s) \<le> av hi"
    and "\<not> cidr_big (ia_len hi) (av hi) (av (r_addr s)) (r_bit s)"
    and "wf_iaddr msk" and "ia_len msk = ia_len hi" and "length (iabuf e) = 16"
    and "r_bit s < 8 * ia_len hi \<longrightarrow> av msk = mask (Suc (r_bit s))"
  shows "r2c_inv hi (s\<lparr>r_mask := msk, r_end := e, r_bit := r_bit s + 1\<rparr>)"
  using assms by (auto simp: r2c_inv_def cidr_big_def)

lemma r2c_inv_save:
  assumes "r2c_inv hi s" and "wf_iaddr ((r_addr s)\<lparr>iabuf := buf\<rparr>)"
    and "av ((r_addr s)\<lparr>iabuf := buf\<rparr>) = av (r_addr s) + 2 ^ r_bit s"
    and "av (r_addr s) \<le> av hi"
    and "wf_iaddr msk" and "ia_len msk = ia_len hi"
  shows "r2c_inv hi (s\<lparr>r_addr := (r_addr s)\<lparr>iabuf := buf\<rparr>, r_bit := 0,
           r_mask := msk\<lparr>iabuf := replicate 16 0\<rparr>, r_end := e\<lparr>iabuf := replicate 16 0\<rparr>,
           r_nets := nets, r_mem := mem\<rparr>)"
proof -
  have "av (msk\<lparr>iabuf := replicate 16 0\<rparr>) = 0"
    using av_zero [of "ia_len msk"] by (simp add: av_def iabytes_def)
  with assms show ?thesis by (auto simp: r2c_inv_def wf_iaddr_def)
qed

lemma av_le_top: "wf_iaddr hi \<Longrightarrow> av hi + 1 \<le> 256 ^ ia_len hi"
  using av_less [of hi] by simp

lemma iaddr_of_val:
  assumes "wf_iaddr x" and "v < 256 ^ ia_len x"
  shows "\<exists>buf. wf_iaddr (x\<lparr>iabuf := buf\<rparr>) \<and> av (x\<lparr>iabuf := buf\<rparr>) = v"
  using assms
  by (intro exI [of _ "be_bytes (ia_len x) v @ replicate (16 - ia_len x) 0"])
     (simp add: wf_iaddr_def av_def iabytes_def be_val_be_bytes)

text \<open>What saving a network does, with the allocation budget taken into account.\<close>

lemma range2cidr_save_next:
  assumes inv: "r2c_inv hi s" and le: "av (r_addr s) \<le> av hi"
    and msk: "wf_iaddr msk" "ia_len msk = ia_len hi"
    and lt: "av (r_addr s) + 2 ^ r_bit s < 256 ^ ia_len hi"
  shows "\<exists>s'. r2c_inv hi s' \<and> av (r_addr s') = av (r_addr s) + 2 ^ r_bit s \<and> r_bit s' = 0 \<and>
           r_nets s' = \<lparr>lo_addr = r_addr s, cidr_bits = int (ia_len hi) * 8 - int (r_bit s)\<rparr> # r_nets s \<and>
           r_mem s' = r_mem s - 1 \<and>
           range2cidr_save junk (s\<lparr>r_mask := msk, r_end := e\<rparr>)
             (int (ia_len hi) - int (r_bit s div 8) - 1) (push_bit (r_bit s mod 8) 1) =
           Ret (if r_mem s = 0 then Inr (ISC_R_NOMEMORY, []) else Inl s')"
proof -
  let ?next = "\<lambda>buf. s\<lparr>r_addr := (r_addr s)\<lparr>iabuf := buf\<rparr>, r_bit := 0,
       r_mask := msk\<lparr>iabuf := replicate 16 0\<rparr>, r_end := e\<lparr>iabuf := replicate 16 0\<rparr>,
       r_nets := \<lparr>lo_addr = r_addr s, cidr_bits = int (ia_len hi) * 8 - int (r_bit s)\<rparr> # r_nets s,
       r_mem := r_mem s - 1\<rparr>"
  let ?ok = "\<lambda>buf. wf_iaddr ((r_addr s)\<lparr>iabuf := buf\<rparr>) \<and>
       av ((r_addr s)\<lparr>iabuf := buf\<rparr>) = av (r_addr s) + 2 ^ r_bit s"
  have wf: "wf_iaddr (r_addr s)" "r_bit s \<le> 8 * ia_len hi" "ia_len (r_addr s) = ia_len hi"
    using inv by (simp_all add: r2c_inv_def)
  have "\<exists>buf. ?ok buf \<and> range2cidr_save junk (s\<lparr>r_mask := msk, r_end := e\<rparr>)
             (int (ia_len hi) - int (r_bit s div 8) - 1) (push_bit (r_bit s mod 8) 1) =
           Ret (if r_mem s = 0 then Inr (ISC_R_NOMEMORY, []) else Inl (?next buf))"
  proof (cases "r_mem s = 0")
    case True
    with iaddr_of_val [OF wf(1)] lt wf(3) show ?thesis by (simp add: range2cidr_save_def)
  next
    case False
    with range2cidr_save_Ret [of "s\<lparr>r_mask := msk, r_end := e\<rparr>" "ia_len hi" junk] wf lt
    show ?thesis by auto
  qed
  with r2c_inv_save [OF inv _ _ le msk] show ?thesis by (elim exE conjE, intro exI conjI) auto
qed

lemma range2cidr_save_top:
  assumes inv: "r2c_inv hi s" and ge: "256 ^ ia_len hi \<le> av (r_addr s) + 2 ^ r_bit s"
  shows "range2cidr_save junk (s\<lparr>r_mask := msk, r_end := e\<rparr>)
             (int (ia_len hi) - int (r_bit s div 8) - 1) (push_bit (r_bit s mod 8) 1) =
           Ret (Inr (if r_mem s = 0 then (ISC_R_NOMEMORY, [])
                     else (ISC_R_SUCCESS,
                           \<lparr>lo_addr = r_addr s, cidr_bits = int (ia_len hi) * 8 - int (r_bit s)\<rparr> # r_nets s)))"
proof (cases "r_mem s = 0")
  case True
  then show ?thesis by (simp add: range2cidr_save_def)
next
  case False
  with range2cidr_save_Ret [of "s\<lparr>r_mask := msk, r_end := e\<rparr>" "ia_len hi" junk] inv ge
  show ?thesis by (auto simp: r2c_inv_def)
qed

text \<open>What every round of the loop decreases.\<close>

definition r2c_measure :: "iaddr \<Rightarrow> r2c \<Rightarrow> nat" where
  "r2c_measure hi s =
     (av hi + 1 - av (r_addr s)) * (8 * ia_len hi + 1) + (8 * ia_len hi - r_bit s)"

lemma r2c_measure_grow:
  assumes "r_bit s < 8 * ia_len hi" and "av (r_addr s') = av (r_addr s)" and "r_bit s' = r_bit s + 1"
  shows "r2c_measure hi s' < r2c_measure hi s"
  unfolding r2c_measure_def assms(2,3) using assms(1) by (intro add_strict_left_mono) simp

lemma r2c_measure_save:
  assumes "av (r_addr s) \<le> av hi" and "av (r_addr s) < av (r_addr s')" and "r_bit s' = 0"
  shows "r2c_measure hi s' < r2c_measure hi s"
proof -
  have "(av hi + 1 - av (r_addr s') + 1) * (8 * ia_len hi + 1) \<le>
        (av hi + 1 - av (r_addr s)) * (8 * ia_len hi + 1)"
    using assms(1,2) by (intro mult_right_mono) auto
  then show ?thesis by (simp add: r2c_measure_def assms(3))
qed

lemma range2cidr_loop_tiles:
  assumes "r2c_inv hi s"
  shows "\<exists>news. cidr_tiles (ia_len hi) (av hi) (av (r_addr s)) news \<and>
           range2cidr_loop junk hi s =
             Some (Ret (if length news \<le> r_mem s then (ISC_R_SUCCESS, rev news @ r_nets s)
                        else (ISC_R_NOMEMORY, [])))"
  using assms
proof (induction "r2c_measure hi s" arbitrary: s rule: less_induct)
  case less
  note inv = less.prems
  let ?n = "ia_len hi" and ?h = "av hi" and ?a = "av (r_addr s)" and ?k = "r_bit s"
  have wf: "wf_iaddr hi" "wf_iaddr (r_addr s)" "ia_len (r_addr s) = ?n" "?k \<le> 8 * ?n"
      "?a \<le> ?h + 1" "2 ^ ?k dvd ?a"
    using inv by (simp_all add: r2c_inv_def)
  show ?case
  proof (cases "?a \<le> ?h")
    case False
    then have "range2cidr_step junk hi s = Ret (Inr (ISC_R_SUCCESS, r_nets s))"
      using wf by (simp add: range2cidr_step_def addr_cmp_Ret)
    with False wf(5) show ?thesis
      by (intro exI [of _ "[]"]) (simp add: range2cidr_loop.simps [of junk hi s])
  next
    case le: True
    with inv have room: "?a + 2 ^ ?k \<le> ?h + 1" by (simp add: r2c_inv_def)
    obtain msk e where st: "wf_iaddr msk" "ia_len msk = ?n" "length (iabuf e) = 16"
        "?k < 8 * ?n \<longrightarrow> av msk = mask (Suc ?k)"
        "range2cidr_step junk hi s =
           (if cidr_big ?n ?h ?a ?k
            then range2cidr_save junk (s\<lparr>r_mask := msk, r_end := e\<rparr>)
                   (int ?n - int (?k div 8) - 1) (push_bit (?k mod 8) 1)
            else Ret (Inl (s\<lparr>r_mask := msk, r_end := e, r_bit := ?k + 1\<rparr>)))"
      using range2cidr_step_cases [OF inv le] by blast
    show ?thesis
    proof (cases "cidr_big ?n ?h ?a ?k")
      case False
      let ?s = "s\<lparr>r_mask := msk, r_end := e, r_bit := ?k + 1\<rparr>"
      have "r2c_inv hi ?s" using r2c_inv_grow [OF inv le False st(1-3)] st(4) by simp
      moreover have "r2c_measure hi ?s < r2c_measure hi s"
        using False wf(4) by (intro r2c_measure_grow) (auto simp: cidr_big_def)
      ultimately obtain news where "cidr_tiles ?n ?h ?a news" "range2cidr_loop junk hi ?s =
          Some (Ret (if length news \<le> r_mem s then (ISC_R_SUCCESS, rev news @ r_nets s)
                     else (ISC_R_NOMEMORY, [])))"
        using less.hyps [of ?s] by auto
      with st(5) False show ?thesis
        by (intro exI [of _ news]) (simp add: range2cidr_loop.simps [of junk hi s])
    next
      case big: True
      let ?net = "\<lparr>lo_addr = r_addr s, cidr_bits = int ?n * 8 - int ?k\<rparr>"
      have tile: "cidr_tiles ?n ?h ?a (?net # xs)" if "cidr_tiles ?n ?h (?a + 2 ^ ?k) xs" for xs
        using that wf big room by (simp add: Let_def)
      show ?thesis
      proof (cases "256 ^ ?n \<le> ?a + 2 ^ ?k")
        case True
        with room av_le_top [OF wf(1)] have "?a + 2 ^ ?k = ?h + 1" by simp
        with tile [of "[]"] st(5) big range2cidr_save_top [OF inv True, where junk = junk and msk = msk and e = e] show ?thesis
          by (intro exI [of _ "[?net]"]) (simp add: range2cidr_loop.simps [of junk hi s])
      next
        case False
        then obtain s' where s': "r2c_inv hi s'" "av (r_addr s') = ?a + 2 ^ ?k" "r_bit s' = 0"
            "r_nets s' = ?net # r_nets s" "r_mem s' = r_mem s - 1"
            "range2cidr_step junk hi s =
               Ret (if r_mem s = 0 then Inr (ISC_R_NOMEMORY, []) else Inl s')"
          using range2cidr_save_next [OF inv le st(1,2), of junk e] st(5) big by auto
        have "r2c_measure hi s' < r2c_measure hi s"
          using le s'(2,3) by (intro r2c_measure_save) auto
        then obtain news where "cidr_tiles ?n ?h (?a + 2 ^ ?k) news"
            "range2cidr_loop junk hi s' =
               Some (Ret (if length news \<le> r_mem s - 1 then (ISC_R_SUCCESS, rev news @ ?net # r_nets s)
                          else (ISC_R_NOMEMORY, [])))"
          using less.hyps [of s'] s' by auto
        with tile s'(6) show ?thesis
          by (intro exI [of _ "?net # news"]) (auto simp: range2cidr_loop.simps [of junk hi s])
      qed
    qed
  qed
qed

subsection \<open>Aligned addresses\<close>

lemma pow2_dvd_iff_bits: "2 ^ k dvd (v :: nat) \<longleftrightarrow> (\<forall>i < k. \<not> bit v i)"
proof -
  have "2 ^ k dvd v \<longleftrightarrow> take_bit k v = 0" by (simp add: take_bit_eq_mod dvd_eq_mod_eq_0)
  also have "\<dots> \<longleftrightarrow> (\<forall>i. bit (take_bit k v) i \<longleftrightarrow> bit (0 :: nat) i)" by (simp add: bit_eq_iff)
  finally show ?thesis by (auto simp: bit_take_bit_iff)
qed

lemma byte_eq_0_iff_bits: "(b :: byte) = 0 \<longleftrightarrow> (\<forall>i < 8. \<not> bit b i)"
  by (auto simp: bit_eq_iff dest: bit_imp_le_length)

lemma zero_bytes_loop_Ret:
  assumes "i + q \<le> n + 1" and "1 \<le> i" and "n \<le> length buf"
  shows "zero_bytes_loop q i n buf = Ret (\<forall>j \<in> {i..<i + q}. buf ! (n - j) = 0)"
  using assms
proof (induction q arbitrary: i)
  case 0
  then show ?case by simp
next
  case (Suc q)
  have "rdi buf (int n - int i) = Ret (buf ! (n - i))"
    using Suc.prems by (simp add: rdi_def nat_diff_distrib)
  moreover have "{i..<i + Suc q} = insert i {Suc i..<Suc i + q}" by auto
  ultimately show ?case using Suc.prems Suc.IH [of "Suc i"] by simp
qed

lemma low_bits_clear_iff:
  "push_bit r (drop_bit r (sint (b :: byte))) = sint b \<longleftrightarrow> (\<forall>i < r. \<not> bit b i)" if "r < 8"
proof -
  have "push_bit r (drop_bit r (sint b)) = sint b \<longleftrightarrow> take_bit r (sint b) = 0"
    by (metis add_cancel_right_right bits_ident)
  also have "\<dots> \<longleftrightarrow> (\<forall>i. bit (take_bit r (sint b)) i \<longleftrightarrow> bit (0 :: int) i)" by (simp add: bit_eq_iff)
  also have "\<dots> \<longleftrightarrow> (\<forall>i < r. \<not> bit b i)"
    using that by (auto simp: bit_take_bit_iff bit_simps min_def)
  finally show ?thesis using that by auto
qed


lemma low_bytes_clear_iff:
  assumes "q \<le> length xs"
  shows "(\<forall>j \<in> {1..<1 + q}. xs ! (length xs - j) = 0) \<longleftrightarrow> (\<forall>i < 8 * q. \<not> bit (be_val xs) i)"
proof (intro iffI ballI allI impI)
  fix i assume z0: "\<forall>j \<in> {1..<1 + q}. xs ! (length xs - j) = 0" and i: "i < 8 * q"
  then have "Suc (i div 8) \<in> {1..<1 + q}" by auto
  with z0 have "xs ! (length xs - Suc (i div 8)) = 0" by blast
  then show "\<not> bit (be_val xs) i" by (simp add: bit_be_val)
next
  fix j assume nb: "\<forall>i < 8 * q. \<not> bit (be_val xs) i" and j: "j \<in> {1..<1 + q}"
  have "\<not> bit (xs ! (length xs - j)) i" if "i < 8" for i
  proof -
    let ?i = "8 * (j - 1) + i"
    have d: "?i div 8 = j - 1" "?i mod 8 = i" using that by simp_all
    have "?i < 8 * q" "?i < 8 * length xs" using j that assms by auto
    with nb bit_be_val [of xs ?i] d j show ?thesis by auto
  qed
  then show "xs ! (length xs - j) = 0" by (simp add: byte_eq_0_iff_bits)
qed

lemma next_byte_clear_iff:
  assumes "8 * q + r \<le> 8 * length xs" and "r < 8"
  shows "(\<forall>i < r. \<not> bit (xs ! (length xs - 1 - q)) i) \<longleftrightarrow>
         (\<forall>i. 8 * q \<le> i \<and> i < 8 * q + r \<longrightarrow> \<not> bit (be_val xs) i)"
proof (intro iffI allI impI)
  fix i assume c: "\<forall>i < r. \<not> bit (xs ! (length xs - 1 - q)) i" and i: "8 * q \<le> i \<and> i < 8 * q + r"
  define t where "t = i - 8 * q"
  have t: "i = 8 * q + t" "t < r" using i by (auto simp: t_def)
  then have "i div 8 = q" "i mod 8 = t" using assms(2) by auto
  with c t(2) show "\<not> bit (be_val xs) i" by (simp add: bit_be_val)
next
  fix i assume "\<forall>i. 8 * q \<le> i \<and> i < 8 * q + r \<longrightarrow> \<not> bit (be_val xs) i" and "i < r"
  then have "\<not> bit (be_val xs) (8 * q + i)" by simp
  with assms \<open>i < r\<close> show "\<not> bit (xs ! (length xs - 1 - q)) i" by (simp add: bit_be_val)
qed

lemma is_cidr_mask_valid_Ret:
  assumes wf: "wf_iaddr a"
  shows "is_cidr_mask_valid a bits =
           Ret (0 \<le> bits \<and> bits \<le> 8 * int (ia_len a) \<and> 2 ^ nat (8 * int (ia_len a) - bits) dvd av a)"
proof (cases "0 \<le> bits \<and> bits \<le> 8 * int (ia_len a)")
  case False
  then show ?thesis by (auto simp: is_cidr_mask_valid_def)
next
  case True
  let ?n = "ia_len a" and ?xs = "iabytes a"
  define z where "z = nat (int ?n * 8 - bits)"
  define q r where "q = z div 8" and "r = z mod 8"
  have len: "length (iabuf a) = 16" "?n \<le> 16" "length ?xs = ?n"
    using wf by (simp_all add: wf_iaddr_def length_iabytes)
  have z: "z = 8 * q + r" "r < 8" "8 * q + r \<le> 8 * ?n" using True by (auto simp: q_def r_def z_def)
  then have q: "q \<le> ?n" "0 < r \<Longrightarrow> q < ?n" by auto
  have nth: "iabuf a ! i = ?xs ! i" if "i < ?n" for i using that by (simp add: iabytes_def)
  have "zero_bytes_loop q 1 ?n (iabuf a) = Ret (\<forall>j \<in> {1..<1 + q}. iabuf a ! (?n - j) = 0)"
    using q len by (intro zero_bytes_loop_Ret) auto
  also have "(\<forall>j \<in> {1..<1 + q}. iabuf a ! (?n - j) = 0) \<longleftrightarrow> (\<forall>j \<in> {1..<1 + q}. ?xs ! (?n - j) = 0)"
    using q(1) by (intro ball_cong) (auto simp: nth)
  finally have zl: "zero_bytes_loop q 1 ?n (iabuf a) = Ret (\<forall>i < 8 * q. \<not> bit (av a) i)"
    using low_bytes_clear_iff [of q ?xs] q(1) len(3) by (simp add: av_def)
  have rdq: "rdi (iabuf a) (int ?n - int q - 1) = Ret (?xs ! (?n - 1 - q))" if "0 < r"
    using q(2) [OF that] len nth [of "?n - 1 - q"] by (simp add: rdi_def nat_diff_distrib)
  have nb: "(\<forall>i < r. \<not> bit (?xs ! (?n - 1 - q)) i) \<longleftrightarrow>
      (\<forall>i. 8 * q \<le> i \<and> i < z \<longrightarrow> \<not> bit (av a) i)"
    using next_byte_clear_iff [of q r ?xs] z len(3) by (simp add: av_def)
  have "2 ^ z dvd av a \<longleftrightarrow>
      (\<forall>i < 8 * q. \<not> bit (av a) i) \<and> (\<forall>i. 8 * q \<le> i \<and> i < z \<longrightarrow> \<not> bit (av a) i)"
    unfolding pow2_dvd_iff_bits z(1) by (metis linorder_not_less trans_less_add1)
  moreover have "is_cidr_mask_valid a bits =
      Ret ((\<forall>i < 8 * q. \<not> bit (av a) i) \<and> (\<forall>i. 8 * q \<le> i \<and> i < z \<longrightarrow> \<not> bit (av a) i))"
    unfolding is_cidr_mask_valid_def Let_def z_def [symmetric] q_def [symmetric] r_def [symmetric] zl
      nb [symmetric]
    using True z(2) by (simp add: mult.commute rdq low_bits_clear_iff)
  ultimately have "is_cidr_mask_valid a bits = Ret (2 ^ z dvd av a)" by simp
  with True show ?thesis by (simp add: z_def mult.commute)
qed

subsection \<open>The networks of a range\<close>

definition cidr_set :: "iaddrcidrnet \<Rightarrow> nat set" where
  "cidr_set x = {av (lo_addr x) ..< av (lo_addr x) + 2 ^ nat (8 * int (ia_len (lo_addr x)) - cidr_bits x)}"

lemma cidr_tiles_range: "cidr_tiles n h a xs \<Longrightarrow> a \<le> h + 1"
  by (cases xs) (auto simp: Let_def)

lemma cidr_tiles_Union: "cidr_tiles n h a xs \<Longrightarrow> (\<Union>x \<in> set xs. cidr_set x) = {a..h}"
proof (induction xs arbitrary: a)
  case Nil
  then show ?case by simp
next
  case (Cons x xs)
  let ?b = "a + 2 ^ nat (8 * int n - cidr_bits x)"
  have x: "cidr_set x = {a..<?b}" and xs: "cidr_tiles n h ?b xs" and le: "?b \<le> h + 1"
    using Cons.prems by (auto simp: Let_def cidr_set_def)
  have "{a..<?b} \<union> {?b..h} = {a..h}" using le by auto
  with x Cons.IH [OF xs] show ?case by simp
qed

lemma cidr_tiles_disjoint:
  "cidr_tiles n h a xs \<Longrightarrow> sorted_wrt (\<lambda>x y. cidr_set x \<inter> cidr_set y = {}) xs"
proof (induction xs arbitrary: a)
  case Nil
  then show ?case by simp
next
  case (Cons x xs)
  let ?b = "a + 2 ^ nat (8 * int n - cidr_bits x)"
  have x: "cidr_set x = {a..<?b}" and xs: "cidr_tiles n h ?b xs"
    using Cons.prems by (auto simp: Let_def cidr_set_def)
  from cidr_tiles_Union [OF xs] have "cidr_set y \<subseteq> {?b..h}" if "y \<in> set xs" for y
    using that by blast
  then have "\<forall>y \<in> set xs. cidr_set x \<inter> cidr_set y = {}" unfolding x by fastforce
  with Cons.IH [OF xs] show ?case by simp
qed

lemma cidr_tiles_valid:
  "cidr_tiles n h a xs \<Longrightarrow> x \<in> set xs \<Longrightarrow> is_cidr_mask_valid (lo_addr x) (cidr_bits x) = Ret True"
  by (induction xs arbitrary: a) (auto simp: Let_def is_cidr_mask_valid_Ret)

lemma range2cidr_tiles:
  assumes "wf_iaddr lo" and "wf_iaddr hi" and "ia_len lo = ia_len hi"
  shows "\<exists>news. cidr_tiles (ia_len lo) (max (av lo) (av hi)) (min (av lo) (av hi)) news \<and>
           range2cidr junk mem (Some []) (Some lo) (Some hi) =
             Some (Ret (if length news \<le> mem then (ISC_R_SUCCESS, rev news) else (ISC_R_NOMEMORY, [])))"
proof -
  define l h where "l = (if av lo \<le> av hi then lo else hi)" and "h = (if av lo \<le> av hi then hi else lo)"
  let ?s = "\<lparr>r_addr = l, r_bit = 0, r_mask = \<lparr>ia_len = ia_len l, iabuf = replicate 16 0\<rparr>,
             r_end = \<lparr>ia_len = 0, iabuf = uninit\<rparr>, r_nets = [], r_mem = mem\<rparr>"
  have lh: "wf_iaddr l" "wf_iaddr h" "ia_len l = ia_len lo" "ia_len h = ia_len lo" "av l \<le> av h"
      "av l = min (av lo) (av hi)" "av h = max (av lo) (av hi)"
    using assms by (auto simp: l_def h_def)
  have "range2cidr junk mem (Some []) (Some lo) (Some hi) = range2cidr_loop junk h ?s"
    using assms by (simp add: range2cidr_def addr_cmp_Ret l_def h_def)
  moreover have "r2c_inv h ?s"
    using lh by (auto simp: r2c_inv_def av_zero wf_iaddr_def uninit_def)
  ultimately show ?thesis using range2cidr_loop_tiles [of h ?s junk] lh by auto
qed

text \<open>
  C23. For two well-formed addresses of one length, given in either order, \<open>range2cidr\<close> returns (it
  terminates), whatever byte it finds in front of the address buffer: with enough memory the
  networks it lists are valid, pairwise disjoint and together exactly the addresses from the
  smaller to the larger one; when an allocation fails it returns \<open>ISC_R_NOMEMORY\<close> and no list.
\<close>

theorem range2cidr_partition:
  assumes "wf_iaddr lo" and "wf_iaddr hi" and "ia_len lo = ia_len hi"
  shows "\<exists>nets. range2cidr junk mem (Some []) (Some lo) (Some hi) =
             Some (Ret (if length nets \<le> mem then (ISC_R_SUCCESS, nets) else (ISC_R_NOMEMORY, []))) \<and>
           (\<Union>x \<in> set nets. cidr_set x) = {min (av lo) (av hi)..max (av lo) (av hi)} \<and>
           sorted_wrt (\<lambda>x y. cidr_set x \<inter> cidr_set y = {}) nets \<and>
           (\<forall>x \<in> set nets. is_cidr_mask_valid (lo_addr x) (cidr_bits x) = Ret True)"
proof -
  let ?n = "ia_len lo" and ?h = "max (av lo) (av hi)" and ?l = "min (av lo) (av hi)"
  obtain news where news: "cidr_tiles ?n ?h ?l news"
      "range2cidr junk mem (Some []) (Some lo) (Some hi) =
         Some (Ret (if length news \<le> mem then (ISC_R_SUCCESS, rev news) else (ISC_R_NOMEMORY, [])))"
    using range2cidr_tiles [OF assms] by blast
  have "sorted_wrt (\<lambda>x y. cidr_set x \<inter> cidr_set y = {}) (rev news)"
    using cidr_tiles_disjoint [OF news(1)] by (simp add: sorted_wrt_rev Int_commute)
  with news cidr_tiles_Union [OF news(1)] cidr_tiles_valid [OF news(1)] show ?thesis
    by (intro exI [of _ "rev news"]) simp
qed

definition ip4 :: "byte \<Rightarrow> byte \<Rightarrow> byte \<Rightarrow> byte \<Rightarrow> iaddr" where
  "ip4 a b c d = \<lparr>ia_len = 4, iabuf = [a, b, c, d] @ replicate 12 0\<rparr>"

lemma wf_ip4 [simp]: "wf_iaddr (ip4 a b c d)" "ia_len (ip4 a b c d) = 4"
  by (simp_all add: ip4_def wf_iaddr_def)

theorem range2cidr_partition_witness:
  "\<exists>nets. range2cidr 0 10 (Some []) (Some (ip4 10 0 0 0)) (Some (ip4 10 0 1 127)) =
       Some (Ret (if length nets \<le> 10 then (ISC_R_SUCCESS, nets) else (ISC_R_NOMEMORY, []))) \<and>
     (\<Union>x \<in> set nets. cidr_set x) =
       {min (av (ip4 10 0 0 0)) (av (ip4 10 0 1 127))..max (av (ip4 10 0 0 0)) (av (ip4 10 0 1 127))} \<and>
     sorted_wrt (\<lambda>x y. cidr_set x \<inter> cidr_set y = {}) nets \<and>
     (\<forall>x \<in> set nets. is_cidr_mask_valid (lo_addr x) (cidr_bits x) = Ret True)"
  by (rule range2cidr_partition) simp_all

text \<open>
  On well-formed addresses of one length \<open>addr_cmp\<close> is the comparison of the numbers they
  denote: -1, 0 or 1 as the first is smaller, equal or larger.
\<close>

theorem addr_cmp_order:
  assumes "wf_iaddr a1" and "wf_iaddr a2" and "ia_len a1 = ia_len a2"
  shows "addr_cmp a1 a2 = Ret (if av a1 < av a2 then -1 else if av a1 = av a2 then 0 else 1)"
  using addr_cmp_Ret [OF assms] by simp

theorem addr_cmp_order_witness:
  "addr_cmp (ip4 10 0 0 1) (ip4 9 255 0 1) =
     Ret (if av (ip4 10 0 0 1) < av (ip4 9 255 0 1) then -1
          else if av (ip4 10 0 0 1) = av (ip4 9 255 0 1) then 0 else 1)"
  by (rule addr_cmp_order) simp_all

text \<open>
  \<open>is_cidr_mask_valid\<close> accepts a prefix length exactly when it is between 0 and the number of
  bits of the address and all bits behind the prefix are zero.
\<close>

theorem is_cidr_mask_valid_iff:
  assumes "wf_iaddr a"
  shows "is_cidr_mask_valid a bits =
           Ret (0 \<le> bits \<and> bits \<le> 8 * int (ia_len a) \<and>
                (\<forall>i. int i < 8 * int (ia_len a) - bits \<longrightarrow> \<not> bit (av a) i))"
  using is_cidr_mask_valid_Ret [OF assms] by (auto simp: pow2_dvd_iff_bits zless_nat_eq_int_zless)

theorem is_cidr_mask_valid_iff_witness:
  "is_cidr_mask_valid (ip4 127 0 0 1) 8 =
     Ret (0 \<le> (8::int) \<and> 8 \<le> 8 * int (ia_len (ip4 127 0 0 1)) \<and>
          (\<forall>i. int i < 8 * int (ia_len (ip4 127 0 0 1)) - 8 \<longrightarrow> \<not> bit (av (ip4 127 0 0 1)) i))"
  by (rule is_cidr_mask_valid_iff) simp
subsection \<open>Splitting an address and putting it together again\<close>

lemma wf_iaddr_bytes: "wf_iaddr a \<Longrightarrow> iabuf a = iabytes a @ drop (ia_len a) (iabuf a)"
  by (simp add: iabytes_def)

lemma subnet_number_Ret:
  assumes "wf_iaddr a" and "wf_iaddr m" and "ia_len a = ia_len m"
  shows "\<exists>s. subnet_number a m = Ret s \<and> wf_iaddr s \<and> ia_len s = ia_len a \<and>
           iabytes s = map2 (AND) (iabytes a) (iabytes m)"
  using assms
  by (simp add: subnet_number_def byte_loop_0 wf_iaddr_def iabytes_def uninit_def)

lemma broadcast_addr_Ret:
  assumes "wf_iaddr a" and "wf_iaddr m" and "ia_len a = ia_len m"
  shows "\<exists>s. broadcast_addr a m = Ret s \<and> wf_iaddr s \<and> ia_len s = ia_len a \<and>
           iabytes s = map2 (\<lambda>x y. x OR NOT y) (iabytes a) (iabytes m)"
  using assms
  by (simp add: broadcast_addr_def byte_loop_0 wf_iaddr_def iabytes_def uninit_def)

lemma host_addr_Ret:
  assumes "wf_iaddr a" and "wf_iaddr m" and "ia_len a = ia_len m" and "4 \<le> ia_len a"
  shows "host_addr a m =
           Ret (word_of_nat (be_val (drop (ia_len a - 4) (map2 (\<lambda>x y. x AND NOT y) (iabytes a) (iabytes m)))))"
  using assms
  by (simp add: host_addr_def byte_loop_0 wf_iaddr_def iabytes_def uninit_def)

lemma addr_match_loop_Ret:
  assumes "i + k \<le> length a" and "i + k \<le> length m" and "i + k \<le> length n"
  shows "addr_match_loop k i a m n =
           Ret (map2 (AND) (take k (drop i a)) (take k (drop i m)) = take k (drop i n))"
  using assms
proof (induction k arbitrary: i)
  case 0
  then show ?case by simp
next
  case (Suc k)
  have "take (Suc k) (drop i xs) = xs ! i # take k (drop (Suc i) xs)" if "i < length xs" for xs :: "byte list"
    using that by (simp add: Cons_nth_drop_Suc [symmetric])
  with Suc.prems Suc.IH [of "Suc i"] show ?case by simp
qed

text \<open>
  C24. An address matches a network and mask exactly when its network number under that mask is the
  network, for well-formed addresses of one length.
\<close>

theorem addr_match_iff_subnet:
  assumes "wf_iaddr a" and "wf_iaddr (m_addr mt)" and "wf_iaddr (m_mask mt)"
    and "ia_len a = ia_len (m_addr mt)" and "ia_len a = ia_len (m_mask mt)"
  shows "\<exists>s. subnet_number a (m_mask mt) = Ret s \<and>
           addr_match a mt = addr_eq s (m_addr mt)"
proof -
  obtain s where s: "subnet_number a (m_mask mt) = Ret s" "wf_iaddr s" "ia_len s = ia_len a"
      "iabytes s = map2 (AND) (iabytes a) (iabytes (m_mask mt))"
    using subnet_number_Ret [OF assms(1,3,5)] by blast
  have "addr_match a mt = Ret (iabytes s = iabytes (m_addr mt))"
    using assms unfolding s(4)
    by (simp add: addr_match_def addr_match_loop_Ret wf_iaddr_def iabytes_def)
  with s assms show ?thesis by (auto simp: addr_eq_def wf_iaddr_def)
qed

theorem addr_match_iff_subnet_witness:
  "\<exists>s. subnet_number (ip4 10 1 2 3) (ip4 255 255 0 0) = Ret s \<and>
     addr_match (ip4 10 1 2 3) \<lparr>m_addr = ip4 10 1 0 0, m_mask = ip4 255 255 0 0\<rparr> = addr_eq s (ip4 10 1 0 0)"
  using addr_match_iff_subnet [of "ip4 10 1 2 3" "\<lparr>m_addr = ip4 10 1 0 0, m_mask = ip4 255 255 0 0\<rparr>"]
  by simp

text \<open>
  The netmasks the byte loop of \<open>ip_addr\<close> is made for: bytes of ones, one byte of any value, bytes
  of zeros.
\<close>

definition byte_mask :: "byte list \<Rightarrow> bool" where
  "byte_mask ms \<longleftrightarrow> (\<forall>i j. i < j \<and> j < length ms \<longrightarrow> ms ! i = 255 \<or> ms ! j = 0)"

lemma and_not_le: "x AND NOT m \<le> m XOR (255 :: byte)"
  using word_and_le1 [of x "NOT m"] by (simp add: byte_xor_255 and.commute)

lemma ip_addr_loop_recompose:
  assumes lens: "length xs = n" "length ms = n" "n \<le> length mb" "take n mb = ms"
    and contig: "byte_mask ms"
    and i: "i \<le> 4" "4 \<le> n"
    and h: "\<And>t. t < 4 \<Longrightarrow> habuf ! t = xs ! (n - 4 + t) AND NOT (ms ! (n - 4 + t))" "length habuf = 4"
    and outer: "\<And>t. t < n - 4 \<Longrightarrow> ms ! t = 255"
    and rv: "length (iabuf rv) = 16" "ia_len rv = n" "n \<le> 16"
      "\<And>t. t < n - 4 + i \<Longrightarrow> iabuf rv ! t = xs ! t AND ms ! t"
      "\<And>t. n - 4 + i \<le> t \<Longrightarrow> t < n \<Longrightarrow> iabuf rv ! t = xs ! t"
      "\<And>t. n - 4 + i \<le> t \<Longrightarrow> t < n \<Longrightarrow> ms ! t = 0"
  shows "\<exists>r. ip_addr_loop i (int n - 4) habuf mb rv = Ret r \<and> ia_len r = n \<and> length (iabuf r) = 16 \<and>
           take n (iabuf r) = xs"
  using i rv
proof (induction i arbitrary: rv)
  case 0
  have "iabuf rv ! t = xs ! t" if "t < n" for t
  proof (cases "t < n - 4")
    case True
    with 0(6) [of t] outer [of t] show ?thesis by simp
  next
    case False
    with 0(7) [of t] that show ?thesis by simp
  qed
  then have "take n (iabuf rv) = xs" using lens(1) 0(3,5) by (intro nth_equalityI) simp_all
  then show ?case using 0(3,4) by simp
next
  case (Suc i)
  let ?p = "n - 4 + i"
  note i4 = Suc.prems(1) and n4 = Suc.prems(2) and rl = Suc.prems(3) and rn = Suc.prems(4,5)
    and below = Suc.prems(6) and above = Suc.prems(7) and zeros = Suc.prems(8)
  have p: "nat (int i + (int n - 4)) = ?p" "0 \<le> int i + (int n - 4)" "?p < n" "i < 4" "?p < 16"
    using i4 n4 rn by auto
  have mb: "mb ! ?p = ms ! ?p" using p(3) lens by auto
  have rdm: "rdi mb (int i + (int n - 4)) = Ret (ms ! ?p)" using p lens mb by (simp add: rdi_def)
  let ?rv = "rv\<lparr>iabuf := (iabuf rv)[?p := xs ! ?p]\<rparr>"
  show ?case
  proof (cases "ms ! ?p = 0")
    case True
    have hx: "habuf ! i = xs ! ?p" using h(1) [OF p(4)] True by simp
    have "\<exists>r. ip_addr_loop i (int n - 4) habuf mb ?rv = Ret r \<and> ia_len r = n \<and> length (iabuf r) = 16 \<and>
           take n (iabuf r) = xs"
    proof (rule Suc.IH)
      show "iabuf ?rv ! t = xs ! t AND ms ! t" if "t < ?p" for t
        using below [of t] that by simp
      show "iabuf ?rv ! t = xs ! t" if "?p \<le> t" "t < n" for t
        using rl p(5) above [of t] that by (cases "t = ?p") simp_all
      show "ms ! t = 0" if "?p \<le> t" "t < n" for t
        using zeros [of t] True that by (cases "t = ?p") simp_all
    qed (use i4 n4 rl rn in simp_all)
    with rl p rdm hx True h(2) show ?thesis by simp
  next
    case False
    have ff: "ms ! t = 255" if "t < ?p" for t
      using contig [unfolded byte_mask_def, rule_format, of t ?p] False that p(3) lens(2) by simp
    have e: "list_ex (\<lambda>b. b \<noteq> 0) (take i habuf) = False"
      using h ff p(4) by (auto simp: list_ex_iff in_set_conv_nth)
    have g: "\<not> habuf ! i > ms ! ?p XOR 255" using h(1) [OF p(4)] and_not_le by (simp add: not_less)
    have rdr: "rdi (iabuf rv) (int i + (int n - 4)) = Ret (iabuf rv ! ?p)" using p rl by (simp add: rdi_def)
    have "iabuf rv ! ?p OR habuf ! i = xs ! ?p"
      using below [of ?p] h(1) [OF p(4)] byte_split by simp
    with e g rdr have "ip_addr_loop (Suc i) (int n - 4) habuf mb rv = Ret ?rv"
      using rl p rdm False h(2) by simp
    moreover have "iabuf ?rv ! t = xs ! t" if "t < n" for t
    proof -
      consider "t < ?p" | "t = ?p" | "?p < t" by linarith
      then show ?thesis
        using below [of t] above [of t] ff [of t] rl p(5) that by cases simp_all
    qed
    then have "take n (iabuf ?rv) = xs" using lens(1) rl rn(2) by (intro nth_equalityI) simp_all
    ultimately show ?thesis using rl rn by simp
  qed
qed

text \<open>
  Taking an address apart with \<open>subnet_number\<close> and \<open>host_addr\<close> and combining the parts with
  \<open>ip_addr\<close> gives the address back, for a netmask of ones followed by zeros (byte-wise) that leaves
  at most 32 host bits.
\<close>

theorem ip_addr_recompose:
  assumes "wf_iaddr a" and "wf_iaddr m" and "ia_len a = ia_len m" and "4 \<le> ia_len a"
    and "byte_mask (iabytes m)" and "\<forall>t < ia_len a - 4. iabytes m ! t = 255"
  shows "\<exists>s h r. subnet_number a m = Ret s \<and> host_addr a m = Ret h \<and> ip_addr s m h = Ret r \<and>
           addr_eq r a = Ret True"
proof -
  let ?n = "ia_len a" and ?xs = "iabytes a" and ?ms = "iabytes m"
  obtain s where s: "subnet_number a m = Ret s" "wf_iaddr s" "ia_len s = ?n"
      "iabytes s = map2 (AND) ?xs ?ms"
    using subnet_number_Ret [OF assms(1-3)] by blast
  let ?hs = "drop (?n - 4) (map2 (\<lambda>x y. x AND NOT y) ?xs ?ms)"
  define h :: u32 where "h = word_of_nat (be_val ?hs)"
  have len: "length ?xs = ?n" "length ?ms = ?n" "length ?hs = 4" "?n \<le> 16" "length (iabuf s) = 16"
      "length (iabuf m) = 16" "take ?n (iabuf m) = ?ms" "take ?n (iabuf s) = map2 (AND) ?xs ?ms"
    using assms(1-4) s(2,3,4) by (auto simp: length_iabytes wf_iaddr_def) (simp_all add: iabytes_def)
  have "be_val ?hs < 2 ^ 32" using be_val_less [of ?hs] len(3) by simp
  then have "unat h = be_val ?hs" by (simp add: h_def unat_of_nat)
  then have hb: "be_bytes 4 (unat h) = ?hs" using be_bytes_be_val [of ?hs] len(3) by simp
  have nths: "iabuf s ! t = ?xs ! t AND ?ms ! t" if "t < ?n" for t
    using arg_cong [OF len(8), of "\<lambda>l. l ! t"] that len(1,2) by simp
  obtain r where r: "ip_addr_loop 4 (int ?n - 4) ?hs (iabuf m) s = Ret r" "ia_len r = ?n"
      "take ?n (iabuf r) = ?xs"
  proof -
    have "\<exists>r. ip_addr_loop 4 (int ?n - 4) ?hs (iabuf m) s = Ret r \<and> ia_len r = ?n \<and>
        length (iabuf r) = 16 \<and> take ?n (iabuf r) = ?xs"
  proof (rule ip_addr_loop_recompose [where ms = ?ms])
    show "?hs ! t = ?xs ! (?n - 4 + t) AND NOT (?ms ! (?n - 4 + t))" if "t < 4" for t
      using that len(1,2) assms(4) by simp
    show "iabuf s ! t = ?xs ! t AND ?ms ! t" if "t < ?n - 4 + 4" for t
      using that nths assms(4) by simp
  qed (use assms(4-6) len s(3) in simp_all)
    with that show ?thesis by blast
  qed
  moreover have "ip_addr s m h = ip_addr_loop 4 (int ?n - 4) ?hs (iabuf m) s"
    using s(3) assms(3) len(4) hb by (simp add: ip_addr_def)
  ultimately have "ip_addr s m h = Ret r" by simp
  moreover have "addr_eq r a = Ret True"
    using r(2,3) len(4) by (simp add: addr_eq_def iabytes_def)
  ultimately show ?thesis using s(1) host_addr_Ret [OF assms(1-4), folded h_def] by blast
qed

theorem ip_addr_recompose_witness:
  "\<exists>s h r. subnet_number (ip4 192 168 7 9) (ip4 255 255 252 0) = Ret s \<and>
     host_addr (ip4 192 168 7 9) (ip4 255 255 252 0) = Ret h \<and> ip_addr s (ip4 255 255 252 0) h = Ret r \<and>
     addr_eq r (ip4 192 168 7 9) = Ret True"
  by (rule ip_addr_recompose)
     (auto simp: byte_mask_def iabytes_def ip4_def wf_iaddr_def less_Suc_eq numeral_eq_Suc)

subsection \<open>The width of a netmask\<close>

declare piaddrmask_loop.simps [simp del]

lemma mask_bit_index:
  fixes w n :: nat
  assumes "0 < w" and "w \<le> 8 * n"
  shows "(8 * n - w) div 8 = n - 1 - (w - 1) div 8" "(8 * n - w) mod 8 = 7 - (w - 1) mod 8"
proof -
  define q r where "q = (w - 1) div 8" and "r = (w - 1) mod 8"
  have w: "w = 8 * q + r + 1" "r < 8" using assms(1) by (auto simp: q_def r_def)
  then have eq: "8 * n - w = 8 * (n - 1 - q) + (7 - r)" using assms(2) by auto
  have "(8 * m + (7 - r)) div 8 = m" "(8 * m + (7 - r)) mod 8 = 7 - r" for m by auto
  then show "(8 * n - w) div 8 = n - 1 - (w - 1) div 8" "(8 * n - w) mod 8 = 7 - (w - 1) mod 8"
    unfolding eq q_def r_def by auto
qed

lemma and_top_bit_iff:
  assumes "r < 8"
  shows "x AND drop_bit r 0x80 \<noteq> 0 \<longleftrightarrow> bit (x :: byte) (7 - r)"
proof -
  have "(drop_bit r 0x80 :: byte) = push_bit (7 - r) 1"
  proof (rule bit_word_eqI)
    fix i assume "i < LENGTH(8)"
    have "(0x80 :: byte) = push_bit 7 1" by simp
    then show "bit (drop_bit r 0x80 :: byte) i \<longleftrightarrow> bit (push_bit (7 - r) 1 :: byte) i"
      using assms by (auto simp only: bit_drop_bit_eq bit_push_bit_iff bit_1_iff comp_apply)
        (auto simp: bit_simps)
  qed
  then show ?thesis by (simp only: bit_iff_and_push_bit_not_eq_0)
qed

lemma div_pred0: "n mod 8 = 0 \<Longrightarrow> 0 < n \<Longrightarrow> n = 8 * ((n - 1) div 8 + (1 :: nat))"
proof (cases n)
  case (Suc m)
  moreover assume "n mod 8 = 0"
  ultimately have "m mod 8 = 7" by (auto simp: mod_Suc split: if_splits)
  then have "m = 8 * (m div 8) + 7" using mult_div_mod_eq [of 8 m] by linarith
  with Suc show ?thesis by simp
qed simp

lemma div_pred: "n mod 8 \<noteq> 0 \<Longrightarrow> (n - 1) div 8 = n div (8 :: nat)"
  by (cases n) (auto simp: div_Suc)

lemma piaddrmask_loop_Ret:
  assumes "length xs = n" and "take n buf = xs" and "n \<le> length buf" and "w \<le> 8 * n"
    and "\<forall>i < 8 * n - w. \<not> bit (be_val xs) i"
    and "w mod 8 \<noteq> 0 \<longrightarrow> xs ! ((w - 1) div 8) \<noteq> 0"
  shows "\<exists>v. piaddrmask_loop buf (int w) = Ret (int v) \<and> v \<le> 8 * n \<and>
           (\<forall>i < 8 * n - v. \<not> bit (be_val xs) i) \<and> (0 < v \<longrightarrow> bit (be_val xs) (8 * n - v))"
  using assms(4-6)
proof (induction w rule: less_induct)
  case (less w)
  show ?case
  proof (cases "w = 0")
    case True
    with less.prems show ?thesis by (simp add: piaddrmask_loop.simps)
  next
    case False
    define k r where k_def: "k = (w - 1) div 8" and r_def: "r = (w - 1) mod 8"
    have o: "k < n" using less.prems(1) False by (auto simp: k_def)
    have idx: "(int w - 1) div 8 = int k" "nat ((int w - 1) mod 8) = r"
    proof -
      have w1: "int w - 1 = int (w - 1)" using False by simp
      show "(int w - 1) div 8 = int k" unfolding w1 k_def by (simp add: zdiv_int)
      have "int (w - 1) mod 8 = int r" unfolding r_def by (simp add: zmod_int)
      then show "nat ((int w - 1) mod 8) = r" unfolding w1 by (metis nat_int)
    qed
    have rdo: "rdi buf (int k) = Ret (xs ! k)"
      using o assms(2,3) by (auto simp: rdi_def)
    have tb: "bit (be_val xs) (8 * n - w) \<longleftrightarrow> bit (xs ! k) (7 - r)"
      using mask_bit_index [of w n, folded k_def r_def] False less.prems(1) o assms(1)
      by (simp add: bit_be_val)
    have and0: "xs ! k AND drop_bit r 0x80 \<noteq> 0 \<longleftrightarrow> bit (xs ! k) (7 - r)"
      by (rule and_top_bit_iff) (simp add: r_def)
    have loop: "piaddrmask_loop buf (int w) =
        (if xs ! k = 0 then piaddrmask_loop buf (int w - 8)
         else if bit (be_val xs) (8 * n - w) then Ret (int w)
         else piaddrmask_loop buf (int w - 1))"
      using False by (subst piaddrmask_loop.simps) (simp add: Let_def idx rdo and0 tb)
    consider "xs ! k = 0" | "xs ! k \<noteq> 0" "bit (be_val xs) (8 * n - w)"
      | "xs ! k \<noteq> 0" "\<not> bit (be_val xs) (8 * n - w)" by blast
    then show ?thesis
    proof cases
      case 1
      with less.prems(3) have "w mod 8 = 0" by (auto simp: k_def)
      with False have w8: "w = 8 * (k + 1)" unfolding k_def by (intro div_pred0) auto
      have "\<not> bit (be_val xs) i" if "i < 8 * n - (w - 8)" for i
      proof (cases "i < 8 * n - w")
        case True
        with less.prems(2) show ?thesis by simp
      next
        case outer: False
        with that w8 o have "i div 8 = n - 1 - k" by auto
        with 1 o assms(1) show ?thesis by (simp add: bit_be_val)
      qed
      moreover have "int w - 8 = int (w - 8)" using w8 by simp
      ultimately show ?thesis using less.IH [of "w - 8"] loop 1 w8 less.prems(1) by auto
    next
      case 2
      with loop less.prems show ?thesis by (intro exI [of _ w]) simp
    next
      case 3
      have "\<not> bit (be_val xs) i" if "i < 8 * n - (w - 1)" for i
        using that less.prems(2) 3(2) by (cases "i < 8 * n - w") (auto simp: not_less le_eq_less_or_eq)
      moreover have "xs ! ((w - 1 - 1) div 8) \<noteq> 0" if "(w - 1) mod 8 \<noteq> 0"
      proof -
        have "(w - 1 - 1) div 8 = k" using div_pred [OF that] by (simp add: k_def)
        with 3(1) show ?thesis by simp
      qed
      moreover have "int w - 1 = int (w - 1)" using False by simp
      ultimately show ?thesis using less.IH [of "w - 1"] loop 3 False less.prems(1) by auto
    qed
  qed
qed

text \<open>
  For an IPv4 or IPv6 address and a mask of the same length the width search of \<open>piaddrmask\<close>
  terminates inside the mask, never reaches its \<^emph>\<open>impossible condition\<close>, and finds the position of
  the last one bit of the mask (0 when there is none): for a netmask, its prefix length.
\<close>

theorem piaddrmask_width_last_bit:
  assumes "wf_iaddr m" and "ia_len a = ia_len m" and "ia_len a = 4 \<or> ia_len a = 16"
  shows "\<exists>w. piaddrmask_width a m = Ret (int w) \<and> w \<le> 8 * ia_len m \<and>
           (\<forall>i < 8 * ia_len m - w. \<not> bit (av m) i) \<and> (0 < w \<longrightarrow> bit (av m) (8 * ia_len m - w))"
proof -
  have "\<exists>w. piaddrmask_loop (iabuf m) (int (8 * ia_len m)) = Ret (int w) \<and> w \<le> 8 * ia_len m \<and>
      (\<forall>i < 8 * ia_len m - w. \<not> bit (be_val (iabytes m)) i) \<and>
      (0 < w \<longrightarrow> bit (be_val (iabytes m)) (8 * ia_len m - w))"
    using assms(1) by (intro piaddrmask_loop_Ret) (auto simp: wf_iaddr_def iabytes_def)
  with assms(2,3) show ?thesis by (auto simp: piaddrmask_width_def av_def mult.commute)
qed

theorem piaddrmask_width_last_bit_witness:
  "\<exists>w. piaddrmask_width (ip4 10 0 0 0) (ip4 255 255 252 0) = Ret (int w) \<and>
     w \<le> 8 * ia_len (ip4 255 255 252 0) \<and>
     (\<forall>i < 8 * ia_len (ip4 255 255 252 0) - w. \<not> bit (av (ip4 255 255 252 0)) i) \<and>
     (0 < w \<longrightarrow> bit (av (ip4 255 255 252 0)) (8 * ia_len (ip4 255 255 252 0) - w))"
  by (rule piaddrmask_width_last_bit) simp_all

end
