(* ===== verification/NsName.thy ===== *)
theory NsName
  imports Prelude
begin

text \<open>
  Domain names (\<open>common/ns_name.c\<close>): the conversions between the wire format of RFC 1035 and text,
  unpacking of compressed names, packing with compression pointers, and the comma-separated lists
  that the expression evaluator builds from them. A source pointer is the list of the bytes that
  follow it, or an index into the message; a destination that is only appended to is the list of
  the bytes written so far, with the size of the buffer beside it. The result \<open>-1\<close> is \<open>None\<close>, and
  \<open>errno\<close>, which only says why, is not modelled.
\<close>

section \<open>Characters\<close>

definition NS_CMPRSFLGS :: byte where
  "NS_CMPRSFLGS = 0xC0"

definition MAXCDNAME :: nat where
  "MAXCDNAME = 255"

definition special :: "byte \<Rightarrow> bool" where
  "special ch \<longleftrightarrow> ch \<in> {0x22, 0x2E, 0x3B, 0x5C, 0x40, 0x24}"

definition printable :: "byte \<Rightarrow> bool" where
  "printable ch \<longleftrightarrow> ch > 0x20 \<and> ch < 0x7F"

definition mklower :: "byte \<Rightarrow> byte" where
  "mklower ch = (if ch \<ge> 0x41 \<and> ch \<le> 0x5A then ch + 0x20 else ch)"

text \<open>\<open>digits [d]\<close>, and the position \<open>strchr (digits, c)\<close> finds for a \<open>c\<close> that is not 0.\<close>

definition digit :: "nat \<Rightarrow> byte" where
  "digit d = word_of_nat (0x30 + d)"

definition find_digit :: "byte \<Rightarrow> nat option" where
  "find_digit c = (if 0x30 \<le> c \<and> c \<le> 0x39 then Some (unat (c - 0x30)) else None)"

section \<open>Wire format to text\<close>

text \<open>The inner loop: \<open>n\<close> bytes of a label, with the rest of the source and the bytes written.\<close>

fun ntop_label :: "nat \<Rightarrow> nat \<Rightarrow> byte list \<Rightarrow> byte list \<Rightarrow> (byte list \<times> byte list) option cres" where
  "ntop_label siz 0 cp out = Ret (Some (cp, out))"
| "ntop_label siz (Suc n) [] out = Undef"
| "ntop_label siz (Suc n) (c # cp) out =
     (if special c
      then if length out + 1 \<ge> siz then Ret None
           else cbind (put siz out [0x5C, c]) (ntop_label siz n cp)
      else if \<not> printable c
      then if length out + 3 \<ge> siz then Ret None
           else cbind (put siz out [0x5C, digit (unat c div 100), digit (unat c mod 100 div 10),
                                    digit (unat c mod 10)]) (ntop_label siz n cp)
      else if length out \<ge> siz then Ret None
           else cbind (put siz out [c]) (ntop_label siz n cp))"

lemma ntop_label_rest:
  "ntop_label siz n cp out = Ret (Some (cp', out')) \<Longrightarrow> n \<le> length cp \<and> cp' = drop n cp"
  by (induction siz n cp out rule: ntop_label.induct)
     (auto simp: cbind_Ret_iff split: if_splits)

function (sequential) ntop_loop :: "nat \<Rightarrow> byte list \<Rightarrow> byte list \<Rightarrow> byte list option cres" where
  "ntop_loop siz [] out = Undef"
| "ntop_loop siz (n # cp) out =
     (if n = 0 then Ret (Some out)
      else if n AND NS_CMPRSFLGS \<noteq> 0 then Ret None
      else if out \<noteq> [] \<and> length out \<ge> siz then Ret None
      else cbind (if out \<noteq> [] then put siz out [0x2E] else Ret out) (\<lambda>out.
             if length out + unat n \<ge> siz then Ret None
             else cbind (ntop_label siz (unat n) cp out) (\<lambda>r.
                    case r of None \<Rightarrow> Ret None | Some (cp, out) \<Rightarrow> ntop_loop siz cp out)))"
  by pat_completeness auto
termination
  by (relation "measure (\<lambda>(siz, cp, out). length cp)") (auto dest: ntop_label_rest)

definition MRns_name_ntop :: "byte list \<Rightarrow> nat \<Rightarrow> byte list option cres" where
  "MRns_name_ntop src dstsiz =
     cbind (ntop_loop dstsiz src []) (\<lambda>r.
       case r of
         None \<Rightarrow> Ret None
       | Some out \<Rightarrow>
           if out = [] \<and> length out \<ge> dstsiz then Ret None
           else cbind (if out = [] then put dstsiz out [0x2E] else Ret out) (\<lambda>out.
                  if length out \<ge> dstsiz then Ret None
                  else cbind (put dstsiz out [0]) (\<lambda>out. Ret (Some out))))"

section \<open>Text to wire format\<close>

text \<open>
  \<open>label\<close> and \<open>bp\<close> are positions in the destination, which is written in place: the length byte of
  a label is stored when the label is complete. \<open>bp\<close> may stand one past the end of the buffer. The
  first component of the result is the return value.
\<close>

definition pton_close :: "nat \<Rightarrow> byte list \<Rightarrow> nat \<Rightarrow> nat \<Rightarrow> (nat \<times> byte list) option cres" where
  "pton_close siz dst label bp =
     (let c = bp - label - 1
      in if (word_of_nat c :: byte) AND NS_CMPRSFLGS \<noteq> 0 then Ret None
         else if label \<ge> siz then Ret None
         else cbind (wr dst label (word_of_nat c)) (\<lambda>dst. Ret (Some (c, dst))))"

definition pton_finish :: "int \<Rightarrow> nat \<Rightarrow> byte list \<Rightarrow> nat \<Rightarrow> nat \<Rightarrow> (int \<times> byte list) cres" where
  "pton_finish rv siz dst c bp =
     (if c \<noteq> 0 \<and> bp \<ge> siz then Ret (- 1, dst)
      else cbind (if c \<noteq> 0 then wr dst bp 0 else Ret dst) (\<lambda>dst.
             if (if c \<noteq> 0 then bp + 1 else bp) > MAXCDNAME then Ret (- 1, dst) else Ret (rv, dst)))"

fun pton_loop :: "nat \<Rightarrow> byte list \<Rightarrow> byte list \<Rightarrow> nat \<Rightarrow> nat \<Rightarrow> bool \<Rightarrow> (int \<times> byte list) cres" where
  "pton_loop siz [] dst label bp escaped = Undef"
| "pton_loop siz (c # src) dst label bp escaped =
     (if c = 0
      then cbind (pton_close siz dst label bp) (\<lambda>r.
             case r of None \<Rightarrow> Ret (- 1, dst) | Some (c, dst) \<Rightarrow> pton_finish 0 siz dst c bp)
      else if escaped
      then case find_digit c of
             None \<Rightarrow> if bp \<ge> siz then Ret (- 1, dst)
                     else cbind (wr dst bp c) (\<lambda>dst. pton_loop siz src dst label (bp + 1) False)
           | Some d1 \<Rightarrow>
               (case src of
                  [] \<Rightarrow> Undef
                | c2 # src \<Rightarrow>
                    if c2 = 0 then Ret (- 1, dst)
                    else case find_digit c2 of
                      None \<Rightarrow> Ret (- 1, dst)
                    | Some d2 \<Rightarrow>
                        (case src of
                           [] \<Rightarrow> Undef
                         | c3 # src \<Rightarrow>
                             if c3 = 0 then Ret (- 1, dst)
                             else case find_digit c3 of
                               None \<Rightarrow> Ret (- 1, dst)
                             | Some d3 \<Rightarrow>
                                 let n = d1 * 100 + d2 * 10 + d3
                                 in if n > 255 then Ret (- 1, dst)
                                    else if bp \<ge> siz then Ret (- 1, dst)
                                    else cbind (wr dst bp (word_of_nat n)) (\<lambda>dst.
                                           pton_loop siz src dst label (bp + 1) False)))
      else if c = 0x5C then pton_loop siz src dst label bp True
      else if c = 0x2E
      then cbind (pton_close siz dst label bp) (\<lambda>r.
             case r of
               None \<Rightarrow> Ret (- 1, dst)
             | Some (c, dst) \<Rightarrow>
                 (case src of
                    [] \<Rightarrow> Undef
                  | s # _ \<Rightarrow>
                      if s = 0 then pton_finish 1 siz dst c bp
                      else if c = 0 \<or> s = 0x2E then Ret (- 1, dst)
                      else pton_loop siz src dst bp (bp + 1) False))
      else if bp \<ge> siz then Ret (- 1, dst)
      else cbind (wr dst bp c) (\<lambda>dst. pton_loop siz src dst label (bp + 1) False))"

definition MRns_name_pton :: "byte list \<Rightarrow> byte list \<Rightarrow> nat \<Rightarrow> (int \<times> byte list) cres" where
  "MRns_name_pton src dst dstsiz = pton_loop dstsiz src dst 0 1 False"

section \<open>Lower case\<close>

function (sequential) ntol_loop :: "nat \<Rightarrow> byte list \<Rightarrow> byte list \<Rightarrow> byte list option cres" where
  "ntol_loop siz [] out = Undef"
| "ntol_loop siz (n # cp) out =
     (if n = 0 then cbind (put siz out [0]) (\<lambda>out. Ret (Some out))
      else if n AND NS_CMPRSFLGS \<noteq> 0 then Ret None
      else cbind (put siz out [n]) (\<lambda>out.
             if length out + unat n \<ge> siz then Ret None
             else if length cp < unat n then Undef
             else cbind (put siz out (map mklower (take (unat n) cp))) (\<lambda>out.
                    ntol_loop siz (drop (unat n) cp) out)))"
  by pat_completeness auto
termination
  by (relation "measure (\<lambda>(siz, cp, out). length cp)") auto

definition MRns_name_ntol :: "byte list \<Rightarrow> nat \<Rightarrow> byte list option cres" where
  "MRns_name_ntol src dstsiz = (if 0 \<ge> dstsiz then Ret None else ntol_loop dstsiz src [])"

section \<open>Unpacking\<close>

text \<open>
  The message is the list \<open>msg\<close>, so \<open>eom\<close> is its length, and \<open>src\<close> and \<open>srcp\<close> are positions in it. The
  result has the number of bytes consumed and the name written to the destination.
\<close>

function unpack_loop ::
    "byte list \<Rightarrow> nat \<Rightarrow> nat \<Rightarrow> nat \<Rightarrow> int \<Rightarrow> nat \<Rightarrow> byte list \<Rightarrow> (int \<times> byte list) option cres" where
  "unpack_loop msg src siz srcp len checked out =
     cbind (rd msg srcp) (\<lambda>n.
       let srcp = srcp + 1
       in if n = 0
          then cbind (put siz out [0]) (\<lambda>out.
                 Ret (Some (if len < 0 then int srcp - int src else len, out)))
          else if n AND NS_CMPRSFLGS = 0
          then if length out + unat n + 1 \<ge> siz \<or> srcp + unat n \<ge> length msg then Ret None
               else cbind (put siz out (n # take (unat n) (drop srcp msg))) (\<lambda>out'.
                      unpack_loop msg src siz (srcp + unat n) len (checked + unat n + 1) out')
          else if n AND NS_CMPRSFLGS = NS_CMPRSFLGS
          then if srcp \<ge> length msg then Ret None
               else cbind (rd msg srcp) (\<lambda>lo.
                      let len = (if len < 0 then int srcp - int src + 1 else len);
                          srcp = unat (n AND 0x3F) * 256 + unat lo
                      in if srcp \<ge> length msg then Ret None
                         else if checked + 2 \<ge> length msg then Ret None
                         else unpack_loop msg src siz srcp len (checked + 2) out)
          else Ret None)"
  by pat_completeness auto
termination
  by (relation "measure (\<lambda>(msg, src, siz, srcp, len, checked, out).
        (siz - length out) + (length msg - checked))")
     (auto simp: put_eq_Ret_iff)

declare unpack_loop.simps [simp del]

definition MRns_name_unpack ::
    "byte list \<Rightarrow> nat \<Rightarrow> nat \<Rightarrow> (int \<times> byte list) option cres" where
  "MRns_name_unpack msg src dstsiz =
     (if src \<ge> length msg then Ret None else unpack_loop msg src dstsiz src (- 1) 0 [])"

definition MRns_name_uncompress ::
    "byte list \<Rightarrow> nat \<Rightarrow> nat \<Rightarrow> (int \<times> byte list) option cres" where
  "MRns_name_uncompress msg src dstsiz =
     cbind (MRns_name_unpack msg src MAXCDNAME) (\<lambda>r.
       case r of
         None \<Rightarrow> Ret None
       | Some (n, tmp) \<Rightarrow>
           cbind (MRns_name_ntop tmp dstsiz) (\<lambda>r.
             case r of None \<Rightarrow> Ret None | Some out \<Rightarrow> Ret (Some (n, out))))"

section \<open>Skipping\<close>

function skip_loop :: "byte list \<Rightarrow> nat \<Rightarrow> nat option" where
  "skip_loop msg cp =
     (if cp < length msg
      then let n = msg ! cp; cp = cp + 1
           in if n = 0 then Some cp
              else if n AND NS_CMPRSFLGS = 0 then skip_loop msg (cp + unat n)
              else if n AND NS_CMPRSFLGS = NS_CMPRSFLGS then Some (cp + 1)
              else None
      else Some cp)"
  by pat_completeness auto
termination
  by (relation "measure (\<lambda>(msg, cp). length msg - cp)") auto

declare skip_loop.simps [simp del]

definition MRns_name_skip :: "byte list \<Rightarrow> nat \<Rightarrow> nat option" where
  "MRns_name_skip msg ptr =
     (case skip_loop msg ptr of
        None \<Rightarrow> None
      | Some cp \<Rightarrow> if cp > length msg then None else Some cp)"
section \<open>Packing\<close>

text \<open>
  The message is the buffer \<open>buf\<close>, and the names already packed are known by their positions in it:
  \<open>dnptrs\<close> without its first entry, which is the start of the message, as a list; \<open>None\<close> stands for
  a \<open>NULL\<close> array or a \<open>NULL\<close> first entry. \<open>lastdnptr\<close> is the index of the last entry of the array.
\<close>

datatype dn_outcome = DN_MATCH | DN_NEXT | DN_ILLEGAL

fun lower_eq :: "nat \<Rightarrow> byte list \<Rightarrow> byte list \<Rightarrow> bool cres" where
  "lower_eq 0 dn cp = Ret True"
| "lower_eq (Suc n) (d # dn) (c # cp) = (if mklower d \<noteq> mklower c then Ret False else lower_eq n dn cp)"
| "lower_eq (Suc n) dn cp = Undef"

text \<open>
  One round of the inner loop of \<open>dn_find\<close>: the outcome for this pointer, or where the comparison
  goes on. Pointers that lead back to themselves would keep the loop from ending, which is \<open>None\<close>.
\<close>

definition dn_round :: "byte list \<Rightarrow> byte list \<Rightarrow> nat \<Rightarrow> (dn_outcome + byte list \<times> nat) cres" where
  "dn_round msg dn cp =
     cbind (rd msg cp) (\<lambda>n.
       if n = 0 then Ret (Inl DN_NEXT)
       else if n AND NS_CMPRSFLGS = 0
       then cbind (rd dn 0) (\<lambda>d.
              if n \<noteq> d then Ret (Inl DN_NEXT)
              else cbind (lower_eq (unat n) (drop 1 dn) (drop (cp + 1) msg)) (\<lambda>same.
                if \<not> same then Ret (Inl DN_NEXT)
                else cbind (rd dn (1 + unat n)) (\<lambda>e.
                  if e \<noteq> 0 then Ret (Inr (drop (1 + unat n) dn, cp + 1 + unat n))
                  else cbind (rd msg (cp + 1 + unat n)) (\<lambda>z.
                         Ret (Inl (if z = 0 then DN_MATCH else DN_NEXT))))))
       else if n AND NS_CMPRSFLGS = NS_CMPRSFLGS
       then cbind (rd msg (cp + 1)) (\<lambda>lo. Ret (Inr (dn, unat (n AND 0x3F) * 256 + unat lo)))
       else Ret (Inl DN_ILLEGAL))"

partial_function (option) dn_match :: "byte list \<Rightarrow> byte list \<Rightarrow> nat \<Rightarrow> dn_outcome cres option" where
  "dn_match msg dn cp =
     (case dn_round msg dn cp of
        Ret (Inl r) \<Rightarrow> Some (Ret r)
      | Ret (Inr p) \<Rightarrow> dn_match msg (fst p) (snd p)
      | Undef \<Rightarrow> Some Undef
      | Fatal \<Rightarrow> Some Fatal)"

fun dn_find :: "byte list \<Rightarrow> byte list \<Rightarrow> nat list \<Rightarrow> nat option cres" where
  "dn_find domain msg [] = Ret None"
| "dn_find domain msg (sp # dnptrs) =
     (case dn_match msg domain sp of
        None \<Rightarrow> Undef
      | Some m \<Rightarrow> cbind m (\<lambda>r. case r of
            DN_MATCH \<Rightarrow> Ret (Some sp)
          | DN_NEXT \<Rightarrow> dn_find domain msg dnptrs
          | DN_ILLEGAL \<Rightarrow> Ret None))"

text \<open>The first loop of \<open>MRns_name_pack\<close>, the check of the source, and the second one.\<close>

function (sequential) pack_legal :: "byte list \<Rightarrow> nat \<Rightarrow> bool cres" where
  "pack_legal [] l = Undef"
| "pack_legal (n # srcp) l =
     (if n AND NS_CMPRSFLGS \<noteq> 0 then Ret False
      else if l + unat n + 1 > MAXCDNAME then Ret False
      else if n \<noteq> 0 then pack_legal (drop (unat n) srcp) (l + unat n + 1)
      else Ret True)"
  by pat_completeness auto
termination
  by (relation "measure (\<lambda>(srcp, l). length srcp)") auto

definition wrs :: "'a list \<Rightarrow> nat \<Rightarrow> 'a list \<Rightarrow> 'a list cres" where
  "wrs buf i bs =
     (if i + length bs \<le> length buf then Ret (take i buf @ bs @ drop (i + length bs) buf) else Undef)"

type_synonym packed = "nat option \<times> byte list \<times> nat list"

function (sequential) pack_loop ::
    "bool \<Rightarrow> nat list \<Rightarrow> nat option \<Rightarrow> nat \<Rightarrow> nat \<Rightarrow> byte list \<Rightarrow> byte list \<Rightarrow> nat \<Rightarrow> nat list \<Rightarrow> packed cres" where
  "pack_loop compress dnptrs lastdnptr dst eob [] buf dstp ptrs = Undef"
| "pack_loop compress dnptrs lastdnptr dst eob (n # srcp) buf dstp ptrs =
     cbind (if n \<noteq> 0 \<and> compress then dn_find (n # srcp) buf dnptrs else Ret None) (\<lambda>l.
       case l of
         Some l \<Rightarrow>
           if dstp + 1 \<ge> eob then Ret (None, buf, dnptrs)
           else cbind (wrs buf dstp [word_of_nat (l div 256) OR NS_CMPRSFLGS, word_of_nat (l mod 256)])
                  (\<lambda>buf. Ret (Some (dstp + 2 - dst), buf, ptrs))
       | None \<Rightarrow>
           let ptrs = (if n \<noteq> 0 \<and> compress \<and>
                           (case lastdnptr of None \<Rightarrow> False | Some lst \<Rightarrow> length ptrs + 1 < lst - 1) \<and>
                           dstp < 0x4000
                       then ptrs @ [dstp] else ptrs)
           in if n AND NS_CMPRSFLGS \<noteq> 0 then Ret (None, buf, dnptrs)
              else if dstp + 1 + unat n \<ge> eob then Ret (None, buf, dnptrs)
              else if length srcp < unat n then Undef
              else cbind (wrs buf dstp (n # take (unat n) srcp)) (\<lambda>buf.
                     if n \<noteq> 0
                     then pack_loop compress dnptrs lastdnptr dst eob (drop (unat n) srcp) buf
                            (dstp + unat n + 1) ptrs
                     else Ret (Some (dstp + unat n + 1 - dst), buf, ptrs)))"
  by pat_completeness auto
termination
  by (relation "measure (\<lambda>(compress, dnptrs, lastdnptr, dst, eob, srcp, buf, dstp, ptrs). length srcp)") auto

definition MRns_name_pack ::
    "byte list \<Rightarrow> byte list \<Rightarrow> nat \<Rightarrow> nat \<Rightarrow> nat list option \<Rightarrow> nat option \<Rightarrow> packed cres" where
  "MRns_name_pack src buf dst dstsiz dnptrs lastdnptr =
     (let compress = (dnptrs \<noteq> None); ptrs = (case dnptrs of None \<Rightarrow> [] | Some ps \<Rightarrow> ps)
      in cbind (pack_legal src 0) (\<lambda>legal.
           if \<not> legal then Ret (None, buf, ptrs)
           else pack_loop compress ptrs lastdnptr dst (dst + dstsiz) src buf dst ptrs))"

text \<open>\<open>tmp\<close> is not initialised in C; only the part that was written is read.\<close>

definition MRns_name_compress ::
    "byte list \<Rightarrow> byte list \<Rightarrow> nat \<Rightarrow> nat \<Rightarrow> nat list option \<Rightarrow> nat option \<Rightarrow> packed cres" where
  "MRns_name_compress src buf dst dstsiz dnptrs lastdnptr =
     cbind (MRns_name_pton src (replicate MAXCDNAME 0) MAXCDNAME) (\<lambda>(rv, tmp).
       if rv = - 1 then Ret (None, buf, case dnptrs of None \<Rightarrow> [] | Some ps \<Rightarrow> ps)
       else MRns_name_pack tmp buf dst dstsiz dnptrs lastdnptr)"

section \<open>Lists of names\<close>

text \<open>
  \<open>dst\<close> starts after the text written so far, \<open>out\<close>. The comma is followed by a 0 byte that is
  written before the room for it is checked.
\<close>

function uncompress_list_loop ::
    "byte list \<Rightarrow> nat \<Rightarrow> nat \<Rightarrow> bool \<Rightarrow> byte list \<Rightarrow> byte list option cres" where
  "uncompress_list_loop buf dst_size src first_pass out =
     (if src \<ge> length buf then cbind (put dst_size out [0]) (\<lambda>_. Ret (Some out))
      else if dst_size - length out \<le> 0 then Ret None
      else cbind (if first_pass then Ret out
                  else cbind (put dst_size out [0x2C, 0]) (\<lambda>_. Ret (out @ [0x2C]))) (\<lambda>out.
        cbind (MRns_name_uncompress buf src (dst_size - length out)) (\<lambda>r.
          case r of
            None \<Rightarrow> Ret None
          | Some (consumed, t) \<Rightarrow>
              let out = out @ takeWhile (\<lambda>c. c \<noteq> 0) t
              in if consumed > 0
                 then uncompress_list_loop buf dst_size (src + nat consumed) False out
                 else cbind (put dst_size out [0]) (\<lambda>_. Ret (Some out)))))"
  by pat_completeness auto
termination
  by (relation "measure (\<lambda>(buf, dst_size, src, first_pass, out). length buf - src)") auto

declare uncompress_list_loop.simps [simp del]

definition MRns_name_uncompress_list :: "byte list \<Rightarrow> nat \<Rightarrow> byte list option cres" where
  "MRns_name_uncompress_list buf dst_size =
     (if buf = [] \<or> buf ! 0 = 0 then cbind (put dst_size ([] :: byte list) [0]) (\<lambda>_. Ret (Some []))
      else uncompress_list_loop buf dst_size 0 True [])"

text \<open>\<open>strchr\<close> and \<open>strlen\<close> read the text up to its terminating 0.\<close>

definition next_name :: "byte list \<Rightarrow> nat \<Rightarrow> byte list cres" where
  "next_name text i =
     (let name = takeWhile (\<lambda>c. c \<noteq> 0 \<and> c \<noteq> 0x2C) (drop i text)
      in if i + length name < length text then Ret name else Undef)"

function compress_list_loop ::
    "byte list \<Rightarrow> nat \<Rightarrow> nat \<Rightarrow> nat \<Rightarrow> byte list \<Rightarrow> nat \<Rightarrow> nat list \<Rightarrow> (nat option \<times> byte list) cres" where
  "compress_list_loop text buflen siz src compbuf clen dnptrs =
     (if src \<ge> buflen then Ret (Some clen, compbuf)
      else cbind (next_name text src) (\<lambda>name.
        if length name > MAXCDNAME - 1 then Ret (None, compbuf)
        else cbind (MRns_name_compress (name @ [0]) compbuf clen (siz - clen) (Some dnptrs) (Some 255))
               (\<lambda>(r, compbuf, dnptrs).
          case r of
            None \<Rightarrow> Ret (None, compbuf)
          | Some result \<Rightarrow>
              compress_list_loop text buflen siz (src + length name + 1) compbuf (clen + result) dnptrs)))"
  by pat_completeness auto
termination
  by (relation "measure (\<lambda>(text, buflen, siz, src, compbuf, clen, dnptrs). buflen - src)") auto

declare compress_list_loop.simps [simp del]

definition MRns_name_compress_list :: "byte list \<Rightarrow> nat \<Rightarrow> nat \<Rightarrow> (nat option \<times> byte list) cres" where
  "MRns_name_compress_list text buflen compbuf_size =
     compress_list_loop text buflen compbuf_size 0 (replicate compbuf_size 0) 0 []"

section \<open>The two flag bits of a length byte\<close>

lemma C0_mask: "(0xC0 :: byte) = NOT (mask 6)"
  by (simp add: mask_numeral)

lemma and_C0: "w AND 0xC0 = push_bit 6 (drop_bit 6 (w :: byte))"
  unfolding C0_mask by (rule bit_word_eqI) (auto simp: bit_simps)

lemma drop6: "unat (drop_bit 6 (w :: byte)) = unat w div 64"
proof -
  have "unat w < 2 ^ 8" using unat_byte_less [of w] by simp
  then show ?thesis by (simp add: unsigned_drop_bit_eq drop_bit_nat_def take_bit_nat_eq_self)
qed

lemma and_C0_iff: "w AND 0xC0 = 0 \<longleftrightarrow> unat (w :: byte) < 64"
proof -
  have "push_bit 6 (drop_bit 6 w) = 0 \<longleftrightarrow> drop_bit 6 w = 0"
  proof -
    have "drop_bit 6 (push_bit 6 (drop_bit 6 w)) = drop_bit 6 w"
      by (rule bit_word_eqI) (auto simp: bit_simps dest: bit_imp_le_length)
    then show ?thesis by (metis drop_bit_of_0 push_bit_of_0)
  qed
  also have "\<dots> \<longleftrightarrow> unat w div 64 = 0" by (metis drop6 unat_eq_zero)
  finally show ?thesis by (simp add: and_C0 div_eq_0_iff)
qed
section \<open>Names as lists of labels\<close>

text \<open>The wire format and the text of a list of labels, which the conversions are compared with.\<close>

definition wf_labels :: "byte list list \<Rightarrow> bool" where
  "wf_labels ls \<longleftrightarrow> (\<forall>l \<in> set ls. l \<noteq> [] \<and> length l \<le> 63)"

fun wire :: "byte list list \<Rightarrow> byte list" where
  "wire [] = [0]"
| "wire (l # ls) = word_of_nat (length l) # l @ wire ls"

definition escape :: "byte \<Rightarrow> byte list" where
  "escape c = (if special c then [0x5C, c]
     else if \<not> printable c
     then [0x5C, digit (unat c div 100), digit (unat c mod 100 div 10), digit (unat c mod 10)]
     else [c])"

definition escapes :: "byte list \<Rightarrow> byte list" where
  "escapes l = concat (map escape l)"

definition dotted :: "byte list list \<Rightarrow> byte list" where
  "dotted ls = concat (map (\<lambda>l. 0x2E # escapes l) ls)"

definition name_text :: "byte list list \<Rightarrow> byte list" where
  "name_text ls = (case ls of [] \<Rightarrow> [0x2E] | l # ls \<Rightarrow> escapes l @ dotted ls)"

lemma escapes_simps [simp]: "escapes [] = []" "escapes (c # l) = escape c @ escapes l"
  by (simp_all add: escapes_def)

lemma dotted_simps [simp]: "dotted [] = []" "dotted (l # ls) = 0x2E # escapes l @ dotted ls"
  by (simp_all add: dotted_def)

lemma escape_length: "1 \<le> length (escape c)"
  by (simp add: escape_def)

lemma escapes_length: "length l \<le> length (escapes l)"
proof (induction l)
  case (Cons c l)
  with escape_length [of c] show ?case by simp
qed simp

lemma length_byte:
  assumes "l \<noteq> []" and "length l \<le> 63"
  shows "(word_of_nat (length l) :: byte) \<noteq> 0" "(word_of_nat (length l) :: byte) AND NS_CMPRSFLGS = 0"
    and "unat (word_of_nat (length l) :: byte) = length l"
proof -
  show u: "unat (word_of_nat (length l) :: byte) = length l"
    using assms(2) by (simp add: unat_of_nat)
  then show "(word_of_nat (length l) :: byte) \<noteq> 0" using assms(1) by (metis length_0_conv unsigned_0)
  show "(word_of_nat (length l) :: byte) AND NS_CMPRSFLGS = 0"
    using assms(2) u by (simp add: NS_CMPRSFLGS_def and_C0_iff)
qed

lemma ntop_label_Ret:
  "n \<le> length cp \<Longrightarrow> ntop_label siz n cp out =
     Ret (if length out + length (escapes (take n cp)) \<le> siz
          then Some (drop n cp, out @ escapes (take n cp)) else None)" if "length out \<le> siz"
  using that
proof (induction n arbitrary: cp out)
  case 0
  then show ?case by simp
next
  case (Suc n)
  then obtain c cp' where cp: "cp = c # cp'" "n \<le> length cp'" by (cases cp) auto
  show ?case unfolding cp using Suc.IH [OF cp(2)] by (auto simp: escape_def)
qed
subsection \<open>To text\<close>

lemma wf_labels_Cons [simp]: "wf_labels (l # ls) \<longleftrightarrow> l \<noteq> [] \<and> length l \<le> 63 \<and> wf_labels ls"
  by (auto simp: wf_labels_def)

lemma escapes_Nil_iff [simp]: "escapes l = [] \<longleftrightarrow> l = []"
  using escapes_length [of l] by auto

text \<open>
  The loop over the labels: if the text does not fit, it fails or leaves no room for the final 0.
\<close>

lemma ntop_loop_Ret:
  assumes "wf_labels ls" and "length out \<le> siz" and "t = (if out = [] then tl (dotted ls) else dotted ls)"
  shows "\<exists>r. ntop_loop siz (wire ls @ rest) out = Ret r \<and>
      (if length (out @ t) < siz \<or> ls = [] then r = Some (out @ t)
       else r = None \<or> (\<exists>x. r = Some x \<and> length x = siz))"
  using assms
proof (induction ls arbitrary: out t)
  case Nil
  then show ?case by simp
next
  case (Cons l ls)
  note b = length_byte [of l]
  have l: "l \<noteq> []" "length l \<le> 63" using Cons.prems(1) by auto
  let ?o = "if out = [] then [] else out @ [0x2E]"
  have t: "out @ t = ?o @ escapes l @ dotted ls" using Cons.prems(3) by simp
  show ?case
  proof (cases "(out \<noteq> [] \<and> length out \<ge> siz) \<or> length ?o + length l \<ge> siz")
    case True
    then have "ntop_loop siz (wire (l # ls) @ rest) out = Ret None"
      using l b Cons.prems(2) by auto
    moreover have "\<not> length (out @ t) < siz" using True escapes_length [of l] unfolding t by auto
    ultimately show ?thesis by simp
  next
    case False
    then have o: "length ?o \<le> siz" "length ?o + length l < siz" "\<not> (out \<noteq> [] \<and> siz \<le> length out)" by auto
    have step: "ntop_loop siz (wire (l # ls) @ rest) out =
        cbind (ntop_label siz (length l) (l @ wire ls @ rest) ?o) (\<lambda>r.
          case r of None \<Rightarrow> Ret None | Some (cp, out) \<Rightarrow> ntop_loop siz cp out)"
      using l b o by (auto simp: not_le)
    have lab: "ntop_label siz (length l) (l @ wire ls @ rest) ?o =
        Ret (if length ?o + length (escapes l) \<le> siz then Some (wire ls @ rest, ?o @ escapes l) else None)"
      using ntop_label_Ret [OF o(1), of "length l" "l @ wire ls @ rest"] by simp
    show ?thesis
    proof (cases "length ?o + length (escapes l) \<le> siz")
      case fits: True
      then have "length (?o @ escapes l) \<le> siz" by simp
      from Cons.IH [OF _ this refl, of] Cons.prems(1) l obtain r where
        r: "ntop_loop siz (wire ls @ rest) (?o @ escapes l) = Ret r"
          "if length ((?o @ escapes l) @ dotted ls) < siz \<or> ls = [] then r = Some ((?o @ escapes l) @ dotted ls)
           else r = None \<or> (\<exists>x. r = Some x \<and> length x = siz)" by auto
      have eq: "ntop_loop siz (wire (l # ls) @ rest) out = Ret r"
        unfolding step lab using fits r(1) by simp
      show ?thesis
      proof (cases "ls = []")
        case True
        with eq r(2) t fits show ?thesis by (auto simp: not_less)
      next
        case ne: False
        with eq r(2) t show ?thesis by simp
      qed
    next
      case nofit: False
      with step lab t show ?thesis by auto
    qed
  qed
qed

lemma MRns_name_ntop_Ret:
  assumes "wf_labels ls"
  shows "MRns_name_ntop (wire ls @ rest) siz =
    Ret (if length (name_text ls) < siz then Some (name_text ls @ [0]) else None)"
proof (cases ls)
  case Nil
  then show ?thesis by (auto simp: MRns_name_ntop_def name_text_def)
next
  case (Cons l ls')
  have t: "tl (dotted ls) = name_text ls" "name_text ls \<noteq> []" using Cons assms by (auto simp: name_text_def)
  have eq: "name_text ls = (if ([] :: byte list) = [] then tl (dotted ls) else dotted ls)" and le: "length [] \<le> siz"
    by (simp_all add: t)
  from ntop_loop_Ret [OF assms le eq, of rest] obtain r where
    "ntop_loop siz (wire ls @ rest) [] = Ret r"
    "if length ([] @ name_text ls) < siz \<or> ls = [] then r = Some ([] @ name_text ls)
     else r = None \<or> (\<exists>x. r = Some x \<and> length x = siz)" by (elim exE conjE)
  then have r: "ntop_loop siz (wire ls @ rest) [] = Ret r"
      "if length (name_text ls) < siz then r = Some (name_text ls)
       else r = None \<or> (\<exists>x. r = Some x \<and> length x = siz)" unfolding Cons by simp_all
  with t show ?thesis by (auto simp: MRns_name_ntop_def split: if_splits)
qed

subsection \<open>From text\<close>

lemma find_digit_digit: "d \<le> 9 \<Longrightarrow> find_digit (digit d) = Some d \<and> digit d \<noteq> 0"
proof -
  assume "d \<le> 9"
  then have "d \<in> set [0..<10]" by simp
  moreover have "\<forall>d \<in> set [0..<10]. find_digit (digit d) = Some d \<and> digit d \<noteq> 0" by code_simp
  ultimately show ?thesis by blast
qed

lemma digits_value: "unat (c :: byte) div 100 * 100 + unat c mod 100 div 10 * 10 + unat c mod 10 = unat c"
proof -
  have "unat c mod 100 = unat c mod 100 div 10 * 10 + unat c mod 100 mod 10" by simp
  moreover have "unat c mod 100 mod 10 = unat c mod 10" by (simp add: mod_mod_cancel)
  moreover have "unat c = unat c div 100 * 100 + unat c mod 100" by simp
  ultimately show ?thesis by linarith
qed

lemma special_facts: "special c \<Longrightarrow> find_digit c = None \<and> c \<noteq> 0"
  by (auto simp: special_def find_digit_def)

lemma printable_facts: "printable c \<Longrightarrow> c \<noteq> 0"
  by (auto simp: printable_def)

lemma pton_escape:
  assumes "bp < siz" and "siz \<le> length dst"
  shows "pton_loop siz (escape c @ src) dst label bp False = pton_loop siz src (dst[bp := c]) label (bp + 1) False"
proof -
  consider "special c" | "\<not> special c" "\<not> printable c" | "\<not> special c" "printable c" by blast
  then show ?thesis
  proof cases
    case 1
    with special_facts [OF 1] assms show ?thesis by (simp add: escape_def)
  next
    case 2
    let ?u = "unat c"
    have le: "?u \<le> 255" using unat_byte_less [of c] by linarith
    then have "?u div 100 \<le> 255 div 100" by (rule div_le_mono)
    then have d: "?u div 100 \<le> 9" "?u mod 100 div 10 \<le> 9" "?u mod 10 \<le> 9" by auto
    from le have "\<not> 255 < ?u" by linarith
    with 2 d [THEN find_digit_digit] assms show ?thesis
      by (simp add: escape_def digits_value Let_def)
  next
    case 3
    with printable_facts [OF 3(2)] assms show ?thesis by (auto simp: escape_def special_def)
  qed
qed

lemma pton_escapes:
  assumes "length out + length l \<le> siz" and "siz \<le> length (out @ r)"
  shows "pton_loop siz (escapes l @ src) (out @ r) label (length out) False =
    pton_loop siz src (out @ l @ drop (length l) r) label (length out + length l) False"
  using assms
proof (induction l arbitrary: out r)
  case Nil
  then show ?case by simp
next
  case (Cons c l)
  then obtain x r' where r: "r = x # r'" by (cases r) auto
  have "pton_loop siz (escapes (c # l) @ src) (out @ r) label (length out) False =
      pton_loop siz (escapes l @ src) ((out @ r)[length out := c]) label (length out + 1) False"
    using pton_escape [of "length out" siz "out @ r" c] Cons.prems by simp
  also have "(out @ r)[length out := c] = (out @ [c]) @ r'" by (simp add: r)
  finally show ?case using Cons.IH [of "out @ [c]" r'] Cons.prems by (simp add: r)
qed
lemma pton_close_Ret:
  assumes "length l \<le> 63" and "length pre < siz"
  shows "pton_close siz (pre @ x # l @ r) (length pre) (length pre + 1 + length l) =
    Ret (Some (length l, pre @ word_of_nat (length l) # l @ r))"
proof -
  have "(word_of_nat (length l) :: byte) AND NS_CMPRSFLGS = 0"
    using assms(1) by (simp add: NS_CMPRSFLGS_def and_C0_iff unat_of_nat)
  with assms(2) show ?thesis by (simp add: pton_close_def Let_def)
qed

lemma escapes_hd:
  assumes "l \<noteq> []"
  shows "\<exists>s t. escapes l = s # t \<and> s \<noteq> 0 \<and> s \<noteq> 0x2E"
  using assms by (cases l) (auto simp: escape_def special_def dest: printable_facts)

lemma wire_length_pos: "0 < length (wire ls)"
  by (cases ls) auto

lemma pton_dotted:
  assumes "wf_labels (l # ls)" and "length pre + length (wire (l # ls)) \<le> siz"
    and "length pre + length (wire (l # ls)) \<le> MAXCDNAME" and "siz \<le> length (pre @ x # l @ r)"
  shows "pton_loop siz (dotted ls @ 0 # junk) (pre @ x # l @ r) (length pre) (length pre + 1 + length l) False =
    Ret (0, pre @ wire (l # ls) @ drop (length (wire ls)) r)"
  using assms
proof (induction ls arbitrary: l pre x r)
  case Nil
  then obtain y r' where r: "r = y # r'" by (cases r) auto
  have "pton_finish 0 siz (pre @ word_of_nat (length l) # l @ r) (length l) (length pre + 1 + length l) =
      Ret (0, pre @ word_of_nat (length l) # l @ 0 # r')"
    using Nil by (simp add: pton_finish_def r list_update_append)
  with Nil pton_close_Ret [of l pre siz x r] show ?case by (simp add: r)
next
  case (Cons l2 ls)
  let ?n = "word_of_nat (length l) :: byte"
  obtain y r' where r: "r = y # r'" using Cons.prems(2,4) wire_length_pos [of ls] by (cases r) auto
  have l: "l \<noteq> []" "length l \<le> 63" "l2 \<noteq> []" "length l2 \<le> 63" "wf_labels (l2 # ls)" using Cons.prems(1) by auto
  obtain s t where st: "escapes l2 = s # t" "s \<noteq> 0" "s \<noteq> 0x2E" using escapes_hd [OF l(3)] by blast
  have len: "length pre < siz" using Cons.prems(2) by simp
  have "pton_loop siz (dotted (l2 # ls) @ 0 # junk) (pre @ x # l @ r) (length pre) (length pre + 1 + length l) False =
      pton_loop siz (escapes l2 @ dotted ls @ 0 # junk) (pre @ ?n # l @ r)
        (length pre + 1 + length l) (length pre + 1 + length l + 1) False"
    using pton_close_Ret [OF l(2) len, of x r] l(1) st by simp
  also have "\<dots> = pton_loop siz (dotted ls @ 0 # junk) ((pre @ ?n # l) @ y # l2 @ drop (length l2) r')
      (length (pre @ ?n # l)) (length (pre @ ?n # l) + 1 + length l2) False"
    using pton_escapes [of "pre @ ?n # l @ [y]" l2 siz r'] Cons.prems(2,4) wire_length_pos [of ls]
    by (simp add: r algebra_simps)
  also have "\<dots> = Ret (0, (pre @ ?n # l) @ wire (l2 # ls) @ drop (length (wire ls)) (drop (length l2) r'))"
    by (rule Cons.IH) (use Cons.prems l r in auto)
  finally show ?case by (simp add: r add.commute)
qed

lemma MRns_name_pton_text:
  assumes "wf_labels ls" and "length (wire ls) \<le> dstsiz" and "length (wire ls) \<le> MAXCDNAME"
    and "dstsiz \<le> length dst"
  shows "MRns_name_pton (name_text ls @ 0 # junk) dst dstsiz =
    Ret (if ls = [] then 1 else 0, wire ls @ drop (length (wire ls)) dst)"
proof (cases ls)
  case Nil
  with assms obtain x r where "dst = x # r" by (cases dst) auto
  with Nil assms show ?thesis
    by (simp add: MRns_name_pton_def name_text_def pton_close_def pton_finish_def Let_def)
next
  case (Cons l ls')
  with assms obtain x r where dst: "dst = x # r" by (cases dst) auto
  have "MRns_name_pton (name_text ls @ 0 # junk) dst dstsiz =
      pton_loop dstsiz (dotted ls' @ 0 # junk) ([] @ x # l @ drop (length l) r) (length ([] :: byte list)) (length ([] :: byte list) + 1 + length l) False"
    using pton_escapes [of "[x]" l dstsiz r] assms Cons
    by (simp add: MRns_name_pton_def name_text_def dst)
  also have "\<dots> = Ret (0, [] @ wire (l # ls') @ drop (length (wire ls')) (drop (length l) r))"
    by (rule pton_dotted) (use assms Cons dst in auto)
  finally show ?thesis by (simp add: Cons dst add.commute)
qed

subsection \<open>Unpacking\<close>

text \<open>
  \<open>name_at msg i ls\<close>: the labels \<open>ls\<close> are found at position \<open>i\<close> of the message, where a label is
  followed by the rest of the name and a pointer leads to it.
\<close>

inductive name_at :: "byte list \<Rightarrow> nat \<Rightarrow> byte list list \<Rightarrow> bool" for msg where
  root: "i < length msg \<Longrightarrow> msg ! i = 0 \<Longrightarrow> name_at msg i []"
| label: "i < length msg \<Longrightarrow> msg ! i = word_of_nat (length l) \<Longrightarrow> l \<noteq> [] \<Longrightarrow> length l \<le> 63 \<Longrightarrow>
    i + length l < length msg \<Longrightarrow> take (length l) (drop (i + 1) msg) = l \<Longrightarrow>
    name_at msg (i + 1 + length l) ls \<Longrightarrow> name_at msg i (l # ls)"
| pointer: "i + 1 < length msg \<Longrightarrow> msg ! i AND NS_CMPRSFLGS = NS_CMPRSFLGS \<Longrightarrow>
    name_at msg (unat (msg ! i AND 0x3F) * 256 + unat (msg ! (i + 1))) ls \<Longrightarrow> name_at msg i ls"

definition labels_wire :: "byte list list \<Rightarrow> byte list" where
  "labels_wire ls = concat (map (\<lambda>l. word_of_nat (length l) # l) ls)"

lemma labels_wire_simps [simp]:
  "labels_wire [] = []" "labels_wire (l # ls) = word_of_nat (length l) # l @ labels_wire ls"
  "labels_wire (ls @ ks) = labels_wire ls @ labels_wire ks"
  by (simp_all add: labels_wire_def)

lemma wire_eq: "wire ls = labels_wire ls @ [0]"
  by (induction ls) auto

lemma flag_byte_le_63: "(n :: byte) AND NS_CMPRSFLGS = 0 \<Longrightarrow> unat n \<le> 63"
  unfolding NS_CMPRSFLGS_def and_C0_iff by linarith

lemma unpack_loop_sound:
  assumes "srcp < length msg" and "length out < siz" and "len < 0 \<longrightarrow> src \<le> srcp"
  shows "\<exists>r. unpack_loop msg src siz srcp len checked out = Ret r \<and>
    (\<forall>n out'. r = Some (n, out') \<longrightarrow>
       (\<exists>ls. name_at msg srcp ls \<and> wf_labels ls \<and> out' = out @ wire ls \<and> length out' \<le> siz) \<and>
       (if len < 0 then \<exists>cp. skip_loop msg srcp = Some cp \<and> cp \<le> length msg \<and> n = int cp - int src
        else n = len))"
  using assms
proof (induction msg src siz srcp len checked out rule: unpack_loop.induct)
  case (1 msg src siz srcp len checked out)
  let ?n = "msg ! srcp"
  note step = unpack_loop.simps [of msg src siz srcp len checked out]
  note skip = skip_loop.simps [of msg srcp]
  note prems = 1(3-5)
  have rd: "rd msg srcp = Ret ?n" using prems by simp
  consider (zero) "?n = 0" | (lab) "?n \<noteq> 0" "?n AND NS_CMPRSFLGS = 0"
    | (ptr) "?n \<noteq> 0" "?n AND NS_CMPRSFLGS \<noteq> 0" "?n AND NS_CMPRSFLGS = NS_CMPRSFLGS"
    | (bad) "?n \<noteq> 0" "?n AND NS_CMPRSFLGS \<noteq> 0" "?n AND NS_CMPRSFLGS \<noteq> NS_CMPRSFLGS" by blast
  then show ?case
  proof cases
    case zero
    have "name_at msg srcp []" using zero prems(1) by (rule name_at.root [rotated])
    with zero prems step skip rd show ?thesis by (auto simp: Let_def wf_labels_def intro!: exI [of _ "[]"])
  next
    case lab
    let ?l = "take (unat ?n) (drop (srcp + 1) msg)"
    show ?thesis
    proof (cases "length out + unat ?n + 1 \<ge> siz \<or> srcp + 1 + unat ?n \<ge> length msg")
      case True
      with lab step rd show ?thesis by (simp add: Let_def)
    next
      case False
      then have len: "length ?l = unat ?n" by (auto simp: min_def)
      have n: "0 < unat ?n" "unat ?n \<le> 63" using lab flag_byte_le_63 by (auto simp: unat_gt_0)
      have l: "?l \<noteq> []" "length ?l \<le> 63" "word_of_nat (length ?l) = ?n" using n len by auto
      have put: "put siz out (?n # ?l) = Ret (out @ ?n # ?l)" using False len by simp
      have p: "srcp + 1 + unat ?n < length msg" "length (out @ ?n # ?l) < siz"
          "len < 0 \<longrightarrow> src \<le> srcp + 1 + unat ?n" using False len prems(3) by auto
      from 1(1) [OF rd refl lab False put p] obtain r where
        r: "unpack_loop msg src siz (srcp + 1 + unat ?n) len (checked + unat ?n + 1) (out @ ?n # ?l) = Ret r"
          "\<forall>n out'. r = Some (n, out') \<longrightarrow>
             (\<exists>ls. name_at msg (srcp + 1 + unat ?n) ls \<and> wf_labels ls \<and> out' = (out @ ?n # ?l) @ wire ls \<and> length out' \<le> siz) \<and>
             (if len < 0 then \<exists>cp. skip_loop msg (srcp + 1 + unat ?n) = Some cp \<and> cp \<le> length msg \<and> n = int cp - int src
              else n = len)" by (elim exE conjE)
      have eq: "unpack_loop msg src siz srcp len checked out = Ret r"
        using step rd lab False put r(1) by (simp add: Let_def)
      have sk: "skip_loop msg srcp = skip_loop msg (srcp + 1 + unat ?n)"
        using skip lab prems(1) by (simp add: Let_def)
      have na: "name_at msg srcp (?l # ls)" if "name_at msg (srcp + 1 + unat ?n) ls" for ls
        by (rule name_at.label) (use that l len prems(1) False in auto)
      show ?thesis unfolding eq sk using r(2) na l len by fastforce
    qed
  next
    case ptr
    let ?i = "unat (?n AND 0x3F) * 256 + unat (msg ! (srcp + 1))"
    let ?len = "if len < 0 then int (srcp + 1) - int src + 1 else len"
    show ?thesis
    proof (cases "srcp + 1 \<ge> length msg \<or> ?i \<ge> length msg \<or> checked + 2 \<ge> length msg")
      case True
      with ptr step rd show ?thesis by (auto simp: Let_def)
    next
      case False
      then have rd2: "rd msg (srcp + 1) = Ret (msg ! (srcp + 1))" by simp
      have p: "\<not> srcp + 1 \<ge> length msg" "\<not> ?i \<ge> length msg" "\<not> checked + 2 \<ge> length msg" "?i < length msg"
          "?len < 0 \<longrightarrow> src \<le> ?i" using False prems(3) by auto
      from 1(2) [OF rd refl ptr p(1) rd2 refl refl p(2,3) p(4) prems(2) p(5)] obtain r where
        r: "unpack_loop msg src siz ?i ?len (checked + 2) out = Ret r"
          "\<forall>n out'. r = Some (n, out') \<longrightarrow>
             (\<exists>ls. name_at msg ?i ls \<and> wf_labels ls \<and> out' = out @ wire ls \<and> length out' \<le> siz) \<and>
             (if ?len < 0 then \<exists>cp. skip_loop msg ?i = Some cp \<and> cp \<le> length msg \<and> n = int cp - int src
              else n = ?len)" by (elim exE conjE)
      have eq: "unpack_loop msg src siz srcp len checked out = Ret r"
        using step rd rd2 ptr False r(1) by (simp add: Let_def split: if_splits)
      have sk: "skip_loop msg srcp = Some (srcp + 2)"
        using skip ptr prems(1) by (simp add: Let_def)
      have na: "name_at msg srcp ls" if "name_at msg ?i ls" for ls
        by (rule name_at.pointer) (use that ptr False in auto)
      have "\<not> ?len < 0" "len < 0 \<Longrightarrow> ?len = int (srcp + 2) - int src" "\<not> len < 0 \<Longrightarrow> ?len = len"
        using prems(3) by auto
      then show ?thesis unfolding eq sk using r(2) na False by fastforce
    qed
  next
    case bad
    with step rd show ?thesis by (simp add: Let_def)
  qed
qed
subsection \<open>Names below a position\<close>

text \<open>
  A name as packing builds it: \<open>name_seg msg lim s i ls\<close> says that the labels \<open>ls\<close> are read from
  position \<open>i\<close> of a run of labels that starts at \<open>s\<close>, using bytes below \<open>lim\<close> only, and that a pointer
  leads to a name that lies entirely before \<open>s\<close>.
\<close>

inductive name_seg :: "byte list \<Rightarrow> nat \<Rightarrow> nat \<Rightarrow> nat \<Rightarrow> byte list list \<Rightarrow> bool" for msg where
  seg_root: "i < lim \<Longrightarrow> msg ! i = 0 \<Longrightarrow> name_seg msg lim s i []"
| seg_label: "msg ! i = word_of_nat (length l) \<Longrightarrow> l \<noteq> [] \<Longrightarrow> length l \<le> 63 \<Longrightarrow> i + length l < lim \<Longrightarrow>
    take (length l) (drop (i + 1) msg) = l \<Longrightarrow> name_seg msg lim s (i + 1 + length l) ls \<Longrightarrow>
    name_seg msg lim s i (l # ls)"
| seg_pointer: "i + 1 < lim \<Longrightarrow> msg ! i AND NS_CMPRSFLGS = NS_CMPRSFLGS \<Longrightarrow>
    t = unat (msg ! i AND 0x3F) * 256 + unat (msg ! (i + 1)) \<Longrightarrow> t < s \<Longrightarrow> s \<le> i \<Longrightarrow>
    name_seg msg s t t ls \<Longrightarrow> name_seg msg lim s i ls"

lemma name_seg_wf: "name_seg msg lim s i ls \<Longrightarrow> wf_labels ls"
  by (induction rule: name_seg.induct) (auto simp: wf_labels_def)

lemma name_seg_mono: "name_seg msg lim s i ls \<Longrightarrow> lim \<le> lim' \<Longrightarrow> name_seg msg lim' s i ls"
proof (induction arbitrary: lim' rule: name_seg.induct)
  case (seg_pointer i lim t s ls)
  then show ?case by (intro name_seg.seg_pointer [of i lim' msg t s ls]) auto
qed (auto intro: name_seg.intros)

lemma name_seg_start: "name_seg msg lim s i ls \<Longrightarrow> s \<le> s' \<Longrightarrow> s' \<le> i \<Longrightarrow> name_seg msg lim s' i ls"
proof (induction arbitrary: s' rule: name_seg.induct)
  case (seg_label i l lim s ls)
  then show ?case by (intro name_seg.seg_label) auto
next
  case (seg_pointer i lim t s ls)
  then show ?case by (intro name_seg.seg_pointer [of i lim msg t s' ls]) (auto intro: name_seg_mono)
qed (auto intro: name_seg.intros)

lemma take_eq_nth: "take n xs = take n ys \<Longrightarrow> i < n \<Longrightarrow> n \<le> length xs \<Longrightarrow> n \<le> length ys \<Longrightarrow> xs ! i = ys ! i"
  by (metis nth_take)

lemma take_eq_slice:
  assumes "take n xs = take n ys" and "i + k \<le> n" and "n \<le> length xs" and "n \<le> length ys"
  shows "take k (drop i xs) = take k (drop i ys)"
proof -
  have "take k (drop i (take n xs)) = take k (drop i (take n ys))" using assms(1) by simp
  moreover have "k \<le> n - i" using assms(2) by simp
  ultimately show ?thesis by (simp add: drop_take min_absorb1)
qed

lemma name_seg_cong:
  "name_seg msg lim s i ls \<Longrightarrow> take lim msg = take lim msg' \<Longrightarrow> lim \<le> length msg \<Longrightarrow> lim \<le> length msg' \<Longrightarrow>
   name_seg msg' lim s i ls"
proof (induction rule: name_seg.induct)
  case (seg_root i lim s)
  then show ?case using take_eq_nth [of lim msg msg' i] by (auto intro: name_seg.seg_root)
next
  case (seg_label i l lim s ls)
  then show ?case
    using take_eq_nth [of lim msg msg' i] take_eq_slice [of lim msg msg' "i + 1" "length l"]
    by (intro name_seg.seg_label) auto
next
  case (seg_pointer i lim t s ls)
  have s: "s \<le> lim" using seg_pointer.hyps by linarith
  then have "take s msg = take s (take lim msg)" "take s msg' = take s (take lim msg')" by simp_all
  with seg_pointer.prems(1) have "take s msg = take s msg'" by simp
  then have "name_seg msg' s t t ls" using s seg_pointer.prems(2,3) by (intro seg_pointer.IH) linarith+
  moreover have "msg' ! i = msg ! i" "msg' ! (i + 1) = msg ! (i + 1)"
    using seg_pointer take_eq_nth [of lim msg msg' i] take_eq_nth [of lim msg msg' "i + 1"] by auto
  ultimately show ?case using seg_pointer.hyps
    by (intro name_seg.seg_pointer [of i lim msg' t s ls]) simp_all
qed

lemma name_seg_less: "name_seg msg lim s i ls \<Longrightarrow> i < lim"
  by (induction rule: name_seg.induct) auto

subsection \<open>Unpacking finds such a name\<close>

lemma ptr_byte: "(n :: byte) AND NS_CMPRSFLGS = NS_CMPRSFLGS \<Longrightarrow> n \<noteq> 0 \<and> n AND NS_CMPRSFLGS \<noteq> 0"
  by (auto simp: NS_CMPRSFLGS_def)

lemma unpack_loop_seg:
  assumes "name_seg msg lim s i ls" and "lim \<le> length msg" and "s \<le> i"
    and "checked \<le> length msg - lim + (i - s)" and "length out + length (wire ls) \<le> siz"
  shows "\<exists>n. unpack_loop msg src siz i len checked out = Ret (Some (n, out @ wire ls))"
  using assms
proof (induction arbitrary: len checked out rule: name_seg.induct)
  case (seg_root i lim s)
  then show ?case by (subst unpack_loop.simps) (simp add: Let_def)
next
  case (seg_label i l lim s ls)
  let ?n = "word_of_nat (length l) :: byte"
  note b = length_byte [OF seg_label.hyps(2,3)]
  have "\<exists>n. unpack_loop msg src siz (i + 1 + length l) len (checked + length l + 1) (out @ ?n # l) =
      Ret (Some (n, (out @ ?n # l) @ wire ls))"
    by (rule seg_label.IH) (use seg_label.prems seg_label.hyps in auto)
  moreover have "\<not> siz \<le> Suc (length out + length l)"
    using wire_length_pos [of ls] seg_label.prems(4) by (simp del: length_greater_0_conv)
  moreover have "i + 1 + length l < length msg" "i < length msg"
    using name_seg_less [OF seg_label.hyps(6)] seg_label.prems(1) by auto
  ultimately show ?case using seg_label.hyps(1,5) b
    by (subst unpack_loop.simps) (simp add: Let_def)
next
  case (seg_pointer i lim t s ls)
  note p = ptr_byte [OF seg_pointer.hyps(2)]
  define len' where "len' = (if len < 0 then int (i + 1) - int src + 1 else len)"
  have "\<exists>n. unpack_loop msg src siz t len' (checked + 2) out = Ret (Some (n, out @ wire ls))"
    by (rule seg_pointer.IH) (use seg_pointer.prems seg_pointer.hyps in auto)
  moreover have "t < length msg" "i + 1 < length msg" "checked + 2 < length msg"
    using seg_pointer.prems seg_pointer.hyps by auto
  ultimately show ?case using seg_pointer.hyps(2,3) p
    by (subst unpack_loop.simps, cases "len < 0") (simp_all add: Let_def len'_def algebra_simps)
qed

subsection \<open>Searching the packed names\<close>

definition lower :: "byte list list \<Rightarrow> byte list list" where
  "lower ls = map (map mklower) ls"

lemma lower_simps [simp]: "lower [] = []" "lower (l # ls) = map mklower l # lower ls"
  by (simp_all add: lower_def)

lemma lower_eq_Ret:
  "length a = length b \<Longrightarrow> lower_eq (length a) (a @ x) (b @ y) = Ret (map mklower a = map mklower b)"
  by (induction a b rule: list_induct2) auto

lemma name_seg_zero: "name_seg msg lim s i ls \<Longrightarrow> msg ! i = 0 \<Longrightarrow> ls = []"
  by (erule name_seg.cases) (auto simp: length_byte NS_CMPRSFLGS_def)

lemma word_of_length_eq:
  "length a \<le> 63 \<Longrightarrow> length b \<le> 63 \<Longrightarrow> (word_of_nat (length a) :: byte) = word_of_nat (length b) \<longleftrightarrow> length a = length b"
  by (auto simp: word_of_nat_eq_iff take_bit_nat_eq_self)

lemma wire_first: "(wire ls @ r) ! 0 = 0 \<longleftrightarrow> ls = []" if "wf_labels ls"
  using that by (cases ls) (auto simp: length_byte)

lemma dn_round_label:
  assumes "msg ! i = word_of_nat (length l)" and "l \<noteq> []" and "length l \<le> 63" and "i + length l + 1 < length msg"
    and "take (length l) (drop (i + 1) msg) = l" and "wf_labels (k # ks)"
  shows "dn_round msg (wire (k # ks) @ rest) i =
    (if map mklower l \<noteq> map mklower k then Ret (Inl DN_NEXT)
     else if ks \<noteq> [] then Ret (Inr (wire ks @ rest, i + 1 + length l))
     else Ret (Inl (if msg ! (i + 1 + length l) = 0 then DN_MATCH else DN_NEXT)))"
proof -
  note b = length_byte [OF assms(2,3)]
  have k: "length k \<le> 63" "wf_labels ks" using assms(6) by auto
  have len: "map mklower l = map mklower k \<Longrightarrow> length l = length k" by (metis length_map)
  have d: "drop (i + 1) msg = l @ drop (i + 1 + length l) msg"
    using append_take_drop_id [of "length l" "drop (i + 1) msg"] assms(5) by (simp add: add.commute)
  show ?thesis
  proof (cases "length l = length k")
    case False
    then have "dn_round msg (wire (k # ks) @ rest) i = Ret (Inl DN_NEXT)"
      using assms(1,4) b word_of_length_eq [OF assms(3) k(1)] by (simp add: dn_round_def)
    with False len show ?thesis by auto
  next
    case True
    have "lower_eq (length l) (k @ wire ks @ rest) (drop (i + 1) msg) = Ret (map mklower k = map mklower l)"
      unfolding d True using lower_eq_Ret [of k l] True by simp
    moreover have "(wire (k # ks) @ rest) ! (1 + length l) = (wire ks @ rest) ! 0"
      using True by (simp add: nth_append)
    moreover have "1 + length l < length (wire (k # ks) @ rest)"
      using True wire_length_pos [of ks] by (simp del: length_greater_0_conv)
    ultimately show ?thesis
      using True assms(1,4) b wire_first [OF k(2), of rest] by (auto simp: dn_round_def)
  qed
qed

lemma dn_match_sound:
  assumes "name_seg msg lim s i ks" and "lim \<le> length msg" and "wf_labels ls" and "ls \<noteq> []"
  shows "\<exists>r. dn_match msg (wire ls @ rest) i = Some (Ret r) \<and> r \<noteq> DN_ILLEGAL \<and>
    (r = DN_MATCH \<longrightarrow> lower ks = lower ls)"
  using assms
proof (induction arbitrary: ls rule: name_seg.induct)
  case (seg_root i lim s)
  then have "dn_round msg (wire ls @ rest) i = Ret (Inl DN_NEXT)" by (simp add: dn_round_def)
  then show ?case by (simp add: dn_match.simps)
next
  case (seg_label i l lim s ks)
  obtain k ls' where ls: "ls = k # ls'" using seg_label.prems(3) by (cases ls) auto
  have less: "i + length l + 1 < length msg"
    using name_seg_less [OF seg_label.hyps(6)] seg_label.prems(1) by simp
  note round = dn_round_label [OF seg_label.hyps(1-3) less seg_label.hyps(5), of k ls' rest, folded ls, OF seg_label.prems(2)]
  show ?case
  proof (cases "map mklower l = map mklower k \<and> ls' \<noteq> []")
    case True
    have "\<exists>r. dn_match msg (wire ls' @ rest) (i + 1 + length l) = Some (Ret r) \<and> r \<noteq> DN_ILLEGAL \<and>
        (r = DN_MATCH \<longrightarrow> lower ks = lower ls')"
      by (rule seg_label.IH) (use seg_label.prems ls True in auto)
    with True show ?thesis unfolding dn_match.simps [of msg "wire ls @ rest"] round by (simp add: ls)
  next
    case False
    have "lower ks = []" if "msg ! (i + 1 + length l) = 0"
      using name_seg_zero [OF seg_label.hyps(6) that] by simp
    with False show ?thesis unfolding dn_match.simps [of msg "wire ls @ rest"] round by (auto simp: ls)
  qed
next
  case (seg_pointer i lim t s ks)
  have r: "dn_round msg (wire ls @ rest) i = Ret (Inr (wire ls @ rest, t))"
    using seg_pointer.hyps seg_pointer.prems(1) ptr_byte [OF seg_pointer.hyps(2)] by (simp add: dn_round_def)
  have "\<exists>r. dn_match msg (wire ls @ rest) t = Some (Ret r) \<and> r \<noteq> DN_ILLEGAL \<and>
      (r = DN_MATCH \<longrightarrow> lower ks = lower ls)"
    by (rule seg_pointer.IH) (use seg_pointer in auto)
  then show ?case by (subst dn_match.simps) (simp add: r)
qed

text \<open>What the pointers of an array stand for: names below \<open>lim\<close>, within reach of a pointer.\<close>

definition packed_names :: "byte list \<Rightarrow> nat \<Rightarrow> nat list \<Rightarrow> bool" where
  "packed_names msg lim ps \<longleftrightarrow> (\<forall>p \<in> set ps. p < 0x4000 \<and> (\<exists>ks. name_seg msg lim p p ks))"

lemma dn_find_sound:
  assumes "packed_names msg lim ps" and "lim \<le> length msg" and "wf_labels ls" and "ls \<noteq> []"
  shows "\<exists>r. dn_find (wire ls @ rest) msg ps = Ret r \<and>
    (\<forall>p. r = Some p \<longrightarrow> p < 0x4000 \<and> (\<exists>ks. name_seg msg lim p p ks \<and> lower ks = lower ls))"
  using assms(1)
proof (induction ps)
  case Nil
  then show ?case by simp
next
  case (Cons p ps)
  obtain ks where ks: "name_seg msg lim p p ks" "p < 0x4000" using Cons.prems by (auto simp: packed_names_def)
  from dn_match_sound [OF ks(1) assms(2-4), of rest] obtain r where
    r: "dn_match msg (wire ls @ rest) p = Some (Ret r)" "r \<noteq> DN_ILLEGAL" "r = DN_MATCH \<longrightarrow> lower ks = lower ls"
    by blast
  have "packed_names msg lim ps" using Cons.prems by (simp add: packed_names_def)
  from Cons.IH [OF this] ks r show ?case by (cases r) auto
qed

lemma pack_legal_Ret:
  "wf_labels ls \<Longrightarrow> pack_legal (wire ls @ rest) l = Ret (l + length (wire ls) \<le> MAXCDNAME)"
proof (induction ls arbitrary: l)
  case Nil
  then show ?case by auto
next
  case (Cons k ls)
  have "0 < length (wire ls)" by (rule wire_length_pos)
  with Cons length_byte [of k] show ?case by (auto simp del: length_greater_0_conv simp: not_less)
qed
subsection \<open>Packing builds such a name\<close>

lemma pointer_bytes:
  assumes "l < 0x4000"
  shows "(word_of_nat (l div 256) OR NS_CMPRSFLGS :: byte) AND NS_CMPRSFLGS = NS_CMPRSFLGS"
    and "unat ((word_of_nat (l div 256) OR NS_CMPRSFLGS :: byte) AND 0x3F) * 256 +
           unat (word_of_nat (l mod 256) :: byte) = l"
proof -
  let ?w = "word_of_nat (l div 256) :: byte"
  show "(?w OR NS_CMPRSFLGS) AND NS_CMPRSFLGS = NS_CMPRSFLGS"
    by (rule bit_word_eqI) (auto simp: bit_simps)
  have "l div 256 < 64" using assms by (simp add: less_mult_imp_div_less)
  then have u: "unat ?w = l div 256" by (simp add: unat_of_nat)
  have "(?w OR NS_CMPRSFLGS) AND 0x3F = take_bit 6 ?w"
  proof -
    have m: "(0x3F :: byte) = mask 6" by (simp add: mask_numeral)
    show ?thesis unfolding NS_CMPRSFLGS_def C0_mask m
      by (intro bit_word_eqI) (auto simp: bit_simps)
  qed
  moreover have "unat (take_bit 6 ?w) = l div 256"
    unfolding unsigned_take_bit_eq u using \<open>l div 256 < 64\<close> by (intro take_bit_nat_eq_self) simp
  moreover have "unat (word_of_nat (l mod 256) :: byte) = l mod 256" by (simp add: unat_of_nat)
  ultimately show "unat ((?w OR NS_CMPRSFLGS) AND 0x3F) * 256 + unat (word_of_nat (l mod 256) :: byte) = l"
    by simp
qed

lemma wrs_Ret: "i + length bs \<le> length buf \<Longrightarrow>
    \<exists>buf'. wrs buf i bs = Ret buf' \<and> length buf' = length buf \<and> take i buf' = take i buf \<and>
      take (length bs) (drop i buf') = bs"
  by (simp add: wrs_def)

text \<open>What a call with the labels \<open>ls\<close> at \<open>dstp\<close> leaves behind.\<close>

definition pack_post ::
    "nat list \<Rightarrow> nat list \<Rightarrow> nat \<Rightarrow> nat \<Rightarrow> byte list \<Rightarrow> nat \<Rightarrow> byte list list \<Rightarrow> packed \<Rightarrow> bool" where
  "pack_post dnptrs ptrs dst eob buf dstp ls = (\<lambda>(r, buf', ptrs').
     length buf' = length buf \<and> take dstp buf' = take dstp buf \<and>
     (case r of
        None \<Rightarrow> ptrs' = dnptrs
      | Some k \<Rightarrow> dstp < dst + k \<and> dst + k \<le> eob \<and> skip_loop buf' dstp = Some (dst + k) \<and>
          (\<exists>ks. name_seg buf' (dst + k) dst dstp ks \<and> lower ks = lower ls) \<and>
          (\<exists>new. ptrs' = ptrs @ new \<and>
             (\<forall>p \<in> set new. dstp \<le> p \<and> p < 0x4000 \<and> (\<exists>ks. name_seg buf' (dst + k) dst p ks)))))"

lemma pack_pointer:
  assumes "name_seg buf dst l l ks" and "l < 0x4000" and "lower ks = lower ls" and "dst \<le> dstp"
    and "dstp + 1 < eob" and "eob \<le> length buf"
  shows "\<exists>buf'. wrs buf dstp [word_of_nat (l div 256) OR NS_CMPRSFLGS, word_of_nat (l mod 256)] = Ret buf' \<and>
    pack_post dnptrs ptrs dst eob buf dstp ls (Some (dstp + 2 - dst), buf', ptrs)"
proof -
  let ?bs = "[word_of_nat (l div 256) OR NS_CMPRSFLGS, word_of_nat (l mod 256)] :: byte list"
  obtain buf' where w: "wrs buf dstp ?bs = Ret buf'" "length buf' = length buf" "take dstp buf' = take dstp buf"
      "take 2 (drop dstp buf') = ?bs" using wrs_Ret [of dstp ?bs buf] assms(5,6) by (auto simp: numeral_2_eq_2)
  have b: "buf' ! dstp = ?bs ! 0" "buf' ! (dstp + 1) = ?bs ! 1"
    using w(2,4) assms(5,6) nth_take [of 0 2 "drop dstp buf'"] nth_take [of 1 2 "drop dstp buf'"] by auto
  have "take dst buf = take dst buf'" using arg_cong [OF w(3), of "take dst"] assms(4) by (simp add: min_absorb1)
  then have "name_seg buf' dst l l ks" using assms w(2) by (intro name_seg_cong [OF assms(1)]) auto
  then have "name_seg buf' (dstp + 2) dst dstp ks"
    using b pointer_bytes [OF assms(2)] name_seg_less [OF assms(1)] assms(4)
    by (intro name_seg.seg_pointer [of dstp _ buf' l]) auto
  moreover have "skip_loop buf' dstp = Some (dstp + 2)"
    using b pointer_bytes(1) [OF assms(2)] ptr_byte w(2) assms(5,6) by (subst skip_loop.simps) (simp add: Let_def)
  ultimately show ?thesis using w assms(3-5) unfolding pack_post_def by (intro exI [of _ buf']) auto
qed

lemma pack_root:
  assumes "dst \<le> dstp" and "dstp + 1 < eob" and "eob \<le> length buf"
  shows "\<exists>buf'. wrs buf dstp [0] = Ret buf' \<and>
    pack_post dnptrs ptrs dst eob buf dstp [] (Some (dstp + 1 - dst), buf', ptrs)"
proof -
  obtain buf' where w: "wrs buf dstp [0] = Ret buf'" "length buf' = length buf" "take dstp buf' = take dstp buf"
      "take 1 (drop dstp buf') = [0]" using wrs_Ret [of dstp "[0]" buf] assms by auto
  have b: "buf' ! dstp = 0" using w(2,4) assms nth_take [of 0 1 "drop dstp buf'"] by auto
  have "name_seg buf' (dstp + 1) dst dstp []" using b by (intro name_seg.seg_root) auto
  moreover have "skip_loop buf' dstp = Some (dstp + 1)"
    using b w(2) assms by (subst skip_loop.simps) (simp add: Let_def)
  ultimately show ?thesis using w assms unfolding pack_post_def by (intro exI [of _ buf']) auto
qed

lemma pack_label:
  assumes "l \<noteq> []" and "length l \<le> 63" and "dst \<le> dstp" and "dstp + 1 + length l < eob" and "eob \<le> length buf"
    and "wrs buf dstp (word_of_nat (length l) # l) = Ret buf1"
    and "pack_post dnptrs ptrs1 dst eob buf1 (dstp + length l + 1) ls (r, buf', ptrs')"
    and "ptrs1 = (if c \<and> dstp < 0x4000 then ptrs @ [dstp] else ptrs)"
  shows "pack_post dnptrs ptrs dst eob buf dstp (l # ls) (r, buf', ptrs')"
proof -
  let ?n = "word_of_nat (length l) :: byte" and ?d = "dstp + length l + 1"
  have w: "length buf1 = length buf" "take dstp buf1 = take dstp buf" "take (length l + 1) (drop dstp buf1) = ?n # l"
    using wrs_Ret [of dstp "?n # l" buf] assms(4-6) by auto
  have post: "length buf' = length buf1" "take ?d buf' = take ?d buf1"
    using assms(7) by (auto simp: pack_post_def)
  have tk: "take dstp buf' = take dstp buf"
    using arg_cong [OF post(2), of "take dstp"] w(2) by (simp add: min_absorb1)
  have "take (length l + 1) (drop dstp buf') = take (length l + 1) (drop dstp buf1)"
    by (rule take_eq_slice [OF post(2)]) (use post(1) w(1) assms(4,5) in auto)
  then have nl: "take (length l + 1) (drop dstp buf') = ?n # l" using w(3) by simp
  have len: "length buf' = length buf" "dstp < length buf" using post w(1) assms(4,5) by auto
  then have dr: "drop dstp buf' = buf' ! dstp # drop (dstp + 1) buf'" by (simp add: Cons_nth_drop_Suc)
  have b: "buf' ! dstp = ?n" "take (length l) (drop (dstp + 1) buf') = l" using nl unfolding dr by auto
  note lb = length_byte [OF assms(1,2)]
  have sk: "skip_loop buf' dstp = skip_loop buf' ?d"
    using len b lb by (subst skip_loop.simps) (simp add: Let_def add.commute)
  have na: "name_seg buf' lim dst dstp (l # ks)" if "name_seg buf' lim dst ?d ks" for lim ks
    by (rule name_seg.seg_label)
       (use that b assms(1,2) name_seg_less [OF that] in \<open>auto simp: add.commute add.left_commute\<close>)
  show ?thesis
  proof (cases r)
    case None
    with assms(7) tk len show ?thesis by (simp add: pack_post_def)
  next
    case (Some k)
    from assms(7) Some obtain ks new where p: "?d < dst + k" "dst + k \<le> eob" "skip_loop buf' ?d = Some (dst + k)"
        "name_seg buf' (dst + k) dst ?d ks" "lower ks = lower ls" "ptrs' = ptrs1 @ new"
        "\<forall>p \<in> set new. ?d \<le> p \<and> p < 0x4000 \<and> (\<exists>ks. name_seg buf' (dst + k) dst p ks)"
      by (auto simp: pack_post_def)
    let ?new = "(if c \<and> dstp < 0x4000 then [dstp] else []) @ new"
    have "ptrs' = ptrs @ ?new" using p(6) assms(8) by simp
    moreover have "\<forall>p \<in> set ?new. dstp \<le> p \<and> p < 0x4000 \<and> (\<exists>ks. name_seg buf' (dst + k) dst p ks)"
      using p(7) na [OF p(4)] by auto
    moreover have "\<exists>ks. name_seg buf' (dst + k) dst dstp ks \<and> lower ks = lower (l # ls)"
      using na [OF p(4)] p(5) by (intro exI [of _ "l # ks"]) simp
    moreover have "dstp < dst + k" using p(1) by simp
    moreover have "skip_loop buf' dstp = Some (dst + k)" using sk p(3) by simp
    ultimately show ?thesis unfolding pack_post_def prod.case Some option.case
      using p(2) tk len(1) by blast
  qed
qed
lemma pack_loop_post:
  assumes "wf_labels ls" and "c \<longrightarrow> packed_names buf dst dnptrs" and "dst \<le> dstp" and "eob \<le> length buf"
    and "dst \<le> length buf"
  shows "\<exists>p. pack_loop c dnptrs lastp dst eob (wire ls @ rest) buf dstp ptrs = Ret p \<and>
    pack_post dnptrs ptrs dst eob buf dstp ls p"
  using assms
proof (induction ls arbitrary: buf dstp ptrs)
  case Nil
  show ?case
  proof (cases "dstp + 1 \<ge> eob")
    case True
    then show ?thesis by (simp add: pack_post_def)
  next
    case False
    with pack_root [of dst dstp eob buf dnptrs ptrs] Nil.prems obtain buf' where
      "wrs buf dstp [0] = Ret buf'" "pack_post dnptrs ptrs dst eob buf dstp [] (Some (dstp + 1 - dst), buf', ptrs)"
      by auto
    with False show ?thesis by simp
  qed
next
  case (Cons l ls)
  let ?n = "word_of_nat (length l) :: byte"
  note lb = length_byte [of l]
  have l: "l \<noteq> []" "length l \<le> 63" "wf_labels ls" using Cons.prems(1) by auto
  obtain f where f: "(if ?n \<noteq> 0 \<and> c then dn_find (?n # l @ wire ls @ rest) buf dnptrs else Ret None) = Ret f"
      "\<forall>p. f = Some p \<longrightarrow> p < 0x4000 \<and> (\<exists>ks. name_seg buf dst p p ks \<and> lower ks = lower (l # ls))"
  proof (cases c)
    case True
    with Cons.prems dn_find_sound [of buf dst dnptrs "l # ls" rest] that lb l show ?thesis by fastforce
  qed (use that [of None] in auto)
  note loop = pack_loop.simps(2) [of c dnptrs lastp dst eob ?n "l @ wire ls @ rest" buf dstp ptrs,
      unfolded f(1) cbind.simps]
  have src: "wire (l # ls) @ rest = ?n # l @ wire ls @ rest" by simp
  show ?case
  proof (cases f)
    case (Some p)
    from f(2) Some obtain ks where ks: "p < 0x4000" "name_seg buf dst p p ks" "lower ks = lower (l # ls)" by auto
    show ?thesis
    proof (cases "dstp + 1 \<ge> eob")
      case True
      with Some show ?thesis unfolding src loop by (simp add: pack_post_def)
    next
      case False
      with pack_pointer [OF ks(2,1,3) Cons.prems(3), of eob dnptrs ptrs] Cons.prems(4) Some show ?thesis
        unfolding src loop by auto
    qed
  next
    case None
    define ptrs1 where "ptrs1 = (if ?n \<noteq> 0 \<and> c \<and>
        (case lastp of None \<Rightarrow> False | Some lst \<Rightarrow> length ptrs + 1 < lst - 1) \<and> dstp < 0x4000
      then ptrs @ [dstp] else ptrs)"
    have step: "pack_loop c dnptrs lastp dst eob (?n # l @ wire ls @ rest) buf dstp ptrs =
        (if dstp + 1 + length l \<ge> eob then Ret (None, buf, dnptrs)
         else cbind (wrs buf dstp (?n # l)) (\<lambda>buf.
           pack_loop c dnptrs lastp dst eob (wire ls @ rest) buf (dstp + length l + 1) ptrs1))"
      unfolding loop ptrs1_def using None lb l by (simp add: Let_def)
    show ?thesis
    proof (cases "dstp + 1 + length l \<ge> eob")
      case True
      with step show ?thesis unfolding src by (simp add: pack_post_def)
    next
      case False
      then obtain buf1 where w: "wrs buf dstp (?n # l) = Ret buf1" "length buf1 = length buf"
          "take dstp buf1 = take dstp buf" using wrs_Ret [of dstp "?n # l" buf] Cons.prems(4) by auto
      have "take dst buf = take dst buf1"
        using arg_cong [OF w(3), of "take dst"] Cons.prems(3) by (simp add: min_absorb1)
      then have "c \<longrightarrow> packed_names buf1 dst dnptrs"
        using Cons.prems(2,5) w(2) unfolding packed_names_def by (metis name_seg_cong)
      then obtain p where p: "pack_loop c dnptrs lastp dst eob (wire ls @ rest) buf1 (dstp + length l + 1) ptrs1 = Ret p"
          "pack_post dnptrs ptrs1 dst eob buf1 (dstp + length l + 1) ls p"
        using Cons.IH [of buf1 "dstp + length l + 1" ptrs1] Cons.prems l(3) w(2) by auto
      obtain r buf' ptrs' where pe: "p = (r, buf', ptrs')" by (cases p)
      have "pack_post dnptrs ptrs dst eob buf dstp (l # ls) (r, buf', ptrs')"
        by (rule pack_label [where c = "?n \<noteq> 0 \<and> c \<and>
              (case lastp of None \<Rightarrow> False | Some lst \<Rightarrow> length ptrs + 1 < lst - 1)", OF l(1,2) Cons.prems(3) _ Cons.prems(4) w(1) p(2)[unfolded pe]])
           (use False in \<open>auto simp: ptrs1_def\<close>)
      with step False w(1) p(1) pe show ?thesis unfolding src by simp
    qed
  qed
qed
lemma MRns_name_pack_post:
  assumes "wf_labels ls" and "packed_names buf dst ps" and "dst + dstsiz \<le> length buf"
  shows "\<exists>p. MRns_name_pack (wire ls @ rest) buf dst dstsiz (Some ps) lastp = Ret p \<and>
    (if length (wire ls) \<le> MAXCDNAME then pack_post ps ps dst (dst + dstsiz) buf dst ls p else fst p = None)"
  using pack_loop_post [OF assms(1), of True buf dst ps dst "dst + dstsiz" lastp rest ps] assms(2,3)
    pack_legal_Ret [OF assms(1), of rest 0]
  by (auto simp: MRns_name_pack_def Let_def)

lemma lower_length: "lower ks = lower ls \<Longrightarrow> length (wire ks) = length (wire ls)"
proof (induction ks arbitrary: ls)
  case Nil
  then show ?case by (cases ls) auto
next
  case (Cons k ks)
  then obtain l ls' where ls: "ls = l # ls'" "map mklower k = map mklower l" "lower ks = lower ls'"
    by (cases ls) auto
  have "length k = length l" using ls(2) by (metis length_map)
  with Cons.IH [OF ls(3)] show ?case by (simp add: ls)
qed

lemma pack_post_names:
  assumes "pack_post ps ps dst eob buf dst ls (Some k, buf', ps')" and "packed_names buf dst ps" and "eob \<le> length buf"
  shows "packed_names buf' (dst + k) ps'"
proof -
  from assms(1) obtain new where n: "ps' = ps @ new" "length buf' = length buf" "take dst buf' = take dst buf" "dst + k \<le> eob"
      "\<forall>p \<in> set new. dst \<le> p \<and> p < 0x4000 \<and> (\<exists>ks. name_seg buf' (dst + k) dst p ks)"
    by (auto simp: pack_post_def)
  have old: "name_seg buf' (dst + k) p p ks" if "name_seg buf dst p p ks" for p ks
  proof (rule name_seg_mono [of buf' dst])
    show "name_seg buf' dst p p ks"
      by (rule name_seg_cong [OF that n(3) [symmetric]]) (use n(2,4) assms(3) in linarith)+
  qed simp
  have new: "name_seg buf' (dst + k) p p ks" if "p \<in> set new" "name_seg buf' (dst + k) dst p ks" for p ks
    using n(5) that by (intro name_seg_start [OF that(2)]) auto
  show ?thesis using assms(2) n(1,5) old new unfolding packed_names_def by (metis Un_iff set_append)
qed

lemma unpack_packed:
  assumes "name_seg buf (dst + k) dst dst ks" and "skip_loop buf dst = Some (dst + k)"
    and "dst + k \<le> length buf" and "length (wire ks) \<le> siz"
  shows "MRns_name_unpack buf dst siz = Ret (Some (int k, wire ks))"
proof -
  have less: "dst < length buf" using name_seg_less [OF assms(1)] assms(3) by simp
  obtain n where n: "unpack_loop buf dst siz dst (- 1) 0 [] = Ret (Some (n, wire ks))"
    using unpack_loop_seg [OF assms(1,3), of 0 "[]" siz dst "- 1"] assms(4) by auto
  have "0 < siz" using assms(4) wire_length_pos [of ks] by linarith
  with unpack_loop_sound [OF less, of "[]" siz "- 1" dst 0] n assms(2) have "n = int k" by auto
  with n less show ?thesis by (simp add: MRns_name_unpack_def)
qed

lemma ntol_loop_Ret:
  assumes "wf_labels ls" and "length out < siz"
  shows "ntol_loop siz (wire ls @ rest) out =
    Ret (if length out + length (wire ls) \<le> siz then Some (out @ wire (lower ls)) else None)"
  using assms
proof (induction ls arbitrary: out)
  case Nil
  then show ?case by simp
next
  case (Cons l ls)
  note lb = length_byte [of l]
  have l: "l \<noteq> []" "length l \<le> 63" "wf_labels ls" using Cons.prems(1) by auto
  have w: "0 < length (wire ls)" by (rule wire_length_pos)
  let ?n = "word_of_nat (length l) :: byte"
  show ?case
  proof (cases "length out + 1 + length l \<ge> siz")
    case True
    with l lb w Cons.prems(2) show ?thesis by (auto simp del: length_greater_0_conv)
  next
    case False
    have "ntol_loop siz (wire ls @ rest) (out @ ?n # map mklower l) =
        Ret (if length (out @ ?n # map mklower l) + length (wire ls) \<le> siz
             then Some ((out @ ?n # map mklower l) @ wire (lower ls)) else None)"
      by (rule Cons.IH) (use False l in auto)
    with False l lb Cons.prems(2) show ?thesis by simp
  qed
qed
section \<open>Properties\<close>

text \<open>
  C22. The text \<open>MRns_name_ntop\<close> makes of a well-formed name, with its escapes for special and
  unprintable bytes, is read back by \<open>MRns_name_pton\<close> as exactly the same name, in a destination
  that is large enough; nothing after the name is touched. Only the root comes back as fully
  qualified.
\<close>

theorem name_text_round_trip:
  assumes "wf_labels ls" and "length (wire ls) \<le> MAXCDNAME" and "length (name_text ls) < siz"
    and "length (wire ls) \<le> dstsiz" and "dstsiz \<le> length dst"
  shows "\<exists>t. MRns_name_ntop (wire ls @ rest) siz = Ret (Some t) \<and>
    MRns_name_pton t dst dstsiz = Ret (if ls = [] then 1 else 0, wire ls @ drop (length (wire ls)) dst)"
proof -
  have "MRns_name_ntop (wire ls @ rest) siz = Ret (Some (name_text ls @ [0]))"
    using MRns_name_ntop_Ret [OF assms(1)] assms(3) by simp
  with MRns_name_pton_text [OF assms(1,4,2,5), of "[]"] show ?thesis by auto
qed

definition ex_labels :: "byte list list" where
  "ex_labels = [[0x61, 0x2E, 0x07], [0x62]]"

lemma ex_labels_wf: "wf_labels ex_labels"
  by (simp add: ex_labels_def wf_labels_def)

lemma ex_labels_wire: "wire ex_labels = [3, 0x61, 0x2E, 0x07, 1, 0x62, 0]"
  by (simp add: ex_labels_def)

theorem name_text_round_trip_witness:
  "\<exists>t. MRns_name_ntop (wire ex_labels @ [9]) 20 = Ret (Some t) \<and>
    MRns_name_pton t (replicate 9 0) 9 =
      Ret (if ex_labels = [] then 1 else 0, wire ex_labels @ drop (length (wire ex_labels)) (replicate 9 0))"
  by (rule name_text_round_trip [OF ex_labels_wf])
     (simp_all add: ex_labels_wire MAXCDNAME_def, simp add: ex_labels_def name_text_def escape_def special_def printable_def)

text \<open>
  \<open>MRns_name_ntop\<close> on a well-formed name never writes outside a destination of the given size: it
  gives the text and its terminating 0 exactly when both fit, and fails otherwise.
\<close>

theorem ntop_exact:
  assumes "wf_labels ls"
  shows "MRns_name_ntop (wire ls @ rest) siz =
    Ret (if length (name_text ls) < siz then Some (name_text ls @ [0]) else None)"
  by (rule MRns_name_ntop_Ret [OF assms])

theorem ntop_exact_witness:
  "MRns_name_ntop (wire ex_labels @ [9]) 5 =
    Ret (if length (name_text ex_labels) < 5 then Some (name_text ex_labels @ [0]) else None)"
  by (rule ntop_exact [OF ex_labels_wf])

text \<open>
  C20. \<open>MRns_name_unpack\<close> is safe on every message, also on one made to attack it: for any position and
  any destination that is not empty it ends, reads and writes only inside its buffers, and if it
  succeeds the result is a well-formed name with the labels that the message has there, pointers
  followed, and the number of bytes consumed is what \<open>MRns_name_skip\<close> skips.
\<close>

theorem unpack_safe:
  assumes "0 < dstsiz"
  shows "\<exists>r. MRns_name_unpack msg src dstsiz = Ret r \<and>
    (\<forall>n out. r = Some (n, out) \<longrightarrow>
       (\<exists>ls. name_at msg src ls \<and> wf_labels ls \<and> out = wire ls \<and> length out \<le> dstsiz) \<and>
       MRns_name_skip msg src = Some (nat (int src + n)))"
proof (cases "src < length msg")
  case True
  from unpack_loop_sound [OF True, of "[]" dstsiz "- 1" src 0] assms obtain r where
    r: "unpack_loop msg src dstsiz src (- 1) 0 [] = Ret r"
      "\<forall>n out. r = Some (n, out) \<longrightarrow>
         (\<exists>ls. name_at msg src ls \<and> wf_labels ls \<and> out = wire ls \<and> length out \<le> dstsiz) \<and>
         (\<exists>cp. skip_loop msg src = Some cp \<and> cp \<le> length msg \<and> n = int cp - int src)" by auto
  with True show ?thesis
    by (fastforce simp: MRns_name_unpack_def MRns_name_skip_def)
qed (simp add: MRns_name_unpack_def)

theorem unpack_safe_witness:
  "\<exists>r. MRns_name_unpack [0xC0, 0] 0 255 = Ret r \<and>
    (\<forall>n out. r = Some (n, out) \<longrightarrow>
       (\<exists>ls. name_at [0xC0, 0] 0 ls \<and> wf_labels ls \<and> out = wire ls \<and> length out \<le> 255) \<and>
       MRns_name_skip [0xC0, 0] 0 = Some (nat (int 0 + n)))"
  by (rule unpack_safe) simp

text \<open>
  C21. Packing and unpacking are inverse up to the case of letters. If the saved pointers lead to names
  packed before, \<open>MRns_name_pack\<close> returns for every well-formed name; when it succeeds, the earlier
  part of the message is unchanged, \<open>MRns_name_unpack\<close> at the new position consumes exactly the bytes
  packed and gives a name that equals the source but for upper and lower case, and the new list of
  pointers is fit for the next call.
\<close>

theorem pack_unpack:
  assumes "wf_labels ls" and "packed_names buf dst ps" and "dst + dstsiz \<le> length buf"
  shows "\<exists>r buf' ps'. MRns_name_pack (wire ls @ rest) buf dst dstsiz (Some ps) lastp = Ret (r, buf', ps') \<and>
    (\<forall>k. r = Some k \<longrightarrow>
       k \<le> dstsiz \<and> take dst buf' = take dst buf \<and> packed_names buf' (dst + k) ps' \<and>
       (\<exists>ks. lower ks = lower ls \<and> MRns_name_unpack buf' dst MAXCDNAME = Ret (Some (int k, wire ks))))"
proof -
  obtain p where p: "MRns_name_pack (wire ls @ rest) buf dst dstsiz (Some ps) lastp = Ret p"
      "if length (wire ls) \<le> MAXCDNAME then pack_post ps ps dst (dst + dstsiz) buf dst ls p else fst p = None"
    using MRns_name_pack_post [OF assms, of rest lastp] by blast
  obtain r buf' ps' where "p = (r, buf', ps')" by (cases p)
  with p have p: "MRns_name_pack (wire ls @ rest) buf dst dstsiz (Some ps) lastp = Ret (r, buf', ps')"
      "if length (wire ls) \<le> MAXCDNAME then pack_post ps ps dst (dst + dstsiz) buf dst ls (r, buf', ps') else r = None"
    by (auto split: if_splits)
  have "k \<le> dstsiz \<and> take dst buf' = take dst buf \<and> packed_names buf' (dst + k) ps' \<and>
       (\<exists>ks. lower ks = lower ls \<and> MRns_name_unpack buf' dst MAXCDNAME = Ret (Some (int k, wire ks)))"
    if r: "r = Some k" for k
  proof -
    have len: "length (wire ls) \<le> MAXCDNAME" using p(2) r by (auto split: if_splits)
    with p(2) r have post: "pack_post ps ps dst (dst + dstsiz) buf dst ls (Some k, buf', ps')" by simp
    then obtain ks where ks: "take dst buf' = take dst buf" "dst + k \<le> dst + dstsiz" "length buf' = length buf"
        "skip_loop buf' dst = Some (dst + k)" "name_seg buf' (dst + k) dst dst ks" "lower ks = lower ls"
      by (auto simp: pack_post_def)
    have "MRns_name_unpack buf' dst MAXCDNAME = Ret (Some (int k, wire ks))"
      by (rule unpack_packed [OF ks(5,4)]) (use ks(2,3) assms(3) len lower_length [OF ks(6)] in auto)
    with ks pack_post_names [OF post assms(2,3)] show ?thesis by auto
  qed
  with p(1) show ?thesis by blast
qed

theorem pack_unpack_witness:
  "\<exists>r buf' ps'. MRns_name_pack (wire ex_labels @ [9]) (replicate 20 0) 0 20 (Some []) (Some 255) = Ret (r, buf', ps') \<and>
    (\<forall>k. r = Some k \<longrightarrow>
       k \<le> 20 \<and> take 0 buf' = take 0 (replicate 20 0) \<and> packed_names buf' (0 + k) ps' \<and>
       (\<exists>ks. lower ks = lower ex_labels \<and> MRns_name_unpack buf' 0 MAXCDNAME = Ret (Some (int k, wire ks))))"
  by (rule pack_unpack [OF ex_labels_wf]) (simp_all add: packed_names_def)

text \<open>
  \<open>MRns_name_ntol\<close> gives the name with all its labels in lower case, in a destination that can
  hold it, and fails in a smaller one without writing past it.
\<close>

theorem ntol_lower:
  assumes "wf_labels ls"
  shows "MRns_name_ntol (wire ls @ rest) dstsiz =
    Ret (if length (wire ls) \<le> dstsiz then Some (wire (lower ls)) else None)"
proof (cases "dstsiz = 0")
  case True
  with wire_length_pos [of ls] show ?thesis by (simp add: MRns_name_ntol_def)
next
  case False
  with ntol_loop_Ret [OF assms, of "[]" dstsiz rest] show ?thesis by (simp add: MRns_name_ntol_def)
qed

theorem ntol_lower_witness:
  "MRns_name_ntol (wire ex_labels @ [9]) 30 =
    Ret (if length (wire ex_labels) \<le> 30 then Some (wire (lower ex_labels)) else None)"
  by (rule ntol_lower [OF ex_labels_wf])

text \<open>
  \<open>MRns_name_uncompress_list\<close> writes one byte past its destination when the names before fill it but
  for one byte and another name follows: the comma takes that byte and the 0 after it is stored
  outside. The list with the names \<open>a\<close> and \<open>b\<close> and a destination of two bytes is such a case.
\<close>

theorem uncompress_list_overflow:
  "MRns_name_uncompress_list [1, 0x61, 0, 1, 0x62, 0] 2 = Undef"
proof -
  let ?buf = "[1, 0x61, 0, 1, 0x62, 0] :: byte list"
  have "name_seg ?buf 3 0 0 [[0x61]]"
    by (rule name_seg.seg_label) (auto intro!: name_seg.seg_root)
  moreover have "skip_loop ?buf 0 = Some 3"
    by (subst skip_loop.simps, simp add: NS_CMPRSFLGS_def, subst skip_loop.simps, simp)
  ultimately have u: "MRns_name_unpack ?buf 0 MAXCDNAME = Ret (Some (3, [1, 0x61, 0]))"
    using unpack_packed [of ?buf 0 3 "[[0x61]]" MAXCDNAME] by (simp add: MAXCDNAME_def)
  have t: "MRns_name_ntop [1, 0x61, 0] 2 = Ret (Some [0x61, 0])"
    using MRns_name_ntop_Ret [of "[[0x61]]" "[]" 2]
    by (simp add: wf_labels_def name_text_def escape_def special_def printable_def)
  have "MRns_name_uncompress ?buf 0 2 = Ret (Some (3, [0x61, 0]))"
    using u t by (simp add: MRns_name_uncompress_def)
  then have "uncompress_list_loop ?buf 2 0 True [] = uncompress_list_loop ?buf 2 3 False [0x61]"
    by (subst uncompress_list_loop.simps) simp
  also have "\<dots> = Undef"
    by (subst uncompress_list_loop.simps) (simp add: put_def)
  finally show ?thesis by (simp add: MRns_name_uncompress_list_def)
qed

end
