(* ===== verification/LeaseQueue.thy ===== *)
theory LeaseQueue
  imports Prelude
begin

text \<open>
  What the two implementations of a pool's lease queues share (\<open>includes/dhcpd.h\<close>): the part of
  \<open>struct lease\<close> they work on, the heap of leases, the reference-counted pointer assignments of
  \<open>omapip/alloc.c\<close>, doubly linked segments, and the interface behind the macros
  \<open>LEASE_INSERTP\<close>, \<open>LEASE_REMOVEP\<close>, \<open>LEASE_GET_FIRSTP\<close>, \<open>LEASE_GET_NEXTP\<close> and
  \<open>LEASE_NOT_EMPTYP\<close> as a locale.
\<close>

section \<open>Leases and the heap\<close>

text \<open>A pointer to a lease is a \<open>nat\<close>, a pointer that may be \<open>NULL\<close> a \<open>nat option\<close>.\<close>

type_synonym ptr = nat

record lease =
  refcnt :: int
  l_next :: "ptr option"
  l_prev :: "ptr option"
  l_lc :: "ptr option"
  sort_time :: int
  sort_tiebreaker :: int

type_synonym 'a heap = "ptr \<Rightarrow> 'a lease_scheme"

text \<open>
  \<open>omapi_object_reference\<close> stores a pointer and counts it, unless the target already holds one:
  then it does nothing. \<open>omapi_object_dereference\<close> clears the pointer and takes the count back; a
  count that is not positive is left alone. The lease whose count reaches 0 is freed; its record
  stays in the model's heap, and no operation below reads a lease it does not hold a pointer to.
\<close>

definition rc_inc :: "'a heap \<Rightarrow> ptr \<Rightarrow> 'a heap" where
  "rc_inc h a = h(a := (h a)\<lparr>refcnt := refcnt (h a) + 1\<rparr>)"

definition rc_dec :: "'a heap \<Rightarrow> ptr \<Rightarrow> 'a heap" where
  "rc_dec h a = (if refcnt (h a) \<le> 0 then h else h(a := (h a)\<lparr>refcnt := refcnt (h a) - 1\<rparr>))"

definition next_reference :: "'a heap \<Rightarrow> ptr \<Rightarrow> ptr \<Rightarrow> 'a heap" where
  "next_reference h x a =
     (case l_next (h x) of Some _ \<Rightarrow> h | None \<Rightarrow> rc_inc (h(x := (h x)\<lparr>l_next := Some a\<rparr>)) a)"

definition next_dereference :: "'a heap \<Rightarrow> ptr \<Rightarrow> 'a heap" where
  "next_dereference h x =
     (case l_next (h x) of None \<Rightarrow> h | Some a \<Rightarrow> rc_dec (h(x := (h x)\<lparr>l_next := None\<rparr>)) a)"

definition prev_reference :: "'a heap \<Rightarrow> ptr \<Rightarrow> ptr \<Rightarrow> 'a heap" where
  "prev_reference h x a =
     (case l_prev (h x) of Some _ \<Rightarrow> h | None \<Rightarrow> rc_inc (h(x := (h x)\<lparr>l_prev := Some a\<rparr>)) a)"

definition prev_dereference :: "'a heap \<Rightarrow> ptr \<Rightarrow> 'a heap" where
  "prev_dereference h x =
     (case l_prev (h x) of None \<Rightarrow> h | Some a \<Rightarrow> rc_dec (h(x := (h x)\<lparr>l_prev := None\<rparr>)) a)"

section \<open>Pointers of a heap\<close>

definition nxt :: "'a heap \<Rightarrow> ptr \<Rightarrow> ptr option" where
  "nxt h a = l_next (h a)"

definition prv :: "'a heap \<Rightarrow> ptr \<Rightarrow> ptr option" where
  "prv h a = l_prev (h a)"

definition lcp :: "'a heap \<Rightarrow> ptr \<Rightarrow> ptr option" where
  "lcp h a = l_lc (h a)"

definition key :: "'a heap \<Rightarrow> ptr \<Rightarrow> int \<times> int" where
  "key h a = (sort_time (h a), sort_tiebreaker (h a))"

definition rc :: "'a heap \<Rightarrow> ptr \<Rightarrow> int" where
  "rc h a = refcnt (h a)"

named_theorems heap_simps \<open>how the pointer assignments change the pointers of a heap\<close>

lemma rc_inc_frame [heap_simps]:
  "nxt (rc_inc h a) = nxt h" "prv (rc_inc h a) = prv h" "lcp (rc_inc h a) = lcp h"
  "key (rc_inc h a) = key h"
  by (auto simp: rc_inc_def nxt_def prv_def lcp_def key_def fun_eq_iff)

lemma rc_dec_frame [heap_simps]:
  "nxt (rc_dec h a) = nxt h" "prv (rc_dec h a) = prv h" "lcp (rc_dec h a) = lcp h"
  "key (rc_dec h a) = key h"
  by (auto simp: rc_dec_def nxt_def prv_def lcp_def key_def fun_eq_iff)

lemma set_next_frame:
  "nxt (h(x := (h x)\<lparr>l_next := v\<rparr>)) = (nxt h)(x := v)"
  "prv (h(x := (h x)\<lparr>l_next := v\<rparr>)) = prv h"
  "lcp (h(x := (h x)\<lparr>l_next := v\<rparr>)) = lcp h"
  "key (h(x := (h x)\<lparr>l_next := v\<rparr>)) = key h"
  by (auto simp: nxt_def prv_def lcp_def key_def fun_eq_iff)

lemma set_prev_frame:
  "nxt (h(x := (h x)\<lparr>l_prev := v\<rparr>)) = nxt h"
  "prv (h(x := (h x)\<lparr>l_prev := v\<rparr>)) = (prv h)(x := v)"
  "lcp (h(x := (h x)\<lparr>l_prev := v\<rparr>)) = lcp h"
  "key (h(x := (h x)\<lparr>l_prev := v\<rparr>)) = key h"
  by (auto simp: nxt_def prv_def lcp_def key_def fun_eq_iff)

lemma set_lc_frame [heap_simps]:
  "nxt (h(x := (h x)\<lparr>l_lc := v\<rparr>)) = nxt h"
  "prv (h(x := (h x)\<lparr>l_lc := v\<rparr>)) = prv h"
  "lcp (h(x := (h x)\<lparr>l_lc := v\<rparr>)) = (lcp h)(x := v)"
  "key (h(x := (h x)\<lparr>l_lc := v\<rparr>)) = key h"
  by (auto simp: nxt_def prv_def lcp_def key_def fun_eq_iff)

lemma next_reference_frame [heap_simps]:
  "nxt (next_reference h x a) = (if nxt h x = None then (nxt h)(x := Some a) else nxt h)"
  "prv (next_reference h x a) = prv h" "lcp (next_reference h x a) = lcp h"
  "key (next_reference h x a) = key h"
  by (auto simp: next_reference_def rc_inc_frame set_next_frame nxt_def [of h] split: option.splits)

lemma next_dereference_frame [heap_simps]:
  "nxt (next_dereference h x) = (nxt h)(x := None)"
  "prv (next_dereference h x) = prv h" "lcp (next_dereference h x) = lcp h"
  "key (next_dereference h x) = key h"
  by (auto simp: next_dereference_def rc_dec_frame set_next_frame nxt_def [of h] fun_eq_iff
      split: option.splits)

lemma prev_reference_frame [heap_simps]:
  "prv (prev_reference h x a) = (if prv h x = None then (prv h)(x := Some a) else prv h)"
  "nxt (prev_reference h x a) = nxt h" "lcp (prev_reference h x a) = lcp h"
  "key (prev_reference h x a) = key h"
  by (auto simp: prev_reference_def rc_inc_frame set_prev_frame prv_def [of h] split: option.splits)

lemma prev_dereference_frame [heap_simps]:
  "prv (prev_dereference h x) = (prv h)(x := None)"
  "nxt (prev_dereference h x) = nxt h" "lcp (prev_dereference h x) = lcp h"
  "key (prev_dereference h x) = key h"
  by (auto simp: prev_dereference_def rc_dec_frame set_prev_frame prv_def [of h] fun_eq_iff
      split: option.splits)

text \<open>How the assignments change the counts.\<close>

lemma rc_rc_inc [heap_simps]: "rc (rc_inc h a) = (rc h)(a := rc h a + 1)"
  by (auto simp: rc_inc_def rc_def fun_eq_iff)

lemma rc_rc_dec [heap_simps]: "rc (rc_dec h a) = (if rc h a \<le> 0 then rc h else (rc h)(a := rc h a - 1))"
  by (auto simp: rc_dec_def rc_def fun_eq_iff)

lemma rc_set_lc [heap_simps]: "rc (h(x := (h x)\<lparr>l_lc := v\<rparr>)) = rc h"
  by (auto simp: rc_def fun_eq_iff)

lemma rc_set_next: "rc (h(x := (h x)\<lparr>l_next := v\<rparr>)) = rc h"
  by (auto simp: rc_def fun_eq_iff)

lemma rc_set_prev: "rc (h(x := (h x)\<lparr>l_prev := v\<rparr>)) = rc h"
  by (auto simp: rc_def fun_eq_iff)

lemma rc_next_reference [heap_simps]:
  "rc (next_reference h x a) = (if nxt h x = None then (rc h)(a := rc h a + 1) else rc h)"
  by (auto simp: next_reference_def rc_rc_inc rc_set_next nxt_def split: option.splits)

lemma rc_prev_reference [heap_simps]:
  "rc (prev_reference h x a) = (if prv h x = None then (rc h)(a := rc h a + 1) else rc h)"
  by (auto simp: prev_reference_def rc_rc_inc rc_set_prev prv_def split: option.splits)

lemma rc_next_dereference [heap_simps]:
  "rc (next_dereference h x) =
     (case nxt h x of None \<Rightarrow> rc h
      | Some a \<Rightarrow> if rc h a \<le> 0 then rc h else (rc h)(a := rc h a - 1))"
  by (auto simp: next_dereference_def rc_rc_dec rc_set_next nxt_def split: option.splits)

lemma rc_prev_dereference [heap_simps]:
  "rc (prev_dereference h x) =
     (case prv h x of None \<Rightarrow> rc h
      | Some a \<Rightarrow> if rc h a \<le> 0 then rc h else (rc h)(a := rc h a - 1))"
  by (auto simp: prev_dereference_def rc_rc_dec rc_set_prev prv_def split: option.splits)

section \<open>Linked segments\<close>

text \<open>
  \<open>dll nx pv p xs n\<close>: the leases \<open>xs\<close> are linked in this order in both directions, the first one
  back to \<open>p\<close> and the last one on to \<open>n\<close>. \<open>sll\<close> is the same for the forward pointers alone.
\<close>

fun seg_head :: "ptr list \<Rightarrow> ptr option \<Rightarrow> ptr option" where
  "seg_head [] n = n"
| "seg_head (x # xs) n = Some x"

fun seg_last :: "ptr list \<Rightarrow> ptr option \<Rightarrow> ptr option" where
  "seg_last [] p = p"
| "seg_last (x # xs) p = seg_last xs (Some x)"

fun sll :: "(ptr \<Rightarrow> ptr option) \<Rightarrow> ptr list \<Rightarrow> ptr option \<Rightarrow> bool" where
  "sll nx [] n = True"
| "sll nx (x # xs) n = (nx x = seg_head xs n \<and> sll nx xs n)"

fun dll :: "(ptr \<Rightarrow> ptr option) \<Rightarrow> (ptr \<Rightarrow> ptr option) \<Rightarrow> ptr option \<Rightarrow> ptr list \<Rightarrow> ptr option \<Rightarrow> bool" where
  "dll nx pv p [] n = True"
| "dll nx pv p (x # xs) n = (pv x = p \<and> nx x = seg_head xs n \<and> dll nx pv (Some x) xs n)"

lemma seg_head_append [simp]: "seg_head (xs @ ys) n = seg_head xs (seg_head ys n)"
  by (cases xs) auto

lemma seg_last_append [simp]: "seg_last (xs @ ys) p = seg_last ys (seg_last xs p)"
  by (induction xs arbitrary: p) auto

lemma seg_last_eq: "seg_last xs p = (if xs = [] then p else Some (last xs))"
  by (induction xs arbitrary: p) auto

lemma sll_append: "sll nx (xs @ ys) n \<longleftrightarrow> sll nx xs (seg_head ys n) \<and> sll nx ys n"
  by (induction xs) auto

lemma dll_append:
  "dll nx pv p (xs @ ys) n \<longleftrightarrow> dll nx pv p xs (seg_head ys n) \<and> dll nx pv (seg_last xs p) ys n"
  by (induction xs arbitrary: p) auto

lemma sll_frame [simp]: "a \<notin> set xs \<Longrightarrow> sll (nx(a := v)) xs n = sll nx xs n"
  by (induction xs) auto

lemma dll_frame_next [simp]: "a \<notin> set xs \<Longrightarrow> dll (nx(a := v)) pv p xs n = dll nx pv p xs n"
  by (induction xs arbitrary: p) auto

lemma dll_frame_prev [simp]: "a \<notin> set xs \<Longrightarrow> dll nx (pv(a := v)) p xs n = dll nx pv p xs n"
  by (induction xs arbitrary: p) auto

lemma dll_sll: "dll nx pv p xs n \<Longrightarrow> sll nx xs n"
  by (induction xs arbitrary: p) auto

lemma dll_nxt_nth:
  "dll nx pv p xs n \<Longrightarrow> i < length xs \<Longrightarrow> nx (xs ! i) = seg_head (drop (Suc i) xs) n"
  by (induction xs arbitrary: p i) (auto simp: nth_Cons split: nat.splits)

section \<open>The interface of a lease queue\<close>

text \<open>
  A queue \<open>q\<close> in a heap \<open>h\<close> holds the leases \<open>xs\<close> in order of \<open>sort_time\<close>. A lease can be inserted
  that is on no queue, and only one that is on the queue can be removed. \<open>r\<close> is what an insertion
  takes from its environment, and \<open>ok\<close> what it needs of that.
\<close>

definition time_sorted :: "'a heap \<Rightarrow> ptr list \<Rightarrow> bool" where
  "time_sorted h xs \<longleftrightarrow> sorted_wrt (\<lambda>a b. sort_time (h a) \<le> sort_time (h b)) xs"

text \<open>The leases met on the way from a pointer, for at most the given number of steps.\<close>

fun walk :: "(ptr \<Rightarrow> ptr option) \<Rightarrow> nat \<Rightarrow> ptr option \<Rightarrow> ptr list" where
  "walk nx 0 p = []"
| "walk nx (Suc k) None = []"
| "walk nx (Suc k) (Some a) = a # walk nx k (nx a)"

locale lease_queue =
  fixes holds :: "'a heap \<Rightarrow> 'q \<Rightarrow> ptr list \<Rightarrow> bool"
    and loose :: "'a heap \<Rightarrow> ptr \<Rightarrow> bool"
    and ok :: "'r \<Rightarrow> bool"
    and insert_lease :: "'r \<Rightarrow> 'a heap \<Rightarrow> 'q \<Rightarrow> ptr \<Rightarrow> ('a heap \<times> 'q) cres"
    and remove_lease :: "'a heap \<Rightarrow> 'q \<Rightarrow> ptr \<Rightarrow> ('a heap \<times> 'q) cres"
    and first_lease :: "'q \<Rightarrow> ptr option cres"
    and next_lease :: "'a heap \<Rightarrow> ptr \<Rightarrow> ptr option"
  assumes holds_sorted: "holds h q xs \<Longrightarrow> time_sorted h xs \<and> distinct xs"
    and insert_holds: "ok r \<Longrightarrow> holds h q xs \<Longrightarrow> loose h a \<Longrightarrow> a \<notin> set xs \<Longrightarrow>
        \<exists>h' q' ys zs. insert_lease r h q a = Ret (h', q') \<and> xs = ys @ zs \<and>
          holds h' q' (ys @ a # zs) \<and> (\<forall>b. sort_time (h' b) = sort_time (h b))"
    and remove_holds: "holds h q (ys @ a # zs) \<Longrightarrow>
        \<exists>h' q'. remove_lease h q a = Ret (h', q') \<and> holds h' q' (ys @ zs) \<and> loose h' a \<and>
          (\<forall>b. sort_time (h' b) = sort_time (h b))"
    and first_holds: "holds h q xs \<Longrightarrow> first_lease q = Ret (seg_head xs None)"
    and next_holds: "holds h q (ys @ a # zs) \<Longrightarrow> next_lease h a = seg_head zs None"
begin

lemma first_is_earliest:
  assumes "holds h q xs" and "a \<in> set xs"
  shows "\<exists>f. first_lease q = Ret (Some f) \<and> f \<in> set xs \<and> sort_time (h f) \<le> sort_time (h a)"
  using assms holds_sorted [OF assms(1)] first_holds [OF assms(1)]
  by (cases xs) (auto simp: time_sorted_def)

lemma insert_then_remove:
  assumes "ok r" and "holds h q xs" and "loose h a" and "a \<notin> set xs"
  shows "\<exists>h' q' h'' q''. insert_lease r h q a = Ret (h', q') \<and> remove_lease h' q' a = Ret (h'', q'') \<and>
           holds h'' q'' xs \<and> loose h'' a"
proof -
  obtain h' q' ys zs where ins: "insert_lease r h q a = Ret (h', q')" "xs = ys @ zs"
      "holds h' q' (ys @ a # zs)"
    using insert_holds [OF assms] by blast
  with remove_holds [OF ins(3)] show ?thesis by auto
qed

text \<open>Walking the queue with the first and the next pointer visits exactly its leases, in order.\<close>

lemma walk_from_holds:
  "holds h q (ys @ zs) \<Longrightarrow> length zs < k \<Longrightarrow> walk (next_lease h) k (seg_head zs None) = zs"
proof (induction zs arbitrary: ys k)
  case Nil
  then show ?case by (cases k) auto
next
  case (Cons a zs)
  then obtain k' where k: "k = Suc k'" "length zs < k'" by (cases k) auto
  have "next_lease h a = seg_head zs None" using next_holds Cons.prems(1) by blast
  with k Cons.IH [of "ys @ [a]" k'] Cons.prems(1) show ?case by simp
qed

lemma insert_then_walk:
  assumes "ok r" and "holds h q xs" and "loose h a" and "a \<notin> set xs"
  shows "\<exists>h' q' f ys zs. insert_lease r h q a = Ret (h', q') \<and> first_lease q' = Ret f \<and> xs = ys @ zs \<and>
           walk (next_lease h') (length xs + 2) f = ys @ a # zs \<and> time_sorted h' (ys @ a # zs)"
proof -
  obtain h' q' ys zs where ins: "insert_lease r h q a = Ret (h', q')" "xs = ys @ zs"
      "holds h' q' (ys @ a # zs)"
    using insert_holds [OF assms] by blast
  have "walk (next_lease h') (length xs + 2) (seg_head (ys @ a # zs) None) = ys @ a # zs"
    by (rule walk_from_holds [of _ _ "[]"]) (use ins in auto)
  with ins first_holds [OF ins(3)] holds_sorted [OF ins(3)] show ?thesis by blast
qed

end

end
