(* ===== verification/LeaseChain.thy ===== *)
theory LeaseChain
  imports LeaseQueue "HOL-Library.Product_Lexorder"
begin

text \<open>
  The lease chains of \<open>server/leasechain.c\<close>: a queue of a pool as an array of lease pointers kept in
  the order of the doubly linked list of the same leases, so that a position is found by binary
  search. The theory has the operations of the file, the representation invariant that ties the
  array to the list, and the interpretation of the queue interface.
\<close>

section \<open>The chain and its operations\<close>

text \<open>
  A chain is known by its address \<open>lc_id\<close>, which the leases on it point back to. \<open>lc_list\<close> is the
  allocated array, all \<open>total\<close> entries of it; the first \<open>nelem\<close> are in use. A chain without an
  array has the empty list. A lease pointer of the array that is \<open>NULL\<close> is \<open>None\<close>, and reading a
  lease through it is \<open>Undef\<close>.
\<close>

record leasechain =
  lc_id :: ptr
  lc_list :: "ptr option list"
  total :: nat
  nelem :: nat
  growth :: nat

definition LC_GROWTH_DELTA :: nat where
  "LC_GROWTH_DELTA = 256"

definition LONG_MAX :: int where
  "LONG_MAX = 2 ^ 63 - 1"

definition SIZE_MAX :: nat where
  "SIZE_MAX = 2 ^ 64 - 1"

definition slot :: "leasechain \<Rightarrow> nat \<Rightarrow> ptr cres" where
  "slot lc i = cbind (rd (lc_list lc) i) (\<lambda>p. case p of None \<Rightarrow> Undef | Some a \<Rightarrow> Ret a)"

definition lc_not_empty :: "leasechain \<Rightarrow> bool" where
  "lc_not_empty lc \<longleftrightarrow> nelem lc > 0"

definition lc_get_first_lease :: "leasechain \<Rightarrow> ptr option cres" where
  "lc_get_first_lease lc = (if nelem lc > 0 then rd (lc_list lc) 0 else Ret None)"

definition lc_get_next :: "'a heap \<Rightarrow> ptr \<Rightarrow> ptr option" where
  "lc_get_next h lp = l_next (h lp)"

text \<open>The comparisons of the two sort fields that the searches make.\<close>

definition sorts_after :: "'a heap \<Rightarrow> ptr \<Rightarrow> ptr \<Rightarrow> bool" where
  "sorts_after h a b \<longleftrightarrow> sort_time (h a) > sort_time (h b) \<or>
     sort_time (h a) = sort_time (h b) \<and> sort_tiebreaker (h a) > sort_tiebreaker (h b)"

definition sorts_differently :: "'a heap \<Rightarrow> ptr \<Rightarrow> ptr \<Rightarrow> bool" where
  "sorts_differently h a b \<longleftrightarrow> sort_time (h a) \<noteq> sort_time (h b) \<or>
     sort_time (h a) = sort_time (h b) \<and> sort_tiebreaker (h a) \<noteq> sort_tiebreaker (h b)"

text \<open>
  \<open>max < min\<close> is no legal call: the range would be given by an unsigned difference that wrapped.
\<close>

function lc_binary_search_insert_point ::
    "'a heap \<Rightarrow> leasechain \<Rightarrow> ptr \<Rightarrow> nat \<Rightarrow> nat \<Rightarrow> nat cres" where
  "lc_binary_search_insert_point h lc lp lo hi =
     (if hi < lo then Undef
      else let mid_index = (hi - lo) div 2 + lo
           in cbind (slot lc mid_index) (\<lambda>m.
                if sorts_after h m lp
                then if mid_index = lo then Ret lo
                     else lc_binary_search_insert_point h lc lp lo (mid_index - 1)
                else if sorts_after h lp m
                then if mid_index = hi then Ret (mid_index + 1)
                     else lc_binary_search_insert_point h lc lp (mid_index + 1) hi
                else Ret mid_index))"
  by pat_completeness auto
termination
  by (relation "measure (\<lambda>(h, lc, lp, lo, hi). Suc hi - lo)") auto

text \<open>
  The two loops over the leases that sort like \<open>lp\<close>, below and above the middle. \<open>None\<close> is the
  result \<open>SIZE_MAX\<close>. Going below index 0 would wrap the unsigned index out of the array.
\<close>

fun lc_scan_below :: "'a heap \<Rightarrow> leasechain \<Rightarrow> ptr \<Rightarrow> nat \<Rightarrow> nat \<Rightarrow> nat option cres" where
  "lc_scan_below h lc lp lo 0 =
     cbind (slot lc 0) (\<lambda>a.
       if lp = a then Ret (Some 0)
       else if 0 = lo \<or> sorts_differently h a lp then Ret None
       else Undef)"
| "lc_scan_below h lc lp lo (Suc i) =
     cbind (slot lc (Suc i)) (\<lambda>a.
       if lp = a then Ret (Some (Suc i))
       else if Suc i = lo \<or> sorts_differently h a lp then Ret None
       else lc_scan_below h lc lp lo i)"

function lc_scan_above :: "'a heap \<Rightarrow> leasechain \<Rightarrow> ptr \<Rightarrow> nat \<Rightarrow> nat \<Rightarrow> nat option cres" where
  "lc_scan_above h lc lp i hi =
     (if hi < i then Ret None
      else cbind (slot lc i) (\<lambda>a.
             if lp = a then Ret (Some i)
             else if sorts_differently h a lp then Ret None
             else lc_scan_above h lc lp (i + 1) hi))"
  by pat_completeness auto
termination
  by (relation "measure (\<lambda>(h, lc, lp, i, hi). Suc hi - i)") auto

function lc_binary_search_lease ::
    "'a heap \<Rightarrow> leasechain \<Rightarrow> ptr \<Rightarrow> nat \<Rightarrow> nat \<Rightarrow> nat option cres" where
  "lc_binary_search_lease h lc lp lo hi =
     (if hi < lo then Ret None
      else let mid_index = (hi - lo) div 2 + lo
           in cbind (slot lc mid_index) (\<lambda>m.
                if sorts_after h m lp
                then if mid_index = lo then Ret None
                     else lc_binary_search_lease h lc lp lo (mid_index - 1)
                else if sorts_after h lp m
                then lc_binary_search_lease h lc lp (mid_index + 1) hi
                else if lp = m then Ret (Some mid_index)
                else cbind (if lo < mid_index then lc_scan_below h lc lp lo (mid_index - 1)
                            else Ret None) (\<lambda>r.
                     case r of
                       Some i \<Rightarrow> Ret (Some i)
                     | None \<Rightarrow> if mid_index < hi then lc_scan_above h lc lp (mid_index + 1) hi
                               else Ret None)))"
  by pat_completeness auto
termination
  by (relation "measure (\<lambda>(h, lc, lp, lo, hi). Suc hi - lo)") auto

declare lc_binary_search_insert_point.simps [simp del] lc_scan_above.simps [simp del]
  lc_binary_search_lease.simps [simp del]

text \<open>
  \<open>mem\<close> says whether \<open>dmalloc\<close>, which clears what it allocates, gets its memory. The copy takes
  the \<open>nelem\<close> pointers in use.
\<close>

definition lc_grow_chain :: "bool \<Rightarrow> leasechain \<Rightarrow> leasechain cres" where
  "lc_grow_chain mem lc =
     (let temp_size = (if growth lc = 0 then total lc + LC_GROWTH_DELTA else total lc + growth lc)
      in if \<not> mem then Fatal
         else Ret (lc\<lparr>lc_list := take (nelem lc) (lc_list lc) @ replicate (temp_size - nelem lc) None,
                       total := temp_size\<rparr>))"

definition memmove :: "'b list \<Rightarrow> nat \<Rightarrow> nat \<Rightarrow> nat \<Rightarrow> 'b list cres" where
  "memmove xs dst src n =
     (if dst + n \<le> length xs \<and> src + n \<le> length xs
      then Ret (take dst xs @ take n (drop src xs) @ drop (dst + n) xs) else Undef)"

definition lc_link_lcp ::
    "bool \<Rightarrow> 'a heap \<Rightarrow> leasechain \<Rightarrow> ptr \<Rightarrow> nat \<Rightarrow> ('a heap \<times> leasechain) cres" where
  "lc_link_lcp mem h lc lp n =
     cbind (if nelem lc = total lc then lc_grow_chain mem lc else Ret lc) (\<lambda>lc.
     cbind (if n < nelem lc then memmove (lc_list lc) (n + 1) n (nelem lc - n)
            else Ret (lc_list lc)) (\<lambda>l.
     cbind (wr l n (Some lp)) (\<lambda>l.
       let h = rc_inc h lp;
           h = h(lp := (h lp)\<lparr>l_lc := Some (lc_id lc)\<rparr>)
       in Ret (h, lc\<lparr>lc_list := l, nelem := nelem lc + 1\<rparr>))))"

definition lc_add_lease_pos ::
    "bool \<Rightarrow> 'a heap \<Rightarrow> leasechain \<Rightarrow> ptr \<Rightarrow> nat \<Rightarrow> ('a heap \<times> leasechain) cres" where
  "lc_add_lease_pos mem h lc lp pos =
     cbind (lc_link_lcp mem h lc lp pos) (\<lambda>(h, lc).
     cbind (if pos > 0
            then cbind (slot lc (pos - 1)) (\<lambda>p.
                   let h = (if l_next (h p) \<noteq> None then next_dereference h p else h);
                       h = next_reference h p lp
                   in Ret (prev_reference h lp p))
            else Ret h) (\<lambda>h.
     cbind (if pos < nelem lc - 1
            then cbind (slot lc (pos + 1)) (\<lambda>n.
                   let h = (if l_prev (h n) \<noteq> None then prev_dereference h n else h);
                       h = prev_reference h n lp
                   in Ret (next_reference h lp n))
            else Ret h) (\<lambda>h.
     Ret (h, lc))))"

text \<open>\<open>rnd\<close> is what \<open>random()\<close> returns.\<close>

definition set_tiebreaker :: "'a heap \<Rightarrow> ptr \<Rightarrow> int \<Rightarrow> 'a heap" where
  "set_tiebreaker h a v = h(a := (h a)\<lparr>sort_tiebreaker := v\<rparr>)"

definition lc_add_sorted_lease ::
    "int \<times> bool \<Rightarrow> 'a heap \<Rightarrow> leasechain \<Rightarrow> ptr \<Rightarrow> ('a heap \<times> leasechain) cres" where
  "lc_add_sorted_lease = (\<lambda>(rnd, mem) h lc lp.
     (if nelem lc = 0 then lc_add_lease_pos mem (set_tiebreaker h lp 0) lc lp 0
      else cbind (slot lc (nelem lc - 1)) (\<lambda>e.
        if sort_time (h lp) > sort_time (h e)
        then lc_add_lease_pos mem (set_tiebreaker h lp 0) lc lp (nelem lc)
        else if sort_time (h lp) = sort_time (h e)
        then let t = (if sort_tiebreaker (h e) < LONG_MAX then sort_tiebreaker (h e) + 1
                      else LONG_MAX)
             in lc_add_lease_pos mem (set_tiebreaker h lp t) lc lp (nelem lc)
        else let h = set_tiebreaker h lp rnd
             in cbind (lc_binary_search_insert_point h lc lp 0 (nelem lc - 1)) (\<lambda>pos.
                  lc_add_lease_pos mem h lc lp pos))))"

text \<open>With \<open>nelem = 0\<close> the length given to \<open>memmove\<close> would wrap.\<close>

definition lc_unlink_lcp :: "'a heap \<Rightarrow> leasechain \<Rightarrow> nat \<Rightarrow> ('a heap \<times> leasechain) cres" where
  "lc_unlink_lcp h lc n =
     cbind (slot lc n) (\<lambda>a.
     let h = h(a := (h a)\<lparr>l_lc := None\<rparr>);
         h = rc_dec h a;
         l = (lc_list lc)[n := None]
     in if nelem lc = 0 then Undef
        else cbind (if nelem lc - 1 > n then memmove l n (n + 1) (nelem lc - 1 - n) else Ret l)
               (\<lambda>l. Ret (h, lc\<lparr>lc_list := l, nelem := nelem lc - 1\<rparr>)))"

definition lc_unlink_lease_pos :: "'a heap \<Rightarrow> leasechain \<Rightarrow> nat \<Rightarrow> ('a heap \<times> leasechain) cres" where
  "lc_unlink_lease_pos h lc pos =
     cbind (slot lc pos) (\<lambda>lp.
     cbind (lc_unlink_lcp (rc_inc h lp) lc pos) (\<lambda>(h, lc).
     let h = (case l_next (h lp) of
                None \<Rightarrow> h
              | Some n \<Rightarrow> let h = prev_dereference h n
                          in case l_prev (h lp) of None \<Rightarrow> h | Some p \<Rightarrow> prev_reference h n p);
         h = (case l_prev (h lp) of
                None \<Rightarrow> h
              | Some p \<Rightarrow> let h = next_dereference h p;
                              h = (case l_next (h lp) of None \<Rightarrow> h | Some n \<Rightarrow> next_reference h p n)
                          in prev_dereference h lp);
         h = (if l_next (h lp) \<noteq> None then next_dereference h lp else h)
     in Ret (rc_dec h lp, lc)))"

definition lc_unlink_lease :: "'a heap \<Rightarrow> leasechain \<Rightarrow> ptr \<Rightarrow> ('a heap \<times> leasechain) cres" where
  "lc_unlink_lease h lc lp =
     cbind (lc_binary_search_lease h lc lp 0 (if nelem lc = 0 then SIZE_MAX else nelem lc - 1)) (\<lambda>pos.
       case pos of None \<Rightarrow> Fatal | Some pos \<Rightarrow> lc_unlink_lease_pos h lc pos)"

text \<open>The loop of \<open>lc_delete_all\<close> unlinks the positions \<open>i\<close>, \<open>i - 1\<close>, \<dots>, 0.\<close>

fun lc_delete_loop :: "'a heap \<Rightarrow> leasechain \<Rightarrow> nat \<Rightarrow> ('a heap \<times> leasechain) cres" where
  "lc_delete_loop h lc 0 = lc_unlink_lease_pos h lc 0"
| "lc_delete_loop h lc (Suc i) =
     cbind (lc_unlink_lease_pos h lc (Suc i)) (\<lambda>(h, lc). lc_delete_loop h lc i)"

definition lc_delete_all :: "'a heap \<Rightarrow> leasechain \<Rightarrow> ('a heap \<times> leasechain) cres" where
  "lc_delete_all h lc =
     cbind (if nelem lc > 0 then lc_delete_loop h lc (nelem lc - 1) else Ret (h, lc)) (\<lambda>(h, lc).
       Ret (h, lc\<lparr>lc_list := [], total := 0, nelem := 0\<rparr>))"

definition lc_init_growth :: "leasechain \<Rightarrow> nat \<Rightarrow> leasechain" where
  "lc_init_growth lc g = lc\<lparr>growth := g\<rparr>"
section \<open>Searching\<close>

text \<open>What the searches need: the array shows the leases \<open>xs\<close>, and they are in order.\<close>

definition lc_shows :: "leasechain \<Rightarrow> ptr list \<Rightarrow> bool" where
  "lc_shows lc xs \<longleftrightarrow> nelem lc = length xs \<and> length (lc_list lc) = total lc \<and>
     nelem lc \<le> total lc \<and> take (nelem lc) (lc_list lc) = map Some xs"

definition key_sorted :: "'a heap \<Rightarrow> ptr list \<Rightarrow> bool" where
  "key_sorted h xs \<longleftrightarrow> sorted_wrt (\<lambda>a b. key h a \<le> key h b) xs"

lemma slot_shows: "lc_shows lc xs \<Longrightarrow> i < length xs \<Longrightarrow> slot lc i = Ret (xs ! i)"
proof -
  assume "lc_shows lc xs" and i: "i < length xs"
  then have eq: "take (nelem lc) (lc_list lc) = map Some xs" and "i < nelem lc" "i < length (lc_list lc)"
    by (auto simp: lc_shows_def)
  from eq have "take (nelem lc) (lc_list lc) ! i = map Some xs ! i" by simp
  with i \<open>i < nelem lc\<close> \<open>i < length (lc_list lc)\<close> show ?thesis by (simp add: slot_def)
qed

lemma sorts_after_key: "sorts_after h a b \<longleftrightarrow> key h b < key h a"
  by (auto simp: sorts_after_def key_def less_prod_def)

lemma sorts_differently_key: "sorts_differently h a b \<longleftrightarrow> key h a \<noteq> key h b"
  by (auto simp: sorts_differently_def key_def)

lemma key_sorted_nth: "key_sorted h xs \<Longrightarrow> i \<le> j \<Longrightarrow> j < length xs \<Longrightarrow> key h (xs ! i) \<le> key h (xs ! j)"
  by (cases "i = j") (auto simp: key_sorted_def sorted_wrt_iff_nth_less)

lemma lc_binary_search_insert_point_Ret:
  assumes "lc_shows lc xs" and "key_sorted h xs" and "lo \<le> hi" and "hi < length xs"
    and "\<And>i. i < lo \<Longrightarrow> key h (xs ! i) \<le> key h lp"
    and "\<And>i. hi < i \<Longrightarrow> i < length xs \<Longrightarrow> key h lp \<le> key h (xs ! i)"
  shows "\<exists>pos. lc_binary_search_insert_point h lc lp lo hi = Ret pos \<and> pos \<le> length xs \<and>
           (\<forall>i < pos. key h (xs ! i) \<le> key h lp) \<and>
           (\<forall>i. pos \<le> i \<and> i < length xs \<longrightarrow> key h lp \<le> key h (xs ! i))"
  using assms(3-)
proof (induction "Suc hi - lo" arbitrary: lo hi rule: less_induct)
  case less
  let ?mid = "(hi - lo) div 2 + lo"
  have mid: "lo \<le> ?mid" "?mid \<le> hi" "?mid < length xs" using less.prems by auto
  have slot: "slot lc ?mid = Ret (xs ! ?mid)" by (rule slot_shows [OF assms(1) mid(3)])
  note step = lc_binary_search_insert_point.simps [of h lc lp lo hi]
  note le = key_sorted_nth [OF assms(2)]
  consider "key h lp < key h (xs ! ?mid)" | "key h (xs ! ?mid) < key h lp" | "key h (xs ! ?mid) = key h lp"
    by force
  then show ?case
  proof cases
    case 1
    have up: "key h lp \<le> key h (xs ! i)" if "?mid \<le> i" "i < length xs" for i
      using 1 le [OF that] by force
    show ?thesis
    proof (cases "?mid = lo")
      case True
      with 1 slot step up less.prems show ?thesis
        by (intro exI [of _ lo]) (auto simp: Let_def sorts_after_key)
    next
      case False
      with mid have "lo \<le> ?mid - 1" "?mid - 1 < length xs" "Suc (?mid - 1) - lo < Suc hi - lo" by auto
      moreover have "lc_binary_search_insert_point h lc lp lo hi =
          lc_binary_search_insert_point h lc lp lo (?mid - 1)"
        using 1 False slot step less.prems(1) by (simp add: Let_def sorts_after_key)
      moreover have "key h lp \<le> key h (xs ! i)" if "?mid - 1 < i" "i < length xs" for i
        by (rule up) (use that in auto)
      ultimately show ?thesis using less.hyps [of "?mid - 1" lo, OF _ _ _ less.prems(3)] by presburger
    qed
  next
    case 2
    have down: "key h (xs ! i) \<le> key h lp" if "i < Suc ?mid" for i
      using 2 le [of i ?mid] that mid(3) by force
    show ?thesis
    proof (cases "?mid = hi")
      case True
      with 2 slot step down less.prems show ?thesis
        by (intro exI [of _ "Suc ?mid"]) (auto simp: Let_def sorts_after_key)
    next
      case False
      with mid have "?mid + 1 \<le> hi" "Suc hi - (?mid + 1) < Suc hi - lo" by linarith+
      moreover have "lc_binary_search_insert_point h lc lp lo hi =
          lc_binary_search_insert_point h lc lp (?mid + 1) hi"
        using 2 less_not_sym [OF 2] False slot step less.prems(1) by (simp add: Let_def sorts_after_key)
      ultimately show ?thesis
        using less.hyps [of hi "?mid + 1", OF _ _ less.prems(2) _ less.prems(4)] down by simp
    qed
  next
    case 3
    have "key h (xs ! i) \<le> key h lp" if "i < ?mid" for i using 3 le [of i ?mid] that mid(3) by simp
    moreover have "key h lp \<le> key h (xs ! i)" if "?mid \<le> i" "i < length xs" for i using 3 le [OF that] by simp
    ultimately show ?thesis
      using 3 slot step less.prems mid by (intro exI [of _ ?mid]) (auto simp: Let_def sorts_after_key)
  qed
qed

text \<open>A scan only reports a position of \<open>lp\<close>, and misses none among leases that sort alike.\<close>

definition finds :: "ptr list \<Rightarrow> ptr \<Rightarrow> nat option \<Rightarrow> bool" where
  "finds xs lp r \<longleftrightarrow> (case r of None \<Rightarrow> True | Some i \<Rightarrow> i < length xs \<and> xs ! i = lp)"

lemma lc_scan_below_Ret:
  assumes "lc_shows lc xs" and "lo \<le> i" and "i < length xs"
  shows "\<exists>r. lc_scan_below h lc lp lo i = Ret r \<and> finds xs lp r \<and>
           (\<forall>j. lo \<le> j \<and> j \<le> i \<and> xs ! j = lp \<and> (\<forall>k. j \<le> k \<and> k \<le> i \<longrightarrow> key h (xs ! k) = key h lp) \<longrightarrow>
              r \<noteq> None)"
  using assms(2,3)
proof (induction i)
  case 0
  then show ?case by (auto simp: slot_shows [OF assms(1)] finds_def)
next
  case (Suc i)
  have slot: "slot lc (Suc i) = Ret (xs ! Suc i)" by (rule slot_shows [OF assms(1) Suc.prems(2)])
  show ?case
  proof (cases "lp = xs ! Suc i \<or> Suc i = lo \<or> sorts_differently h (xs ! Suc i) lp")
    case True
    with slot Suc.prems show ?thesis
      by (auto simp: finds_def sorts_differently_key le_antisym)
  next
    case False
    then have "lo \<le> i" using Suc.prems(1) by simp
    with Suc.IH Suc.prems(2) obtain r where r: "lc_scan_below h lc lp lo i = Ret r" "finds xs lp r"
      "\<And>j. lo \<le> j \<Longrightarrow> j \<le> i \<Longrightarrow> xs ! j = lp \<Longrightarrow> (\<forall>k. j \<le> k \<and> k \<le> i \<longrightarrow> key h (xs ! k) = key h lp) \<Longrightarrow> r \<noteq> None"
      by auto
    with False slot show ?thesis
      by (intro exI [of _ r]) (auto simp: le_Suc_eq)
  qed
qed

lemma lc_scan_above_Ret:
  assumes "lc_shows lc xs" and "hi < length xs"
  shows "\<exists>r. lc_scan_above h lc lp i hi = Ret r \<and> finds xs lp r \<and>
           (\<forall>j. i \<le> j \<and> j \<le> hi \<and> xs ! j = lp \<and> (\<forall>k. i \<le> k \<and> k \<le> j \<longrightarrow> key h (xs ! k) = key h lp) \<longrightarrow>
              r \<noteq> None)"
proof (induction "Suc hi - i" arbitrary: i)
  case 0
  then show ?case by (subst lc_scan_above.simps) (auto simp: finds_def)
next
  case (Suc n)
  then have i: "i \<le> hi" "i < length xs" using assms(2) by auto
  have slot: "slot lc i = Ret (xs ! i)" by (rule slot_shows [OF assms(1) i(2)])
  note step = lc_scan_above.simps [of h lc lp i hi]
  show ?case
  proof (cases "lp = xs ! i \<or> sorts_differently h (xs ! i) lp")
    case True
    with slot step i show ?thesis by (auto simp: finds_def sorts_differently_key)
  next
    case False
    have "n = Suc hi - (i + 1)" using Suc.hyps(2) by simp
    from Suc.hyps(1) [OF this] obtain r where r: "lc_scan_above h lc lp (i + 1) hi = Ret r" "finds xs lp r"
      "\<forall>j. i + 1 \<le> j \<and> j \<le> hi \<and> xs ! j = lp \<and> (\<forall>k. i + 1 \<le> k \<and> k \<le> j \<longrightarrow> key h (xs ! k) = key h lp) \<longrightarrow> r \<noteq> None"
      by (elim exE conjE)
    have "lc_scan_above h lc lp i hi = Ret r" using False slot step i r(1) by simp
    moreover have "r \<noteq> None" if "i \<le> j" "j \<le> hi" "xs ! j = lp"
      "\<forall>k. i \<le> k \<and> k \<le> j \<longrightarrow> key h (xs ! k) = key h lp" for j
    proof -
      have "i + 1 \<le> j" using that(1,3) False by (cases "i = j") auto
      moreover have "key h (xs ! k) = key h lp" if "i + 1 \<le> k" "k \<le> j" for k
        using that \<open>\<forall>k. i \<le> k \<and> k \<le> j \<longrightarrow> key h (xs ! k) = key h lp\<close> [rule_format, of k] by simp
      ultimately show ?thesis using r(3) that(2,3) by blast
    qed
    ultimately show ?thesis using r(2) by blast
  qed
qed
lemma key_between:
  assumes "key_sorted h xs" and "i \<le> k" and "k \<le> j" and "j < length xs"
    and "key h (xs ! i) = v" and "key h (xs ! j) = v"
  shows "key h (xs ! k) = v"
  using key_sorted_nth [OF assms(1,2)] key_sorted_nth [OF assms(1,3,4)] assms(3-) by auto

text \<open>Once the keys agree the two scans together find \<open>lp\<close> wherever it is in the range.\<close>

lemma scans_find:
  assumes "lc_shows lc xs" and "key_sorted h xs" and "lo \<le> m" and "m \<le> hi" and "hi < length xs"
    and "key h (xs ! m) = key h lp" and "xs ! m \<noteq> lp"
  shows "\<exists>r. cbind (if lo < m then lc_scan_below h lc lp lo (m - 1) else Ret None) (\<lambda>r.
               case r of Some i \<Rightarrow> Ret (Some i)
               | None \<Rightarrow> if m < hi then lc_scan_above h lc lp (m + 1) hi else Ret None) = Ret r \<and>
           finds xs lp r \<and> (\<forall>j. lo \<le> j \<and> j \<le> hi \<and> xs ! j = lp \<longrightarrow> r \<noteq> None)"
proof -
  have m: "m < length xs" using assms(4,5) by simp
  obtain r1 where r1: "(if lo < m then lc_scan_below h lc lp lo (m - 1) else Ret None) = Ret r1"
      "finds xs lp r1" "\<And>j. lo \<le> j \<Longrightarrow> j < m \<Longrightarrow> xs ! j = lp \<Longrightarrow> r1 \<noteq> None"
  proof (cases "lo < m")
    case True
    with m have "lo \<le> m - 1" "m - 1 < length xs" by auto
    from lc_scan_below_Ret [OF assms(1) this, of h lp] obtain r where
      r: "lc_scan_below h lc lp lo (m - 1) = Ret r" "finds xs lp r"
        "\<forall>j. lo \<le> j \<and> j \<le> m - 1 \<and> xs ! j = lp \<and> (\<forall>k. j \<le> k \<and> k \<le> m - 1 \<longrightarrow> key h (xs ! k) = key h lp) \<longrightarrow>
           r \<noteq> None" by (elim exE conjE)
    have "r \<noteq> None" if "lo \<le> j" "j < m" "xs ! j = lp" for j
    proof -
      have "key h (xs ! k) = key h lp" if "j \<le> k" "k \<le> m - 1" for k
        by (rule key_between [OF assms(2) that(1), of m]) (use that m \<open>j < m\<close> \<open>xs ! j = lp\<close> assms(6) in auto)
      moreover have "j \<le> m - 1" using that(2) by simp
      ultimately show ?thesis using r(3) that(1,3) by blast
    qed
    with r True that show ?thesis by presburger
  qed (auto simp: finds_def intro: that [of None])
  obtain r2 where r2: "(if m < hi then lc_scan_above h lc lp (m + 1) hi else Ret None) = Ret r2"
      "finds xs lp r2" "\<And>j. m < j \<Longrightarrow> j \<le> hi \<Longrightarrow> xs ! j = lp \<Longrightarrow> r2 \<noteq> None"
  proof (cases "m < hi")
    case True
    from lc_scan_above_Ret [OF assms(1,5), of h lp "m + 1"] obtain r where
      r: "lc_scan_above h lc lp (m + 1) hi = Ret r" "finds xs lp r"
        "\<forall>j. m + 1 \<le> j \<and> j \<le> hi \<and> xs ! j = lp \<and> (\<forall>k. m + 1 \<le> k \<and> k \<le> j \<longrightarrow> key h (xs ! k) = key h lp) \<longrightarrow>
           r \<noteq> None" by (elim exE conjE)
    have "r \<noteq> None" if "m < j" "j \<le> hi" "xs ! j = lp" for j
    proof -
      have "key h (xs ! k) = key h lp" if "m + 1 \<le> k" "k \<le> j" for k
        by (rule key_between [OF assms(2) _ that(2), of m]) (use that \<open>j \<le> hi\<close> \<open>xs ! j = lp\<close> assms(5,6) in auto)
      moreover have "m + 1 \<le> j" using that(1) by simp
      ultimately show ?thesis using r(3) that(2,3) by blast
    qed
    with r True that show ?thesis by presburger
  qed (auto simp: finds_def intro: that [of None])
  show ?thesis
  proof (cases r1)
    case None
    have "r2 \<noteq> None" if "lo \<le> j" "j \<le> hi" "xs ! j = lp" for j
      using that r1(3) [of j] r2(3) [of j] None assms(7) by (cases "j = m") (auto simp: not_less neq_iff)
    with None r1 r2 show ?thesis by (intro exI [of _ r2]) auto
  qed (use r1 in auto)
qed

lemma lc_binary_search_lease_Ret:
  assumes "lc_shows lc xs" and "key_sorted h xs" and "hi < length xs"
  shows "\<exists>r. lc_binary_search_lease h lc lp lo hi = Ret r \<and> finds xs lp r \<and>
           (\<forall>j. lo \<le> j \<and> j \<le> hi \<and> xs ! j = lp \<longrightarrow> r \<noteq> None)"
  using assms(3)
proof (induction "Suc hi - lo" arbitrary: lo hi rule: less_induct)
  case less
  define mid where "mid = (hi - lo) div 2 + lo"
  note step = lc_binary_search_lease.simps [of h lc lp lo hi, folded mid_def]
  show ?case
  proof (cases "hi < lo")
    case True
    then show ?thesis by (subst lc_binary_search_lease.simps) (auto simp: finds_def)
  next
    case lohi: False
    then have mid: "lo \<le> mid" "mid \<le> hi" "mid < length xs" using less.prems by (auto simp: mid_def)
    have slot: "slot lc mid = Ret (xs ! mid)" by (rule slot_shows [OF assms(1) mid(3)])
    note le = key_sorted_nth [OF assms(2)]
    consider "key h lp < key h (xs ! mid)" | "key h (xs ! mid) < key h lp" | "key h (xs ! mid) = key h lp"
      by force
    then show ?thesis
    proof cases
      case 1
      have up: "j < mid" if "xs ! j = lp" "j \<le> hi" for j
        using 1 le [of mid j] that less.prems by (cases "mid \<le> j") auto
      show ?thesis
      proof (cases "mid = lo")
        case True
        with 1 slot step lohi up show ?thesis by (force simp: sorts_after_key finds_def Let_def)
      next
        case False
        have "Suc (mid - 1) - lo < Suc hi - lo" "mid - 1 < length xs" using False mid by auto
        from less.hyps [OF this] obtain r where r: "lc_binary_search_lease h lc lp lo (mid - 1) = Ret r"
          "finds xs lp r" "\<forall>j. lo \<le> j \<and> j \<le> mid - 1 \<and> xs ! j = lp \<longrightarrow> r \<noteq> None" by (elim exE conjE)
        have "lc_binary_search_lease h lc lp lo hi = Ret r"
          using 1 False slot step lohi r(1) by (simp add: Let_def sorts_after_key)
        moreover have "r \<noteq> None" if "lo \<le> j" "j \<le> hi" "xs ! j = lp" for j
          using r(3) up [OF that(3,2)] that by auto
        ultimately show ?thesis using r(2) by blast
      qed
    next
      case 2
      have down: "mid < j" if "xs ! j = lp" for j
        using 2 le [of j mid] that mid(3) by (cases "j \<le> mid") auto
      have "Suc hi - (mid + 1) < Suc hi - lo" using mid by linarith
      from less.hyps [OF this less.prems] obtain r where
        r: "lc_binary_search_lease h lc lp (mid + 1) hi = Ret r" "finds xs lp r"
          "\<forall>j. mid + 1 \<le> j \<and> j \<le> hi \<and> xs ! j = lp \<longrightarrow> r \<noteq> None" by (elim exE conjE)
      have "lc_binary_search_lease h lc lp lo hi = Ret r"
        using 2 less_not_sym [OF 2] slot step lohi r(1) by (simp add: Let_def sorts_after_key)
      moreover have "r \<noteq> None" if "lo \<le> j" "j \<le> hi" "xs ! j = lp" for j
        using r(3) [rule_format, of j] down [OF that(3)] that by simp
      ultimately show ?thesis using r(2) by blast
    next
      case 3
      show ?thesis
      proof (cases "xs ! mid = lp")
        case True
        with slot step lohi mid show ?thesis by (force simp: Let_def sorts_after_key finds_def)
      next
        case False
        have "lc_binary_search_lease h lc lp lo hi =
            cbind (if lo < mid then lc_scan_below h lc lp lo (mid - 1) else Ret None) (\<lambda>r.
               case r of Some i \<Rightarrow> Ret (Some i)
               | None \<Rightarrow> if mid < hi then lc_scan_above h lc lp (mid + 1) hi else Ret None)"
          using 3 False slot step lohi by (simp add: Let_def sorts_after_key)
        then show ?thesis
          using scans_find [OF assms(1,2) mid(1,2) less.prems 3 False] by presburger
      qed
    qed
  qed
qed

lemma lc_search_member:
  assumes "lc_shows lc xs" and "key_sorted h xs" and "distinct xs" and "i < length xs"
  shows "lc_binary_search_lease h lc (xs ! i) 0 (nelem lc - 1) = Ret (Some i)"
proof -
  have hi: "nelem lc - 1 < length xs" using assms(1,4) by (auto simp: lc_shows_def)
  obtain r where r: "lc_binary_search_lease h lc (xs ! i) 0 (nelem lc - 1) = Ret r" "finds xs (xs ! i) r"
    "\<forall>j. 0 \<le> j \<and> j \<le> nelem lc - 1 \<and> xs ! j = xs ! i \<longrightarrow> r \<noteq> None"
    using lc_binary_search_lease_Ret [OF assms(1,2) hi, of "xs ! i" 0] by (elim exE conjE)
  have "r \<noteq> None" using r(3) [rule_format, of i] assms(1,4) by (simp add: lc_shows_def)
  with r(1,2) assms(3,4) show ?thesis by (auto simp: finds_def nth_eq_iff_index_eq)
qed

lemma lc_search_nonmember:
  assumes "lc_shows lc xs" and "key_sorted h xs" and "xs \<noteq> []" and "a \<notin> set xs"
  shows "lc_binary_search_lease h lc a 0 (nelem lc - 1) = Ret None"
proof -
  have hi: "nelem lc - 1 < length xs" using assms(1,3) by (auto simp: lc_shows_def)
  from lc_binary_search_lease_Ret [OF assms(1,2) hi, of a 0] obtain r where
    r: "lc_binary_search_lease h lc a 0 (nelem lc - 1) = Ret r" "finds xs a r" by (elim exE conjE)
  with assms(4) have "r = None" by (cases r) (auto simp: finds_def)
  with r(1) show ?thesis by simp
qed
section \<open>The representation invariant\<close>

text \<open>
  The counted pointers to a lease that the chain holds: one from the array, one from its
  predecessor and one from its successor.
\<close>

definition held :: "ptr list \<Rightarrow> ptr \<Rightarrow> int" where
  "held xs a = (if a \<in> set xs then 1 + of_bool (a \<noteq> hd xs) + of_bool (a \<noteq> last xs) else 0)"

definition lc_linked :: "'a heap \<Rightarrow> leasechain \<Rightarrow> ptr list \<Rightarrow> bool" where
  "lc_linked h lc xs \<longleftrightarrow> lc_shows lc xs \<and> distinct xs \<and> dll (nxt h) (prv h) None xs None \<and>
     (\<forall>x \<in> set xs. lcp h x = Some (lc_id lc) \<and> held xs x \<le> rc h x)"

lemma lc_grow_chain_shows:
  assumes "lc_shows lc xs"
  shows "\<exists>lc'. lc_grow_chain True lc = Ret lc' \<and> lc_shows lc' xs \<and> lc_id lc' = lc_id lc \<and>
           nelem lc' < total lc'"
  using assms by (auto simp: lc_grow_chain_def lc_shows_def LC_GROWTH_DELTA_def Let_def)

lemma memmove_up:
  assumes "length ys + length zs < length l" and "take (length ys + length zs) l = ys @ zs"
  shows "\<exists>l'. memmove l (length ys + 1) (length ys) (length zs) = Ret l' \<and> length l' = length l \<and>
           take (length ys + length zs + 1) (l'[length ys := v]) = ys @ v # zs"
proof -
  obtain w r where l: "l = ys @ zs @ w # r"
    using assms append_take_drop_id [of "length ys + length zs" l]
    by (cases "drop (length ys + length zs) l") auto
  have "memmove l (length ys + 1) (length ys) (length zs) =
      Ret (take (length ys + 1) l @ zs @ r)"
    by (simp add: memmove_def l)
  moreover obtain u us where us: "zs @ w # r = u # us" by (cases "zs @ w # r") auto
  moreover from us have "length zs + length r = length us" by (metis add_Suc_right length_Cons length_append nat.inject)
  ultimately show ?thesis unfolding l
    by (intro exI [of _ "ys @ u # zs @ r"]) (simp add: list_update_append)
qed

lemma lc_link_lcp_Ret:
  assumes "lc_shows lc (ys @ zs)"
  shows "\<exists>lc'. lc_link_lcp True h lc a (length ys) =
             Ret ((rc_inc h a)(a := (rc_inc h a a)\<lparr>l_lc := Some (lc_id lc)\<rparr>), lc') \<and>
           lc_shows lc' (ys @ a # zs) \<and> lc_id lc' = lc_id lc"
proof -
  obtain lc1 where lc1: "(if nelem lc = total lc then lc_grow_chain True lc else Ret lc) = Ret lc1"
      "lc_shows lc1 (ys @ zs)" "lc_id lc1 = lc_id lc" "nelem lc1 < total lc1"
    using lc_grow_chain_shows [OF assms] assms by (cases "nelem lc = total lc") (auto simp: lc_shows_def)
  from lc1(2,4) have l: "length ys + length zs < length (lc_list lc1)"
      "take (length ys + length zs) (lc_list lc1) = map Some ys @ map Some zs"
      "nelem lc1 = length ys + length zs" by (auto simp: lc_shows_def)
  obtain l' where l': "(if length ys < nelem lc1
      then memmove (lc_list lc1) (length ys + 1) (length ys) (nelem lc1 - length ys)
      else Ret (lc_list lc1)) = Ret l'" "length l' = length (lc_list lc1)"
      "take (length ys + length zs + 1) (l'[length ys := Some a]) = map Some ys @ Some a # map Some zs"
  proof (cases zs)
    case Nil
    have "take (length ys + 1) ((lc_list lc1)[length ys := Some a]) = map Some ys @ [Some a]"
      using l Nil by (simp add: take_Suc_conv_app_nth take_update_cancel)
    with Nil l that [of "lc_list lc1"] show ?thesis by simp
  next
    case (Cons z zs')
    with memmove_up [of "map Some ys" "map Some zs" "lc_list lc1" "Some a"] l that show ?thesis by auto
  qed
  show ?thesis unfolding lc_link_lcp_def lc1(1) cbind.simps l'(1) Let_def
    using lc1 l l'(2,3) by (simp add: lc_shows_def)
qed
text \<open>The pointer updates around a position, as functions of the neighbours.\<close>

definition link_prev :: "'a heap \<Rightarrow> ptr \<Rightarrow> ptr \<Rightarrow> 'a heap" where
  "link_prev h p a = prev_reference (next_reference (next_dereference h p) p a) a p"

definition link_next :: "'a heap \<Rightarrow> ptr \<Rightarrow> ptr \<Rightarrow> 'a heap" where
  "link_next h n a = next_reference (prev_reference (prev_dereference h n) n a) a n"

lemma next_dereference_None: "nxt h p = None \<Longrightarrow> next_dereference h p = h"
  by (simp add: next_dereference_def nxt_def)

lemma prev_dereference_None: "prv h p = None \<Longrightarrow> prev_dereference h p = h"
  by (simp add: prev_dereference_def prv_def)

lemma lc_add_lease_pos_links:
  assumes "lc_shows lc (ys @ zs)"
  shows "\<exists>lc' h1. lc_add_lease_pos True h lc a (length ys) =
      Ret (case zs of [] \<Rightarrow> h1 | n # _ \<Rightarrow> link_next h1 n a, lc') \<and>
    lc_shows lc' (ys @ a # zs) \<and> lc_id lc' = lc_id lc \<and>
    h1 = (let h0 = (rc_inc h a)(a := (rc_inc h a a)\<lparr>l_lc := Some (lc_id lc)\<rparr>)
          in case seg_last ys None of None \<Rightarrow> h0 | Some p \<Rightarrow> link_prev h0 p a)"
proof -
  obtain lc' where lc': "lc_link_lcp True h lc a (length ys) =
      Ret ((rc_inc h a)(a := (rc_inc h a a)\<lparr>l_lc := Some (lc_id lc)\<rparr>), lc')"
      "lc_shows lc' (ys @ a # zs)" "lc_id lc' = lc_id lc"
    using lc_link_lcp_Ret [OF assms] by blast
  have n: "nelem lc' - 1 = length ys + length zs" using lc'(2) by (simp add: lc_shows_def)
  have prev: "slot lc' (length ys - 1) = Ret p" if "seg_last ys None = Some p" for p
    using that slot_shows [OF lc'(2), of "length ys - 1"]
    by (cases ys rule: rev_cases) (auto simp: nth_append)
  have succ: "slot lc' (length ys + 1) = Ret n" if "zs = n # zs'" for n zs'
    using that slot_shows [OF lc'(2), of "length ys + 1"] by (auto simp: nth_append)
  have ys: "0 < length ys \<longleftrightarrow> seg_last ys None \<noteq> None" by (cases ys rule: rev_cases) auto
  have len: "length ys < nelem lc' - 1 \<longleftrightarrow> zs \<noteq> []" using n by simp
  have nd: "(if l_next (k p) \<noteq> None then next_dereference k p else k) = next_dereference k p" for k :: "'a heap" and p
    by (simp add: next_dereference_None nxt_def)
  have pd: "(if l_prev (k p) \<noteq> None then prev_dereference k p else k) = prev_dereference k p" for k :: "'a heap" and p
    by (simp add: prev_dereference_None prv_def)
  show ?thesis
    unfolding lc_add_lease_pos_def lc'(1) cbind.simps prod.case ys len Let_def nd pd
    using lc'(2,3) prev succ
    by (cases "seg_last ys None"; cases zs) (auto simp: link_prev_def link_next_def)
qed

lemma held_insert:
  assumes "distinct (ys @ a # zs)"
  shows "held (ys @ a # zs) x - held (ys @ zs) x =
    (if x = a then 1 + of_bool (ys \<noteq> []) + of_bool (zs \<noteq> [])
     else of_bool (zs = [] \<and> seg_last ys None = Some x) + of_bool (ys = [] \<and> seg_head zs None = Some x))"
  using assms by (cases ys rule: rev_cases; cases zs) (auto simp: held_def hd_append, metis last_in_set)

lemma link_prev_next_nxt:
  assumes "distinct (ys @ a # zs)" and "dll (nxt h) (prv h) None (ys @ zs) None"
    and "nxt h a = None" and "prv h a = None"
    and "h1 = (case seg_last ys None of None \<Rightarrow> h | Some p \<Rightarrow> link_prev h p a)"
  shows "dll (nxt (case zs of [] \<Rightarrow> h1 | n # _ \<Rightarrow> link_next h1 n a))
             (prv (case zs of [] \<Rightarrow> h1 | n # _ \<Rightarrow> link_next h1 n a)) None (ys @ a # zs) None"
  using assms(1-4) unfolding assms(5)
  by (cases ys rule: rev_cases; cases zs)
     (auto simp: link_prev_def link_next_def heap_simps dll_append)

lemma link_prev_next_rc:
  assumes "distinct (ys @ a # zs)" and "dll (nxt h) (prv h) None (ys @ zs) None"
    and "nxt h a = None" and "prv h a = None"
    and "\<forall>x \<in> set (ys @ zs). 0 < rc h x"
    and "h1 = (case seg_last ys None of None \<Rightarrow> h | Some p \<Rightarrow> link_prev h p a)"
  shows "rc (case zs of [] \<Rightarrow> h1 | n # _ \<Rightarrow> link_next h1 n a) x - rc h x =
    (if x = a then of_bool (ys \<noteq> []) + of_bool (zs \<noteq> [])
     else of_bool (zs = [] \<and> seg_last ys None = Some x) + of_bool (ys = [] \<and> seg_head zs None = Some x))"
  using assms(1-5) unfolding assms(6)
  by (cases ys rule: rev_cases; cases zs)
     (auto simp: link_prev_def link_next_def heap_simps dll_append)

lemma link_lcp_key:
  "lcp (case zs of [] \<Rightarrow> h1 | n # _ \<Rightarrow> link_next h1 n a) = lcp h"
  "key (case zs of [] \<Rightarrow> h1 | n # _ \<Rightarrow> link_next h1 n a) = key h"
  if "h1 = (case seg_last ys None of None \<Rightarrow> h | Some p \<Rightarrow> link_prev h p a)"
  unfolding that by (auto simp: link_prev_def link_next_def heap_simps split: list.splits option.splits)

lemma held_pos: "x \<in> set xs \<Longrightarrow> 0 < held xs x"
  by (simp add: held_def)

lemma lc_add_lease_pos_linked:
  assumes "lc_linked h lc (ys @ zs)" and "a \<notin> set (ys @ zs)"
    and "nxt h a = None" and "prv h a = None" and "0 \<le> rc h a"
  shows "\<exists>h' lc'. lc_add_lease_pos True h lc a (length ys) = Ret (h', lc') \<and>
      lc_linked h' lc' (ys @ a # zs) \<and> lc_id lc' = lc_id lc \<and> key h' = key h \<and>
      (\<forall>x. rc h' x - held (ys @ a # zs) x = rc h x - held (ys @ zs) x)"
proof -
  have inv: "lc_shows lc (ys @ zs)" "distinct (ys @ a # zs)" "dll (nxt h) (prv h) None (ys @ zs) None"
      "\<forall>x \<in> set (ys @ zs). lcp h x = Some (lc_id lc) \<and> held (ys @ zs) x \<le> rc h x"
    using assms(1,2) by (auto simp: lc_linked_def)
  define h0 where "h0 = (rc_inc h a)(a := (rc_inc h a a)\<lparr>l_lc := Some (lc_id lc)\<rparr>)"
  obtain lc' h1 where r: "lc_add_lease_pos True h lc a (length ys) =
        Ret (case zs of [] \<Rightarrow> h1 | n # _ \<Rightarrow> link_next h1 n a, lc')"
      "lc_shows lc' (ys @ a # zs)" "lc_id lc' = lc_id lc"
      "h1 = (case seg_last ys None of None \<Rightarrow> h0 | Some p \<Rightarrow> link_prev h0 p a)"
    using lc_add_lease_pos_links [OF inv(1), of h a] unfolding h0_def Let_def by blast
  let ?h' = "case zs of [] \<Rightarrow> h1 | n # _ \<Rightarrow> link_next h1 n a"
  have h0: "nxt h0 = nxt h" "prv h0 = prv h" "lcp h0 = (lcp h)(a := Some (lc_id lc))"
      "key h0 = key h" "rc h0 = (rc h)(a := rc h a + 1)"
    unfolding h0_def by (simp_all add: heap_simps)
  have pos: "\<forall>x \<in> set (ys @ zs). 0 < rc h0 x"
    using inv(4) held_pos [of _ "ys @ zs"] assms(2) by (fastforce simp: h0)
  have dll: "dll (nxt ?h') (prv ?h') None (ys @ a # zs) None"
    by (rule link_prev_next_nxt [OF inv(2) _ _ _ r(4)]) (use inv(3) assms(3,4) h0 in auto)
  have d: "rc ?h' x - rc h0 x = (if x = a then of_bool (ys \<noteq> []) + of_bool (zs \<noteq> [])
      else of_bool (zs = [] \<and> seg_last ys None = Some x) + of_bool (ys = [] \<and> seg_head zs None = Some x))" for x
    by (rule link_prev_next_rc [OF inv(2) _ _ _ pos r(4)]) (use inv(3) assms(3,4) h0 in auto)
  have rc: "rc ?h' x - held (ys @ a # zs) x = rc h x - held (ys @ zs) x" for x
    using d [of x] held_insert [OF inv(2), of x] by (simp add: h0 split: if_splits)
  have "held (ys @ zs) x \<le> rc h x" if "x \<in> set (ys @ a # zs)" for x
    using that inv(4) assms(2,5) by (cases "x = a") (auto simp: held_def [of "ys @ zs" a])
  then have "held (ys @ a # zs) x \<le> rc ?h' x" if "x \<in> set (ys @ a # zs)" for x
    using that rc [of x] by force
  with dll inv r link_lcp_key [OF r(4), of zs] rc show ?thesis
    by (intro exI [of _ ?h'] exI [of _ lc']) (auto simp: lc_linked_def h0)
qed
text \<open>Unlinking: the array first, then the list.\<close>

lemma lc_unlink_lcp_Ret:
  assumes "lc_shows lc (ys @ a # zs)"
  shows "\<exists>lc'. lc_unlink_lcp h lc (length ys) = Ret (rc_dec (h(a := (h a)\<lparr>l_lc := None\<rparr>)) a, lc') \<and>
           lc_shows lc' (ys @ zs) \<and> lc_id lc' = lc_id lc"
proof -
  have slot: "slot lc (length ys) = Ret a" using slot_shows [OF assms, of "length ys"] by (simp add: nth_append)
  obtain r where l: "lc_list lc = map Some ys @ Some a # map Some zs @ r"
  proof (rule that)
    have "lc_list lc = take (nelem lc) (lc_list lc) @ drop (nelem lc) (lc_list lc)" by simp
    also have "take (nelem lc) (lc_list lc) = map Some (ys @ a # zs)" using assms unfolding lc_shows_def by blast
    finally show "lc_list lc = map Some ys @ Some a # map Some zs @ drop (nelem lc) (lc_list lc)" by simp
  qed
  have n: "nelem lc = length ys + length zs + 1" "total lc = length ys + length zs + 1 + length r"
    using assms l by (auto simp: lc_shows_def)
  obtain l' where l': "(if nelem lc - 1 > length ys
        then memmove ((lc_list lc)[length ys := None]) (length ys) (length ys + 1) (nelem lc - 1 - length ys)
        else Ret ((lc_list lc)[length ys := None])) = Ret l'"
      "length l' = total lc" "take (length ys + length zs) l' = map Some (ys @ zs)"
  proof (cases zs)
    case Nil
    with that [of "map Some ys @ None # r"] l n show ?thesis by (simp add: list_update_append)
  next
    case (Cons z zs')
    have "memmove (map Some ys @ None # map Some zs @ r) (length ys) (length ys + 1) (length zs) =
        Ret (map Some ys @ map Some zs @ drop (length zs) (None # map Some zs @ r))"
      by (simp add: memmove_def)
    with that [of "map Some ys @ map Some zs @ drop (length zs) (None # map Some zs @ r)"] Cons l n
    show ?thesis by (simp add: list_update_append)
  qed
  show ?thesis
    unfolding lc_unlink_lcp_def slot cbind.simps Let_def using n l' by (simp add: lc_shows_def)
qed

text \<open>What \<open>lc_unlink_lease_pos\<close> does to the list.\<close>

definition unlink_list :: "'a heap \<Rightarrow> ptr \<Rightarrow> 'a heap" where
  "unlink_list h lp =
     (let h = (case nxt h lp of
                 None \<Rightarrow> h
               | Some n \<Rightarrow> let h = prev_dereference h n
                           in case prv h lp of None \<Rightarrow> h | Some p \<Rightarrow> prev_reference h n p);
          h = (case prv h lp of
                 None \<Rightarrow> h
               | Some p \<Rightarrow> let h = next_dereference h p;
                               h = (case nxt h lp of None \<Rightarrow> h | Some n \<Rightarrow> next_reference h p n)
                           in prev_dereference h lp)
      in next_dereference h lp)"

lemma lc_unlink_lease_pos_list:
  assumes "lc_shows lc (ys @ a # zs)"
  shows "\<exists>lc'. lc_unlink_lease_pos h lc (length ys) =
      Ret (rc_dec (unlink_list (rc_dec ((rc_inc h a)(a := (rc_inc h a a)\<lparr>l_lc := None\<rparr>)) a) a) a, lc') \<and>
    lc_shows lc' (ys @ zs) \<and> lc_id lc' = lc_id lc"
proof -
  have slot: "slot lc (length ys) = Ret a" using slot_shows [OF assms, of "length ys"] by (simp add: nth_append)
  obtain lc' where lc': "lc_unlink_lcp (rc_inc h a) lc (length ys) =
      Ret (rc_dec ((rc_inc h a)(a := (rc_inc h a a)\<lparr>l_lc := None\<rparr>)) a, lc')"
      "lc_shows lc' (ys @ zs)" "lc_id lc' = lc_id lc"
    using lc_unlink_lcp_Ret [OF assms, of "rc_inc h a"] by blast
  have nd: "(if l_next (k p) \<noteq> None then next_dereference k p else k) = next_dereference k p" for k :: "'a heap" and p
    by (simp add: next_dereference_None nxt_def)
  show ?thesis
    unfolding lc_unlink_lease_pos_def slot cbind.simps lc'(1) prod.case unlink_list_def nxt_def prv_def Let_def nd
    using lc'(2,3) by blast
qed

lemma unlink_list_dll:
  assumes "distinct (ys @ a # zs)" and "dll (nxt h) (prv h) None (ys @ a # zs) None"
  shows "dll (nxt (unlink_list h a)) (prv (unlink_list h a)) None (ys @ zs) None"
    and "nxt (unlink_list h a) a = None" and "prv (unlink_list h a) a = None"
  using assms by (cases ys rule: rev_cases; cases zs; 
      auto simp: unlink_list_def Let_def heap_simps dll_append)+

lemma unlink_list_frame:
  "lcp (unlink_list h a) = lcp h" "key (unlink_list h a) = key h"
  by (auto simp: unlink_list_def Let_def heap_simps split: option.splits)

lemma unlink_list_rc:
  assumes "distinct (ys @ a # zs)" and "dll (nxt h) (prv h) None (ys @ a # zs) None"
    and "\<forall>x \<in> set (ys @ zs). 0 < rc h x" and "1 + of_bool (ys \<noteq> []) + of_bool (zs \<noteq> []) \<le> rc h a"
  shows "rc h x - rc (unlink_list h a) x =
    (if x = a then of_bool (ys \<noteq> []) + of_bool (zs \<noteq> [])
     else of_bool (zs = [] \<and> seg_last ys None = Some x) + of_bool (ys = [] \<and> seg_head zs None = Some x))"
  using assms
  by (cases ys rule: rev_cases; cases zs)
     (auto simp: unlink_list_def Let_def heap_simps dll_append)

lemma lc_unlink_lease_pos_linked:
  assumes "lc_linked h lc (ys @ a # zs)"
  shows "\<exists>h' lc'. lc_unlink_lease_pos h lc (length ys) = Ret (h', lc') \<and>
      lc_linked h' lc' (ys @ zs) \<and> lc_id lc' = lc_id lc \<and> key h' = key h \<and>
      nxt h' a = None \<and> prv h' a = None \<and> lcp h' a = None \<and>
      (\<forall>x. rc h' x - held (ys @ zs) x = rc h x - held (ys @ a # zs) x)"
proof -
  have inv: "lc_shows lc (ys @ a # zs)" "distinct (ys @ a # zs)" "dll (nxt h) (prv h) None (ys @ a # zs) None"
      "\<forall>x \<in> set (ys @ a # zs). lcp h x = Some (lc_id lc) \<and> held (ys @ a # zs) x \<le> rc h x"
    using assms by (auto simp: lc_linked_def)
  define h0 where "h0 = rc_dec ((rc_inc h a)(a := (rc_inc h a a)\<lparr>l_lc := None\<rparr>)) a"
  obtain lc' where r: "lc_unlink_lease_pos h lc (length ys) = Ret (rc_dec (unlink_list h0 a) a, lc')"
      "lc_shows lc' (ys @ zs)" "lc_id lc' = lc_id lc"
    using lc_unlink_lease_pos_list [OF inv(1), of h] unfolding h0_def by blast
  let ?h' = "rc_dec (unlink_list h0 a) a"
  have ha: "1 + of_bool (ys \<noteq> []) + of_bool (zs \<noteq> []) \<le> rc h a"
    using inv(2,4) held_insert [OF inv(2), of a] by (auto simp: held_def [of "ys @ zs"])
  then have rca: "0 < rc h a" by (cases "ys = []"; cases "zs = []") auto
  have h0: "nxt h0 = nxt h" "prv h0 = prv h" "lcp h0 = (lcp h)(a := None)" "key h0 = key h" "rc h0 = rc h"
    using rca unfolding h0_def by (simp_all add: heap_simps)
  have pos: "\<forall>x \<in> set (ys @ zs). 0 < rc h0 x"
  proof
    fix x assume "x \<in> set (ys @ zs)"
    then have "x \<in> set (ys @ a # zs)" by auto
    with inv(4) held_pos [OF this] show "0 < rc h0 x" unfolding h0 by (meson less_le_trans)
  qed
  have d: "rc h x - rc (unlink_list h0 a) x =
    (if x = a then of_bool (ys \<noteq> []) + of_bool (zs \<noteq> [])
     else of_bool (zs = [] \<and> seg_last ys None = Some x) + of_bool (ys = [] \<and> seg_head zs None = Some x))" for x
    using unlink_list_rc [OF inv(2) _ pos, of x] inv(3) ha by (simp add: h0)
  have "0 < rc (unlink_list h0 a) a" using d [of a] ha by simp
  then have rc: "rc ?h' x - held (ys @ zs) x = rc h x - held (ys @ a # zs) x" for x
    using d [of x] held_insert [OF inv(2), of x] by (simp add: heap_simps split: if_splits)
  have "held (ys @ zs) x \<le> rc ?h' x" if "x \<in> set (ys @ zs)" for x
    using that rc [of x] inv(4) by force
  moreover have "dll (nxt h0) (prv h0) None (ys @ a # zs) None" using inv(3) by (simp add: h0)
  note unlink_list_dll [OF inv(2) this]
  ultimately show ?thesis using r inv rc
    by (intro exI [of _ ?h'] exI [of _ lc']) (auto simp: lc_linked_def h0 heap_simps unlink_list_frame)
qed
section \<open>The operations keep the chain\<close>

definition lc_holds :: "'a heap \<Rightarrow> leasechain \<Rightarrow> ptr list \<Rightarrow> bool" where
  "lc_holds h lc xs \<longleftrightarrow> lc_linked h lc xs \<and> key_sorted h xs \<and>
     (\<forall>x \<in> set xs. snd (key h x) \<le> LONG_MAX)"

definition lc_loose :: "'a heap \<Rightarrow> ptr \<Rightarrow> bool" where
  "lc_loose h a \<longleftrightarrow> nxt h a = None \<and> prv h a = None \<and> 0 \<le> rc h a"

lemma set_tiebreaker_frame:
  "nxt (set_tiebreaker h a v) = nxt h" "prv (set_tiebreaker h a v) = prv h"
  "lcp (set_tiebreaker h a v) = lcp h" "rc (set_tiebreaker h a v) = rc h"
  "key (set_tiebreaker h a v) = (key h)(a := (sort_time (h a), v))"
  by (auto simp: set_tiebreaker_def nxt_def prv_def lcp_def rc_def key_def fun_eq_iff)

lemma key_sorted_cong: "(\<And>x. x \<in> set xs \<Longrightarrow> key h x = key k x) \<Longrightarrow> key_sorted h xs = key_sorted k xs"
  unfolding key_sorted_def sorted_wrt_iff_nth_less using nth_mem by force

lemma key_sorted_insert:
  assumes "key_sorted h xs" and "pos \<le> length xs" and "\<forall>i < pos. key h (xs ! i) \<le> key h a"
    and "\<forall>i. pos \<le> i \<and> i < length xs \<longrightarrow> key h a \<le> key h (xs ! i)"
  shows "key_sorted h (take pos xs @ a # drop pos xs)"
proof -
  have "key_sorted h (take pos xs @ drop pos xs)" using assms(1) by simp
  moreover have "\<forall>x \<in> set (take pos xs). key h x \<le> key h a"
    using assms(2,3) by (auto simp: in_set_conv_nth)
  moreover have "\<forall>x \<in> set (drop pos xs). key h a \<le> key h x"
    using assms(4) by (auto simp: in_set_conv_nth)
  ultimately show ?thesis unfolding key_sorted_def sorted_wrt_append by auto
qed

lemma lc_add_at:
  assumes "lc_holds h lc xs" and "lc_loose h a" and "a \<notin> set xs" and "v \<le> LONG_MAX"
    and "pos \<le> length xs" and "\<forall>i < pos. key h (xs ! i) \<le> (sort_time (h a), v)"
    and "\<forall>i. pos \<le> i \<and> i < length xs \<longrightarrow> (sort_time (h a), v) \<le> key h (xs ! i)"
  shows "\<exists>h' lc'. lc_add_lease_pos True (set_tiebreaker h a v) lc a pos = Ret (h', lc') \<and>
      lc_holds h' lc' (take pos xs @ a # drop pos xs) \<and> lc_id lc' = lc_id lc \<and>
      key h' = (key h)(a := (sort_time (h a), v)) \<and>
      (\<forall>x. rc h' x - held (take pos xs @ a # drop pos xs) x = rc h x - held xs x)"
proof -
  let ?h = "set_tiebreaker h a v"
  have inv: "lc_linked h lc xs" "key_sorted h xs" "\<forall>x \<in> set xs. snd (key h x) \<le> LONG_MAX"
    using assms(1) by (auto simp: lc_holds_def)
  have linked: "lc_linked ?h lc (take pos xs @ drop pos xs)"
    using inv(1) by (simp add: lc_linked_def set_tiebreaker_frame)
  have nth: "key ?h (xs ! i) = key h (xs ! i)" if "i < length xs" for i
    using assms(3) that nth_mem [OF that] by (auto simp: set_tiebreaker_frame)
  have "key ?h x = key h x" if "x \<in> set xs" for x
    using assms(3) that by (auto simp: set_tiebreaker_frame)
  then have "key_sorted ?h xs" using inv(2) key_sorted_cong by blast
  then have sorted: "key_sorted ?h (take pos xs @ a # drop pos xs)"
    by (rule key_sorted_insert [OF _ assms(5)]) (use assms(5-) nth in \<open>auto simp: set_tiebreaker_frame\<close>)
  obtain h' lc' where r: "lc_add_lease_pos True ?h lc a (length (take pos xs)) = Ret (h', lc')"
      "lc_linked h' lc' (take pos xs @ a # drop pos xs)" "lc_id lc' = lc_id lc" "key h' = key ?h"
      "\<forall>x. rc h' x - held (take pos xs @ a # drop pos xs) x = rc ?h x - held (take pos xs @ drop pos xs) x"
    using lc_add_lease_pos_linked [OF linked, of a] assms(2,3)
    by (auto simp: set_tiebreaker_frame lc_loose_def)
  have "key_sorted h' (take pos xs @ a # drop pos xs)"
    using sorted r(4) key_sorted_cong [of _ h' ?h] by simp
  moreover have "set (take pos xs) \<subseteq> set xs" "set (drop pos xs) \<subseteq> set xs"
    by (rule set_take_subset, rule set_drop_subset)
  then have "\<forall>x \<in> set (take pos xs @ a # drop pos xs). snd (key h' x) \<le> LONG_MAX"
    using inv(3) assms(3,4) r(4) by (auto simp: set_tiebreaker_frame)
  ultimately show ?thesis using r assms(5)
    by (intro exI [of _ h'] exI [of _ lc']) (simp add: lc_holds_def set_tiebreaker_frame min_absorb2)
qed

lemma LONG_MAX_nonneg [simp]: "0 \<le> LONG_MAX"
  by (simp add: LONG_MAX_def)

lemma lc_add_sorted_lease_pos:
  assumes "lc_holds h lc xs" and "a \<notin> set xs" and "rnd \<le> LONG_MAX"
  shows "\<exists>pos v. lc_add_sorted_lease (rnd, mem) h lc a =
        lc_add_lease_pos mem (set_tiebreaker h a v) lc a pos \<and> v \<le> LONG_MAX \<and> pos \<le> length xs \<and>
      (\<forall>i < pos. key h (xs ! i) \<le> (sort_time (h a), v)) \<and>
      (\<forall>i. pos \<le> i \<and> i < length xs \<longrightarrow> (sort_time (h a), v) \<le> key h (xs ! i))"
proof (cases "xs = []")
  case True
  with assms(1) show ?thesis
    by (intro exI [of _ 0]) (simp add: lc_add_sorted_lease_def lc_holds_def lc_linked_def lc_shows_def)
next
  case False
  have sh: "lc_shows lc xs" and sorted: "key_sorted h xs"
    using assms(1) by (auto simp: lc_holds_def lc_linked_def)
  then have n: "nelem lc = length xs" by (simp add: lc_shows_def)
  let ?e = "xs ! (length xs - 1)"
  have last: "length xs - 1 < length xs" using False by simp
  have slot: "slot lc (nelem lc - 1) = Ret ?e" unfolding n by (rule slot_shows [OF sh last])
  have lastmax: "key h (xs ! i) \<le> key h ?e" if "i < length xs" for i
    using that by (intro key_sorted_nth [OF sorted]) auto
  have emax: "sort_tiebreaker (h ?e) \<le> LONG_MAX"
    using assms(1) last nth_mem [OF last] by (auto simp: lc_holds_def key_def)
  have at_end: ?thesis if "lc_add_sorted_lease (rnd, mem) h lc a =
      lc_add_lease_pos mem (set_tiebreaker h a v) lc a (length xs)" "v \<le> LONG_MAX"
      "key h ?e \<le> (sort_time (h a), v)" for v
    using that lastmax order_trans [OF lastmax that(3)] by (intro exI [of _ "length xs"] exI [of _ v]) auto
  consider "sort_time (h a) > sort_time (h ?e)" | "sort_time (h a) = sort_time (h ?e)"
    | "sort_time (h a) < sort_time (h ?e)" by linarith
  then show ?thesis
  proof cases
    case 1
    show ?thesis by (rule at_end [of 0]) (use 1 slot False n in \<open>auto simp: lc_add_sorted_lease_def key_def\<close>)
  next
    case 2
    let ?v = "if sort_tiebreaker (h ?e) < LONG_MAX then sort_tiebreaker (h ?e) + 1 else LONG_MAX"
    show ?thesis
      by (rule at_end [of ?v])
         (use 2 slot False n emax in \<open>auto simp: lc_add_sorted_lease_def Let_def key_def\<close>)
  next
    case 3
    let ?h = "set_tiebreaker h a rnd"
    have keys: "key ?h x = key h x" if "x \<in> set xs" for x
      using assms(2) that by (auto simp: set_tiebreaker_frame)
    then have sorted': "key_sorted ?h xs" using sorted key_sorted_cong by blast
    obtain pos where pos: "lc_binary_search_insert_point ?h lc a 0 (length xs - 1) = Ret pos"
        "pos \<le> length xs" "\<forall>i < pos. key ?h (xs ! i) \<le> key ?h a"
        "\<forall>i. pos \<le> i \<and> i < length xs \<longrightarrow> key ?h a \<le> key ?h (xs ! i)"
    proof -
      have "key ?h a \<le> key ?h (xs ! i)" if "length xs - 1 < i" "i < length xs" for i using that by auto
      with lc_binary_search_insert_point_Ret [OF sh sorted' _ last, of 0 a] that show ?thesis by blast
    qed
    have "key ?h a = (sort_time (h a), rnd)" by (simp add: set_tiebreaker_frame)
    moreover have "lc_add_sorted_lease (rnd, mem) h lc a = lc_add_lease_pos mem ?h lc a pos"
      using 3 slot False n pos(1) by (simp add: lc_add_sorted_lease_def Let_def)
    ultimately show ?thesis using pos assms(3) keys nth_mem
      by (intro exI [of _ pos] exI [of _ rnd]) simp
  qed
qed

lemma lc_add_sorted_lease_holds:
  assumes "lc_holds h lc xs" and "lc_loose h a" and "a \<notin> set xs" and "rnd \<le> LONG_MAX"
  shows "\<exists>h' lc' ys zs v. lc_add_sorted_lease (rnd, True) h lc a = Ret (h', lc') \<and> xs = ys @ zs \<and>
      lc_holds h' lc' (ys @ a # zs) \<and> lc_id lc' = lc_id lc \<and>
      key h' = (key h)(a := (sort_time (h a), v)) \<and>
      (\<forall>x. rc h' x - held (ys @ a # zs) x = rc h x - held xs x)"
proof -
  obtain pos v where "lc_add_sorted_lease (rnd, True) h lc a =
        lc_add_lease_pos True (set_tiebreaker h a v) lc a pos" "v \<le> LONG_MAX" "pos \<le> length xs"
      "\<forall>i < pos. key h (xs ! i) \<le> (sort_time (h a), v)"
      "\<forall>i. pos \<le> i \<and> i < length xs \<longrightarrow> (sort_time (h a), v) \<le> key h (xs ! i)"
    using lc_add_sorted_lease_pos [OF assms(1,3,4), of True] by (elim exE conjE)
  with lc_add_at [OF assms(1-3)] show ?thesis by (metis append_take_drop_id)
qed

lemma lc_unlink_lease_pos_holds:
  assumes "lc_holds h lc (ys @ a # zs)"
  shows "\<exists>h' lc'. lc_unlink_lease_pos h lc (length ys) = Ret (h', lc') \<and>
      lc_holds h' lc' (ys @ zs) \<and> lc_id lc' = lc_id lc \<and> key h' = key h \<and>
      lc_loose h' a \<and> lcp h' a = None \<and>
      (\<forall>x. rc h' x - held (ys @ zs) x = rc h x - held (ys @ a # zs) x)"
proof -
  have inv: "lc_linked h lc (ys @ a # zs)" "key_sorted h (ys @ a # zs)"
      "\<forall>x \<in> set (ys @ a # zs). snd (key h x) \<le> LONG_MAX"
    using assms by (auto simp: lc_holds_def)
  obtain h' lc' where r: "lc_unlink_lease_pos h lc (length ys) = Ret (h', lc')"
      "lc_linked h' lc' (ys @ zs)" "lc_id lc' = lc_id lc" "key h' = key h"
      "nxt h' a = None" "prv h' a = None" "lcp h' a = None"
      "\<forall>x. rc h' x - held (ys @ zs) x = rc h x - held (ys @ a # zs) x"
    using lc_unlink_lease_pos_linked [OF inv(1)] by (elim exE conjE)
  have "a \<notin> set (ys @ zs)" "held (ys @ a # zs) a \<le> rc h a" using inv(1) by (auto simp: lc_linked_def)
  then have "0 \<le> rc h' a" using r(8) [rule_format, of a] by (simp add: held_def [of "ys @ zs"])
  moreover have "key_sorted h' (ys @ zs)"
    using inv(2) r(4) unfolding key_sorted_def by (simp add: sorted_wrt_append)
  ultimately show ?thesis using r inv(3)
    by (intro exI [of _ h'] exI [of _ lc']) (simp add: lc_holds_def lc_loose_def)
qed

lemma lc_unlink_lease_holds:
  assumes "lc_holds h lc (ys @ a # zs)"
  shows "lc_unlink_lease h lc a = lc_unlink_lease_pos h lc (length ys)"
proof -
  have inv: "lc_shows lc (ys @ a # zs)" "key_sorted h (ys @ a # zs)" "distinct (ys @ a # zs)"
    using assms by (auto simp: lc_holds_def lc_linked_def)
  have "nelem lc \<noteq> 0" using inv(1) by (simp add: lc_shows_def)
  with lc_search_member [OF inv, of "length ys"] show ?thesis
    by (simp add: lc_unlink_lease_def nth_append)
qed
lemma unlink_list_other:
  assumes "distinct (ys @ a # zs)" and "dll (nxt h) (prv h) None (ys @ a # zs) None"
    and "x \<notin> set (ys @ a # zs)"
  shows "nxt (unlink_list h a) x = nxt h x" and "prv (unlink_list h a) x = prv h x"
  using assms by (cases ys rule: rev_cases; cases zs;
      auto simp: unlink_list_def Let_def heap_simps dll_append)+

lemma lc_unlink_lease_pos_other:
  assumes "lc_linked h lc (ys @ a # zs)" and "lc_unlink_lease_pos h lc (length ys) = Ret (h', lc')"
    and "x \<notin> set (ys @ a # zs)"
  shows "nxt h' x = nxt h x \<and> prv h' x = prv h x \<and> lcp h' x = lcp h x"
proof -
  have inv: "lc_shows lc (ys @ a # zs)" "distinct (ys @ a # zs)" "dll (nxt h) (prv h) None (ys @ a # zs) None"
    using assms(1) by (auto simp: lc_linked_def)
  define h0 where "h0 = rc_dec ((rc_inc h a)(a := (rc_inc h a a)\<lparr>l_lc := None\<rparr>)) a"
  have h0: "nxt h0 = nxt h" "prv h0 = prv h" "lcp h0 = (lcp h)(a := None)"
    unfolding h0_def by (simp_all add: heap_simps)
  have "h' = rc_dec (unlink_list h0 a) a"
    using lc_unlink_lease_pos_list [OF inv(1), of h] assms(2) unfolding h0_def by auto
  moreover have "dll (nxt h0) (prv h0) None (ys @ a # zs) None" using inv(3) by (simp add: h0)
  ultimately show ?thesis
    using unlink_list_other [OF inv(2) _ assms(3), of h0] assms(3)
    by (auto simp: heap_simps unlink_list_frame h0)
qed

lemma lc_delete_loop_Ret:
  assumes "lc_holds h lc xs" and "length xs = Suc i"
  shows "\<exists>h' lc'. lc_delete_loop h lc i = Ret (h', lc') \<and> lc_id lc' = lc_id lc \<and> key h' = key h \<and>
      (\<forall>x \<in> set xs. nxt h' x = None \<and> prv h' x = None \<and> lcp h' x = None) \<and>
      (\<forall>x. x \<notin> set xs \<longrightarrow> nxt h' x = nxt h x \<and> prv h' x = prv h x \<and> lcp h' x = lcp h x) \<and>
      (\<forall>x. rc h' x = rc h x - held xs x)"
  using assms
proof (induction i arbitrary: h lc xs)
  case 0
  then obtain a where xs: "xs = [] @ a # []" by (cases xs) auto
  from 0 have "lc_holds h lc ([] @ a # [])" by (simp add: xs)
  from lc_unlink_lease_pos_holds [OF this] obtain h' lc' where
    r: "lc_unlink_lease_pos h lc 0 = Ret (h', lc')" "lc_id lc' = lc_id lc" "key h' = key h"
      "lc_loose h' a" "lcp h' a = None" "\<forall>x. rc h' x - held [] x = rc h x - held [a] x" by auto
  with lc_unlink_lease_pos_other [of h lc "[]" a "[]" h' lc'] 0 xs show ?case
    by (auto simp: lc_loose_def lc_holds_def held_def [of "[]"])
next
  case (Suc i)
  obtain ys a where xs: "xs = ys @ a # []" using Suc.prems(2) by (cases xs rule: rev_cases) auto
  then have len: "length ys = Suc i" using Suc.prems(2) by simp
  have holds: "lc_holds h lc (ys @ a # [])" using Suc.prems(1) xs by simp
  then have dist: "a \<notin> set ys" "lc_linked h lc (ys @ a # [])" by (auto simp: lc_holds_def lc_linked_def)
  from lc_unlink_lease_pos_holds [OF holds] obtain h1 lc1 where
    r: "lc_unlink_lease_pos h lc (Suc i) = Ret (h1, lc1)" "lc_holds h1 lc1 ys" "lc_id lc1 = lc_id lc"
      "key h1 = key h" "lc_loose h1 a" "lcp h1 a = None" "\<forall>x. rc h1 x - held ys x = rc h x - held xs x"
    unfolding len xs by auto
  have other: "nxt h1 x = nxt h x \<and> prv h1 x = prv h x \<and> lcp h1 x = lcp h x" if "x \<notin> set xs" for x
    using lc_unlink_lease_pos_other [OF dist(2), of h1 lc1 x] r(1) that unfolding len xs by simp
  from Suc.IH [OF r(2) len] obtain h' lc' where
    ih: "lc_delete_loop h1 lc1 i = Ret (h', lc')" "lc_id lc' = lc_id lc1" "key h' = key h1"
      "\<forall>x \<in> set ys. nxt h' x = None \<and> prv h' x = None \<and> lcp h' x = None"
      "\<forall>x. x \<notin> set ys \<longrightarrow> nxt h' x = nxt h1 x \<and> prv h' x = prv h1 x \<and> lcp h' x = lcp h1 x"
      "\<forall>x. rc h' x = rc h1 x - held ys x" by (elim exE conjE)
  have "rc h' x = rc h x - held xs x" for x using ih(6) r(7) by simp
  moreover have "nxt h' a = None \<and> prv h' a = None \<and> lcp h' a = None"
    using ih(5) dist(1) r(5,6) by (simp add: lc_loose_def)
  ultimately show ?case
    using r(1,3,4) ih other xs by (intro exI [of _ h'] exI [of _ lc']) auto
qed

section \<open>The chain as a lease queue\<close>

lemma lc_holds_time_sorted: "lc_holds h lc xs \<Longrightarrow> time_sorted h xs \<and> distinct xs"
  by (auto simp: lc_holds_def lc_linked_def key_sorted_def time_sorted_def key_def less_eq_prod_def
      elim!: sorted_wrt_mono_rel [rotated])

lemma key_time: "fst (key h b) = sort_time (h b)"
  by (simp add: key_def)

lemma lc_add_sorted_lease_queue:
  assumes "fst r \<le> LONG_MAX \<and> snd r" and "lc_holds h lc xs" and "lc_loose h a" and "a \<notin> set xs"
  shows "\<exists>h' lc' ys zs. lc_add_sorted_lease r h lc a = Ret (h', lc') \<and> xs = ys @ zs \<and>
      lc_holds h' lc' (ys @ a # zs) \<and> (\<forall>b. sort_time (h' b) = sort_time (h b))"
proof -
  obtain h' lc' ys zs v where "lc_add_sorted_lease (fst r, True) h lc a = Ret (h', lc')" "xs = ys @ zs"
      "lc_holds h' lc' (ys @ a # zs)" and k: "key h' = (key h)(a := (sort_time (h a), v))"
    using lc_add_sorted_lease_holds [OF assms(2-4), of "fst r"] assms(1) by auto
  moreover have "sort_time (h' b) = sort_time (h b)" for b
    using k by (simp flip: key_time)
  ultimately show ?thesis using assms(1) by (metis prod.collapse)
qed

lemma lc_unlink_lease_queue:
  assumes "lc_holds h lc (ys @ a # zs)"
  shows "\<exists>h' lc'. lc_unlink_lease h lc a = Ret (h', lc') \<and> lc_holds h' lc' (ys @ zs) \<and> lc_loose h' a \<and>
      (\<forall>b. sort_time (h' b) = sort_time (h b))"
  using lc_unlink_lease_pos_holds [OF assms] lc_unlink_lease_holds [OF assms]
  by (auto simp flip: key_time)

lemma lc_first_queue: "lc_holds h lc xs \<Longrightarrow> lc_get_first_lease lc = Ret (seg_head xs None)"
proof -
  assume "lc_holds h lc xs"
  then have "lc_shows lc xs" by (simp add: lc_holds_def lc_linked_def)
  then show ?thesis
    by (cases xs; cases "lc_list lc") (auto simp: lc_get_first_lease_def lc_shows_def)
qed

lemma lc_next_queue: "lc_holds h lc (ys @ a # zs) \<Longrightarrow> lc_get_next h a = seg_head zs None"
  by (auto simp: lc_holds_def lc_linked_def lc_get_next_def dll_append nxt_def)

interpretation lc: lease_queue lc_holds lc_loose "\<lambda>r. fst r \<le> LONG_MAX \<and> snd r"
    lc_add_sorted_lease lc_unlink_lease lc_get_first_lease lc_get_next
  by unfold_locales
     (rule lc_holds_time_sorted lc_add_sorted_lease_queue lc_unlink_lease_queue lc_first_queue
        lc_next_queue; assumption)+
section \<open>Properties\<close>

text \<open>Leases for the examples: on a chain at address 9, with the given neighbours and sort fields.\<close>

definition ex_lease :: "int \<Rightarrow> ptr option \<Rightarrow> ptr option \<Rightarrow> ptr option \<Rightarrow> int \<Rightarrow> int \<Rightarrow> lease" where
  "ex_lease c p n lc t tb = \<lparr>refcnt = c, l_next = n, l_prev = p, l_lc = lc, sort_time = t, sort_tiebreaker = tb\<rparr>"

definition ex_heap :: "unit heap" where
  "ex_heap = (\<lambda>_. ex_lease 1 None None None 20 0)
     (1 := ex_lease 2 None (Some 2) (Some 9) 10 0, 2 := ex_lease 3 (Some 1) (Some 3) (Some 9) 30 0,
      3 := ex_lease 2 (Some 2) None (Some 9) 30 1)"

definition ex_chain :: leasechain where
  "ex_chain = \<lparr>lc_id = 9, lc_list = [Some 1, Some 2, Some 3], total = 3, nelem = 3, growth = 0\<rparr>"

lemma ex_holds: "lc_holds ex_heap ex_chain [1, 2, 3]"
  by (simp add: lc_holds_def lc_linked_def lc_shows_def ex_chain_def key_sorted_def key_def ex_heap_def
      ex_lease_def nxt_def prv_def lcp_def rc_def held_def LONG_MAX_def)

lemma ex_loose: "lc_loose ex_heap 4"
  by (simp add: lc_loose_def ex_heap_def ex_lease_def nxt_def prv_def rc_def)

text \<open>
  C16. \<open>lc_add_sorted_lease\<close> on a chain that holds \<open>xs\<close>, for a lease that is on no list: it returns
  (no access outside the array, which it grows when it is full), the chain then holds \<open>xs\<close> with the
  new lease at one place, with the array, both link directions, the back pointers and the order by
  sort time and tie-breaker intact; only the tie-breaker of the new lease changes; and every
  reference count changes by exactly the number of pointers the chain gained or lost.
\<close>

theorem lc_add_sorted_lease_correct:
  assumes "lc_holds h lc xs" and "lc_loose h a" and "a \<notin> set xs" and "rnd \<le> LONG_MAX"
  shows "\<exists>h' lc' ys zs v. lc_add_sorted_lease (rnd, True) h lc a = Ret (h', lc') \<and> xs = ys @ zs \<and>
      lc_holds h' lc' (ys @ a # zs) \<and> key h' = (key h)(a := (sort_time (h a), v)) \<and>
      (\<forall>x. rc h' x - held (ys @ a # zs) x = rc h x - held xs x)"
  using lc_add_sorted_lease_holds [OF assms] by blast

theorem lc_add_sorted_lease_correct_witness:
  "\<exists>h' lc' ys zs v. lc_add_sorted_lease (5, True) ex_heap ex_chain 4 = Ret (h', lc') \<and> [1, 2, 3] = ys @ zs \<and>
      lc_holds h' lc' (ys @ 4 # zs) \<and> key h' = (key ex_heap)(4 := (sort_time (ex_heap 4), v)) \<and>
      (\<forall>x. rc h' x - held (ys @ 4 # zs) x = rc ex_heap x - held [1, 2, 3] x)"
  by (rule lc_add_sorted_lease_correct [OF ex_holds ex_loose]) (simp_all add: LONG_MAX_def)

text \<open>
  C17. \<open>lc_unlink_lease\<close> finds every lease of the chain, also among leases with the same sort time and
  tie-breaker, takes exactly it out of the array and the list and clears its pointers; the process
  is ended for a lease that is not on a chain with some lease. The lease keeps the references it has
  from elsewhere, and no other count is off.
\<close>

theorem lc_unlink_lease_correct:
  assumes "lc_holds h lc xs" and "xs \<noteq> []"
  shows "if a \<in> set xs
    then \<exists>h' lc'. lc_unlink_lease h lc a = Ret (h', lc') \<and> lc_holds h' lc' (remove1 a xs) \<and>
      key h' = key h \<and> nxt h' a = None \<and> prv h' a = None \<and> lcp h' a = None \<and>
      (\<forall>x. rc h' x - held (remove1 a xs) x = rc h x - held xs x)
    else lc_unlink_lease h lc a = Fatal"
proof (cases "a \<in> set xs")
  case True
  then obtain ys zs where xs: "xs = ys @ a # zs" "a \<notin> set ys" using split_list_first by metis
  then have "remove1 a xs = ys @ zs" by (simp add: remove1_append)
  with xs True assms(1) lc_unlink_lease_pos_holds [of h lc ys a zs] lc_unlink_lease_holds [of h lc ys a zs]
  show ?thesis by (auto simp: lc_loose_def)
next
  case False
  from assms(1) have "lc_shows lc xs" "key_sorted h xs" by (auto simp: lc_holds_def lc_linked_def)
  moreover from this(1) assms(2) have "nelem lc \<noteq> 0" by (simp add: lc_shows_def)
  ultimately show ?thesis
    using False lc_search_nonmember [of lc xs h a, OF _ _ assms(2) False] by (simp add: lc_unlink_lease_def)
qed

theorem lc_unlink_lease_correct_witness:
  "(\<exists>h' lc'. lc_unlink_lease ex_heap ex_chain 3 = Ret (h', lc') \<and> lc_holds h' lc' [1, 2] \<and>
      key h' = key ex_heap \<and> nxt h' 3 = None \<and> prv h' 3 = None \<and> lcp h' 3 = None \<and>
      (\<forall>x. rc h' x - held [1, 2] x = rc ex_heap x - held [1, 2, 3] x)) \<and>
   lc_unlink_lease ex_heap ex_chain 4 = Fatal"
  using lc_unlink_lease_correct [OF ex_holds, of 3] lc_unlink_lease_correct [OF ex_holds, of 4] by simp

text \<open>
  \<open>lc_delete_all\<close> returns for every chain: the chain is empty and has no array, every lease that
  was on it has lost its links and its back pointer, no other lease is touched, and every lease
  gives back exactly the references the chain held.
\<close>

theorem lc_delete_all_correct:
  assumes "lc_holds h lc xs"
  shows "\<exists>h' lc'. lc_delete_all h lc = Ret (h', lc') \<and> lc_list lc' = [] \<and> total lc' = 0 \<and> nelem lc' = 0 \<and>
      (\<forall>x \<in> set xs. nxt h' x = None \<and> prv h' x = None \<and> lcp h' x = None) \<and>
      (\<forall>x. x \<notin> set xs \<longrightarrow> nxt h' x = nxt h x \<and> prv h' x = prv h x \<and> lcp h' x = lcp h x) \<and>
      (\<forall>x. rc h' x = rc h x - held xs x)"
proof (cases xs)
  case Nil
  with assms show ?thesis
    by (auto simp: lc_delete_all_def lc_holds_def lc_linked_def lc_shows_def held_def)
next
  case (Cons x xs')
  then have len: "length xs = Suc (length xs')" by simp
  have "nelem lc = length xs" using assms by (simp add: lc_holds_def lc_linked_def lc_shows_def)
  with len lc_delete_loop_Ret [OF assms len] show ?thesis
    by (auto simp: lc_delete_all_def)
qed

theorem lc_delete_all_correct_witness:
  "\<exists>h' lc'. lc_delete_all ex_heap ex_chain = Ret (h', lc') \<and> lc_list lc' = [] \<and> total lc' = 0 \<and> nelem lc' = 0 \<and>
      (\<forall>x \<in> set [1, 2, 3]. nxt h' x = None \<and> prv h' x = None \<and> lcp h' x = None) \<and>
      (\<forall>x. x \<notin> set [1, 2, 3] \<longrightarrow> nxt h' x = nxt ex_heap x \<and> prv h' x = prv ex_heap x \<and> lcp h' x = lcp ex_heap x) \<and>
      (\<forall>x. rc h' x = rc ex_heap x - held [1, 2, 3] x)"
  by (rule lc_delete_all_correct [OF ex_holds])

text \<open>
  C18. A chain is a queue by sort time: after \<open>lc_add_sorted_lease\<close> a walk that starts with
  \<open>lc_get_first_lease\<close> and follows \<open>lc_get_next\<close> meets exactly the old leases and the new one, each
  once, in order of sort time.
\<close>

theorem lc_walk_sorted:
  assumes "rnd \<le> LONG_MAX" and "lc_holds h lc xs" and "lc_loose h a" and "a \<notin> set xs"
  shows "\<exists>h' lc' f ys zs. lc_add_sorted_lease (rnd, True) h lc a = Ret (h', lc') \<and>
      lc_get_first_lease lc' = Ret f \<and> xs = ys @ zs \<and>
      walk (lc_get_next h') (length xs + 2) f = ys @ a # zs \<and> time_sorted h' (ys @ a # zs)"
  by (rule lc.insert_then_walk) (use assms in auto)

theorem lc_walk_sorted_witness:
  "\<exists>h' lc' f ys zs. lc_add_sorted_lease (5, True) ex_heap ex_chain 4 = Ret (h', lc') \<and>
      lc_get_first_lease lc' = Ret f \<and> [1, 2, 3] = ys @ zs \<and>
      walk (lc_get_next h') (length [1::nat, 2, 3] + 2) f = ys @ 4 # zs \<and> time_sorted h' (ys @ 4 # zs)"
  by (rule lc_walk_sorted [OF _ ex_holds ex_loose]) (simp_all add: LONG_MAX_def)

end
