(* ===== verification/LeaseList.thy ===== *)
theory LeaseList
  imports LeaseQueue
begin

text \<open>
  The linear lease queues of \<open>server/mdb.c\<close>, which a server built without \<open>BINARY_LEASES\<close> uses in
  place of the lease chains: \<open>lease_insert\<close>, \<open>lease_remove\<close> and \<open>lease_remove_all\<close> on a singly
  linked list, the shortcut \<open>lease_insert\<close> takes while the server reads its lease file, and the
  interpretation of the queue interface.
\<close>

section \<open>The operations\<close>

text \<open>
  A queue is a variable of type \<open>struct lease *\<close> at the address \<open>q_id\<close>. The two static variables
  of \<open>lease_insert\<close> remember the queue and the lease of its last call; they are carried with the
  queue. \<open>SS_QFOLLOW\<close> is the flag of \<open>server_starting\<close> that turns the shortcut on.
\<close>

record lease_list =
  q_id :: ptr
  q_head :: "ptr option"
  last_lq :: "ptr option"
  last_insert_point :: "ptr option"

definition lq_reference :: "'a heap \<Rightarrow> lease_list \<Rightarrow> ptr \<Rightarrow> 'a heap \<times> lease_list" where
  "lq_reference h q a =
     (case q_head q of Some _ \<Rightarrow> (h, q) | None \<Rightarrow> (rc_inc h a, q\<lparr>q_head := Some a\<rparr>))"

definition lq_dereference :: "'a heap \<Rightarrow> lease_list \<Rightarrow> 'a heap \<times> lease_list" where
  "lq_dereference h q =
     (case q_head q of None \<Rightarrow> (h, q) | Some a \<Rightarrow> (rc_dec h a, q\<lparr>q_head := None\<rparr>))"

text \<open>
  The two loops over a list; a loop over a cyclic list would not end, which is \<open>None\<close> here. The
  first gives \<open>prev\<close> when it stops, the second \<open>prev\<close> and \<open>lp\<close>.
\<close>

partial_function (option) insert_loop ::
    "'a heap \<Rightarrow> int \<Rightarrow> ptr option \<Rightarrow> ptr option \<Rightarrow> ptr option option" where
  "insert_loop h t prev lp =
     (case lp of
        None \<Rightarrow> Some prev
      | Some a \<Rightarrow> if sort_time (h a) \<ge> t then Some prev else insert_loop h t lp (l_next (h a)))"

partial_function (option) remove_loop ::
    "'a heap \<Rightarrow> ptr \<Rightarrow> ptr option \<Rightarrow> ptr option \<Rightarrow> (ptr option \<times> ptr option) option" where
  "remove_loop h cp prev lp =
     (case lp of
        None \<Rightarrow> Some (prev, None)
      | Some a \<Rightarrow> if a = cp then Some (prev, lp) else remove_loop h cp lp (l_next (h a)))"

text \<open>
  The shortcut reads the sort time of \<open>last_insert_point\<close>, which is set whenever \<open>last_lq\<close> is.
  \<open>Undef\<close> stands for a loop that does not end, too.
\<close>

definition insert_start ::
    "bool \<Rightarrow> 'a heap \<Rightarrow> lease_list \<Rightarrow> ptr \<Rightarrow> (ptr option \<times> ptr option) cres" where
  "insert_start qfollow h q cp =
     (if qfollow \<and> last_lq q = Some (q_id q) \<and> Some cp \<noteq> last_insert_point q
      then case last_insert_point q of
             None \<Rightarrow> Undef
           | Some p \<Rightarrow> if sort_time (h p) \<le> sort_time (h cp) then Ret (Some p, l_next (h p))
                       else Ret (None, q_head q)
      else Ret (None, q_head q))"

definition lease_insert ::
    "bool \<Rightarrow> 'a heap \<Rightarrow> lease_list \<Rightarrow> ptr \<Rightarrow> ('a heap \<times> lease_list) cres" where
  "lease_insert qfollow h q cp =
     cbind (insert_start qfollow h q cp) (\<lambda>(prev, lp).
       case insert_loop h (sort_time (h cp)) prev lp of
         None \<Rightarrow> Undef
       | Some prev \<Rightarrow>
           let (h, q) =
             (case prev of
                Some p \<Rightarrow>
                  let h = (case l_next (h p) of
                             Some n \<Rightarrow> next_dereference (next_reference h cp n) p
                           | None \<Rightarrow> h)
                  in (next_reference h p cp, q)
              | None \<Rightarrow>
                  let (h, q) = (case q_head q of
                                  Some n \<Rightarrow> lq_dereference (next_reference h cp n) q
                                | None \<Rightarrow> (h, q))
                  in lq_reference h q cp)
           in Ret (h, q\<lparr>last_insert_point := Some cp, last_lq := Some (q_id q)\<rparr>))"

text \<open>
  A lease on a queue is referred to by the address table too, so its count does not reach 0 when it
  is removed; that it would be freed then is not modelled.
\<close>

definition lease_remove :: "'a heap \<Rightarrow> lease_list \<Rightarrow> ptr \<Rightarrow> ('a heap \<times> lease_list) cres" where
  "lease_remove h q cp =
     (case remove_loop h cp None (q_head q) of
        None \<Rightarrow> Undef
      | Some (prev, None) \<Rightarrow> Fatal
      | Some (Some p, Some _) \<Rightarrow>
          let h = next_dereference h p
          in Ret (case l_next (h cp) of
                    Some n \<Rightarrow> next_dereference (next_reference h p n) cp
                  | None \<Rightarrow> h, q)
      | Some (None, Some _) \<Rightarrow>
          let (h, q) = lq_dereference h q
          in Ret (case l_next (h cp) of
                    Some n \<Rightarrow> let (h, q) = lq_reference h q n in (next_dereference h cp, q)
                  | None \<Rightarrow> (h, q)))"

text \<open>
  \<open>lease_remove_all\<close> stores the first lease with \<open>lease_reference\<close> into the local variable \<open>lp\<close>,
  which is not initialised; \<open>lp0\<close> is what it happens to hold. If that is not \<open>NULL\<close>,
  \<open>lease_reference\<close> does nothing and the loop runs from that value.
\<close>

partial_function (option) remove_all_loop :: "'a heap \<Rightarrow> ptr \<Rightarrow> 'a heap option" where
  "remove_all_loop h lp =
     (let ln = l_next (h lp);
          h = (case ln of Some n \<Rightarrow> next_dereference (rc_inc h n) lp | None \<Rightarrow> h);
          h = rc_dec h lp
      in case ln of None \<Rightarrow> Some h | Some n \<Rightarrow> remove_all_loop h n)"

definition lease_remove_all ::
    "ptr option \<Rightarrow> 'a heap \<Rightarrow> lease_list \<Rightarrow> ('a heap \<times> lease_list) cres" where
  "lease_remove_all lp0 h q =
     (case q_head q of
        None \<Rightarrow> Ret (h, q)
      | Some a \<Rightarrow>
          let (h, lp) = (case lp0 of None \<Rightarrow> (rc_inc h a, a) | Some g \<Rightarrow> (h, g));
              (h, q) = lq_dereference h q
          in case remove_all_loop h lp of None \<Rightarrow> Undef | Some h \<Rightarrow> Ret (h, q))"

section \<open>Inserting and removing\<close>

text \<open>The list holds one counted pointer to each of its leases.\<close>

definition lq_holds :: "'a heap \<Rightarrow> lease_list \<Rightarrow> ptr list \<Rightarrow> bool" where
  "lq_holds h q xs \<longleftrightarrow> q_head q = seg_head xs None \<and> sll (nxt h) xs None \<and> distinct xs \<and>
     time_sorted h xs \<and> (\<forall>x \<in> set xs. 0 < rc h x)"

definition lq_loose :: "'a heap \<Rightarrow> ptr \<Rightarrow> bool" where
  "lq_loose h a \<longleftrightarrow> nxt h a = None \<and> 0 \<le> rc h a"

lemma insert_loop_Some:
  "sll (nxt h) xs None \<Longrightarrow>
   insert_loop h t prev (seg_head xs None) = Some (seg_last (takeWhile (\<lambda>x. sort_time (h x) < t) xs) prev)"
proof (induction xs arbitrary: prev)
  case Nil
  then show ?case by (simp add: insert_loop.simps)
next
  case (Cons x xs)
  then have "l_next (h x) = seg_head xs None" "sll (nxt h) xs None" by (simp_all flip: nxt_def)
  with Cons.IH [of "Some x"] show ?case by (simp add: insert_loop.simps [of _ _ _ "Some x"])
qed

lemma remove_loop_Some:
  "sll (nxt h) (ys @ a # zs) None \<Longrightarrow> a \<notin> set ys \<Longrightarrow>
   remove_loop h a prev (seg_head (ys @ a # zs) None) = Some (seg_last ys prev, Some a)"
proof (induction ys arbitrary: prev)
  case Nil
  then show ?case by (simp add: remove_loop.simps)
next
  case (Cons y ys)
  then have "l_next (h y) = seg_head (ys @ a # zs) None" by (simp flip: nxt_def)
  with Cons show ?case by (simp add: remove_loop.simps [of _ _ _ "Some y"])
qed

lemma remove_loop_None:
  "sll (nxt h) xs None \<Longrightarrow> a \<notin> set xs \<Longrightarrow> \<exists>p. remove_loop h a prev (seg_head xs None) = Some (p, None)"
proof (induction xs arbitrary: prev)
  case Nil
  then show ?case by (simp add: remove_loop.simps)
next
  case (Cons x xs)
  then have "l_next (h x) = seg_head xs None" by (simp flip: nxt_def)
  with Cons show ?case by (simp add: remove_loop.simps [of _ _ _ "Some x"])
qed

text \<open>The pointer updates of an insertion between \<open>ys\<close> and \<open>zs\<close>.\<close>

definition lq_link :: "'a heap \<Rightarrow> lease_list \<Rightarrow> ptr option \<Rightarrow> ptr \<Rightarrow> 'a heap \<times> lease_list" where
  "lq_link h q prev cp =
     (case prev of
        Some p \<Rightarrow>
          let h = (case nxt h p of
                     Some n \<Rightarrow> next_dereference (next_reference h cp n) p
                   | None \<Rightarrow> h)
          in (next_reference h p cp, q)
      | None \<Rightarrow>
          let (h, q) = (case q_head q of
                          Some n \<Rightarrow> lq_dereference (next_reference h cp n) q
                        | None \<Rightarrow> (h, q))
          in lq_reference h q cp)"

lemma lq_link_sll:
  assumes "q_head q = seg_head (ys @ zs) None" and "sll (nxt h) (ys @ zs) None" and "distinct (ys @ a # zs)"
    and "nxt h a = None" and "lq_link h q (seg_last ys None) a = (h', q')"
    and "\<forall>x \<in> set (ys @ zs). 0 < rc h x"
  shows "q_head q' = seg_head (ys @ a # zs) None \<and> sll (nxt h') (ys @ a # zs) None \<and>
    key h' = key h \<and> rc h' = (rc h)(a := rc h a + 1) \<and> q_id q' = q_id q"
  using assms
  by (cases ys rule: rev_cases; cases zs)
     (auto simp: lq_link_def lq_reference_def lq_dereference_def Let_def heap_simps sll_append
       split: if_splits)
text \<open>
  The shortcut is safe as long as the lease inserted last is still on the queue.
\<close>

definition lq_follow :: "bool \<Rightarrow> lease_list \<Rightarrow> ptr list \<Rightarrow> bool" where
  "lq_follow qfollow q xs \<longleftrightarrow> qfollow \<longrightarrow> last_lq q = Some (q_id q) \<longrightarrow>
     (case last_insert_point q of None \<Rightarrow> False | Some p \<Rightarrow> p \<in> set xs)"

lemma time_sorted_append:
  "time_sorted h (xs @ ys) \<longleftrightarrow> time_sorted h xs \<and> time_sorted h ys \<and>
     (\<forall>x \<in> set xs. \<forall>y \<in> set ys. sort_time (h x) \<le> sort_time (h y))"
  by (simp add: time_sorted_def sorted_wrt_append)

lemma time_sorted_Cons:
  "time_sorted h (x # xs) \<longleftrightarrow> (\<forall>y \<in> set xs. sort_time (h x) \<le> sort_time (h y)) \<and> time_sorted h xs"
  by (simp add: time_sorted_def)

lemma time_sorted_dropWhile:
  assumes "time_sorted h xs" and "y \<in> set (dropWhile (\<lambda>x. sort_time (h x) < t) xs)"
  shows "t \<le> sort_time (h y)"
  using assms by (induction xs) (auto simp: time_sorted_Cons split: if_splits)

text \<open>Where the loop of \<open>lease_insert\<close> stops.\<close>

lemma insert_point:
  assumes "lq_holds h q xs" and "a \<notin> set xs" and "lq_follow qfollow q xs"
  shows "\<exists>ys zs prev lp. insert_start qfollow h q a = Ret (prev, lp) \<and> xs = ys @ zs \<and>
      insert_loop h (sort_time (h a)) prev lp = Some (seg_last ys None) \<and>
      (\<forall>y \<in> set ys. sort_time (h y) \<le> sort_time (h a)) \<and> (\<forall>z \<in> set zs. sort_time (h a) \<le> sort_time (h z)) \<and>
      (qfollow \<or> ys = takeWhile (\<lambda>x. sort_time (h x) < sort_time (h a)) xs)"
proof -
  have inv: "q_head q = seg_head xs None" "sll (nxt h) xs None" "time_sorted h xs"
    using assms(1) by (auto simp: lq_holds_def)
  let ?P = "\<lambda>x. sort_time (h x) < sort_time (h a)"
  have front: ?thesis if "insert_start qfollow h q a = Ret (None, q_head q)"
    using that insert_loop_Some [OF inv(2), of "sort_time (h a)" None] inv(1)
      time_sorted_dropWhile [OF inv(3), of _ "sort_time (h a)"]
    by (intro exI [of _ "takeWhile ?P xs"] exI [of _ "dropWhile ?P xs"])
       (auto dest: set_takeWhileD)
  show ?thesis
  proof (cases "\<exists>p. insert_start qfollow h q a = Ret (Some p, l_next (h p))")
    case False
    with assms(2,3) have "insert_start qfollow h q a = Ret (None, q_head q)"
      by (auto simp: insert_start_def lq_follow_def split: option.splits if_splits)
    then show ?thesis by (rule front)
  next
    case True
    then obtain p where p: "insert_start qfollow h q a = Ret (Some p, l_next (h p))"
        "last_insert_point q = Some p" "qfollow" "last_lq q = Some (q_id q)" "sort_time (h p) \<le> sort_time (h a)"
      by (auto simp: insert_start_def split: option.splits if_splits)
    then obtain us vs where xs: "xs = us @ p # vs" using assms(3) by (auto simp: lq_follow_def dest: split_list)
    have vs: "sll (nxt h) vs None" "l_next (h p) = seg_head vs None" "time_sorted h vs"
      using inv(2,3) xs by (auto simp: sll_append time_sorted_append time_sorted_Cons simp flip: nxt_def)
    have us: "\<forall>u \<in> set us. sort_time (h u) \<le> sort_time (h a)"
      using inv(3) p(5) xs by (fastforce simp: time_sorted_append time_sorted_Cons)
    show ?thesis
      using p(1,3,5) us vs(2) insert_loop_Some [OF vs(1), of "sort_time (h a)" "Some p"]
        time_sorted_dropWhile [OF vs(3), of _ "sort_time (h a)"]
      by (intro exI [of _ "us @ p # takeWhile ?P vs"] exI [of _ "dropWhile ?P vs"])
         (auto simp: xs dest: set_takeWhileD)
  qed
qed

lemma lease_insert_link:
  "lease_insert qfollow h q cp =
     cbind (insert_start qfollow h q cp) (\<lambda>(prev, lp).
       case insert_loop h (sort_time (h cp)) prev lp of
         None \<Rightarrow> Undef
       | Some prev \<Rightarrow> let (h, q) = lq_link h q prev cp
           in Ret (h, q\<lparr>last_insert_point := Some cp, last_lq := Some (q_id q)\<rparr>))"
  unfolding lease_insert_def lq_link_def nxt_def by (rule refl)

lemma lease_insert_holds:
  assumes "lq_holds h q xs" and "lq_loose h a" and "a \<notin> set xs" and "lq_follow qfollow q xs"
  shows "\<exists>h' q' ys zs. lease_insert qfollow h q a = Ret (h', q') \<and> xs = ys @ zs \<and>
      lq_holds h' q' (ys @ a # zs) \<and> lq_follow True q' (ys @ a # zs) \<and> key h' = key h \<and>
      rc h' = (rc h)(a := rc h a + 1) \<and>
      (qfollow \<or> ys = takeWhile (\<lambda>x. sort_time (h x) < sort_time (h a)) xs)"
proof -
  obtain ys zs prev lp where pt: "insert_start qfollow h q a = Ret (prev, lp)" "xs = ys @ zs"
      "insert_loop h (sort_time (h a)) prev lp = Some (seg_last ys None)"
      "\<forall>y \<in> set ys. sort_time (h y) \<le> sort_time (h a)" "\<forall>z \<in> set zs. sort_time (h a) \<le> sort_time (h z)"
      "qfollow \<or> ys = takeWhile (\<lambda>x. sort_time (h x) < sort_time (h a)) xs"
    using insert_point [OF assms(1,3,4)] by blast
  have inv: "q_head q = seg_head (ys @ zs) None" "sll (nxt h) (ys @ zs) None" "distinct (ys @ a # zs)"
      "time_sorted h (ys @ zs)" "\<forall>x \<in> set (ys @ zs). 0 < rc h x" "nxt h a = None" "0 \<le> rc h a"
    using assms pt(2) by (auto simp: lq_holds_def lq_loose_def)
  obtain h' q' where l: "lq_link h q (seg_last ys None) a = (h', q')" by fastforce
  from lq_link_sll [OF inv(1-3,6) l inv(5)] have link:
    "q_head q' = seg_head (ys @ a # zs) None" "sll (nxt h') (ys @ a # zs) None"
    "key h' = key h" "rc h' = (rc h)(a := rc h a + 1)" "q_id q' = q_id q" by auto
  have "sort_time (h' x) = sort_time (h x)" for x
    using fun_cong [OF link(3), of x] by (simp add: key_def)
  then have "time_sorted h' (ys @ a # zs)"
    using inv(4) pt(4,5) by (auto simp: time_sorted_def sorted_wrt_append)
  moreover have "lease_insert qfollow h q a =
      Ret (h', q'\<lparr>last_insert_point := Some a, last_lq := Some (q_id q')\<rparr>)"
    using l pt(1,3) by (simp add: lease_insert_link)
  ultimately show ?thesis using link inv pt(2,6)
    by (intro exI [of _ h'] exI [of _ "q'\<lparr>last_insert_point := Some a, last_lq := Some (q_id q')\<rparr>"]
          exI [of _ ys] exI [of _ zs])
       (auto simp: lq_holds_def lq_follow_def)
qed

lemma lease_remove_holds:
  assumes "lq_holds h q (ys @ a # zs)"
  shows "\<exists>h' q'. lease_remove h q a = Ret (h', q') \<and> lq_holds h' q' (ys @ zs) \<and> lq_loose h' a \<and>
      key h' = key h \<and> rc h' = (rc h)(a := rc h a - 1)"
proof -
  have inv: "q_head q = seg_head (ys @ a # zs) None" "sll (nxt h) (ys @ a # zs) None" "distinct (ys @ a # zs)"
      "time_sorted h (ys @ a # zs)" "\<forall>x \<in> set (ys @ a # zs). 0 < rc h x"
    using assms by (auto simp: lq_holds_def)
  have loop: "remove_loop h a None (q_head q) = Some (seg_last ys None, Some a)"
    using remove_loop_Some [OF inv(2)] inv(1,3) by simp
  have ts: "time_sorted h' (ys @ zs)" if "key h' = key h" for h' :: "'a heap"
  proof -
    have "sort_time (h' x) = sort_time (h x)" for x using fun_cong [OF that, of x] by (simp add: key_def)
    with inv(4) show ?thesis by (simp add: time_sorted_def sorted_wrt_append)
  qed
  show ?thesis
    using inv(1-3,5) loop ts
    by (cases ys rule: rev_cases; cases zs)
       (auto simp: lease_remove_def lq_reference_def lq_dereference_def Let_def heap_simps sll_append
         lq_holds_def lq_loose_def simp flip: nxt_def)
qed
lemma remove_all_loop_Some:
  assumes "sll (nxt h) (x # xs) None" and "distinct (x # xs)" and "\<forall>y \<in> set (x # xs). 0 < rc h y"
  shows "\<exists>h'. remove_all_loop h x = Some h' \<and> key h' = key h \<and>
      nxt h' = (\<lambda>y. if y \<in> set (x # xs) then None else nxt h y) \<and>
      rc h' = (\<lambda>y. if y \<in> set (x # xs) then rc h y - 1 else rc h y)"
  using assms
proof (induction xs arbitrary: h x)
  case Nil
  then have "l_next (h x) = None" by (simp flip: nxt_def)
  then have "remove_all_loop h x = Some (rc_dec h x)" by (subst remove_all_loop.simps) simp
  with Nil show ?case by (auto simp: heap_simps fun_eq_iff)
next
  case (Cons n xs)
  let ?h = "rc_dec (next_dereference (rc_inc h n) x) x"
  have nx: "nxt h x = Some n" using Cons.prems(1) by simp
  then have "l_next (h x) = Some n" by (simp add: nxt_def)
  then have step: "remove_all_loop h x = remove_all_loop ?h n"
    by (subst remove_all_loop.simps) (simp add: Let_def)
  have nxt: "nxt ?h = (nxt h)(x := None)" and key: "key ?h = key h"
    and rc: "rc ?h = (rc h)(x := rc h x - 1)"
    using Cons.prems nx by (auto simp: heap_simps fun_eq_iff)
  have "sll (nxt ?h) (n # xs) None" "distinct (n # xs)" "\<forall>y \<in> set (n # xs). 0 < rc ?h y"
    using Cons.prems unfolding nxt rc by auto
  from Cons.IH [OF this] obtain h' where ih: "remove_all_loop ?h n = Some h'" "key h' = key ?h"
    "nxt h' = (\<lambda>y. if y \<in> set (n # xs) then None else nxt ?h y)"
    "rc h' = (\<lambda>y. if y \<in> set (n # xs) then rc ?h y - 1 else rc ?h y)" by blast
  show ?case unfolding step
    using ih Cons.prems(2) by (intro exI [of _ h']) (auto simp: nxt key rc fun_eq_iff)
qed

lemma lease_remove_missing: assumes "lq_holds h q xs" "a \<notin> set xs" shows "lease_remove h q a = Fatal"
proof -
  from assms have "q_head q = seg_head xs None" "sll (nxt h) xs None" by (auto simp: lq_holds_def)
  with remove_loop_None [of h xs a None] assms(2) show ?thesis
    by (auto simp: lease_remove_def split: option.splits)
qed

section \<open>The list as a lease queue\<close>

lemma key_eq_time: "key h' = key h \<Longrightarrow> sort_time (h' b) = sort_time (h b)"
  by (drule fun_cong [where x = b]) (simp add: key_def)

lemma lease_insert_queue:
  assumes "\<not> r" and "lq_holds h q xs" and "lq_loose h a" and "a \<notin> set xs"
  shows "\<exists>h' q' ys zs. lease_insert r h q a = Ret (h', q') \<and> xs = ys @ zs \<and>
      lq_holds h' q' (ys @ a # zs) \<and> (\<forall>b. sort_time (h' b) = sort_time (h b))"
proof -
  have "lq_follow r q xs" using assms(1) by (simp add: lq_follow_def)
  from lease_insert_holds [OF assms(2-4) this] key_eq_time show ?thesis by metis
qed

lemma lease_remove_queue:
  assumes "lq_holds h q (ys @ a # zs)"
  shows "\<exists>h' q'. lease_remove h q a = Ret (h', q') \<and> lq_holds h' q' (ys @ zs) \<and> lq_loose h' a \<and>
      (\<forall>b. sort_time (h' b) = sort_time (h b))"
  using lease_remove_holds [OF assms] key_eq_time by metis

lemma lq_next_queue: "lq_holds h q (ys @ a # zs) \<Longrightarrow> nxt h a = seg_head zs None"
  by (simp add: lq_holds_def sll_append)

interpretation lq: lease_queue lq_holds lq_loose "\<lambda>qfollow. \<not> qfollow"
    lease_insert lease_remove "\<lambda>q. Ret (q_head q)" nxt
  by unfold_locales
     ((rule lease_insert_queue lease_remove_queue lq_next_queue; assumption)
      | simp add: lq_holds_def)+

section \<open>Properties\<close>

definition exq_lease :: "int \<Rightarrow> ptr option \<Rightarrow> int \<Rightarrow> lease" where
  "exq_lease c n t = \<lparr>refcnt = c, l_next = n, l_prev = None, l_lc = None, sort_time = t, sort_tiebreaker = 0\<rparr>"

definition exq_heap :: "unit heap" where
  "exq_heap = (\<lambda>_. exq_lease 1 None 30)
     (1 := exq_lease 1 (Some 2) 10, 2 := exq_lease 1 (Some 3) 20, 3 := exq_lease 1 None 40)"

definition exq_queue :: lease_list where
  "exq_queue = \<lparr>q_id = 9, q_head = Some 1, last_lq = Some 9, last_insert_point = Some 2\<rparr>"

lemma exq_holds: "lq_holds exq_heap exq_queue [1, 2, 3]"
  by (simp add: lq_holds_def exq_queue_def exq_heap_def exq_lease_def nxt_def rc_def time_sorted_def)

lemma exq_loose: "lq_loose exq_heap 4"
  by (simp add: lq_loose_def exq_heap_def exq_lease_def nxt_def rc_def)

text \<open>
  C19. \<open>lease_insert\<close> puts a lease that is on no list at its place in the order of sort times, with one
  reference from the list, and leaves the other leases as they are. This holds in normal operation,
  and while the server starts as long as the lease inserted last is still on the queue; the call
  itself establishes that condition for the next one.
\<close>

theorem lease_insert_correct:
  assumes "lq_holds h q xs" and "lq_loose h a" and "a \<notin> set xs" and "lq_follow qfollow q xs"
  shows "\<exists>h' q' ys zs. lease_insert qfollow h q a = Ret (h', q') \<and> xs = ys @ zs \<and>
      lq_holds h' q' (ys @ a # zs) \<and> lq_follow True q' (ys @ a # zs) \<and> key h' = key h \<and>
      rc h' = (rc h)(a := rc h a + 1)"
  using lease_insert_holds [OF assms] by blast

theorem lease_insert_correct_witness:
  "\<exists>h' q' ys zs. lease_insert True exq_heap exq_queue 4 = Ret (h', q') \<and> [1, 2, 3] = ys @ zs \<and>
      lq_holds h' q' (ys @ 4 # zs) \<and> lq_follow True q' (ys @ 4 # zs) \<and> key h' = key exq_heap \<and>
      rc h' = (rc exq_heap)(4 := rc exq_heap 4 + 1)"
  by (rule lease_insert_correct [OF exq_holds exq_loose]) (simp_all add: lq_follow_def exq_queue_def)

text \<open>
  \<open>lease_remove\<close> takes exactly the given lease out of the queue and returns its reference; for a
  lease that is not on the queue the process is ended, never left with a damaged list.
\<close>

theorem lease_remove_correct:
  assumes "lq_holds h q xs"
  shows "if a \<in> set xs
    then \<exists>h' q'. lease_remove h q a = Ret (h', q') \<and> lq_holds h' q' (remove1 a xs) \<and>
      nxt h' a = None \<and> key h' = key h \<and> rc h' = (rc h)(a := rc h a - 1)
    else lease_remove h q a = Fatal"
proof (cases "a \<in> set xs")
  case True
  then obtain ys zs where xs: "xs = ys @ a # zs" "a \<notin> set ys" using split_list_first by metis
  then have "remove1 a xs = ys @ zs" by (simp add: remove1_append)
  with True xs assms lease_remove_holds [of h q ys a zs] show ?thesis by (auto simp: lq_loose_def)
next
  case False
  then show ?thesis using lease_remove_missing [OF assms False] by simp
qed

theorem lease_remove_correct_witness:
  "(\<exists>h' q'. lease_remove exq_heap exq_queue 2 = Ret (h', q') \<and> lq_holds h' q' [1, 3] \<and>
      nxt h' 2 = None \<and> key h' = key exq_heap \<and> rc h' = (rc exq_heap)(2 := rc exq_heap 2 - 1)) \<and>
   lease_remove exq_heap exq_queue 4 = Fatal"
  using lease_remove_correct [OF exq_holds, of 2] lease_remove_correct [OF exq_holds, of 4] by simp

text \<open>
  C40. \<open>lease_remove_all\<close> depends on what the uninitialised variable \<open>lp\<close> holds. If that is \<open>NULL\<close>, all
  leases are unlinked and give their reference back. If it points to some other lease without a
  successor, the queue loses its head but none of its leases is unlinked, and that other lease loses
  a reference it may still need.
\<close>

theorem lease_remove_all_uninitialised:
  assumes "lq_holds h q xs" and "xs \<noteq> []" and "g \<notin> set xs" and "nxt h g = None" and "0 < rc h g"
  shows "(\<exists>h' q'. lease_remove_all None h q = Ret (h', q') \<and> q_head q' = None \<and>
      (\<forall>x \<in> set xs. nxt h' x = None \<and> rc h' x = rc h x - 1)) \<and>
   (\<exists>h' q'. lease_remove_all (Some g) h q = Ret (h', q') \<and> q_head q' = None \<and>
      nxt h' = nxt h \<and> rc h' g = rc h g - 1)"
proof
  obtain x xs' where xs: "xs = x # xs'" using assms(2) by (cases xs) auto
  have inv: "q_head q = Some x" "sll (nxt h) (x # xs') None" "distinct (x # xs')"
      "\<forall>y \<in> set (x # xs'). 0 < rc h y"
    using assms(1) by (auto simp: lq_holds_def xs)
  let ?h = "rc_dec (rc_inc h x) x"
  have h: "nxt ?h = nxt h" "rc ?h = rc h" using inv(4) by (auto simp: heap_simps)
  have "sll (nxt ?h) (x # xs') None" "\<forall>y \<in> set (x # xs'). 0 < rc ?h y"
    using inv(2,4) unfolding h by blast+
  from remove_all_loop_Some [OF this(1) inv(3) this(2)] obtain h' where
    "remove_all_loop ?h x = Some h'" "nxt h' = (\<lambda>y. if y \<in> set (x # xs') then None else nxt ?h y)"
    "rc h' = (\<lambda>y. if y \<in> set (x # xs') then rc ?h y - 1 else rc ?h y)" by blast
  then show "\<exists>h' q'. lease_remove_all None h q = Ret (h', q') \<and> q_head q' = None \<and>
      (\<forall>x \<in> set xs. nxt h' x = None \<and> rc h' x = rc h x - 1)"
    using inv(1) by (auto simp: lease_remove_all_def lq_dereference_def h xs)
  have "l_next (rc_dec h x g) = None"
    using assms(4) fun_cong [OF rc_dec_frame(1) [of h x], of g] by (simp add: nxt_def)
  then have "remove_all_loop (rc_dec h x) g = Some (rc_dec (rc_dec h x) g)"
    by (subst remove_all_loop.simps) simp
  moreover have "g \<noteq> x" using assms(3) xs by auto
  ultimately show "\<exists>h' q'. lease_remove_all (Some g) h q = Ret (h', q') \<and> q_head q' = None \<and>
      nxt h' = nxt h \<and> rc h' g = rc h g - 1"
    using inv(1) assms(5) by (auto simp: lease_remove_all_def lq_dereference_def heap_simps)
qed

theorem lease_remove_all_uninitialised_witness:
  "(\<exists>h' q'. lease_remove_all None exq_heap exq_queue = Ret (h', q') \<and> q_head q' = None \<and>
      (\<forall>x \<in> set [1, 2, 3]. nxt h' x = None \<and> rc h' x = rc exq_heap x - 1)) \<and>
   (\<exists>h' q'. lease_remove_all (Some 4) exq_heap exq_queue = Ret (h', q') \<and> q_head q' = None \<and>
      nxt h' = nxt exq_heap \<and> rc h' 4 = rc exq_heap 4 - 1)"
  by (rule lease_remove_all_uninitialised [OF exq_holds])
     (simp_all add: exq_heap_def exq_lease_def nxt_def rc_def)

end
