(* ===== verification/Dispatch.thy ===== *)
theory Dispatch
  imports Prelude
begin

text \<open>
  The timers of \<open>common/dispatch.c\<close>: the list of pending timeouts, \<open>add_timeout\<close>,
  \<open>cancel_timeout\<close>, the callback from the ISC timer library, and \<open>set_time\<close> with
  \<open>process_outstanding_timeouts\<close>, which run the timers when a trace is played back.
\<close>

section \<open>The state\<close>

text \<open>
  A \<open>struct timeval\<close> is a pair of seconds and microseconds. A timeout is a \<open>struct timeout\<close>: its
  time, the function to call and its argument. \<open>isc_timeout\<close> is the timer of the ISC library: the
  interval it was last armed with, from the moment of arming, or \<open>None\<close> when there is no timer.
  \<open>t_addr\<close> is the address of the structure, which the library hands back to the callback.
\<close>

type_synonym timeval = "int \<times> int"

record 'f timeout =
  t_addr :: nat
  t_when :: timeval
  t_func :: "'f option"
  t_what :: nat
  isc_timeout :: "(int \<times> int) option"

text \<open>
  \<open>playback\<close> is the result of \<open>trace_playback\<close>; \<open>next_addr\<close> is the address of the next structure
  taken from the free list or the heap. \<open>no_memory\<close> and \<open>isc_fails\<close> say that an allocation, or a
  call of the ISC library, does not succeed.
\<close>

record 'f disp =
  cur_tv :: timeval
  timeouts :: "'f timeout list"
  playback :: bool
  next_addr :: nat
  no_memory :: bool
  isc_fails :: bool

definition TIME_MAX :: int where
  "TIME_MAX = 2147483647"

definition USEC_MAX :: int where
  "USEC_MAX = 1000000"

section \<open>The operations\<close>

text \<open>The loops that look for a timeout and unlink the first one they find.\<close>

fun unlink_first :: "('a \<Rightarrow> bool) \<Rightarrow> 'a list \<Rightarrow> 'a option \<times> 'a list" where
  "unlink_first P [] = (None, [])"
| "unlink_first P (q # qs) =
     (if P q then (Some q, qs) else (let (r, rs) = unlink_first P qs in (r, q # rs)))"

definition timeout_interval :: "timeval \<Rightarrow> timeval \<Rightarrow> int \<times> int" where
  "timeout_interval cur w =
     (let sec = fst w - fst cur;
          usec = snd w - snd cur;
          (sec, usec) = (if snd w \<noteq> 0 \<and> usec < 0 then (sec - 1, usec + USEC_MAX) else (sec, usec))
      in if sec < 0 then (0, 0)
         else if TIME_MAX \<le> sec then (TIME_MAX - 1, 0)
         else if usec < 0 then (sec, 0)
         else if USEC_MAX \<le> usec then (sec, USEC_MAX - 1)
         else (sec, usec))"

definition tv_after :: "timeval \<Rightarrow> timeval \<Rightarrow> bool" where
  "tv_after a b \<longleftrightarrow> fst b < fst a \<or> fst a = fst b \<and> snd b < snd a"

fun playback_insert :: "'f timeout \<Rightarrow> 'f timeout list \<Rightarrow> 'f timeout list" where
  "playback_insert q [] = [q]"
| "playback_insert q (t # ts) =
     (if tv_after (t_when t) (t_when q) then q # t # ts else t # playback_insert q ts)"

definition add_timeout ::
    "('f, 'z) disp_scheme \<Rightarrow> timeval \<Rightarrow> 'f option \<Rightarrow> nat \<Rightarrow> ('f, 'z) disp_scheme cres" where
  "add_timeout d w func what =
     (case unlink_first (\<lambda>q. (func = None \<or> t_func q = func) \<and> t_what q = what) (timeouts d) of
        (found, ts) \<Rightarrow>
          if found = None \<and> no_memory d then Fatal
          else
            let q = (case found of
                       Some q \<Rightarrow> q
                     | None \<Rightarrow> \<lparr>t_addr = next_addr d, t_when = (0, 0), t_func = func, t_what = what,
                               isc_timeout = None\<rparr>);
                d = (if found = None then d\<lparr>next_addr := next_addr d + 1\<rparr> else d);
                (sec, usec) = timeout_interval (cur_tv d) w;
                q = q\<lparr>t_when := (fst (cur_tv d) + sec, usec)\<rparr>
            in if playback d then Ret (d\<lparr>timeouts := playback_insert q ts\<rparr>)
               else if isc_fails d then Fatal
               else Ret (d\<lparr>timeouts := q\<lparr>isc_timeout := Some (sec, usec * 1000)\<rparr> # ts\<rparr>))"

definition cancel_timeout ::
    "('f, 'z) disp_scheme \<Rightarrow> 'f option \<Rightarrow> nat \<Rightarrow> ('f, 'z) disp_scheme" where
  "cancel_timeout d func what =
     d\<lparr>timeouts := snd (unlink_first (\<lambda>q. t_func q = func \<and> t_what q = what) (timeouts d))\<rparr>"

text \<open>
  The ISC library calls back with the address of the timeout, at the time \<open>now\<close>. \<open>cb\<close> runs the
  function of a timeout on its argument; it may add and cancel timeouts.
\<close>

type_synonym ('f, 'z) callback = "'f option \<Rightarrow> nat \<Rightarrow> ('f, 'z) disp_scheme \<Rightarrow> ('f, 'z) disp_scheme cres"

definition isclib_timer_callback ::
    "('f, 'z) callback \<Rightarrow> timeval \<Rightarrow> ('f, 'z) disp_scheme \<Rightarrow> nat \<Rightarrow> ('f, 'z) disp_scheme cres" where
  "isclib_timer_callback cb now d a =
     (let d = d\<lparr>cur_tv := now\<rparr>
      in case unlink_first (\<lambda>q. t_addr q = a) (timeouts d) of
           (None, _) \<Rightarrow> Ret d
         | (Some q, ts) \<Rightarrow> cb (t_func q) (t_what q) (d\<lparr>timeouts := ts\<rparr>))"

definition due :: "timeval \<Rightarrow> 'f timeout \<Rightarrow> bool" where
  "due cur t \<longleftrightarrow> fst (t_when t) < fst cur \<or> fst (t_when t) = fst cur \<and> snd (t_when t) \<le> snd cur"

text \<open>The jumps to the label \<open>another\<close>; \<open>None\<close> when they do not end.\<close>

partial_function (option) process_loop ::
    "('f, 'z) callback \<Rightarrow> ('f, 'z) disp_scheme \<Rightarrow> ('f, 'z) disp_scheme cres option" where
  "process_loop cb d =
     (case timeouts d of
        [] \<Rightarrow> Some (Ret d)
      | t # ts \<Rightarrow>
          if due (cur_tv d) t
          then case cb (t_func t) (t_what t) (d\<lparr>timeouts := ts\<rparr>) of
                 Ret d \<Rightarrow> process_loop cb d
               | Fatal \<Rightarrow> Some Fatal
               | Undef \<Rightarrow> Some Undef
          else Some (Ret d))"

definition process_outstanding_timeouts ::
    "('f, 'z) callback \<Rightarrow> bool \<Rightarrow> ('f, 'z) disp_scheme \<Rightarrow>
     (('f, 'z) disp_scheme \<times> timeval option) cres option" where
  "process_outstanding_timeouts cb tvp d =
     map_option (\<lambda>r. cbind r (\<lambda>d. Ret (d, if tvp \<and> timeouts d \<noteq> [] then Some (t_when (hd (timeouts d)))
                                        else None)))
       (process_loop cb d)"

definition set_time ::
    "('f, 'z) callback \<Rightarrow> int \<Rightarrow> ('f, 'z) disp_scheme \<Rightarrow> ('f, 'z) disp_scheme cres option" where
  "set_time cb t d =
     (if fst (cur_tv d) \<noteq> t
      then map_option (\<lambda>r. cbind r (\<lambda>(d, _). Ret d))
             (process_outstanding_timeouts cb False (d\<lparr>cur_tv := (t, 0)\<rparr>))
      else Some (Ret d))"
section \<open>Adding and cancelling\<close>

lemma unlink_first_filter:
  "distinct (map f qs) \<Longrightarrow> (\<And>q. P q \<longleftrightarrow> f q = k) \<Longrightarrow>
   unlink_first P qs = (find P qs, filter (\<lambda>q. \<not> P q) qs)"
  by (induction qs) (auto intro!: filter_True [symmetric] simp: image_iff)

lemma playback_insert_split:
  "\<exists>ys zs. playback_insert q ts = ys @ q # zs \<and> ts = ys @ zs"
proof (induction ts)
  case (Cons t ts)
  then obtain ys zs where ts: "playback_insert q ts = ys @ q # zs" "ts = ys @ zs" by blast
  show ?case
  proof (cases "tv_after (t_when t) (t_when q)")
    case True
    then show ?thesis by (intro exI [of _ "[]"] exI [of _ "t # ts"]) simp
  next
    case False
    with ts show ?thesis by (intro exI [of _ "t # ys"] exI [of _ zs]) simp
  qed
qed simp

text \<open>
  The list never has two timeouts for the same function and argument, and no two timeouts share
  a structure.
\<close>

definition timeouts_ok :: "('f, 'z) disp_scheme \<Rightarrow> bool" where
  "timeouts_ok d \<longleftrightarrow> distinct (map (\<lambda>q. (t_func q, t_what q)) (timeouts d)) \<and>
     distinct (map t_addr (timeouts d)) \<and> (\<forall>q \<in> set (timeouts d). t_addr q < next_addr d)"

abbreviation is_for :: "'f option \<Rightarrow> nat \<Rightarrow> 'f timeout \<Rightarrow> bool" where
  "is_for func what q \<equiv> t_func q = func \<and> t_what q = what"

lemma unlink_first_for:
  assumes "timeouts_ok d"
  shows "unlink_first (is_for func what) (timeouts d) =
           (find (is_for func what) (timeouts d), filter (\<lambda>q. \<not> is_for func what q) (timeouts d))"
  by (rule unlink_first_filter [of "\<lambda>q. (t_func q, t_what q)" _ _ "(func, what)"])
    (use assms in \<open>auto simp: timeouts_ok_def\<close>)

text \<open>The timeout \<open>add_timeout\<close> puts on the list.\<close>

definition new_timeout :: "('f, 'z) disp_scheme \<Rightarrow> timeval \<Rightarrow> 'f \<Rightarrow> nat \<Rightarrow> 'f timeout \<Rightarrow> bool" where
  "new_timeout d w f what q \<longleftrightarrow> is_for (Some f) what q \<and>
     t_when q = (fst (cur_tv d) + fst (timeout_interval (cur_tv d) w), snd (timeout_interval (cur_tv d) w)) \<and>
     (\<not> playback d \<longrightarrow>
        isc_timeout q = Some (fst (timeout_interval (cur_tv d) w), snd (timeout_interval (cur_tv d) w) * 1000))"

lemma add_timeout_split:
  assumes "timeouts_ok d" and "\<not> no_memory d" and "\<not> isc_fails d"
  shows "\<exists>n q ys zs. add_timeout d w (Some f) what = Ret (d\<lparr>timeouts := ys @ q # zs, next_addr := n\<rparr>) \<and>
           filter (\<lambda>q. \<not> is_for (Some f) what q) (timeouts d) = ys @ zs \<and> new_timeout d w f what q \<and>
           (ys @ q # zs = (if playback d then playback_insert q (ys @ zs) else q # ys @ zs)) \<and>
           timeouts_ok (d\<lparr>timeouts := ys @ q # zs, next_addr := n\<rparr>)"
proof -
  let ?rest = "filter (\<lambda>q. \<not> is_for (Some f) what q) (timeouts d)"
  obtain q0 n where q0: "is_for (Some f) what q0" "t_addr q0 \<notin> t_addr ` set ?rest" "t_addr q0 < n"
      "next_addr d \<le> n"
      and add: "add_timeout d w (Some f) what =
         (let (sec, usec) = timeout_interval (cur_tv d) w;
              q = q0\<lparr>t_when := (fst (cur_tv d) + sec, usec)\<rparr>
          in Ret (d\<lparr>next_addr := n, timeouts :=
                if playback d then playback_insert q ?rest
                else q\<lparr>isc_timeout := Some (sec, usec * 1000)\<rparr> # ?rest\<rparr>))"
  proof (cases "find (is_for (Some f) what) (timeouts d)")
    case None
    show thesis
    proof (rule that)
      show "t_addr \<lparr>t_addr = next_addr d, t_when = (0, 0), t_func = Some f, t_what = what,
                     isc_timeout = None\<rparr> \<notin> t_addr ` set ?rest"
        using assms by (auto simp: timeouts_ok_def)
    qed (use None assms in \<open>auto simp: add_timeout_def unlink_first_for Let_def split: prod.splits\<close>)
  next
    case (Some q)
    then have q: "q \<in> set (timeouts d)" "is_for (Some f) what q" by (auto simp: find_Some_iff)
    show thesis
    proof (rule that [of q "next_addr d"])
      show "t_addr q \<notin> t_addr ` set ?rest"
        using assms q by (auto simp: timeouts_ok_def distinct_map inj_on_def)
    qed (use Some q assms in \<open>auto simp: add_timeout_def unlink_first_for Let_def timeouts_ok_def split: prod.splits\<close>)
  qed
  obtain sec usec where iv: "timeout_interval (cur_tv d) w = (sec, usec)" by fastforce
  define q where "q = q0\<lparr>t_when := (fst (cur_tv d) + sec, usec),
                         isc_timeout := if playback d then isc_timeout q0 else Some (sec, usec * 1000)\<rparr>"
  obtain ys zs where sp: "ys @ q # zs = (if playback d then playback_insert q ?rest else q # ?rest)" "?rest = ys @ zs"
    using playback_insert_split [of q ?rest] by (cases "playback d") force+
  have "add_timeout d w (Some f) what = Ret (d\<lparr>timeouts := ys @ q # zs, next_addr := n\<rparr>)"
    unfolding add using sp(1) by (simp add: iv q_def)
  moreover have "new_timeout d w f what q" using q0 by (auto simp: new_timeout_def iv q_def)
  moreover have "timeouts_ok (d\<lparr>timeouts := ys @ q # zs, next_addr := n\<rparr>)"
  proof -
    have "distinct (map (\<lambda>q. (t_func q, t_what q)) ?rest)" "distinct (map t_addr ?rest)"
      using assms(1) by (auto simp: timeouts_ok_def distinct_map inj_on_def)
    moreover have "\<forall>q \<in> set ?rest. t_addr q < n \<and> \<not> is_for (Some f) what q"
      using assms(1) q0(4) by (auto simp: timeouts_ok_def)
    ultimately show ?thesis using q0 unfolding sp(2)
      by (auto simp: timeouts_ok_def q_def)
  qed
  ultimately show ?thesis
    by (intro exI [of _ n] exI [of _ q] exI [of _ ys] exI [of _ zs] conjI) (use sp in auto)
qed

text \<open>The times the ISC timer is armed with.\<close>

abbreviation usecs :: "timeval \<Rightarrow> int" where
  "usecs tv \<equiv> fst tv * USEC_MAX + snd tv"

text \<open>
  The interval \<open>add_timeout\<close> arms the ISC timer with is always one the library accepts: less
  than \<open>TIME_MAX\<close> seconds, and a proper number of microseconds. For a time that is past it is
  zero. For a later time, less than \<open>TIME_MAX\<close> seconds ahead, the timer never fires early, and it
  fires exactly at that time unless its microseconds are 0, which the code takes to mean that
  they do not matter: then it is late by the microseconds of the current time.
\<close>

theorem timeout_interval_exact:
  assumes "0 \<le> snd cur" and "snd cur < USEC_MAX" and "0 \<le> snd w" and "snd w < USEC_MAX"
  shows "(case timeout_interval cur w of (sec, usec) \<Rightarrow>
            0 \<le> sec \<and> sec < TIME_MAX \<and> 0 \<le> usec \<and> usec < USEC_MAX \<and>
            (fst w < fst cur \<longrightarrow> sec = 0 \<and> usec = 0) \<and>
            (usecs cur \<le> usecs w \<and> fst w - fst cur < TIME_MAX \<longrightarrow>
               usecs cur + usecs (sec, usec) = usecs w + (if snd w = 0 then snd cur else 0)))"
  using assms unfolding timeout_interval_def TIME_MAX_def USEC_MAX_def Let_def
  by auto

theorem timeout_interval_exact_witness:
  "timeout_interval (100, 600000) (102, 500000) = (1, 900000) \<and>
   usecs (100, 600000) + usecs (1, 900000) = usecs (102, 500000)"
  using timeout_interval_exact [of "(100, 600000)" "(102, 500000)"]
  by (simp add: timeout_interval_def TIME_MAX_def USEC_MAX_def)

lemma add_timeout_replaces:
  assumes "timeouts_ok d" and "\<not> no_memory d" and "\<not> isc_fails d"
  shows "\<exists>d' q. add_timeout d w (Some f) what = Ret d' \<and> timeouts_ok d' \<and>
           filter (is_for (Some f) what) (timeouts d') = [q] \<and> new_timeout d w f what q \<and>
           filter (\<lambda>t. \<not> is_for (Some f) what t) (timeouts d') =
             filter (\<lambda>t. \<not> is_for (Some f) what t) (timeouts d) \<and>
           timeouts (cancel_timeout d' (Some f) what) =
             filter (\<lambda>t. \<not> is_for (Some f) what t) (timeouts d)"
proof -
  obtain n q ys zs where add: "add_timeout d w (Some f) what = Ret (d\<lparr>timeouts := ys @ q # zs, next_addr := n\<rparr>)"
      and rest: "filter (\<lambda>q. \<not> is_for (Some f) what q) (timeouts d) = ys @ zs"
      and q: "new_timeout d w f what q"
      and ok: "timeouts_ok (d\<lparr>timeouts := ys @ q # zs, next_addr := n\<rparr>)"
    using add_timeout_split [OF assms, of w f what] by (elim exE conjE) (rule that; assumption)
  have out: "\<forall>t \<in> set (ys @ zs). \<not> is_for (Some f) what t"
    unfolding rest [symmetric] by auto
  then have "filter (is_for (Some f) what) (ys @ q # zs) = [q]"
    "filter (\<lambda>t. \<not> is_for (Some f) what t) (ys @ q # zs) = ys @ zs"
    using q by (auto simp: new_timeout_def filter_empty_conv)
  with add rest q ok unlink_first_for [OF ok, of "Some f" what] show ?thesis
    by (simp add: cancel_timeout_def)
qed

text \<open>
  C37. Adding a timeout for a function and its argument leaves exactly one timeout for the two on
  the list, whether or not there was one before, and leaves every other timeout as it was, in the
  same order. Its timer is armed with an interval of seconds and microseconds: none for
  a time that is past; for a later one, less than \<open>TIME_MAX\<close> seconds ahead, exactly the time that is
  left, or more by the microseconds of the current time when those of the time asked for are 0, which the code takes to
  mean that they do not matter. The time recorded in the list is the current second plus that
  interval, and so can be early by the microseconds of the current time. Cancelling the timeout
  removes just that one. The list keeps at most one timeout for each function and argument,
  each in a structure of its own.
\<close>

theorem add_timeout_correct:
  assumes "timeouts_ok d" and "\<not> no_memory d" and "\<not> isc_fails d"
    and "0 \<le> snd (cur_tv d)" and "snd (cur_tv d) < 1000000" and "0 \<le> snd w" and "snd w < 1000000"
  shows "\<exists>d' q sec usec. add_timeout d w (Some f) what = Ret d' \<and> timeouts_ok d' \<and>
           filter (is_for (Some f) what) (timeouts d') = [q] \<and>
           t_when q = (fst (cur_tv d) + sec, usec) \<and> (\<not> playback d \<longrightarrow> isc_timeout q = Some (sec, usec * 1000)) \<and>
           0 \<le> sec \<and> sec < TIME_MAX \<and> 0 \<le> usec \<and> usec < 1000000 \<and>
           (fst w < fst (cur_tv d) \<longrightarrow> sec = 0 \<and> usec = 0) \<and>
           (usecs (cur_tv d) \<le> usecs w \<and> fst w - fst (cur_tv d) < TIME_MAX \<longrightarrow>
              sec * 1000000 + usec = usecs w - usecs (cur_tv d) + (if snd w = 0 then snd (cur_tv d) else 0)) \<and>
           filter (\<lambda>t. \<not> is_for (Some f) what t) (timeouts d') =
             filter (\<lambda>t. \<not> is_for (Some f) what t) (timeouts d) \<and>
           timeouts (cancel_timeout d' (Some f) what) =
             filter (\<lambda>t. \<not> is_for (Some f) what t) (timeouts d)"
proof -
  obtain d' q where q: "add_timeout d w (Some f) what = Ret d'" "timeouts_ok d'" "filter (is_for (Some f) what) (timeouts d') = [q]"
      "new_timeout d w f what q" "filter (\<lambda>t. \<not> is_for (Some f) what t) (timeouts d') = filter (\<lambda>t. \<not> is_for (Some f) what t) (timeouts d)"
      "timeouts (cancel_timeout d' (Some f) what) = filter (\<lambda>t. \<not> is_for (Some f) what t) (timeouts d)"
    using add_timeout_replaces [OF assms(1-3)] by blast
  obtain sec usec where iv: "timeout_interval (cur_tv d) w = (sec, usec)" by fastforce
  have ex: "0 \<le> sec" "sec < TIME_MAX" "0 \<le> usec" "usec < USEC_MAX" "fst w < fst (cur_tv d) \<longrightarrow> sec = 0 \<and> usec = 0"
      "usecs (cur_tv d) \<le> usecs w \<and> fst w - fst (cur_tv d) < TIME_MAX \<longrightarrow>
         usecs (cur_tv d) + usecs (sec, usec) = usecs w + (if snd w = 0 then snd (cur_tv d) else 0)"
    using timeout_interval_exact [of "cur_tv d" w] assms(4-7) by (simp_all add: iv USEC_MAX_def)
  show ?thesis
    by (intro exI [of _ d'] exI [of _ q] exI [of _ sec] exI [of _ usec])
      (use q ex in \<open>auto simp: new_timeout_def iv USEC_MAX_def\<close>)
qed

theorem add_timeout_correct_witness:
  "\<exists>d' q. add_timeout \<lparr>cur_tv = (100, 0), timeouts = [\<lparr>t_addr = 0, t_when = (105, 0), t_func = Some True,
        t_what = 7, isc_timeout = Some (5, 0)\<rparr>], playback = False, next_addr = 1, no_memory = False,
        isc_fails = False\<rparr> (103, 500) (Some True) 7 = Ret d' \<and>
     filter (is_for (Some True) 7) (timeouts d') = [q] \<and> isc_timeout q = Some (3, 500000)"
proof -
  let ?d = "\<lparr>cur_tv = (100, 0), timeouts = [\<lparr>t_addr = 0, t_when = (105, 0), t_func = Some True,
        t_what = 7, isc_timeout = Some (5, 0)\<rparr>], playback = False, next_addr = 1, no_memory = False, isc_fails = False\<rparr>"
  have ok: "timeouts_ok ?d" by (simp add: timeouts_ok_def)
  obtain d' q sec usec where q: "add_timeout ?d (103, 500) (Some True) 7 = Ret d'" "filter (is_for (Some True) 7) (timeouts d') = [q]"
      "isc_timeout q = Some (sec, usec * 1000)" "0 \<le> usec" "usec < 1000000" "sec * 1000000 + usec = 3000500"
    using add_timeout_correct [of ?d "(103, 500)" True 7] ok
    unfolding USEC_MAX_def TIME_MAX_def by (elim meta_impE) (simp_all, blast)
  have "sec = 3" using q(4-6) by linarith
  moreover from this have "usec = 500" using q(6) by simp
  ultimately show ?thesis using q(1-3) by (intro exI [of _ d'] exI [of _ q] conjI) simp_all
qed

section \<open>Running the timeouts\<close>

text \<open>While a trace is played back the list is kept in order of time.\<close>

definition tv_sorted :: "'f timeout list \<Rightarrow> bool" where
  "tv_sorted ts \<longleftrightarrow> sorted_wrt (\<lambda>a b. \<not> tv_after (t_when a) (t_when b)) ts"

lemma tv_after_trans: "\<not> tv_after a b \<Longrightarrow> \<not> tv_after b c \<Longrightarrow> \<not> tv_after a c"
  by (auto simp: tv_after_def)

lemma tv_after_total: "tv_after a b \<Longrightarrow> \<not> tv_after b a"
  by (auto simp: tv_after_def)

lemma set_playback_insert: "set (playback_insert q ts) = insert q (set ts)"
  by (induction ts) auto

lemma playback_insert_sorted: "tv_sorted ts \<Longrightarrow> tv_sorted (playback_insert q ts)"
proof (induction ts)
  case (Cons t ts)
  then show ?case
    by (auto simp: tv_sorted_def set_playback_insert dest: tv_after_total tv_after_trans)
qed (simp add: tv_sorted_def)

lemma filter_sorted: "tv_sorted ts \<Longrightarrow> tv_sorted (filter P ts)"
  by (simp add: tv_sorted_def sorted_wrt_filter)

lemma due_iff: "due cur t \<longleftrightarrow> \<not> tv_after (t_when t) cur"
  by (auto simp: due_def tv_after_def)

definition due_count :: "('f, 'z) disp_scheme \<Rightarrow> nat" where
  "due_count d = length (filter (due (cur_tv d)) (timeouts d))"

text \<open>
  What the functions called by the timers promise: run on a state of the server that satisfies
  \<open>inv\<close> and whose first timeout is due and taken off the list, they return, keep \<open>inv\<close>, keep the
  clock, and add no timeout that is already due.
\<close>

locale timer_callback =
  fixes cb :: "('f, 'z) callback"
    and inv :: "('f, 'z) disp_scheme \<Rightarrow> bool"
  assumes inv_sorted: "inv d \<Longrightarrow> tv_sorted (timeouts d)"
    and cb_returns: "inv d \<Longrightarrow> timeouts d = t # ts \<Longrightarrow> due (cur_tv d) t \<Longrightarrow>
      \<exists>d'. cb (t_func t) (t_what t) (d\<lparr>timeouts := ts\<rparr>) = Ret d' \<and> inv d' \<and> cur_tv d' = cur_tv d \<and>
           due_count d' \<le> length (filter (due (cur_tv d)) ts)"
begin

lemma process_loop_returns:
  "inv d \<Longrightarrow> \<exists>d'. process_loop cb d = Some (Ret d') \<and> inv d' \<and> cur_tv d' = cur_tv d \<and> due_count d' = 0"
proof (induction "due_count d" arbitrary: d rule: less_induct)
  case less
  show ?case
  proof (cases "timeouts d")
    case Nil
    then show ?thesis using less.prems by (simp add: process_loop.simps [of cb d] due_count_def)
  next
    case (Cons t ts)
    show ?thesis
    proof (cases "due (cur_tv d) t")
      case True
      obtain d' where d': "cb (t_func t) (t_what t) (d\<lparr>timeouts := ts\<rparr>) = Ret d'" "inv d'"
          "cur_tv d' = cur_tv d" "due_count d' \<le> length (filter (due (cur_tv d)) ts)"
        using cb_returns [OF less.prems Cons True] by blast
      then have "due_count d' < due_count d" using Cons True by (simp add: due_count_def)
      from less.hyps [OF this d'(2)] show ?thesis
        using Cons True d' by (simp add: process_loop.simps [of cb d])
    next
      case False
      have "tv_sorted (t # ts)" using inv_sorted [OF less.prems] Cons by simp
      then have "\<forall>u \<in> set (t # ts). \<not> due (cur_tv d) u"
        using False unfolding due_iff tv_sorted_def by (auto dest: tv_after_trans)
      then show ?thesis using Cons False less.prems
        by (simp add: process_loop.simps [of cb d] due_count_def filter_empty_conv)
    qed
  qed
qed

lemma set_time_returns:
  assumes "fst (cur_tv d) \<noteq> t" and "inv (d\<lparr>cur_tv := (t, 0)\<rparr>)"
  shows "\<exists>d'. set_time cb t d = Some (Ret d') \<and> inv d' \<and> cur_tv d' = (t, 0) \<and> due_count d' = 0"
  using process_loop_returns [OF assms(2)] assms(1)
  by (auto simp: set_time_def process_outstanding_timeouts_def)

end

text \<open>
  The field \<open>when\<close> of a timeout is the time asked for as long as the current time has no
  microseconds, which is so while a trace is played back. Otherwise the microseconds of the
  current time are left out of it, and a timeout that is still to come can look due.
\<close>

lemma add_timeout_when:
  assumes "fst cur \<le> fst w" and "fst w - fst cur < TIME_MAX" and "0 \<le> snd w" and "snd w < USEC_MAX"
    and "snd cur = 0"
  shows "(fst cur + fst (timeout_interval cur w), snd (timeout_interval cur w)) = w"
  using assms by (cases w) (auto simp: timeout_interval_def TIME_MAX_def USEC_MAX_def Let_def)

lemma add_timeout_when_early:
  "\<exists>d' q. add_timeout \<lparr>cur_tv = (10, 600000), timeouts = [], playback = False, next_addr = 0,
       no_memory = False, isc_fails = False\<rparr> (10, 700000) (Some f) what = Ret d' \<and>
     timeouts d' = [q] \<and> t_when q = (10, 100000) \<and> due (10, 600000) q"
  by (simp add: add_timeout_def timeout_interval_def TIME_MAX_def USEC_MAX_def due_def)

end
