(* ===== verification/LeaseTypes.thy ===== *)
theory LeaseTypes
  imports LeaseList Dispatch "HOL-Library.Signed_Division"
begin

text \<open>
  The state of the lease database of \<open>server/mdb.c\<close>: leases, pools, failover peers and classes
  (\<open>includes/dhcpd.h\<close>, \<open>includes/failover.h\<close>), the hash tables that find a lease, and what the
  database code takes from the rest of the server.
\<close>

section \<open>Leases\<close>

text \<open>The conversion of a number to the type \<open>int\<close>, which has 32 bits.\<close>

definition c_int :: "int \<Rightarrow> int" where
  "c_int t = (t + 2 ^ 31) mod 2 ^ 32 - 2 ^ 31"

text \<open>A value of \<open>binding_state_t\<close> is one of the seven states, or another byte.\<close>

datatype binding_state =
    FTS_FREE | FTS_ACTIVE | FTS_EXPIRED | FTS_RELEASED | FTS_ABANDONED | FTS_RESET | FTS_BACKUP
  | FTS_BOGUS byte

definition STATIC_LEASE :: byte where "STATIC_LEASE = 1"
definition BOOTP_LEASE :: byte where "BOOTP_LEASE = 2"
definition RESERVED_LEASE :: byte where "RESERVED_LEASE = 4"
definition MS_NULL_TERMINATION :: byte where "MS_NULL_TERMINATION = 8"
definition ON_UPDATE_QUEUE :: byte where "ON_UPDATE_QUEUE = 16"
definition ON_ACK_QUEUE :: byte where "ON_ACK_QUEUE = 32"
definition UNICAST_BROADCAST_HACK :: byte where "UNICAST_BROADCAST_HACK = 64"

definition PERSISTENT_FLAGS :: byte where
  "PERSISTENT_FLAGS = ON_ACK_QUEUE OR ON_UPDATE_QUEUE"

definition EPHEMERAL_FLAGS :: byte where
  "EPHEMERAL_FLAGS = MS_NULL_TERMINATION OR UNICAST_BROADCAST_HACK OR RESERVED_LEASE OR BOOTP_LEASE"

definition MAX_TIME :: int where "MAX_TIME = 0x7fffffff"
definition MIN_TIME :: int where "MIN_TIME = 0"

text \<open>
  The client identifier of a lease is at \<open>uid\<close>, which is \<open>NULL\<close>, or points to the seven bytes of
  \<open>uid_buf\<close> in the lease, or to allocated memory; \<open>uid_in_buf\<close> tells the latter two apart.
  A hardware address is its bytes, the first of which is the hardware type. Statements, scopes,
  hosts, host names, option chains and update control blocks are only passed around by this
  code, and are numbers.
\<close>

definition UID_BUF_SIZE :: nat where "UID_BUF_SIZE = 7"
definition HTYPE_INFINIBAND :: byte where "HTYPE_INFINIBAND = 32"

record db_lease = lease +
  n_uid :: "ptr option"
  n_hw :: "ptr option"
  next_pending :: "ptr option"
  ip_addr :: "byte list"
  starts :: int
  ends :: int
  client_hostname :: "nat option"
  scope :: "nat option"
  l_host :: "nat option"
  l_subnet :: "nat option"
  l_pool :: "nat option"
  billing_class :: "nat option"
  agent_options :: "nat option"
  on_expiry :: "nat option"
  on_commit :: "nat option"
  on_release :: "nat option"
  uid :: "byte list option"
  uid_in_buf :: bool
  hardware_addr :: "byte list"
  flags :: byte
  binding_state :: binding_state
  next_binding_state :: binding_state
  desired_binding_state :: binding_state
  rewind_binding_state :: binding_state
  tstp :: int
  tsfp :: int
  atsfp :: int
  cltt :: int
  last_xid :: u32
  ddns_cb :: "nat option"

text \<open>The code tests a flag with a bitwise and.\<close>

abbreviation has_flag :: "'a db_lease_scheme \<Rightarrow> byte \<Rightarrow> bool" where
  "has_flag l f \<equiv> flags l AND f \<noteq> 0"

section \<open>Pools, peers and classes\<close>

datatype queue_name = FREE_LEASES | ACTIVE_LEASES | EXPIRED_LEASES | ABANDONED_LEASES
  | BACKUP_LEASES | RESERVED_LEASES

text \<open>
  Each of the six queues of a pool is the list of the leases on it, in order; the theory of the
  queues shows that the operations on the linked representation compute these lists.
\<close>

record pool =
  queue :: "queue_name \<Rightarrow> ptr list"
  next_event_time :: int
  lease_count :: int
  free_leases :: int
  backup_leases :: int
  failover_peer :: "nat option"

text \<open>A failover state is one of the thirteen, or another byte that a peer sent.\<close>

datatype failover_state = unknown_state | startup | normal | communications_interrupted
  | partner_down | potential_conflict | recover | paused | shut_down | recover_done
  | resolution_interrupted | conflict_done | recover_wait | other_state byte

datatype service_state = unknown_service_state | cooperating | not_cooperating
  | service_partner_down | not_responding | service_startup

datatype role = primary | secondary

text \<open>Which request for updates is under way: \<open>curUPD\<close> is zero or the type of the message.\<close>

datatype update_request = FTM_NONE | FTM_UPDREQ | FTM_UPDREQALL

record peer =
  me_state :: failover_state
  me_stos :: int
  partner_max_flying_updates :: nat
  mclt :: int
  p_service_state :: service_state
  i_am :: role
  link_xid :: "u32 option"
  partner_max_response_delay :: int
  update_queue_head :: "ptr option"
  update_queue_tail :: "ptr option"
  ack_queue_head :: "ptr option"
  ack_queue_tail :: "ptr option"
  cur_unacked_updates :: int
  toack_queue :: "u32 list"
  pending_acks :: int
  max_lease_misbalance :: int
  max_balance :: int
  min_balance :: int
  last_balance :: int
  sched_balance :: int
  partner_state :: failover_state
  partner_stos :: int
  saved_state :: failover_state
  hba :: "byte list option"
  load_balance_max_secs :: int
  max_lease_ownership :: int
  auto_partner_down :: int
  nrr :: string
  send_update_done :: "ptr option"
  curUPD :: update_request
  updxid :: u32

record class_rec =
  lease_limit :: nat
  leases_consumed :: int
  billed_leases :: "ptr option list"

section \<open>The database\<close>

text \<open>
  The functions that timers call, and what the code does outside of the database, in order: DNS
  removals, configured statements, writes to the lease file (leases and failover states),
  messages to the failover peer. A BNDUPD message has the fields the code gives it, absent ones
  \<open>None\<close>; a BNDACK has the reason for a rejection, zero for none; a STATE message has the state, the startup flag and the time of entry.
\<close>

datatype timer_func = POOL_TIMER | POOL_REBALANCE | SEND_CONTACT | TOACK_QUEUE_TIMEOUT
  | COMMIT_LEASES | KEEPALIVE | STARTUP_TIMEOUT | AUTO_PARTNER_DOWN | RECOVER_DONE | FAILOVER_TIMEOUT

record bndupd =
  m_xid :: u32
  m_assigned_addr :: "byte list"
  m_binding_status :: binding_state
  m_client_identifier :: "byte list option"
  m_chaddr :: "byte list option"
  m_expiry :: int
  m_potential_expiry :: int
  m_stos :: int
  m_cltt :: "int option"
  m_ip_flags :: "nat option"

datatype event =
    EvDdnsRemovals ptr
  | EvExecute nat ptr
  | EvWriteLease ptr binding_state
  | EvCommitLeases
  | EvBindUpdate nat bndupd
  | EvBindAck nat u32 nat
  | EvDisconnect nat
  | EvWriteState nat failover_state int failover_state int
  | EvState nat u32 failover_state bool int
  | EvPoolReq nat u32
  | EvPoolResp nat u32 int
  | EvUpdReq nat u32
  | EvUpdReqAll nat u32
  | EvUpdDone nat u32

record db = "timer_func disp" +
  heap :: "ptr \<Rightarrow> db_lease"
  pools :: "nat \<Rightarrow> pool"
  pool_list :: "nat list"
  peers :: "nat \<Rightarrow> peer"
  classes :: "nat \<Rightarrow> class_rec"
  ip_hash :: "byte list \<Rightarrow> ptr option"
  uid_hash :: "byte list \<Rightarrow> ptr option"
  hw_hash :: "byte list \<Rightarrow> ptr option"
  events :: "event list"

text \<open>
  What the database code is told by the rest of the server: whether leases can be written to the
  lease file and flushed, whether a message can be put on the link to the peer, what
  configured statements make of a lease's variables, and the next value of \<open>random\<close>.
\<close>

record db_env =
  abandon_lease_time :: int
  ss_nosync :: bool
  write_lease_ok :: "db_lease \<Rightarrow> bool"
  commit_leases_ok :: bool
  write_failover_state_ok :: bool
  put_message_ok :: bool
  run_statements :: "nat \<Rightarrow> nat option \<Rightarrow> nat option"
  random_value :: int

abbreviation cur_time :: "('f, 'z) disp_scheme \<Rightarrow> int" where
  "cur_time d \<equiv> fst (cur_tv d)"

definition upd_lease :: "ptr \<Rightarrow> (db_lease \<Rightarrow> db_lease) \<Rightarrow> db \<Rightarrow> db" where
  "upd_lease a f d = d\<lparr>heap := (heap d)(a := f (heap d a))\<rparr>"

definition upd_pool :: "nat \<Rightarrow> (pool \<Rightarrow> pool) \<Rightarrow> db \<Rightarrow> db" where
  "upd_pool p f d = d\<lparr>pools := (pools d)(p := f (pools d p))\<rparr>"

definition upd_peer :: "nat \<Rightarrow> (peer \<Rightarrow> peer) \<Rightarrow> db \<Rightarrow> db" where
  "upd_peer s f d = d\<lparr>peers := (peers d)(s := f (peers d s))\<rparr>"

definition upd_class :: "nat \<Rightarrow> (class_rec \<Rightarrow> class_rec) \<Rightarrow> db \<Rightarrow> db" where
  "upd_class c f d = d\<lparr>classes := (classes d)(c := f (classes d c))\<rparr>"

definition emit :: "event \<Rightarrow> db \<Rightarrow> db" where
  "emit e d = d\<lparr>events := events d @ [e]\<rparr>"

section \<open>What the state's updates leave alone\<close>

named_theorems db_simps \<open>the parts of a database after an update of another part\<close>

lemma upd_lease_sel [db_simps, simp]:
  "heap (upd_lease a f d) = (heap d)(a := f (heap d a))" "pools (upd_lease a f d) = pools d"
  "peers (upd_lease a f d) = peers d" "classes (upd_lease a f d) = classes d"
  "ip_hash (upd_lease a f d) = ip_hash d" "uid_hash (upd_lease a f d) = uid_hash d"
  "hw_hash (upd_lease a f d) = hw_hash d" "events (upd_lease a f d) = events d"
  "pool_list (upd_lease a f d) = pool_list d" "cur_tv (upd_lease a f d) = cur_tv d"
  "timeouts (upd_lease a f d) = timeouts d" "playback (upd_lease a f d) = playback d"
  "next_addr (upd_lease a f d) = next_addr d" "no_memory (upd_lease a f d) = no_memory d"
  "isc_fails (upd_lease a f d) = isc_fails d"
  by (simp_all add: upd_lease_def)

lemma upd_pool_sel [db_simps, simp]:
  "pools (upd_pool p f d) = (pools d)(p := f (pools d p))" "heap (upd_pool p f d) = heap d"
  "peers (upd_pool p f d) = peers d" "classes (upd_pool p f d) = classes d"
  "ip_hash (upd_pool p f d) = ip_hash d" "uid_hash (upd_pool p f d) = uid_hash d"
  "hw_hash (upd_pool p f d) = hw_hash d" "events (upd_pool p f d) = events d"
  "pool_list (upd_pool p f d) = pool_list d" "cur_tv (upd_pool p f d) = cur_tv d"
  "timeouts (upd_pool p f d) = timeouts d" "playback (upd_pool p f d) = playback d"
  "next_addr (upd_pool p f d) = next_addr d" "no_memory (upd_pool p f d) = no_memory d"
  "isc_fails (upd_pool p f d) = isc_fails d"
  by (simp_all add: upd_pool_def)

lemma upd_peer_sel [db_simps, simp]:
  "peers (upd_peer s f d) = (peers d)(s := f (peers d s))" "heap (upd_peer s f d) = heap d"
  "pools (upd_peer s f d) = pools d" "classes (upd_peer s f d) = classes d"
  "ip_hash (upd_peer s f d) = ip_hash d" "uid_hash (upd_peer s f d) = uid_hash d"
  "hw_hash (upd_peer s f d) = hw_hash d" "events (upd_peer s f d) = events d"
  "pool_list (upd_peer s f d) = pool_list d" "cur_tv (upd_peer s f d) = cur_tv d"
  "timeouts (upd_peer s f d) = timeouts d" "playback (upd_peer s f d) = playback d"
  "next_addr (upd_peer s f d) = next_addr d" "no_memory (upd_peer s f d) = no_memory d"
  "isc_fails (upd_peer s f d) = isc_fails d"
  by (simp_all add: upd_peer_def)

lemma upd_class_sel [db_simps, simp]:
  "classes (upd_class c f d) = (classes d)(c := f (classes d c))" "heap (upd_class c f d) = heap d"
  "pools (upd_class c f d) = pools d" "peers (upd_class c f d) = peers d"
  "ip_hash (upd_class c f d) = ip_hash d" "uid_hash (upd_class c f d) = uid_hash d"
  "hw_hash (upd_class c f d) = hw_hash d" "events (upd_class c f d) = events d"
  "pool_list (upd_class c f d) = pool_list d" "cur_tv (upd_class c f d) = cur_tv d"
  "timeouts (upd_class c f d) = timeouts d" "playback (upd_class c f d) = playback d"
  "next_addr (upd_class c f d) = next_addr d" "no_memory (upd_class c f d) = no_memory d"
  "isc_fails (upd_class c f d) = isc_fails d"
  by (simp_all add: upd_class_def)

lemma emit_sel [db_simps, simp]:
  "events (emit e d) = events d @ [e]" "heap (emit e d) = heap d" "pools (emit e d) = pools d"
  "peers (emit e d) = peers d" "classes (emit e d) = classes d" "ip_hash (emit e d) = ip_hash d"
  "uid_hash (emit e d) = uid_hash d" "hw_hash (emit e d) = hw_hash d"
  "pool_list (emit e d) = pool_list d" "cur_tv (emit e d) = cur_tv d"
  "timeouts (emit e d) = timeouts d" "playback (emit e d) = playback d"
  "next_addr (emit e d) = next_addr d" "no_memory (emit e d) = no_memory d"
  "isc_fails (emit e d) = isc_fails d"
  by (simp_all add: emit_def)

text \<open>Adding a timeout changes the list of timeouts only.\<close>

lemma add_timeout_frame:
  fixes d :: db
  assumes "add_timeout d w f what = Ret d'"
  shows "d' = d\<lparr>timeouts := timeouts d', next_addr := next_addr d'\<rparr>"
proof -
  obtain found ts where "unlink_first (\<lambda>q. (f = None \<or> t_func q = f) \<and> t_what q = what) (timeouts d) =
      (found, ts)" by fastforce
  with assms show ?thesis
    by (cases found) (auto simp: add_timeout_def Let_def split: if_splits prod.splits)
qed

lemma add_timeout_returns:
  fixes d :: db
  assumes "\<not> no_memory d" and "\<not> isc_fails d"
  shows "\<exists>d'. add_timeout d w f what = Ret d'"
  using assms by (auto simp: add_timeout_def Let_def split: prod.splits)

section \<open>The empty database\<close>

text \<open>A lease, a pool and a peer as they are allocated, and a database with nothing in it.\<close>

definition new_lease :: db_lease where
  "new_lease = \<lparr>refcnt = 1, l_next = None, l_prev = None, l_lc = None, sort_time = 0, sort_tiebreaker = 0,
     n_uid = None, n_hw = None, next_pending = None, ip_addr = [], starts = 0, ends = 0,
     client_hostname = None, scope = None, l_host = None, l_subnet = None, l_pool = None,
     billing_class = None, agent_options = None, on_expiry = None, on_commit = None, on_release = None,
     uid = None, uid_in_buf = False, hardware_addr = [], flags = 0, binding_state = FTS_BOGUS 0,
     next_binding_state = FTS_BOGUS 0, desired_binding_state = FTS_BOGUS 0, rewind_binding_state = FTS_BOGUS 0,
     tstp = 0, tsfp = 0, atsfp = 0, cltt = 0, last_xid = 0, ddns_cb = None\<rparr>"

definition new_pool :: pool where
  "new_pool = \<lparr>queue = \<lambda>_. [], next_event_time = MIN_TIME, lease_count = 0, free_leases = 0,
     backup_leases = 0, failover_peer = None\<rparr>"

definition new_peer :: peer where
  "new_peer = \<lparr>me_state = unknown_state, me_stos = 0, partner_max_flying_updates = 0, mclt = 0,
     p_service_state = unknown_service_state, i_am = primary, link_xid = None, partner_max_response_delay = 0,
     update_queue_head = None, update_queue_tail = None, ack_queue_head = None, ack_queue_tail = None,
     cur_unacked_updates = 0, toack_queue = [], pending_acks = 0, max_lease_misbalance = 0,
     max_balance = 0, min_balance = 0, last_balance = 0, sched_balance = 0, partner_state = unknown_state,
     partner_stos = 0, saved_state = unknown_state, hba = None, load_balance_max_secs = 0,
     max_lease_ownership = 0, auto_partner_down = 0, nrr = [], send_update_done = None,
     curUPD = FTM_NONE, updxid = 0\<rparr>"

definition new_db :: db where
  "new_db = \<lparr>cur_tv = (0, 0), timeouts = [], playback = False, next_addr = 0, no_memory = False,
     isc_fails = False, heap = \<lambda>_. new_lease, pools = \<lambda>_. new_pool, pool_list = [], peers = \<lambda>_. new_peer,
     classes = \<lambda>_. \<lparr>lease_limit = 0, leases_consumed = 0, billed_leases = []\<rparr>, ip_hash = \<lambda>_. None,
     uid_hash = \<lambda>_. None, hw_hash = \<lambda>_. None, events = []\<rparr>"

definition plain_env :: db_env where
  "plain_env = \<lparr>abandon_lease_time = 86400, ss_nosync = False, write_lease_ok = \<lambda>_. True,
     commit_leases_ok = True, write_failover_state_ok = True, put_message_ok = True, run_statements = \<lambda>_ v. v, random_value = 0\<rparr>"

end
