(* ===== verification/FailoverQueue.thy ===== *)
theory FailoverQueue
  imports LeaseTypes
begin

text \<open>
  The queues a failover peer keeps (\<open>server/failover.c\<close>): leases whose updates have not been sent,
  leases whose updates the peer has not acknowledged, and messages of the peer that have not been
  acknowledged here; and the timer that rebalances the pools shared with the peer.
\<close>

section \<open>Messages to the peer\<close>

text \<open>
  \<open>dhcp_failover_put_message\<close> puts a message on the link, or breaks the link off; with the message
  it re-arms the timer of the next contact message. Breaking the link off is the event
  \<open>EvDisconnect\<close>; the server reacts to it with the transition of the failover state that a lost
  connection causes, which is an operation of its own in the theory of the failover states.
  \<open>link_xid\<close> is the transaction number of the link to the peer, \<open>None\<close> when there is no link.
\<close>

definition commit_leases :: "db \<Rightarrow> db" where
  "commit_leases d = emit EvCommitLeases d"

definition write_lease :: "db \<Rightarrow> ptr \<Rightarrow> db" where
  "write_lease d a = emit (EvWriteLease a (binding_state (heap d a))) d"

definition dhcp_failover_put_message :: "db_env \<Rightarrow> db \<Rightarrow> nat \<Rightarrow> event \<Rightarrow> (db \<times> bool) cres" where
  "dhcp_failover_put_message e d s m =
     (if put_message_ok e
      then cbind (add_timeout (emit m d) (cur_time d + c_int (partner_max_response_delay (peers d s)) sdiv 3, 0)
                    (Some SEND_CONTACT) s)
             (\<lambda>d. Ret (d, True))
      else Ret (emit (EvDisconnect s) d, False))"

definition bind_update_flags :: "db_lease \<Rightarrow> nat" where
  "bind_update_flags l =
     (if has_flag l RESERVED_LEASE then 1 else 0) + (if has_flag l BOOTP_LEASE then 2 else 0)"

text \<open>
  The code computes the state a reserved lease is to be announced with, but the message is given
  the lease's desired state.
\<close>

definition transmit_state :: "peer \<Rightarrow> db_lease \<Rightarrow> binding_state" where
  "transmit_state p l =
     (if has_flag l RESERVED_LEASE then
        if i_am p = primary \<and> desired_binding_state l = FTS_FREE then FTS_BACKUP
        else if i_am p = secondary \<and> desired_binding_state l = FTS_BACKUP then FTS_FREE
        else desired_binding_state l
      else desired_binding_state l)"

definition bndupd_of :: "db_lease \<Rightarrow> bndupd" where
  "bndupd_of l =
     \<lparr>m_xid = last_xid l, m_assigned_addr = ip_addr l, m_binding_status = desired_binding_state l,
      m_client_identifier = (case uid l of None \<Rightarrow> None | Some u \<Rightarrow> if u = [] then None else Some u),
      m_chaddr = (if hardware_addr l = [] then None else Some (hardware_addr l)),
      m_expiry = ends l, m_potential_expiry = tstp l, m_stos = starts l,
      m_cltt = (if cltt l = 0 then None else Some (cltt l)),
      m_ip_flags = (if bind_update_flags l = 0 then None else Some (bind_update_flags l))\<rparr>"

definition dhcp_failover_send_bind_update :: "db_env \<Rightarrow> db \<Rightarrow> nat \<Rightarrow> ptr \<Rightarrow> (db \<times> bool) cres" where
  "dhcp_failover_send_bind_update e d s a =
     (case link_xid (peers d s) of
        None \<Rightarrow> Ret (d, False)
      | Some xid \<Rightarrow>
          let xid = (if xid = 0 then 1 else xid);
              d = upd_lease a (\<lambda>l. l\<lparr>last_xid := xid\<rparr>) d;
              d = upd_peer s (\<lambda>p. p\<lparr>link_xid := Some (xid + 1)\<rparr>) d;
              d = (if rewind_binding_state (heap d a) \<noteq> binding_state (heap d a)
                   then commit_leases (write_lease
                          (upd_lease a (\<lambda>l. l\<lparr>rewind_binding_state := binding_state l\<rparr>) d) a)
                   else d)
          in dhcp_failover_put_message e d s (EvBindUpdate s (bndupd_of (heap d a))))"

definition dhcp_failover_send_bind_ack :: "db_env \<Rightarrow> db \<Rightarrow> nat \<Rightarrow> u32 \<Rightarrow> nat \<Rightarrow> (db \<times> bool) cres" where
  "dhcp_failover_send_bind_ack e d s xid reason =
     (if link_xid (peers d s) = None then Ret (d, False)
      else dhcp_failover_put_message e d s (EvBindAck s xid reason))"

section \<open>Acknowledgements to send\<close>

text \<open>
  The queue of messages to acknowledge is the list of their transaction numbers, from head to
  tail. \<open>send_acks_loop\<close> is the loop that acknowledges them; a failure to send one is not noticed.
\<close>

fun send_acks_loop :: "db_env \<Rightarrow> db \<Rightarrow> nat \<Rightarrow> u32 list \<Rightarrow> db cres" where
  "send_acks_loop e d s [] = Ret d"
| "send_acks_loop e d s (x # xs) =
     cbind (dhcp_failover_send_bind_ack e (upd_peer s (\<lambda>p. p\<lparr>toack_queue := xs\<rparr>) d) s x 0)
       (\<lambda>(d, _). send_acks_loop e d s xs)"

definition dhcp_failover_send_acks :: "db_env \<Rightarrow> db \<Rightarrow> nat \<Rightarrow> (db \<times> bool) cres" where
  "dhcp_failover_send_acks e d s =
     (let d = commit_leases d
      in if \<not> commit_leases_ok e then Ret (d, False)
         else cbind (send_acks_loop e d s (toack_queue (peers d s)))
                (\<lambda>d. Ret (upd_peer s (\<lambda>p. p\<lparr>pending_acks := 0\<rparr>) d, True)))"

definition dhcp_failover_toack_queue_timeout :: "db_env \<Rightarrow> db \<Rightarrow> nat \<Rightarrow> db cres" where
  "dhcp_failover_toack_queue_timeout e d s = cbind (dhcp_failover_send_acks e d s) (\<lambda>(d, _). Ret d)"

definition dhcp_failover_queue_ack :: "db_env \<Rightarrow> db \<Rightarrow> nat \<Rightarrow> u32 \<Rightarrow> db cres" where
  "dhcp_failover_queue_ack e d s xid =
     (let d = upd_peer s (\<lambda>p. p\<lparr>toack_queue := toack_queue p @ [xid], pending_acks := pending_acks p + 1\<rparr>) d
      in cbind (if int (partner_max_flying_updates (peers d s) div 2) \<le> pending_acks (peers d s)
                then cbind (dhcp_failover_send_acks e d s) (\<lambda>(d, _). Ret d) else Ret d)
           (\<lambda>d. if 0 < pending_acks (peers d s)
                then add_timeout d (cur_time d + 2, 0) (Some TOACK_QUEUE_TIMEOUT) s
                else Ret d))"

section \<open>Updates to send and updates sent\<close>

definition pending_reference :: "db \<Rightarrow> ptr \<Rightarrow> ptr \<Rightarrow> db" where
  "pending_reference d x a =
     (if next_pending (heap d x) = None then upd_lease x (\<lambda>l. l\<lparr>next_pending := Some a\<rparr>) d else d)"

definition pending_dereference :: "db \<Rightarrow> ptr \<Rightarrow> db" where
  "pending_dereference d x = upd_lease x (\<lambda>l. l\<lparr>next_pending := None\<rparr>) d"

text \<open>The loop that looks for the lease before \<open>a\<close>; \<open>None\<close> when it does not end.\<close>

partial_function (option) ack_scan :: "(ptr \<Rightarrow> db_lease) \<Rightarrow> ptr \<Rightarrow> ptr option \<Rightarrow> ptr option option" where
  "ack_scan h a lp =
     (case lp of
        None \<Rightarrow> Some None
      | Some b \<Rightarrow> if next_pending (h b) = Some a then Some lp else ack_scan h a (next_pending (h b)))"

definition ack_queue_unlink :: "db \<Rightarrow> nat \<Rightarrow> ptr \<Rightarrow> (db \<times> bool) cres" where
  "ack_queue_unlink d s a =
     (if ack_queue_head (peers d s) = Some a
      then Ret (let d = upd_peer s (\<lambda>p. p\<lparr>ack_queue_head := None\<rparr>) d
                in case next_pending (heap d a) of
                     Some n \<Rightarrow> pending_dereference (upd_peer s (\<lambda>p. p\<lparr>ack_queue_head := Some n\<rparr>) d) a
                   | None \<Rightarrow> upd_peer s (\<lambda>p. p\<lparr>ack_queue_tail := None\<rparr>) d, True)
      else case ack_scan (heap d) a (ack_queue_head (peers d s)) of
             None \<Rightarrow> Undef
           | Some None \<Rightarrow> Ret (d, False)
           | Some (Some lp) \<Rightarrow>
               let d = pending_dereference d lp
               in case next_pending (heap d a) of
                    Some n \<Rightarrow> Ret (pending_dereference (pending_reference d lp n) a, True)
                  | None \<Rightarrow>
                      if next_pending (heap d lp) \<noteq> None then Fatal
                      else Ret (upd_peer s (\<lambda>p. p\<lparr>ack_queue_tail := Some lp\<rparr>) d, True))"

definition dhcp_failover_ack_queue_remove :: "db \<Rightarrow> nat \<Rightarrow> ptr \<Rightarrow> db cres" where
  "dhcp_failover_ack_queue_remove d s a =
     (if \<not> has_flag (heap d a) ON_ACK_QUEUE then Ret d
      else cbind (ack_queue_unlink d s a)
        (\<lambda>(d, found).
           if \<not> found then Ret d
           else
             let d = upd_lease a (\<lambda>l. l\<lparr>flags := flags l AND NOT ON_ACK_QUEUE, last_xid := 0\<rparr>) d;
                 d = upd_peer s (\<lambda>p. p\<lparr>cur_unacked_updates := cur_unacked_updates p - 1\<rparr>) d
             in Ret (if cur_unacked_updates (peers d s) = 0 then commit_leases d else d)))"

text \<open>
  One round of the loop of \<open>dhcp_failover_send_updates\<close> after the update was sent: the lease moves
  from the head of the update queue to the tail of the queue of unacknowledged updates.
\<close>

definition move_to_ack_queue :: "db \<Rightarrow> nat \<Rightarrow> ptr \<Rightarrow> db cres" where
  "move_to_ack_queue d s a =
     (let d = upd_lease a (\<lambda>l. l\<lparr>flags := flags l AND NOT ON_UPDATE_QUEUE\<rparr>) d;
          d = upd_peer s (\<lambda>p. p\<lparr>update_queue_head := None\<rparr>) d;
          d = (case next_pending (heap d a) of
                 Some n \<Rightarrow> pending_dereference (upd_peer s (\<lambda>p. p\<lparr>update_queue_head := Some n\<rparr>) d) a
               | None \<Rightarrow> upd_peer s (\<lambda>p. p\<lparr>update_queue_tail := None\<rparr>) d)
      in cbind (case ack_queue_head (peers d s) of
                  Some _ \<Rightarrow> (case ack_queue_tail (peers d s) of
                               Some t \<Rightarrow> Ret (pending_reference d t a) | None \<Rightarrow> Undef)
                | None \<Rightarrow> Ret (upd_peer s (\<lambda>p. p\<lparr>ack_queue_head := Some a\<rparr>) d))
           (\<lambda>d. let d = upd_peer s (\<lambda>p. p\<lparr>ack_queue_tail := Some a\<rparr>) d;
                    d = upd_lease a (\<lambda>l. l\<lparr>flags := flags l OR ON_ACK_QUEUE\<rparr>) d
                in Ret (upd_peer s (\<lambda>p. p\<lparr>cur_unacked_updates := cur_unacked_updates p + 1\<rparr>) d)))"

text \<open>
  The bound on the updates in flight is unsigned, and the number of them is converted to an
  unsigned number for the comparison.
\<close>

partial_function (option) send_updates_loop :: "db_env \<Rightarrow> db \<Rightarrow> nat \<Rightarrow> db cres option" where
  "send_updates_loop e d s =
     (if cur_unacked_updates (peers d s) mod 2 ^ 32 < int (partner_max_flying_updates (peers d s))
      then case update_queue_head (peers d s) of
             None \<Rightarrow> Some (Ret d)
           | Some a \<Rightarrow>
               (case dhcp_failover_send_bind_update e d s a of
                  Undef \<Rightarrow> Some Undef
                | Fatal \<Rightarrow> Some Fatal
                | Ret (d, ok) \<Rightarrow>
                    if \<not> ok then Some (Ret d)
                    else case move_to_ack_queue d s a of
                           Undef \<Rightarrow> Some Undef
                         | Fatal \<Rightarrow> Some Fatal
                         | Ret d \<Rightarrow> send_updates_loop e d s)
      else Some (Ret d))"

definition dhcp_failover_send_updates :: "db_env \<Rightarrow> db \<Rightarrow> nat \<Rightarrow> db cres" where
  "dhcp_failover_send_updates e d s =
     (if link_xid (peers d s) = None then Ret d
      else cbind (if toack_queue (peers d s) \<noteq> []
                  then cbind (dhcp_failover_send_acks e d s) (\<lambda>(d, _). Ret d) else Ret d)
             (\<lambda>d. case send_updates_loop e d s of None \<Rightarrow> Undef | Some r \<Rightarrow> r))"

definition enqueue_update :: "db \<Rightarrow> nat \<Rightarrow> ptr \<Rightarrow> db cres" where
  "enqueue_update d s a =
     cbind (case update_queue_head (peers d s) of
              Some _ \<Rightarrow> (case update_queue_tail (peers d s) of
                           Some t \<Rightarrow> Ret (pending_reference d t a) | None \<Rightarrow> Undef)
            | None \<Rightarrow> Ret (upd_peer s (\<lambda>p. p\<lparr>update_queue_head := Some a\<rparr>) d))
       (\<lambda>d. let d = upd_peer s (\<lambda>p. p\<lparr>update_queue_tail := Some a\<rparr>) d
            in Ret (upd_lease a (\<lambda>l. l\<lparr>flags := flags l OR ON_UPDATE_QUEUE\<rparr>) d))"

definition dhcp_failover_queue_update :: "db_env \<Rightarrow> db \<Rightarrow> ptr \<Rightarrow> bool \<Rightarrow> db cres" where
  "dhcp_failover_queue_update e d a immediate =
     (case l_pool (heap d a) of
        None \<Rightarrow> Ret d
      | Some p \<Rightarrow>
          (case failover_peer (pools d p) of
             None \<Rightarrow> Ret d
           | Some s \<Rightarrow>
               if has_flag (heap d a) ON_UPDATE_QUEUE then Ret d
               else cbind (if has_flag (heap d a) ON_ACK_QUEUE then dhcp_failover_ack_queue_remove d s a
                           else Ret d)
                      (\<lambda>d. cbind (enqueue_update d s a)
                        (\<lambda>d. if immediate then dhcp_failover_send_updates e d s else Ret d))))"

section \<open>When to rebalance\<close>

definition queue_age :: "db \<Rightarrow> ptr list \<Rightarrow> int" where
  "queue_age d xs =
     (case xs of
        [] \<Rightarrow> 0
      | a # _ \<Rightarrow> if ends (heap d a) < cur_time d then cur_time d - ends (heap d a) else 0)"

definition rebalance_time :: "db_env \<Rightarrow> db \<Rightarrow> nat \<Rightarrow> nat \<Rightarrow> int" where
  "rebalance_time e d p s =
     (let est1 = queue_age d (queue (pools d p) FREE_LEASES);
          est2 = queue_age d (queue (pools d p) BACKUP_LEASES);
          est1 = (est1 * max_lease_misbalance (peers d s) + 50) div 100;
          est2 = (est2 * max_lease_misbalance (peers d s) + 50) div 100;
          (est1, est2) = (if i_am (peers d s) = primary then (est1 * 2, est2) else (est1, est2 * 2));
          est1 = (if est2 < est1 then est2 else est1);
          est1 = (if max_balance (peers d s) < est1 then max_balance (peers d s) else est1);
          est1 = est1 + cur_time d;
          est2 = last_balance (peers d s) + min_balance (peers d s);
          est1 = (if last_balance (peers d s) \<noteq> 0 \<and> est1 < est2 then est2 else est1)
      in est1 + random_value e mod 5)"

definition dhcp_failover_pool_check :: "db_env \<Rightarrow> db \<Rightarrow> nat \<Rightarrow> db cres" where
  "dhcp_failover_pool_check e d p =
     (case failover_peer (pools d p) of
        None \<Rightarrow> Ret d
      | Some s \<Rightarrow>
          if me_state (peers d s) \<noteq> normal then Ret d
          else
            let est = rebalance_time e d p s
            in if sched_balance (peers d s) \<noteq> 0 \<and> sched_balance (peers d s) \<le> est then Ret d
               else
                 let d = (if sched_balance (peers d s) \<noteq> 0
                          then cancel_timeout d (Some POOL_REBALANCE) s else d);
                     d = upd_peer s (\<lambda>p. p\<lparr>sched_balance := est\<rparr>) d
                 in add_timeout d (est, 0) (Some POOL_REBALANCE) s)"

fun state_pool_check_loop :: "db_env \<Rightarrow> db \<Rightarrow> nat \<Rightarrow> nat list \<Rightarrow> db cres" where
  "state_pool_check_loop e d s [] = Ret d"
| "state_pool_check_loop e d s (p # ps) =
     (if failover_peer (pools d p) \<noteq> Some s then state_pool_check_loop e d s ps
      else cbind (dhcp_failover_pool_check e d p) (\<lambda>d. state_pool_check_loop e d s ps))"

definition dhcp_failover_state_pool_check :: "db_env \<Rightarrow> db \<Rightarrow> nat \<Rightarrow> db cres" where
  "dhcp_failover_state_pool_check e d s = state_pool_check_loop e d s (pool_list d)"
section \<open>The invariant of the queues\<close>

text \<open>
  \<open>S\<close> are the leases of the database; copies of leases that the code works with are not among
  them. The update queue of peer \<open>s\<close> holds exactly the leases of its pools that are flagged as being on
  it, once each, linked from head to tail, and so does the queue of unacknowledged updates; a
  lease is on one of the two at most, and a lease on neither has no link.
\<close>

definition peer_of :: "db \<Rightarrow> ptr \<Rightarrow> nat option" where
  "peer_of d a = Option.bind (l_pool (heap d a)) (\<lambda>p. failover_peer (pools d p))"

definition pend :: "db \<Rightarrow> ptr \<Rightarrow> ptr option" where
  "pend d a = next_pending (heap d a)"

definition on_update :: "db \<Rightarrow> ptr \<Rightarrow> bool" where
  "on_update d a \<longleftrightarrow> has_flag (heap d a) ON_UPDATE_QUEUE"

definition on_ack :: "db \<Rightarrow> ptr \<Rightarrow> bool" where
  "on_ack d a \<longleftrightarrow> has_flag (heap d a) ON_ACK_QUEUE"

definition linked :: "(ptr \<Rightarrow> ptr option) \<Rightarrow> ptr option \<Rightarrow> ptr option \<Rightarrow> ptr list \<Rightarrow> bool" where
  "linked nx hp tp xs \<longleftrightarrow> hp = seg_head xs None \<and> tp = seg_last xs None \<and> sll nx xs None \<and> distinct xs"

definition fq_ok :: "ptr set \<Rightarrow> db \<Rightarrow> (nat \<Rightarrow> ptr list) \<Rightarrow> (nat \<Rightarrow> ptr list) \<Rightarrow> bool" where
  "fq_ok S d U A \<longleftrightarrow>
     (\<forall>s. linked (pend d) (update_queue_head (peers d s)) (update_queue_tail (peers d s)) (U s) \<and>
          linked (pend d) (ack_queue_head (peers d s)) (ack_queue_tail (peers d s)) (A s) \<and>
          cur_unacked_updates (peers d s) = int (length (A s)) \<and>
          (\<forall>a. a \<in> set (U s) \<longleftrightarrow> a \<in> S \<and> peer_of d a = Some s \<and> on_update d a) \<and>
          (\<forall>a. a \<in> set (A s) \<longleftrightarrow> a \<in> S \<and> peer_of d a = Some s \<and> on_ack d a)) \<and>
     (\<forall>a \<in> S. \<not> (on_update d a \<and> on_ack d a)) \<and>
     (\<forall>a \<in> S. \<not> on_update d a \<and> \<not> on_ack d a \<longrightarrow> pend d a = None)"

lemma flag_bits:
  "(w::byte) AND ON_UPDATE_QUEUE \<noteq> 0 \<longleftrightarrow> bit w 4" "w AND ON_ACK_QUEUE \<noteq> 0 \<longleftrightarrow> bit w 5"
  "w AND RESERVED_LEASE \<noteq> 0 \<longleftrightarrow> bit w 2"  "w AND STATIC_LEASE \<noteq> 0 \<longleftrightarrow> bit w 0"
  "w AND BOOTP_LEASE \<noteq> 0 \<longleftrightarrow> bit w 1"
  using and_exp_eq_0_iff_not_bit [of w 4] and_exp_eq_0_iff_not_bit [of w 5]
    and_exp_eq_0_iff_not_bit [of w 2] and_exp_eq_0_iff_not_bit [of w 0] and_exp_eq_0_iff_not_bit [of w 1]
  by (simp_all add: ON_UPDATE_QUEUE_def ON_ACK_QUEUE_def RESERVED_LEASE_def STATIC_LEASE_def BOOTP_LEASE_def)

lemma linked_snoc:
  assumes "linked nx hp tp xs" and "a \<notin> set xs" and "nx a = None"
  shows "linked (case tp of None \<Rightarrow> nx | Some t \<Rightarrow> nx(t := Some a)) (case hp of None \<Rightarrow> Some a | _ \<Rightarrow> hp) (Some a) (xs @ [a])"
proof (cases xs rule: rev_cases)
  case Nil
  then show ?thesis using assms by (simp add: linked_def)
next
  case (snoc ys t)
  then show ?thesis using assms by (cases ys) (auto simp: linked_def sll_append)
qed

lemma linked_remove:
  assumes "linked nx hp tp (ys @ a # zs)"
  shows "linked (case seg_last ys None of None \<Rightarrow> nx(a := None) | Some y \<Rightarrow> (nx(y := nx a))(a := None))
           (case seg_last ys None of None \<Rightarrow> nx a | _ \<Rightarrow> hp) (seg_last (ys @ zs) None) (ys @ zs)"
proof (cases ys rule: rev_cases)
  case Nil
  then show ?thesis using assms by (simp add: linked_def)
next
  case (snoc us y)
  then show ?thesis using assms by (cases us) (auto simp: linked_def sll_append)
qed

lemma linked_frame: "linked nx hp tp xs \<Longrightarrow> t \<notin> set xs \<Longrightarrow> linked (nx(t := v)) hp tp xs"
  by (simp add: linked_def)
section \<open>What the queues leave alone\<close>

text \<open>
  The operations above change of a lease only its link, the two flags of the queues, the
  transaction number and the rewind state, of a peer its queues, and nothing else of the database
  but the timers and the log.
\<close>

definition lease_frame :: "db_lease \<Rightarrow> db_lease \<Rightarrow> bool" where
  "lease_frame l l' \<longleftrightarrow>
     l' = l\<lparr>flags := flags l', next_pending := next_pending l', last_xid := last_xid l',
            rewind_binding_state := rewind_binding_state l'\<rparr> \<and>
     (\<forall>n. n \<noteq> 4 \<and> n \<noteq> 5 \<longrightarrow> bit (flags l') n = bit (flags l) n)"

definition peer_frame :: "peer \<Rightarrow> peer \<Rightarrow> bool" where
  "peer_frame p p' \<longleftrightarrow>
     me_state p' = me_state p \<and> me_stos p' = me_stos p \<and> mclt p' = mclt p \<and> i_am p' = i_am p \<and>
     p_service_state p' = p_service_state p \<and>
     partner_max_flying_updates p' = partner_max_flying_updates p \<and>
     partner_state p' = partner_state p \<and> partner_stos p' = partner_stos p \<and> saved_state p' = saved_state p \<and>
     hba p' = hba p \<and> max_lease_ownership p' = max_lease_ownership p \<and> auto_partner_down p' = auto_partner_down p \<and>
     max_lease_misbalance p' = max_lease_misbalance p \<and> max_balance p' = max_balance p \<and>
     min_balance p' = min_balance p"

definition fq_frame :: "db \<Rightarrow> db \<Rightarrow> bool" where
  "fq_frame d d' \<longleftrightarrow>
     (\<forall>a. lease_frame (heap d a) (heap d' a)) \<and> (\<forall>s. peer_frame (peers d s) (peers d' s)) \<and>
     d' = d\<lparr>heap := heap d', peers := peers d', timeouts := timeouts d', next_addr := next_addr d',
            events := events d'\<rparr>"

lemma lease_frame_refl [simp]: "lease_frame l l"
  by (simp add: lease_frame_def)

lemma lease_frame_trans: "lease_frame l l' \<Longrightarrow> lease_frame l' l'' \<Longrightarrow> lease_frame l l''"
proof -
  assume a: "lease_frame l l'" "lease_frame l' l''"
  have "l'' = l'\<lparr>flags := flags l'', next_pending := next_pending l'', last_xid := last_xid l'',
            rewind_binding_state := rewind_binding_state l''\<rparr>" using a(2) by (simp add: lease_frame_def)
  moreover have "l' = l\<lparr>flags := flags l', next_pending := next_pending l', last_xid := last_xid l',
            rewind_binding_state := rewind_binding_state l'\<rparr>" using a(1) by (simp add: lease_frame_def)
  ultimately have "l'' = l\<lparr>flags := flags l'', next_pending := next_pending l'', last_xid := last_xid l'',
            rewind_binding_state := rewind_binding_state l''\<rparr>" by (cases l; cases l'; cases l'') simp
  with a show ?thesis by (simp add: lease_frame_def)
qed

lemma fq_frame_refl [simp]: "fq_frame d d"
  by (simp add: fq_frame_def peer_frame_def)

lemma fq_frame_trans [trans]: "fq_frame d d' \<Longrightarrow> fq_frame d' d'' \<Longrightarrow> fq_frame d d''"
proof -
  assume a: "fq_frame d d'" "fq_frame d' d''"
  have "d'' = d'\<lparr>heap := heap d'', peers := peers d'', timeouts := timeouts d'', next_addr := next_addr d'',
            events := events d''\<rparr>" using a(2) by (simp add: fq_frame_def)
  moreover have "d' = d\<lparr>heap := heap d', peers := peers d', timeouts := timeouts d', next_addr := next_addr d',
            events := events d'\<rparr>" using a(1) by (simp add: fq_frame_def)
  ultimately have "d'' = d\<lparr>heap := heap d'', peers := peers d'', timeouts := timeouts d'', next_addr := next_addr d'',
            events := events d''\<rparr>" by (cases d; cases d'; cases d'') simp
  with a lease_frame_trans show ?thesis
    by (auto simp: fq_frame_def peer_frame_def) blast
qed

lemma fq_frame_upd_lease:
  "lease_frame (heap d a) (f (heap d a)) \<Longrightarrow> fq_frame d (upd_lease a f d)"
  by (simp add: fq_frame_def peer_frame_def upd_lease_def)

lemma fq_frame_upd_peer:
  "peer_frame (peers d s) (f (peers d s)) \<Longrightarrow> fq_frame d (upd_peer s f d)"
  by (simp add: fq_frame_def peer_frame_def upd_peer_def)

lemma fq_frame_emit: "fq_frame d (emit ev d)"
  by (simp add: fq_frame_def peer_frame_def emit_def)

lemma fq_frame_add_timeout:
  assumes "add_timeout d w f what = Ret d'" shows "fq_frame d d'"
  using add_timeout_frame [OF assms] by (cases d; cases d') (simp add: fq_frame_def peer_frame_def)

lemma fq_frame_cancel_timeout: "fq_frame d (cancel_timeout d f what)"
  by (simp add: fq_frame_def peer_frame_def cancel_timeout_def)

lemma fq_frame_pending: "fq_frame d (pending_reference d x a)" "fq_frame d (pending_dereference d x)"
  by (auto simp: pending_reference_def pending_dereference_def lease_frame_def intro!: fq_frame_upd_lease)

lemma flag_bit_iff:
  "bit ON_UPDATE_QUEUE n \<longleftrightarrow> n = 4" "bit ON_ACK_QUEUE n \<longleftrightarrow> n = 5"
  using bit_exp_iff [of 4 n, where 'a = byte]  bit_exp_iff [of 5 n, where 'a = byte]
  by (auto simp: ON_UPDATE_QUEUE_def ON_ACK_QUEUE_def possible_bit_def)

lemma fq_frame_set_flags:
  "fq_frame d (upd_lease a (\<lambda>l. l\<lparr>flags := flags l AND NOT ON_UPDATE_QUEUE\<rparr>) d)"
  "fq_frame d (upd_lease a (\<lambda>l. l\<lparr>flags := flags l OR ON_UPDATE_QUEUE\<rparr>) d)"
  "fq_frame d (upd_lease a (\<lambda>l. l\<lparr>flags := flags l OR ON_ACK_QUEUE\<rparr>) d)"
  "fq_frame d (upd_lease a (\<lambda>l. l\<lparr>flags := flags l AND NOT ON_ACK_QUEUE, last_xid := x\<rparr>) d)"
  "fq_frame d (upd_lease a (\<lambda>l. l\<lparr>last_xid := x\<rparr>) d)"
  "fq_frame d (upd_lease a (\<lambda>l. l\<lparr>rewind_binding_state := binding_state l\<rparr>) d)"
  by (rule fq_frame_upd_lease,
      auto simp: lease_frame_def bit_and_iff bit_not_iff bit_or_iff flag_bit_iff dest: bit_imp_le_length)+

lemma fq_frame_set_peer:
  "fq_frame d (upd_peer s (\<lambda>p. p\<lparr>update_queue_head := x\<rparr>) d)"
  "fq_frame d (upd_peer s (\<lambda>p. p\<lparr>update_queue_tail := x\<rparr>) d)"
  "fq_frame d (upd_peer s (\<lambda>p. p\<lparr>ack_queue_head := x\<rparr>) d)"
  "fq_frame d (upd_peer s (\<lambda>p. p\<lparr>ack_queue_tail := x\<rparr>) d)"
  "fq_frame d (upd_peer s (\<lambda>p. p\<lparr>cur_unacked_updates := g p\<rparr>) d)"
  "fq_frame d (upd_peer s (\<lambda>p. p\<lparr>link_xid := y\<rparr>) d)"
  "fq_frame d (upd_peer s (\<lambda>p. p\<lparr>toack_queue := z\<rparr>) d)"
  "fq_frame d (upd_peer s (\<lambda>p. p\<lparr>pending_acks := v\<rparr>) d)"
  "fq_frame d (upd_peer s (\<lambda>p. p\<lparr>sched_balance := v\<rparr>) d)"
  by (rule fq_frame_upd_peer, simp add: peer_frame_def)+

lemmas fq_frame_steps = fq_frame_set_flags fq_frame_set_peer fq_frame_pending fq_frame_emit
  fq_frame_cancel_timeout

lemmas fq_frame_then = fq_frame_steps [THEN [2] fq_frame_trans]

lemma fq_frame_put_message:
  "dhcp_failover_put_message e d s m = Ret (d', ok) \<Longrightarrow> fq_frame d d'"
  by (auto simp: dhcp_failover_put_message_def cres_simps split: if_splits
      intro!: fq_frame_then dest!: fq_frame_add_timeout intro: fq_frame_trans [OF fq_frame_emit])

lemma fq_frame_send_bind_update:
  "dhcp_failover_send_bind_update e d s a = Ret (d', ok) \<Longrightarrow> fq_frame d d'"
  unfolding dhcp_failover_send_bind_update_def Let_def commit_leases_def write_lease_def
  by (split option.splits, simp split del: if_split, drule fq_frame_put_message,
      erule fq_frame_trans [rotated]) (simp only: if_split, auto intro!: fq_frame_then)

lemma fq_frame_send_bind_ack:
  "dhcp_failover_send_bind_ack e d s x r = Ret (d', ok) \<Longrightarrow> fq_frame d d'"
  by (auto simp: dhcp_failover_send_bind_ack_def dest: fq_frame_put_message split: if_splits)

lemma fq_frame_send_acks_loop: "send_acks_loop e d s xs = Ret d' \<Longrightarrow> fq_frame d d'"
proof (induction xs arbitrary: d)
  case (Cons x xs)
  then obtain d1 ok where d1: "dhcp_failover_send_bind_ack e (upd_peer s (\<lambda>p. p\<lparr>toack_queue := xs\<rparr>) d) s x 0 =
      Ret (d1, ok)" "send_acks_loop e d1 s xs = Ret d'"
    by (auto simp: cres_simps)
  have "fq_frame d (upd_peer s (\<lambda>p. p\<lparr>toack_queue := xs\<rparr>) d)" by (rule fq_frame_steps)
  also note fq_frame_send_bind_ack [OF d1(1)]
  also note Cons.IH [OF d1(2)]
  finally show ?case .
qed simp

lemma fq_frame_send_acks: "dhcp_failover_send_acks e d s = Ret (d', ok) \<Longrightarrow> fq_frame d d'"
  unfolding dhcp_failover_send_acks_def commit_leases_def Let_def
  by (auto simp: cres_simps split: if_splits dest!: fq_frame_send_acks_loop
      intro!: fq_frame_then intro: fq_frame_trans [OF fq_frame_emit])

lemma fq_frame_ack_queue_unlink: "ack_queue_unlink d s a = Ret (d', ok) \<Longrightarrow> fq_frame d d'"
  unfolding ack_queue_unlink_def Let_def
  by (auto split: if_splits option.splits intro!: fq_frame_then)

lemma fq_frame_ack_queue_remove:
  "dhcp_failover_ack_queue_remove d s a = Ret d' \<Longrightarrow> fq_frame d d'"
  unfolding dhcp_failover_ack_queue_remove_def Let_def commit_leases_def
  by (auto simp: cres_simps split: if_splits dest!: fq_frame_ack_queue_unlink intro!: fq_frame_then)

lemma fq_frame_move_to_ack_queue: "move_to_ack_queue d s a = Ret d' \<Longrightarrow> fq_frame d d'"
  unfolding move_to_ack_queue_def Let_def
  by (auto simp: cres_simps split: option.splits intro!: fq_frame_then)

lemma fq_frame_enqueue_update: "enqueue_update d s a = Ret d' \<Longrightarrow> fq_frame d d'"
  unfolding enqueue_update_def Let_def
  by (auto simp: cres_simps split: option.splits intro!: fq_frame_then)

lemma fq_frame_send_updates_loop:
  assumes "send_updates_loop e d s = Some r" shows "\<forall>d'. r = Ret d' \<longrightarrow> fq_frame d d'"
proof (rule send_updates_loop.raw_induct [where P = "\<lambda>e d s r. \<forall>d'. r = Ret d' \<longrightarrow> fq_frame d d'",
      OF _ assms], intro allI impI)
  fix loop e d s r d'
  assume ih: "\<And>e d s r. loop e d s = Some r \<Longrightarrow> \<forall>d'. r = Ret d' \<longrightarrow> fq_frame d d'" and r: "r = Ret d'"
    and body: "(if cur_unacked_updates (peers d s) mod 2 ^ 32 < int (partner_max_flying_updates (peers d s))
      then case update_queue_head (peers d s) of
             None \<Rightarrow> Some (Ret d)
           | Some a \<Rightarrow>
               (case dhcp_failover_send_bind_update e d s a of
                  Undef \<Rightarrow> Some Undef
                | Fatal \<Rightarrow> Some Fatal
                | Ret (d, ok) \<Rightarrow>
                    if \<not> ok then Some (Ret d)
                    else case move_to_ack_queue d s a of
                           Undef \<Rightarrow> Some Undef
                         | Fatal \<Rightarrow> Some Fatal
                         | Ret d \<Rightarrow> loop e d s)
      else Some (Ret d)) = Some r"
  have "loop e d1 s = Some (Ret d') \<Longrightarrow> fq_frame d1 d'" for d1 using ih by blast
  with r body show "fq_frame d d'"
    by (auto split: if_splits option.splits cres.splits dest!: fq_frame_send_bind_update
        fq_frame_move_to_ack_queue) (blast intro: fq_frame_trans)+
qed

lemma fq_frame_send_updates_run:
  "(case send_updates_loop e d s of None \<Rightarrow> Undef | Some r \<Rightarrow> r) = Ret d' \<Longrightarrow> fq_frame d d'"
  by (auto split: option.splits dest: fq_frame_send_updates_loop)

lemma fq_frame_send_updates: "dhcp_failover_send_updates e d s = Ret d' \<Longrightarrow> fq_frame d d'"
  unfolding dhcp_failover_send_updates_def
  by (auto simp: cres_simps split: if_splits dest!: fq_frame_send_acks fq_frame_send_updates_run
      intro: fq_frame_trans)

lemma fq_frame_queue_update: "dhcp_failover_queue_update e d a i = Ret d' \<Longrightarrow> fq_frame d d'"
  unfolding dhcp_failover_queue_update_def
  by (auto simp: cres_simps split: if_splits option.splits dest!: fq_frame_ack_queue_remove
      fq_frame_enqueue_update fq_frame_send_updates intro: fq_frame_trans)

lemma fq_frame_pool_check: "dhcp_failover_pool_check e d p = Ret d' \<Longrightarrow> fq_frame d d'"
  unfolding dhcp_failover_pool_check_def Let_def
  by (auto split: if_splits option.splits dest!: fq_frame_add_timeout
      elim!: fq_frame_trans [rotated] intro!: fq_frame_then)
section \<open>The operations keep the invariant\<close>

lemma fq_frame_peer_of: "fq_frame d d' \<Longrightarrow> peer_of d' = peer_of d"
proof
  fix a assume "fq_frame d d'"
  then have "lease_frame (heap d a) (heap d' a)" "pools d' = pools d"
    by (cases d; cases d'; simp add: fq_frame_def)+
  then have "l_pool (heap d' a) = l_pool (heap d a)" "pools d' = pools d"
    by (cases "heap d a"; cases "heap d' a"; simp add: lease_frame_def)+
  then show "peer_of d' a = peer_of d a" by (simp add: peer_of_def)
qed

lemma fq_ok_cong:
  assumes "pend d' = pend d" "on_update d' = on_update d" "on_ack d' = on_ack d" "peer_of d' = peer_of d"
    and "\<And>s. update_queue_head (peers d' s) = update_queue_head (peers d s) \<and>
             update_queue_tail (peers d' s) = update_queue_tail (peers d s) \<and>
             ack_queue_head (peers d' s) = ack_queue_head (peers d s) \<and>
             ack_queue_tail (peers d' s) = ack_queue_tail (peers d s) \<and>
             cur_unacked_updates (peers d' s) = cur_unacked_updates (peers d s)"
  shows "fq_ok S d' U A = fq_ok S d U A"
  using assms by (simp add: fq_ok_def)

lemma fq_okD:
  assumes "fq_ok S d U A"
  shows "linked (pend d) (update_queue_head (peers d s)) (update_queue_tail (peers d s)) (U s)"
    and "linked (pend d) (ack_queue_head (peers d s)) (ack_queue_tail (peers d s)) (A s)"
    and "cur_unacked_updates (peers d s) = int (length (A s))"
    and "a \<in> set (U s) \<longleftrightarrow> a \<in> S \<and> peer_of d a = Some s \<and> on_update d a"
    and "a \<in> set (A s) \<longleftrightarrow> a \<in> S \<and> peer_of d a = Some s \<and> on_ack d a"
    and "a \<in> S \<Longrightarrow> \<not> (on_update d a \<and> on_ack d a)"
    and "a \<in> S \<Longrightarrow> \<not> on_update d a \<Longrightarrow> \<not> on_ack d a \<Longrightarrow> pend d a = None"
  using assms by (simp_all add: fq_ok_def)

lemma linked_tail_end: "linked nx hp tp xs \<Longrightarrow> tp = Some t \<Longrightarrow> t \<in> set xs \<and> nx t = None"
  by (cases xs rule: rev_cases) (auto simp: linked_def sll_append)

lemma seg_head_None: "seg_head xs None = None \<longleftrightarrow> xs = []"
  by (cases xs) auto

lemma linked_empty:
  assumes "linked nx hp tp xs" shows "hp = None \<longleftrightarrow> xs = []" "tp = None \<longleftrightarrow> xs = []"
  using assms by (auto simp: linked_def seg_last_eq seg_head_None)

text \<open>What changing the flags does.\<close>

lemma on_flags [simp]:
  "on_update (upd_lease a f d) = (\<lambda>b. if b = a then bit (flags (f (heap d a))) 4 else on_update d b)"
  "on_ack (upd_lease a f d) = (\<lambda>b. if b = a then bit (flags (f (heap d a))) 5 else on_ack d b)"
  "pend (upd_lease a f d) = (pend d)(a := next_pending (f (heap d a)))"
  by (auto simp: fun_eq_iff on_update_def on_ack_def pend_def flag_bits)

lemma on_flags_peer [simp]:
  "on_update (upd_peer s g d) = on_update d" "on_ack (upd_peer s g d) = on_ack d" "pend (upd_peer s g d) = pend d"
  "on_update (emit ev d) = on_update d" "on_ack (emit ev d) = on_ack d" "pend (emit ev d) = pend d"
  by (auto simp: fun_eq_iff on_update_def on_ack_def pend_def)

lemma flags_bit_simps [simp]:
  "bit (w OR ON_UPDATE_QUEUE) 4" "bit (w OR ON_UPDATE_QUEUE) 5 = bit w 5"
  "bit (w OR ON_ACK_QUEUE) 5" "bit (w OR ON_ACK_QUEUE) 4 = bit w 4"
  "\<not> bit (w AND NOT ON_UPDATE_QUEUE) 4" "bit (w AND NOT ON_UPDATE_QUEUE) 5 = bit w 5"
  "\<not> bit (w AND NOT ON_ACK_QUEUE) 5" "bit (w AND NOT ON_ACK_QUEUE) 4 = bit w 4"
  for w :: byte
  by (simp_all add: bit_or_iff bit_and_iff bit_not_iff flag_bit_iff)

lemma on_bit: "bit (flags (heap d a)) 4 = on_update d a" "bit (flags (heap d a)) 5 = on_ack d a"
  by (simp_all add: on_update_def on_ack_def flag_bits)

lemma pending_reference_pend [simp]:
  "pend (pending_reference d x a) = (if pend d x = None then (pend d)(x := Some a) else pend d)"
  "on_update (pending_reference d x a) = on_update d" "on_ack (pending_reference d x a) = on_ack d"
  "peers (pending_reference d x a) = peers d"
  by (auto simp: pending_reference_def pend_def on_bit fun_eq_iff)

lemma pending_dereference_pend [simp]:
  "pend (pending_dereference d x) = (pend d)(x := None)"
  "on_update (pending_dereference d x) = on_update d" "on_ack (pending_dereference d x) = on_ack d"
  "peers (pending_dereference d x) = peers d"
  by (auto simp: pending_dereference_def pend_def on_bit fun_eq_iff)

lemma enqueue_update_ok:
  assumes "fq_ok S d U A" and "peer_of d a = Some s" and "\<not> on_update d a" and "\<not> on_ack d a" and "a \<in> S"
  shows "\<exists>d'. enqueue_update d s a = Ret d' \<and> fq_ok S d' (U(s := U s @ [a])) A"
proof -
  let ?hp = "update_queue_head (peers d s)" and ?tp = "update_queue_tail (peers d s)"
  note lu = fq_okD(1) [OF assms(1), of s]
  have a: "a \<notin> set (U s)" "pend d a = None"
    using fq_okD(4) [OF assms(1), of a s] fq_okD(7) [OF assms(1,5)] assms(3,4) by auto
  have ex: "\<exists>d'. enqueue_update d s a = Ret d' \<and>
      pend d' = (case ?tp of None \<Rightarrow> pend d | Some t \<Rightarrow> (pend d)(t := Some a)) \<and>
      on_update d' = (on_update d)(a := True) \<and> on_ack d' = on_ack d \<and>
      peers d' = (peers d)(s := (peers d s)\<lparr>update_queue_head := case ?hp of None \<Rightarrow> Some a | _ \<Rightarrow> ?hp,
                                            update_queue_tail := Some a\<rparr>)"
  proof (cases ?hp)
    case None
    then have "?tp = None" using linked_empty [OF lu] by simp
    with None show ?thesis by (simp add: enqueue_update_def Let_def on_bit fun_eq_iff flip: pend_def)
  next
    case (Some f)
    then obtain t where t: "?tp = Some t" using linked_empty [OF lu] by auto
    with linked_tail_end [OF lu] have "pend d t = None" by blast
    with Some t show ?thesis
      by (auto simp: enqueue_update_def Let_def on_bit fun_eq_iff simp flip: pend_def)
  qed
  then obtain d' where d': "enqueue_update d s a = Ret d'"
      "pend d' = (case ?tp of None \<Rightarrow> pend d | Some t \<Rightarrow> (pend d)(t := Some a))"
      "on_update d' = (on_update d)(a := True)" "on_ack d' = on_ack d"
      "peers d' = (peers d)(s := (peers d s)\<lparr>update_queue_head := case ?hp of None \<Rightarrow> Some a | _ \<Rightarrow> ?hp,
                                            update_queue_tail := Some a\<rparr>)"
    by blast
  have po: "peer_of d' = peer_of d" by (rule fq_frame_peer_of [OF fq_frame_enqueue_update [OF d'(1)]])
  have frame: "linked (pend d') h t xs"
    if "linked (pend d) h t xs" and "\<And>t. ?tp = Some t \<Longrightarrow> t \<notin> set xs" for h t xs
    using that unfolding d'(2) by (auto split: option.splits intro: linked_frame)
  have tp: "peer_of d t = Some s \<and> on_update d t" if "?tp = Some t" for t
    using linked_tail_end [OF lu that] fq_okD(4) [OF assms(1)] by blast
  have "fq_ok S d' (U(s := U s @ [a])) A"
    unfolding fq_ok_def
  proof (intro conjI allI ballI)
    fix s'
    show "linked (pend d') (update_queue_head (peers d' s')) (update_queue_tail (peers d' s')) ((U(s := U s @ [a])) s')"
      using linked_snoc [OF lu a] frame [OF fq_okD(1) [OF assms(1), of s']] tp fq_okD(4) [OF assms(1), of _ s']
      by (cases "s' = s") (auto simp: d'(2,5))
    show "linked (pend d') (ack_queue_head (peers d' s')) (ack_queue_tail (peers d' s')) (A s')"
      using frame [OF fq_okD(2) [OF assms(1), of s']] tp fq_okD(5) [OF assms(1), of _ s'] fq_okD(6) [OF assms(1)]
      by (auto simp: d'(5))
  qed (use assms d'(2-5) po fq_okD [OF assms(1)] tp in \<open>auto split: option.splits\<close>)
  with d'(1) show ?thesis by blast
qed

lemma ack_scan_Some:
  assumes "sll (\<lambda>b. next_pending (h b)) (ys @ y # a # zs) None" and "distinct (ys @ y # a # zs)"
  shows "ack_scan h a (seg_head (ys @ y # a # zs) None) = Some (Some y)"
  using assms
proof (induction ys)
  case Nil
  then show ?case by (simp add: ack_scan.simps)
next
  case (Cons x ys)
  then have "next_pending (h x) = seg_head (ys @ y # a # zs) None" by simp
  moreover have "seg_head (ys @ y # a # zs) None \<noteq> Some a"
    using Cons.prems(2) by (cases ys) auto
  ultimately show ?case using Cons by (simp add: ack_scan.simps [of _ _ "Some x"])
qed

lemma ack_queue_unlink_ok:
  assumes "linked (pend d) (ack_queue_head (peers d s)) (ack_queue_tail (peers d s)) (ys @ a # zs)"
  shows "\<exists>d'. ack_queue_unlink d s a = Ret (d', True) \<and>
      pend d' = (case seg_last ys None of None \<Rightarrow> (pend d)(a := None)
                 | Some y \<Rightarrow> ((pend d)(y := pend d a))(a := None)) \<and>
      on_update d' = on_update d \<and> on_ack d' = on_ack d \<and>
      peers d' = (peers d)(s := (peers d s)\<lparr>
        ack_queue_head := (case seg_last ys None of None \<Rightarrow> pend d a | _ \<Rightarrow> ack_queue_head (peers d s)),
        ack_queue_tail := seg_last (ys @ zs) None\<rparr>)"
proof (cases ys rule: rev_cases)
  case Nil
  then have "ack_queue_head (peers d s) = Some a" "pend d a = seg_head zs None"
    "ack_queue_tail (peers d s) = seg_last (a # zs) None"
    using assms by (simp_all add: linked_def)
  with Nil show ?thesis
    by (cases zs) (auto simp: ack_queue_unlink_def Let_def seg_last_eq fun_eq_iff simp flip: pend_def)
next
  case (snoc us y)
  have hd: "ack_queue_head (peers d s) = seg_head (us @ y # a # zs) None"
    and sl: "sll (pend d) (us @ y # a # zs) None" and di: "distinct (us @ y # a # zs)"
    using assms snoc by (simp_all add: linked_def)
  have scan: "ack_scan (heap d) a (ack_queue_head (peers d s)) = Some (Some y)"
    unfolding hd by (rule ack_scan_Some) (use sl di in \<open>simp_all add: pend_def [abs_def]\<close>)
  have "ack_queue_head (peers d s) \<noteq> Some a" using di unfolding hd by (cases us) auto
  moreover have "pend d a = seg_head zs None" "pend d y = Some a" using sl by (simp_all add: sll_append)
  moreover have "ack_queue_tail (peers d s) = seg_last (a # zs) None" using assms snoc by (simp add: linked_def)
  moreover have "a \<noteq> y" using di by auto
  ultimately show ?thesis using scan snoc
    by (cases zs) (auto simp: ack_queue_unlink_def Let_def seg_last_eq fun_eq_iff simp flip: pend_def)
qed
lemma fq_ok_disjoint:
  assumes "fq_ok S d U A"
  shows "set (U s) \<inter> set (A s') = {}" and "s \<noteq> s' \<Longrightarrow> set (A s) \<inter> set (A s') = {}"
    and "s \<noteq> s' \<Longrightarrow> set (U s) \<inter> set (U s') = {}"
  using fq_okD(4-6) [OF assms] by auto

lemma ack_queue_remove_ok:
  assumes ok: "fq_ok S d U A" and a: "peer_of d a = Some s" "on_ack d a" "a \<in> S"
  shows "\<exists>d'. dhcp_failover_ack_queue_remove d s a = Ret d' \<and> fq_ok S d' U (A(s := remove1 a (A s))) \<and>
           \<not> on_ack d' a \<and> \<not> on_update d' a"
proof -
  note la = fq_okD(2) [OF ok, of s]
  have "a \<in> set (A s)" using fq_okD(5) [OF ok] a by blast
  then obtain ys zs where As: "A s = ys @ a # zs" by (meson split_list)
  have di: "distinct (ys @ a # zs)" using la As by (simp add: linked_def)
  have nu: "\<not> on_update d a" using fq_okD(6) [OF ok] a by blast
  obtain d1 where d1: "ack_queue_unlink d s a = Ret (d1, True)"
      "pend d1 = (case seg_last ys None of None \<Rightarrow> (pend d)(a := None)
                 | Some y \<Rightarrow> ((pend d)(y := pend d a))(a := None))"
      "on_update d1 = on_update d" "on_ack d1 = on_ack d"
      "peers d1 = (peers d)(s := (peers d s)\<lparr>
        ack_queue_head := (case seg_last ys None of None \<Rightarrow> pend d a | _ \<Rightarrow> ack_queue_head (peers d s)),
        ack_queue_tail := seg_last (ys @ zs) None\<rparr>)"
    using ack_queue_unlink_ok [OF la [unfolded As]] by (elim exE conjE) (rule that; assumption)
  let ?d2 = "upd_lease a (\<lambda>l. l\<lparr>flags := flags l AND NOT ON_ACK_QUEUE, last_xid := 0\<rparr>) d1"
  let ?d3 = "upd_peer s (\<lambda>p. p\<lparr>cur_unacked_updates := cur_unacked_updates p - 1\<rparr>) ?d2"
  define d' where "d' = (if cur_unacked_updates (peers ?d3 s) = 0 then commit_leases ?d3 else ?d3)"
  have eq: "dhcp_failover_ack_queue_remove d s a = Ret d'"
    using a(2) d1(1) by (simp add: dhcp_failover_ack_queue_remove_def d'_def Let_def on_ack_def)
  have v: "pend d' = pend d1" "on_update d' = on_update d" "on_ack d' = (on_ack d)(a := False)"
    "peers d' = peers ?d3"
    using d1(3,4) by (auto simp: d'_def commit_leases_def on_bit fun_eq_iff simp flip: pend_def)
  have po: "peer_of d' = peer_of d" by (rule fq_frame_peer_of [OF fq_frame_ack_queue_remove [OF eq]])
  have mem: "b \<in> set (remove1 a (A s)) \<longleftrightarrow> b \<in> S \<and> peer_of d b = Some s \<and> on_ack d b \<and> b \<noteq> a" for b
    using fq_okD(5) [OF ok, of b s] di As by (auto simp: remove1_append)
  have frame: "linked (pend d') h t xs" if "linked (pend d) h t xs" and "set xs \<inter> set (A s) = {}" for h t xs
    using that As unfolding v(1) d1(2)
    by (auto simp: seg_last_eq intro!: linked_frame)
  have "fq_ok S d' U (A(s := remove1 a (A s)))"
    unfolding fq_ok_def
  proof (intro conjI allI ballI)
    fix s'
    show "linked (pend d') (update_queue_head (peers d' s')) (update_queue_tail (peers d' s')) (U s')"
      using frame [OF fq_okD(1) [OF ok, of s'] fq_ok_disjoint(1) [OF ok]] by (cases "s' = s") (simp_all add: v(4) d1(5))
    show "linked (pend d') (ack_queue_head (peers d' s')) (ack_queue_tail (peers d' s')) ((A(s := remove1 a (A s))) s')"
      using frame [OF fq_okD(2) [OF ok, of s'] fq_ok_disjoint(2) [OF ok]] linked_remove [OF la [unfolded As]] di As
      by (cases "s' = s") (auto simp: v(1,4) d1(2,5) remove1_append)
  next
    fix b assume b: "b \<in> S"
    show "\<not> on_update d' b \<and> \<not> on_ack d' b \<longrightarrow> pend d' b = None" 
      using fq_okD(7) [OF ok b] b fq_okD(5) [OF ok, of b s] As unfolding v(1,2,3) d1(2)
      by (auto simp: seg_last_eq)
  qed (use a po mem As di fq_okD(3-6) [OF ok] in \<open>auto simp: v d1(5) remove1_append\<close>)
  with eq v nu show ?thesis by auto
qed

lemma move_to_ack_queue_ok:
  assumes ok: "fq_ok S d U A" and U: "U s = a # us"
  shows "\<exists>d'. move_to_ack_queue d s a = Ret d' \<and> fq_ok S d' (U(s := us)) (A(s := A s @ [a]))"
proof -
  let ?hp = "ack_queue_head (peers d s)" and ?tp = "ack_queue_tail (peers d s)"
  note lu = fq_okD(1) [OF ok, of s, unfolded U] and la = fq_okD(2) [OF ok, of s]
  have a: "peer_of d a = Some s" "on_update d a" "\<not> on_ack d a" "a \<notin> set us" "a \<in> S"
    using fq_okD(4) [OF ok, of a s] fq_okD(6) [OF ok, of a] U lu by (auto simp: linked_def)
  have aA: "a \<notin> set (A s)" using fq_okD(5) [OF ok] a by blast
  have pa: "pend d a = seg_head us None" using lu by (simp add: linked_def)
  have "\<exists>d'. move_to_ack_queue d s a = Ret d' \<and>
      pend d' = (case ?tp of None \<Rightarrow> (pend d)(a := None) | Some t \<Rightarrow> (pend d)(a := None, t := Some a)) \<and>
      on_update d' = (on_update d)(a := False) \<and> on_ack d' = (on_ack d)(a := True) \<and>
      peers d' = (peers d)(s := (peers d s)\<lparr>
        update_queue_head := seg_head us None, update_queue_tail := seg_last us None,
        ack_queue_head := (case ?hp of None \<Rightarrow> Some a | _ \<Rightarrow> ?hp), ack_queue_tail := Some a,
        cur_unacked_updates := cur_unacked_updates (peers d s) + 1\<rparr>)"
  proof (cases ?hp)
    case None
    then have "?tp = None" using linked_empty [OF la] by simp
    with None pa lu show ?thesis
      by (cases us) (auto simp: move_to_ack_queue_def Let_def on_bit fun_eq_iff linked_def simp flip: pend_def)
  next
    case (Some f)
    then obtain t where t: "?tp = Some t" using linked_empty [OF la] by auto
    with linked_tail_end [OF la] aA have "pend d t = None" "t \<noteq> a" by blast+
    with Some t pa lu show ?thesis
      by (cases us) (auto simp: move_to_ack_queue_def Let_def on_bit fun_eq_iff linked_def simp flip: pend_def)
  qed
  then obtain d' where eq: "move_to_ack_queue d s a = Ret d'"
      and v: "pend d' = (case ?tp of None \<Rightarrow> (pend d)(a := None) | Some t \<Rightarrow> (pend d)(a := None, t := Some a))"
      "on_update d' = (on_update d)(a := False)" "on_ack d' = (on_ack d)(a := True)"
      "peers d' = (peers d)(s := (peers d s)\<lparr>
        update_queue_head := seg_head us None, update_queue_tail := seg_last us None,
        ack_queue_head := (case ?hp of None \<Rightarrow> Some a | _ \<Rightarrow> ?hp), ack_queue_tail := Some a,
        cur_unacked_updates := cur_unacked_updates (peers d s) + 1\<rparr>)"
    by (elim exE conjE) (rule that; assumption)
  have po: "peer_of d' = peer_of d" by (rule fq_frame_peer_of [OF fq_frame_move_to_ack_queue [OF eq]])
  have frame: "linked (pend d') h t xs"
    if "linked (pend d) h t xs" and "a \<notin> set xs" and "set xs \<inter> set (A s) = {}" for h t xs
    using that linked_tail_end [OF la] unfolding v(1) by (auto split: option.splits intro!: linked_frame)
  have mem: "b \<in> set us \<longleftrightarrow> b \<in> S \<and> peer_of d b = Some s \<and> on_update d b \<and> b \<noteq> a" for b
    using fq_okD(4) [OF ok, of b s] U a(4) by auto
  have la1: "linked ((pend d)(a := None)) ?hp ?tp (A s)" using la aA by (rule linked_frame)
  have "fq_ok S d' (U(s := us)) (A(s := A s @ [a]))"
    unfolding fq_ok_def
  proof (intro conjI allI ballI)
    fix s'
    have us: "linked (pend d) (seg_head us None) (seg_last us None) us" using lu by (simp add: linked_def)
    show "linked (pend d') (update_queue_head (peers d' s')) (update_queue_tail (peers d' s')) ((U(s := us)) s')"
      using frame [OF fq_okD(1) [OF ok, of s'] _ fq_ok_disjoint(1) [OF ok]] frame [OF us a(4)]
        fq_ok_disjoint(1) [OF ok, of s s] fq_okD(4) [OF ok, of a s'] U a
      by (cases "s' = s") (auto simp: v(4))
    show "linked (pend d') (ack_queue_head (peers d' s')) (ack_queue_tail (peers d' s')) ((A(s := A s @ [a])) s')"
      using frame [OF fq_okD(2) [OF ok, of s'] _ fq_ok_disjoint(2) [OF ok]] fq_okD(5) [OF ok, of a s'] linked_snoc [OF la1 aA] a
      by (cases "s' = s") (auto simp: v(1,4) split: option.splits)
  next
    fix b assume b: "b \<in> S"
    show "\<not> on_update d' b \<and> \<not> on_ack d' b \<longrightarrow> pend d' b = None"
      using fq_okD(7) [OF ok b] b fq_okD(5) [OF ok, of b s] linked_tail_end [OF la] unfolding v(1,2,3)
      by (auto split: option.splits)
  qed (use a po mem fq_okD(3-6) [OF ok] in \<open>auto simp: v\<close>)
  with eq show ?thesis by blast
qed
section \<open>Sending the updates\<close>

text \<open>The binding updates sent: to which peer, for which address, announcing which state.\<close>

fun upd_sent :: "event \<Rightarrow> (nat \<times> byte list \<times> binding_state) list" where
  "upd_sent (EvBindUpdate s m) = [(s, m_assigned_addr m, m_binding_status m)]"
| "upd_sent _ = []"

definition updates_sent :: "db \<Rightarrow> (nat \<times> byte list \<times> binding_state) list" where
  "updates_sent d = concat (map upd_sent (events d))"

definition update_of :: "db \<Rightarrow> nat \<Rightarrow> ptr \<Rightarrow> nat \<times> byte list \<times> binding_state" where
  "update_of d s a = (s, ip_addr (heap d a), desired_binding_state (heap d a))"

lemma updates_sent_emit [simp]: "updates_sent (emit ev d) = updates_sent d @ upd_sent ev"
  by (simp add: updates_sent_def)

lemma updates_sent_upd [simp]: "updates_sent (upd_lease a f d) = updates_sent d" "updates_sent (upd_peer s g d) = updates_sent d"
  by (simp_all add: updates_sent_def)

lemma fq_frame_sel:
  assumes "fq_frame d d'"
  shows "update_of d' = update_of d" "no_memory d' = no_memory d" "isc_fails d' = isc_fails d"
    "partner_max_flying_updates (peers d' s) = partner_max_flying_updates (peers d s)"
    "cur_tv d' = cur_tv d" "pools d' = pools d" "playback d' = playback d"
proof -
  have l: "lease_frame (heap d a) (heap d' a)" for a using assms by (simp add: fq_frame_def)
  then have "ip_addr (heap d' a) = ip_addr (heap d a) \<and> desired_binding_state (heap d' a) = desired_binding_state (heap d a)"
    for a using l [of a] by (cases "heap d a"; cases "heap d' a"; simp add: lease_frame_def)
  then show "update_of d' = update_of d" by (simp add: update_of_def fun_eq_iff)
qed (use assms in \<open>cases d; cases d'; simp add: fq_frame_def peer_frame_def\<close>)+

text \<open>Two databases that agree on what the queues consist of, and on whether there is a link.\<close>

definition fq_same :: "db \<Rightarrow> db \<Rightarrow> bool" where
  "fq_same d d' \<longleftrightarrow> pend d' = pend d \<and> on_update d' = on_update d \<and> on_ack d' = on_ack d \<and> fq_frame d d' \<and>
     (\<forall>s. update_queue_head (peers d' s) = update_queue_head (peers d s) \<and>
          update_queue_tail (peers d' s) = update_queue_tail (peers d s) \<and>
          ack_queue_head (peers d' s) = ack_queue_head (peers d s) \<and>
          ack_queue_tail (peers d' s) = ack_queue_tail (peers d s) \<and>
          cur_unacked_updates (peers d' s) = cur_unacked_updates (peers d s) \<and>
          (link_xid (peers d' s) = None) = (link_xid (peers d s) = None))"

lemma fq_same_ok: "fq_same d d' \<Longrightarrow> fq_ok S d' U A = fq_ok S d U A"
  by (rule fq_ok_cong) (auto simp: fq_same_def fq_frame_peer_of)

lemma fq_same_trans [trans]: "fq_same d d' \<Longrightarrow> fq_same d' d'' \<Longrightarrow> fq_same d d''"
  by (auto simp: fq_same_def intro: fq_frame_trans)

lemma fq_same_refl [simp]: "fq_same d d"
  by (simp add: fq_same_def)

lemma fq_same_add_timeout:
  assumes "add_timeout d w f what = Ret d'" shows "fq_same d d'" and "updates_sent d' = updates_sent d"
proof -
  have e: "d' = d\<lparr>timeouts := timeouts d', next_addr := next_addr d'\<rparr>" by (rule add_timeout_frame [OF assms])
  then have "heap d' = heap d" "peers d' = peers d" "events d' = events d" by (cases d; cases d'; simp)+
  then show "fq_same d d'" "updates_sent d' = updates_sent d"
    using fq_frame_add_timeout [OF assms]
    by (simp_all add: fq_same_def pend_def on_update_def on_ack_def fun_eq_iff updates_sent_def)
qed

lemma put_message_ok:
  assumes "\<not> no_memory d" "\<not> isc_fails d"
  shows "\<exists>d'. dhcp_failover_put_message e d s m = Ret (d', put_message_ok e) \<and> fq_same d d' \<and>
           updates_sent d' = updates_sent d @ (if put_message_ok e then upd_sent m else [])"
proof -
  have em: "fq_same d (emit m d)" "fq_same d (emit (EvDisconnect s) d)" by (simp_all add: fq_same_def fq_frame_emit)
  obtain d' where "add_timeout (emit m d) (cur_time d + c_int (partner_max_response_delay (peers d s)) sdiv 3, 0)
      (Some SEND_CONTACT) s = Ret d'"
    using add_timeout_returns [of "emit m d" "(cur_time d + c_int (partner_max_response_delay (peers d s)) sdiv 3, 0)"
        "Some SEND_CONTACT" s] assms by auto
  with fq_same_add_timeout [OF this] fq_same_trans [OF em(1)] em(2) show ?thesis
    by (auto simp: dhcp_failover_put_message_def)
qed

lemma send_bind_update_ok:
  assumes "\<not> no_memory d" "\<not> isc_fails d" "link_xid (peers d s) \<noteq> None"
  shows "\<exists>d'. dhcp_failover_send_bind_update e d s a = Ret (d', put_message_ok e) \<and> fq_same d d' \<and>
           updates_sent d' = updates_sent d @ (if put_message_ok e then [update_of d s a] else [])"
proof -
  obtain xid where xid: "link_xid (peers d s) = Some xid" using assms by auto
  let ?x = "if xid = 0 then 1 else xid"
  let ?d2 = "upd_peer s (\<lambda>p. p\<lparr>link_xid := Some (?x + 1)\<rparr>) (upd_lease a (\<lambda>l. l\<lparr>last_xid := ?x\<rparr>) d)"
  define d3 where "d3 = (if rewind_binding_state (heap ?d2 a) \<noteq> binding_state (heap ?d2 a)
             then commit_leases (write_lease (upd_lease a (\<lambda>l. l\<lparr>rewind_binding_state := binding_state l\<rparr>) ?d2) a)
             else ?d2)"
  have eq: "dhcp_failover_send_bind_update e d s a =
      dhcp_failover_put_message e d3 s (EvBindUpdate s (bndupd_of (heap d3 a)))"
    by (simp add: dhcp_failover_send_bind_update_def Let_def xid d3_def)
  have "fq_frame d d3" unfolding d3_def commit_leases_def write_lease_def
    by (auto intro!: fq_frame_then)
  then have s3: "fq_same d d3" "\<not> no_memory d3" "\<not> isc_fails d3" "update_of d3 = update_of d"
    using assms fq_frame_sel(1-3) [of d d3]
    by (auto simp: fq_same_def d3_def commit_leases_def write_lease_def on_bit fun_eq_iff xid simp flip: pend_def)
  have "updates_sent d3 = updates_sent d" by (simp add: d3_def commit_leases_def write_lease_def)
  then show ?thesis
    using put_message_ok [OF s3(2,3), of e s "EvBindUpdate s (bndupd_of (heap d3 a))"] fq_same_trans [OF s3(1)] s3(4)
    unfolding eq by (auto simp: update_of_def bndupd_of_def fun_eq_iff)
qed

text \<open>How many updates are sent: as many as there are and the peer's window allows.\<close>

definition window :: "db \<Rightarrow> nat \<Rightarrow> nat \<Rightarrow> nat \<Rightarrow> nat" where
  "window d s nu na = min nu (partner_max_flying_updates (peers d s) - na)"

lemma send_updates_loop_ok:
  assumes "fq_ok S d U A" and "link_xid (peers d s) \<noteq> None" and "put_message_ok e"
    and "\<not> no_memory d" and "\<not> isc_fails d" and "length (U s) + length (A s) < 2 ^ 32"
  shows "\<exists>d'. send_updates_loop e d s = Some (Ret d') \<and>
           fq_ok S d' (U(s := drop (window d s (length (U s)) (length (A s))) (U s)))
                    (A(s := A s @ take (window d s (length (U s)) (length (A s))) (U s))) \<and>
           updates_sent d' = updates_sent d @
             map (update_of d s) (take (window d s (length (U s)) (length (A s))) (U s))"
  using assms
proof (induction "length (U s)" arbitrary: d U A)
  case 0
  then have "update_queue_head (peers d s) = None" using fq_okD(1) [OF 0(2), of s] by (simp add: linked_def)
  then have "send_updates_loop e d s = Some (Ret d)" by (simp add: send_updates_loop.simps [of e d s])
  moreover have "U(s := drop k (U s)) = U" "A(s := A s @ take k (U s)) = A" for k
    using 0(1) by (simp_all add: fun_upd_idem)
  ultimately show ?case using 0(1,2) by simp
next
  case (Suc n)
  then obtain a us where U: "U s = a # us" by (cases "U s") auto
  have hd: "update_queue_head (peers d s) = Some a" using fq_okD(1) [OF Suc.prems(1), of s] U by (simp add: linked_def)
  have un: "cur_unacked_updates (peers d s) mod 2 ^ 32 = int (length (A s))"
    using fq_okD(3) [OF Suc.prems(1), of s] Suc.prems(6) by simp
  show ?case
  proof (cases "length (A s) < partner_max_flying_updates (peers d s)")
    case False
    then show ?thesis using un Suc.prems(1) by (simp add: send_updates_loop.simps [of e d s] window_def)
  next
    case True
    obtain d1 where d1: "dhcp_failover_send_bind_update e d s a = Ret (d1, True)" "fq_same d d1"
        "updates_sent d1 = updates_sent d @ [update_of d s a]"
      using send_bind_update_ok [OF Suc.prems(4,5,2), of e a] Suc.prems(3) by auto
    have ok1: "fq_ok S d1 U A" using fq_same_ok [OF d1(2)] Suc.prems(1) by simp
    obtain d2 where d2: "move_to_ack_queue d1 s a = Ret d2" "fq_ok S d2 (U(s := us)) (A(s := A s @ [a]))"
      using move_to_ack_queue_ok [of S d1 U A s a us] ok1 U by auto
    note fr = fq_frame_trans [OF conjunct1 [OF conjunct2 [OF conjunct2 [OF conjunct2 [OF d1(2) [unfolded fq_same_def]]]]]
        fq_frame_move_to_ack_queue [OF d2(1)]]
    have mv: "link_xid (peers d2 s) = link_xid (peers d1 s)" "updates_sent d2 = updates_sent d1"
      using d2(1) by (auto simp: move_to_ack_queue_def Let_def cres_simps updates_sent_def pending_reference_def
          pending_dereference_def split: option.splits if_splits)
    have "link_xid (peers d1 s) \<noteq> None" using d1(2) Suc.prems(2) by (simp add: fq_same_def)
    then have ih: "\<exists>d'. send_updates_loop e d2 s = Some (Ret d') \<and>
        fq_ok S d' ((U(s := us))(s := drop (window d2 s n (length (A s @ [a]))) us))
          ((A(s := A s @ [a]))(s := (A s @ [a]) @ take (window d2 s n (length (A s @ [a]))) us)) \<and>
        updates_sent d' = updates_sent d2 @ map (update_of d2 s) (take (window d2 s n (length (A s @ [a]))) us)"
      using Suc.hyps(1) [of "U(s := us)" d2 "A(s := A s @ [a])"] Suc.hyps(2) Suc.prems(3-6) d2(2) U mv
        fq_frame_sel(2,3) [OF fr] by simp
    have w: "window d s (length (U s)) (length (A s)) = Suc (window d2 s n (length (A s @ [a])))"
      using True U Suc.hyps(2) fq_frame_sel(4) [OF fr, of s] by (auto simp: window_def min_def)
    from ih obtain d' where d': "send_updates_loop e d2 s = Some (Ret d')"
        "fq_ok S d' (U(s := drop (window d2 s n (length (A s @ [a]))) us))
          (A(s := A s @ a # take (window d2 s n (length (A s @ [a]))) us))"
        "updates_sent d' = updates_sent d2 @ map (update_of d2 s) (take (window d2 s n (length (A s @ [a]))) us)"
      by auto
    have "send_updates_loop e d s = send_updates_loop e d2 s"
      using un True hd d1(1) d2(1) by (simp add: send_updates_loop.simps [of e d s])
    then show ?thesis unfolding w using d' U d1(3) mv(2) fq_frame_sel(1) [OF fr] by simp
  qed
qed

lemma fq_same_frame: "fq_same d d' \<Longrightarrow> fq_frame d d'"
  by (simp add: fq_same_def)

lemma send_bind_ack_ok:
  assumes "\<not> no_memory d" "\<not> isc_fails d"
  shows "\<exists>d' b. dhcp_failover_send_bind_ack e d s x r = Ret (d', b) \<and> fq_same d d' \<and> updates_sent d' = updates_sent d"
  using put_message_ok [OF assms, of e s "EvBindAck s x r"] by (auto simp: dhcp_failover_send_bind_ack_def)

lemma fq_same_set_peer:
  "fq_same d (upd_peer s (\<lambda>p. p\<lparr>toack_queue := x\<rparr>) d)" "fq_same d (upd_peer s (\<lambda>p. p\<lparr>pending_acks := y\<rparr>) d)"
  "fq_same d (upd_peer s (\<lambda>p. p\<lparr>sched_balance := y\<rparr>) d)" "fq_same d (emit ev d)"
  by (simp_all add: fq_same_def fq_frame_steps)

lemma send_acks_loop_ok:
  "\<not> no_memory d \<Longrightarrow> \<not> isc_fails d \<Longrightarrow>
   \<exists>d'. send_acks_loop e d s xs = Ret d' \<and> fq_same d d' \<and> updates_sent d' = updates_sent d"
proof (induction xs arbitrary: d)
  case (Cons x xs)
  let ?d = "upd_peer s (\<lambda>p. p\<lparr>toack_queue := xs\<rparr>) d"
  obtain d1 b where d1: "dhcp_failover_send_bind_ack e ?d s x 0 = Ret (d1, b)" "fq_same ?d d1"
      "updates_sent d1 = updates_sent d"
    using send_bind_ack_ok [of ?d e s x 0] Cons.prems by auto
  have s: "fq_same d d1" using fq_same_trans [OF fq_same_set_peer(1) d1(2)] .
  then obtain d2 where "send_acks_loop e d1 s xs = Ret d2" "fq_same d1 d2" "updates_sent d2 = updates_sent d1"
    using Cons.IH [of d1] Cons.prems fq_frame_sel(2,3) [OF fq_same_frame [OF s]] by auto
  with d1 fq_same_trans [OF s] show ?case by auto
qed simp

lemma send_acks_ok:
  assumes "\<not> no_memory d" "\<not> isc_fails d"
  shows "\<exists>d' b. dhcp_failover_send_acks e d s = Ret (d', b) \<and> fq_same d d' \<and> updates_sent d' = updates_sent d"
proof -
  let ?d = "emit EvCommitLeases d"
  obtain d1 where d1: "send_acks_loop e ?d s (toack_queue (peers d s)) = Ret d1" "fq_same ?d d1"
      "updates_sent d1 = updates_sent ?d"
    using send_acks_loop_ok [of ?d e s "toack_queue (peers d s)"] assms by auto
  have "fq_same d d1" using fq_same_trans [OF fq_same_set_peer(4) d1(2)] .
  then show ?thesis using d1 fq_same_trans [OF _ fq_same_set_peer(2)] fq_same_set_peer(4)
    by (auto simp: dhcp_failover_send_acks_def commit_leases_def Let_def)
qed

lemma send_updates_loop_returns:
  assumes "fq_ok S d U A" and "\<not> no_memory d" and "\<not> isc_fails d"
  shows "\<exists>d' U' A'. send_updates_loop e d s = Some (Ret d') \<and> fq_ok S d' U' A'"
  using assms
proof (induction "length (U s)" arbitrary: d U A)
  case 0
  then have "update_queue_head (peers d s) = None" using fq_okD(1) [OF 0(2), of s] by (simp add: linked_def)
  with 0 show ?case by (auto simp: send_updates_loop.simps [of e d s])
next
  case (Suc n)
  then obtain a us where U: "U s = a # us" by (cases "U s") auto
  have hd: "update_queue_head (peers d s) = Some a" using fq_okD(1) [OF Suc.prems(1), of s] U by (simp add: linked_def)
  obtain d1 b where d1: "dhcp_failover_send_bind_update e d s a = Ret (d1, b)" "fq_same d d1"
    using send_bind_update_ok [OF Suc.prems(2,3), of s e a]
    by (cases "link_xid (peers d s)") (auto simp: dhcp_failover_send_bind_update_def)
  have ok1: "fq_ok S d1 U A" using fq_same_ok [OF d1(2)] Suc.prems(1) by simp
  obtain d2 where d2: "move_to_ack_queue d1 s a = Ret d2" "fq_ok S d2 (U(s := us)) (A(s := A s @ [a]))"
    using move_to_ack_queue_ok [of S d1 U A s a us] ok1 U by auto
  note fr = fq_frame_trans [OF fq_same_frame [OF d1(2)] fq_frame_move_to_ack_queue [OF d2(1)]]
  have "\<exists>d' U' A'. send_updates_loop e d2 s = Some (Ret d') \<and> fq_ok S d' U' A'"
    using Suc.hyps(1) [of "U(s := us)" d2 "A(s := A s @ [a])"] Suc.hyps(2) U Suc.prems d2(2)
      fq_frame_sel(2,3) [OF fr] by simp
  with hd d1(1) d2(1) ok1 Suc.prems(1) show ?case
    by (auto simp: send_updates_loop.simps [of e d s])
qed

lemma send_updates_returns:
  assumes "fq_ok S d U A" and "\<not> no_memory d" and "\<not> isc_fails d"
  shows "\<exists>d' U' A'. dhcp_failover_send_updates e d s = Ret d' \<and> fq_ok S d' U' A'"
proof -
  obtain d1 b where d1: "dhcp_failover_send_acks e d s = Ret (d1, b)" "fq_same d d1"
    using send_acks_ok [OF assms(2,3), of e s] by blast
  have "fq_ok S d1 U A" using fq_same_ok [OF d1(2)] assms(1) by simp
  then have "\<exists>d' U' A'. send_updates_loop e d1 s = Some (Ret d') \<and> fq_ok S d' U' A'"
    using assms(2,3) fq_frame_sel(2,3) [OF fq_same_frame [OF d1(2)]] by (intro send_updates_loop_returns) auto
  with send_updates_loop_returns [OF assms, of e s] d1(1) assms(1) show ?thesis
    by (auto simp: dhcp_failover_send_updates_def) blast+
qed

text \<open>The state of the queues when the update of a lease has been put on them.\<close>

text \<open>Removing and queueing an update leaves the link and what was sent alone.\<close>

lemma ack_remove_link:
  assumes "dhcp_failover_ack_queue_remove d s a = Ret d'"
  shows "link_xid (peers d' t) = link_xid (peers d t)" "toack_queue (peers d' t) = toack_queue (peers d t)"
    "updates_sent d' = updates_sent d"
  using assms unfolding dhcp_failover_ack_queue_remove_def ack_queue_unlink_def pending_dereference_def pending_reference_def
    commit_leases_def Let_def
  by (auto simp: cres_simps split: if_splits option.splits)

lemma enqueue_link:
  assumes "enqueue_update d s a = Ret d'"
  shows "link_xid (peers d' t) = link_xid (peers d t)" "updates_sent d' = updates_sent d"
  using assms unfolding enqueue_update_def pending_reference_def Let_def by (auto simp: cres_simps split: if_splits option.splits)

lemma queue_update_enqueues:
  assumes "fq_ok S d U A" and "peer_of d a = Some s" and "\<not> on_update d a" and "a \<in> S"
  shows "\<exists>d1. fq_ok S d1 (U(s := U s @ [a])) (A(s := remove1 a (A s))) \<and> fq_frame d d1 \<and>
           link_xid (peers d1 s) = link_xid (peers d s) \<and> updates_sent d1 = updates_sent d \<and>
           dhcp_failover_queue_update e d a i = (if i then dhcp_failover_send_updates e d1 s else Ret d1)"
proof -
  have eq: "dhcp_failover_queue_update e d a i =
      cbind (if on_ack d a then dhcp_failover_ack_queue_remove d s a else Ret d)
        (\<lambda>d. cbind (enqueue_update d s a) (\<lambda>d. if i then dhcp_failover_send_updates e d s else Ret d))"
    using assms(2,3) by (auto simp: dhcp_failover_queue_update_def peer_of_def on_update_def on_ack_def
        Option.bind_eq_Some_conv)
  have "\<exists>d0. (if on_ack d a then dhcp_failover_ack_queue_remove d s a else Ret d) = Ret d0 \<and>
      fq_ok S d0 U (A(s := remove1 a (A s))) \<and> \<not> on_ack d0 a \<and> \<not> on_update d0 a \<and> fq_frame d d0 \<and>
      link_xid (peers d0 s) = link_xid (peers d s) \<and> updates_sent d0 = updates_sent d"
  proof (cases "on_ack d a")
    case True
    from ack_queue_remove_ok [OF assms(1,2) True assms(4)] fq_frame_ack_queue_remove [of d s a] ack_remove_link [of d s a] True show ?thesis by auto
  next
    case False
    then have "a \<notin> set (A s)" using fq_okD(5) [OF assms(1)] by blast
    then have "A(s := remove1 a (A s)) = A" by (simp add: remove1_idem)
    then show ?thesis using False assms by simp
  qed
  then obtain d0 where d0: "(if on_ack d a then dhcp_failover_ack_queue_remove d s a else Ret d) = Ret d0"
      "fq_ok S d0 U (A(s := remove1 a (A s)))" "\<not> on_ack d0 a" "\<not> on_update d0 a" "fq_frame d d0"
      "link_xid (peers d0 s) = link_xid (peers d s)" "updates_sent d0 = updates_sent d" by blast
  then obtain d1 where d1: "enqueue_update d0 s a = Ret d1" "fq_ok S d1 (U(s := U s @ [a])) (A(s := remove1 a (A s)))"
    using enqueue_update_ok [OF d0(2), of a s] assms(2,4) fq_frame_peer_of [OF d0(5)] by auto
  show ?thesis unfolding eq d0(1) using d1 fq_frame_trans [OF d0(5) fq_frame_enqueue_update [OF d1(1)]] enqueue_link [OF d1(1)] d0(6,7) by auto
qed

lemma queue_update_returns:
  assumes "fq_ok S d U A" and "a \<in> S" and "\<not> no_memory d" and "\<not> isc_fails d"
  shows "\<exists>d' U' A'. dhcp_failover_queue_update e d a i = Ret d' \<and> fq_ok S d' U' A'"
proof (cases "\<exists>s. peer_of d a = Some s \<and> \<not> on_update d a")
  case True
  then obtain s where "peer_of d a = Some s" "\<not> on_update d a" by blast
  from queue_update_enqueues [OF assms(1) this assms(2), of e i] obtain d1 where
    d1: "fq_ok S d1 (U(s := U s @ [a])) (A(s := remove1 a (A s)))" "fq_frame d d1"
      "dhcp_failover_queue_update e d a i = (if i then dhcp_failover_send_updates e d1 s else Ret d1)" by blast
  show ?thesis using send_updates_returns [OF d1(1), of e s] fq_frame_sel(2,3) [OF d1(2)] assms(3,4) d1(1)
    unfolding d1(3) by auto
next
  case False
  then have "dhcp_failover_queue_update e d a i = Ret d"
    by (auto simp: dhcp_failover_queue_update_def peer_of_def on_update_def split: option.splits)
  with assms(1) show ?thesis by blast
qed

lemma fq_same_cancel: "fq_same d (cancel_timeout d f what)"
  unfolding fq_same_def
  by (simp add: fq_frame_cancel_timeout) (simp add: cancel_timeout_def pend_def on_update_def on_ack_def fun_eq_iff)

lemma pool_check_returns:
  assumes "fq_ok S d U A" and "\<not> no_memory d" and "\<not> isc_fails d"
  shows "\<exists>d'. dhcp_failover_pool_check e d p = Ret d' \<and> fq_ok S d' U A"
proof (cases "dhcp_failover_pool_check e d p = Ret d")
  case False
  then obtain s where s: "failover_peer (pools d p) = Some s"
    by (auto simp: dhcp_failover_pool_check_def split: option.splits)
  define d1 where "d1 = upd_peer s (\<lambda>q. q\<lparr>sched_balance := rebalance_time e d p s\<rparr>)
      (if sched_balance (peers d s) \<noteq> 0 then cancel_timeout d (Some POOL_REBALANCE) s else d)"
  have eq: "dhcp_failover_pool_check e d p = add_timeout d1 (rebalance_time e d p s, 0) (Some POOL_REBALANCE) s"
    using False s by (auto simp: dhcp_failover_pool_check_def d1_def Let_def split: if_splits)
  have "fq_same d d1"
    using fq_same_trans [OF fq_same_cancel [of d "Some POOL_REBALANCE" s]] fq_same_set_peer(3) unfolding d1_def by auto
  moreover obtain d' where "add_timeout d1 (rebalance_time e d p s, 0) (Some POOL_REBALANCE) s = Ret d'"
    using add_timeout_returns [of d1 "(rebalance_time e d p s, 0)" "Some POOL_REBALANCE" s] assms(2,3)
      fq_frame_sel(2,3) [OF fq_same_frame [OF \<open>fq_same d d1\<close>]] by auto
  ultimately show ?thesis unfolding eq
    using fq_same_ok [OF fq_same_trans [OF _ fq_same_add_timeout(1)]] assms(1) by blast
qed (use assms(1) in auto)
section \<open>Properties\<close>

text \<open>A database with one pool and one peer, three leases, one of them on the update queue.\<close>

definition exf_db :: db where
  "exf_db = new_db\<lparr>pools := \<lambda>_. new_pool\<lparr>failover_peer := Some 0\<rparr>,
     heap := (\<lambda>_. new_lease)
       (1 := new_lease\<lparr>l_pool := Some 0, ip_addr := [10, 0, 0, 1], flags := ON_UPDATE_QUEUE,
                       desired_binding_state := FTS_ACTIVE, next_pending := Some 2\<rparr>,
        2 := new_lease\<lparr>l_pool := Some 0, ip_addr := [10, 0, 0, 2], flags := ON_UPDATE_QUEUE,
                       desired_binding_state := FTS_FREE\<rparr>,
        3 := new_lease\<lparr>l_pool := Some 0, ip_addr := [10, 0, 0, 3]\<rparr>),
     peers := (\<lambda>_. new_peer)
       (0 := new_peer\<lparr>link_xid := Some 0, partner_max_flying_updates := 1,
                      update_queue_head := Some 1, update_queue_tail := Some 2\<rparr>)\<rparr>"

lemma exf_ok: "fq_ok {1, 2, 3} exf_db ((\<lambda>_. [])(0 := [1, 2])) (\<lambda>_. [])"
  by (auto simp: fq_ok_def linked_def exf_db_def new_db_def new_peer_def new_lease_def new_pool_def pend_def
      on_update_def on_ack_def peer_of_def ON_UPDATE_QUEUE_def ON_ACK_QUEUE_def split: if_splits)

lemma exf_peer: "peer_of exf_db 3 = Some 0"
  by (simp add: peer_of_def exf_db_def new_db_def new_lease_def new_pool_def)

lemma send_updates_sent:
  assumes "fq_ok S d U A" and "\<not> no_memory d" and "\<not> isc_fails d"
    and "link_xid (peers d s) \<noteq> None" and "put_message_ok e" and "length (U s) + length (A s) < 2 ^ 32"
  shows "\<exists>d'. dhcp_failover_send_updates e d s = Ret d' \<and>
           fq_ok S d' (U(s := drop (window d s (length (U s)) (length (A s))) (U s)))
                    (A(s := A s @ take (window d s (length (U s)) (length (A s))) (U s))) \<and>
           updates_sent d' = updates_sent d @
             map (update_of d s) (take (window d s (length (U s)) (length (A s))) (U s))"
proof -
  obtain d1 b where d1: "dhcp_failover_send_acks e d s = Ret (d1, b)" "fq_same d d1" "updates_sent d1 = updates_sent d"
    using send_acks_ok [OF assms(2,3), of e s] by blast
  note fr = fq_frame_sel [OF fq_same_frame [OF d1(2)]]
  have w: "window d1 s = window d s" using fr(4) by (simp add: window_def fun_eq_iff)
  have "fq_ok S d1 U A" using fq_same_ok [OF d1(2)] assms(1) by simp
  moreover have "link_xid (peers d1 s) \<noteq> None" using d1(2) assms(4) by (simp add: fq_same_def)
  ultimately show ?thesis
    using send_updates_loop_ok [of S d1 U A s e] send_updates_loop_ok [OF assms(1,4,5,2,3,6)] assms(2-6) d1(1,3)
    by (auto simp: dhcp_failover_send_updates_def w fr(1-3))
qed

lemma send_updates_blocked:
  assumes "fq_ok S d U A" "\<not> no_memory d" "\<not> isc_fails d" "link_xid (peers d s) = None \<or> \<not> put_message_ok e"
  shows "\<exists>d'. dhcp_failover_send_updates e d s = Ret d' \<and> fq_ok S d' U A \<and> updates_sent d' = updates_sent d"
proof (cases "link_xid (peers d s) = None")
  case True
  then show ?thesis using assms(1) by (simp add: dhcp_failover_send_updates_def)
next
  case False
  obtain d0 b where d0: "dhcp_failover_send_acks e d s = Ret (d0, b)" "fq_same d d0" "updates_sent d0 = updates_sent d"
    using send_acks_ok [OF assms(2,3), of e s] by blast
  have loop: "\<exists>d'. send_updates_loop e d1 s = Some (Ret d') \<and> fq_same d d' \<and> updates_sent d' = updates_sent d"
    if T: "fq_same d d1" "updates_sent d1 = updates_sent d" for d1
  proof -
    note fr = fq_frame_sel [OF fq_same_frame [OF T(1)]]
    have "link_xid (peers d1 s) \<noteq> None" using T(1) False by (simp add: fq_same_def)
    then have send: "\<exists>d'. dhcp_failover_send_bind_update e d1 s a = Ret (d', False) \<and> fq_same d d' \<and> updates_sent d' = updates_sent d" for a
      using send_bind_update_ok [of d1 s e a] fr(2,3) assms(2-4) False T fq_same_trans [OF T(1)] by auto
    show ?thesis
    proof (cases "update_queue_head (peers d1 s)")
      case None
      then show ?thesis using T by (simp add: send_updates_loop.simps [of e d1 s])
    next
      case (Some a)
      then show ?thesis using T send [of a] by (auto simp: send_updates_loop.simps [of e d1 s])
    qed
  qed
  show ?thesis using loop [OF fq_same_refl refl] loop [OF d0(2,3)] fq_same_ok assms(1) d0(1) False
    by (fastforce simp: dhcp_failover_send_updates_def)
qed

text \<open>
  C27. Queueing the update of a lease puts the lease at the end of the update queue of the peer of
  its pool, after taking it off the queue of unacknowledged updates if it was there, where the
  number of unacknowledged updates goes down with it. When it is to be sent at once, and there is
  a link that takes messages, the updates that wait are then sent in their order as far as the
  peer's window allows, and move to the end of the queue of unacknowledged updates; otherwise nothing is sent. A lease whose
  update is queued already stays where it is. In every case the two queues hold exactly the leases flagged for
  them, once each and properly linked, and no other queue changes.
\<close>

theorem queue_update_correct:
  assumes "fq_ok S d U A" and "peer_of d a = Some s" and "a \<in> S" and "\<not> no_memory d" and "\<not> isc_fails d"
    and "length (U s) + length (A s) + 1 < 2 ^ 32"
  shows "\<exists>d'. dhcp_failover_queue_update e d a immediate = Ret d' \<and>
           (if on_update d a then d' = d
            else let us = U s @ [a]; as = remove1 a (A s);
                     n = (if immediate \<and> link_xid (peers d s) \<noteq> None \<and> put_message_ok e then window d s (length us) (length as) else 0)
                 in fq_ok S d' (U(s := drop n us)) (A(s := as @ take n us)) \<and>
                    updates_sent d' = updates_sent d @ map (update_of d s) (take n us))"
proof (cases "on_update d a")
  case True
  then show ?thesis using assms(2)
    by (auto simp: dhcp_failover_queue_update_def peer_of_def on_update_def Option.bind_eq_Some_conv)
next
  case False
  let ?U = "U(s := U s @ [a])" and ?A = "A(s := remove1 a (A s))"
  obtain d1 where d1: "fq_ok S d1 ?U ?A" "fq_frame d d1" "link_xid (peers d1 s) = link_xid (peers d s)" "updates_sent d1 = updates_sent d"
      "dhcp_failover_queue_update e d a immediate = (if immediate then dhcp_failover_send_updates e d1 s else Ret d1)"
    using queue_update_enqueues [OF assms(1,2) False assms(3), of e immediate] by blast
  note fr = fq_frame_sel [OF d1(2)]
  have w: "window d1 s = window d s" using fr(4) by (simp add: window_def fun_eq_iff)
  have mem: "\<not> no_memory d1" "\<not> isc_fails d1" using fr assms(4,5) by simp_all
  consider "\<not> immediate" | "immediate" "link_xid (peers d1 s) = None \<or> \<not> put_message_ok e"
    | "immediate" "link_xid (peers d1 s) \<noteq> None" "put_message_ok e" by blast
  then show ?thesis
  proof cases
    case 1
    then show ?thesis using False d1 by simp
  next
    case 2
    then show ?thesis using send_updates_blocked [OF d1(1) mem 2(2)] d1(3-5) False by auto
  next
    case 3
    have "length (?U s) + length (?A s) < 2 ^ 32" using assms(6) by (auto simp: length_remove1)
    then show ?thesis using send_updates_sent [OF d1(1) mem 3(2,3)] 3 d1(3-5) False fr(1) w by (auto simp: Let_def)
  qed
qed

theorem queue_update_correct_witness:
  "(\<exists>d'. dhcp_failover_queue_update plain_env exf_db 3 False = Ret d' \<and>
      fq_ok {1, 2, 3} d' ((\<lambda>_. [])(0 := [1, 2, 3])) ((\<lambda>_. [])(0 := []))) \<and>
   (\<exists>d'. dhcp_failover_queue_update plain_env exf_db 3 True = Ret d' \<and>
      updates_sent d' = [(0, [10, 0, 0, 1], FTS_ACTIVE)] \<and> fq_ok {1, 2, 3} d' ((\<lambda>_. [])(0 := [2, 3])) ((\<lambda>_. [])(0 := [1])))"
proof -
  have "\<not> on_update exf_db 3" by (simp add: on_update_def exf_db_def new_db_def new_lease_def ON_UPDATE_QUEUE_def)
  moreover have "window exf_db 0 (Suc (Suc (Suc 0))) 0 = 1" "\<not> no_memory exf_db" "\<not> isc_fails exf_db" "link_xid (peers exf_db 0) \<noteq> None"
    "put_message_ok plain_env" "updates_sent exf_db = []" "update_of exf_db 0 1 = (0, [10, 0, 0, 1], FTS_ACTIVE)"
    by (simp_all add: window_def exf_db_def new_db_def plain_env_def updates_sent_def update_of_def)
  ultimately show ?thesis
    using queue_update_correct [OF exf_ok exf_peer, of plain_env False] queue_update_correct [OF exf_ok exf_peer, of plain_env True]
    by auto
qed

text \<open>
  C28. When updates are sent to the peer, they are sent in the order in which they were queued, one
  for each lease, with the lease's address and desired state, as many as there are and as the
  peer's window of unacknowledged updates still admits; exactly the leases sent move to the end
  of the queue of unacknowledged updates, in the same order. The loop always ends.
\<close>

theorem send_updates_correct:
  assumes "fq_ok S d U A" and "\<not> no_memory d" and "\<not> isc_fails d"
    and "link_xid (peers d s) \<noteq> None" and "put_message_ok e" and "length (U s) + length (A s) < 2 ^ 32"
  shows "\<exists>d'. dhcp_failover_send_updates e d s = Ret d' \<and>
           fq_ok S d' (U(s := drop (window d s (length (U s)) (length (A s))) (U s)))
                    (A(s := A s @ take (window d s (length (U s)) (length (A s))) (U s))) \<and>
           updates_sent d' = updates_sent d @
             map (update_of d s) (take (window d s (length (U s)) (length (A s))) (U s))"
  using assms by (rule send_updates_sent)

theorem send_updates_correct_witness:
  "\<exists>d'. dhcp_failover_send_updates plain_env exf_db 0 = Ret d' \<and>
     updates_sent d' = [(0, [10, 0, 0, 1], FTS_ACTIVE)] \<and> fq_ok {1, 2, 3} d' ((\<lambda>_. [])(0 := [2])) ((\<lambda>_. [])(0 := [1]))"
proof -
  have "window exf_db 0 (Suc (Suc 0)) 0 = 1" "\<not> no_memory exf_db" "\<not> isc_fails exf_db" "link_xid (peers exf_db 0) \<noteq> None"
    "put_message_ok plain_env" "updates_sent exf_db = []" "update_of exf_db 0 1 = (0, [10, 0, 0, 1], FTS_ACTIVE)"
    by (simp_all add: window_def exf_db_def new_db_def plain_env_def updates_sent_def update_of_def)
  with send_updates_correct [OF exf_ok, of 0 plain_env] show ?thesis by auto
qed

text \<open>
  The comment in \<open>dhcp_failover_send_bind_update\<close> says that a reserved lease that can be allocated
  is announced in the state that is free for the peer. That state is computed, but the message
  carries the lease's own.
\<close>

lemma reserved_not_toggled:
  assumes "\<not> no_memory d" "\<not> isc_fails d" "link_xid (peers d s) \<noteq> None" "put_message_ok e"
    and "has_flag (heap d a) RESERVED_LEASE" "desired_binding_state (heap d a) = FTS_FREE" "i_am (peers d s) = primary"
  shows "\<exists>d'. dhcp_failover_send_bind_update e d s a = Ret (d', True) \<and>
           updates_sent d' = updates_sent d @ [(s, ip_addr (heap d a), FTS_FREE)]"
    and "transmit_state (peers d s) (heap d a) = FTS_BACKUP"
  using send_bind_update_ok [OF assms(1-3), of e a] assms(4-7) by (auto simp: update_of_def transmit_state_def)

end
