(* ===== verification/ClientHash.thy ===== *)
theory ClientHash
  imports LeaseTypes
begin

text \<open>
  The client indexes of the lease database (\<open>server/mdb.c\<close>): hash tables from client identifiers
  and from hardware addresses to leases, where the leases of one client are chained in the order
  in which the client would rather have them back.
\<close>

section \<open>Looking up leases\<close>

definition find_lease_by_ip_addr :: "db \<Rightarrow> byte list \<Rightarrow> ptr option" where
  "find_lease_by_ip_addr d k = ip_hash d k"

definition find_lease_by_uid :: "db \<Rightarrow> byte list \<Rightarrow> ptr option" where
  "find_lease_by_uid d k = (if k = [] then None else uid_hash d k)"

definition find_lease_by_hw_addr :: "db \<Rightarrow> byte list \<Rightarrow> ptr option" where
  "find_lease_by_hw_addr d k =
     (if k = [] then None else if k = [HTYPE_INFINIBAND] then None else hw_hash d k)"

section \<open>The order of preference\<close>

definition client_lease_preferred :: "db_lease \<Rightarrow> db_lease \<Rightarrow> bool" where
  "client_lease_preferred cand l =
     (if binding_state cand = FTS_ACTIVE then
        binding_state l = FTS_ACTIVE \<and> ends l \<ge> ends cand
      else if binding_state cand = FTS_EXPIRED \<or> binding_state cand = FTS_RELEASED then
        binding_state l = FTS_ACTIVE \<or>
        (binding_state l = FTS_EXPIRED \<or> binding_state l = FTS_RELEASED) \<and> cltt l \<ge> cltt cand
      else if binding_state cand \<noteq> FTS_ABANDONED then
        (binding_state l = FTS_ACTIVE \<or> binding_state l = FTS_EXPIRED \<or> binding_state l = FTS_RELEASED) \<or>
        binding_state l \<noteq> FTS_ABANDONED \<and> cltt l \<ge> cltt cand
      else binding_state l \<noteq> FTS_ABANDONED \<or> cltt l \<ge> cltt cand)"

section \<open>The indexes\<close>

text \<open>
  The loop of \<open>uid_hash_add\<close> and of \<open>hw_hash_add\<close> that finds the lease to insert after; \<open>link\<close> is
  \<open>n_uid\<close> or \<open>n_hw\<close>. The references it holds meanwhile are released at its end.
\<close>

partial_function (option) client_scan ::
    "(db_lease \<Rightarrow> ptr option) \<Rightarrow> (ptr \<Rightarrow> db_lease) \<Rightarrow> db_lease \<Rightarrow> ptr option \<Rightarrow> ptr option \<Rightarrow> ptr option option" where
  "client_scan link h l prev cand =
     (case cand of
        None \<Rightarrow> Some prev
      | Some c \<Rightarrow> if client_lease_preferred (h c) l then Some prev
                  else client_scan link h l cand (link (h c)))"

definition n_uid_reference :: "db \<Rightarrow> ptr \<Rightarrow> ptr \<Rightarrow> db" where
  "n_uid_reference d x a =
     (if n_uid (heap d x) = None then upd_lease x (\<lambda>l. l\<lparr>n_uid := Some a\<rparr>) d else d)"

definition n_uid_dereference :: "db \<Rightarrow> ptr \<Rightarrow> db" where
  "n_uid_dereference d x = upd_lease x (\<lambda>l. l\<lparr>n_uid := None\<rparr>) d"

definition n_hw_reference :: "db \<Rightarrow> ptr \<Rightarrow> ptr \<Rightarrow> db" where
  "n_hw_reference d x a =
     (if n_hw (heap d x) = None then upd_lease x (\<lambda>l. l\<lparr>n_hw := Some a\<rparr>) d else d)"

definition n_hw_dereference :: "db \<Rightarrow> ptr \<Rightarrow> db" where
  "n_hw_dereference d x = upd_lease x (\<lambda>l. l\<lparr>n_hw := None\<rparr>) d"

definition uid_hash_put :: "db \<Rightarrow> byte list \<Rightarrow> ptr option \<Rightarrow> db" where
  "uid_hash_put d k v = d\<lparr>uid_hash := (uid_hash d)(k := v)\<rparr>"

definition hw_hash_put :: "db \<Rightarrow> byte list \<Rightarrow> ptr option \<Rightarrow> db" where
  "hw_hash_put d k v = d\<lparr>hw_hash := (hw_hash d)(k := v)\<rparr>"

definition uid_hash_add :: "db \<Rightarrow> ptr \<Rightarrow> db cres" where
  "uid_hash_add d a =
     (case uid (heap d a) of
        None \<Rightarrow> Undef
      | Some k \<Rightarrow>
          (case find_lease_by_uid d k of
             None \<Rightarrow> Ret (uid_hash_put d k (Some a))
           | Some head \<Rightarrow>
               (case client_scan n_uid (heap d) (heap d a) None (Some head) of
                  None \<Rightarrow> Undef
                | Some None \<Rightarrow>
                    let d = n_uid_reference d a head;
                        d = uid_hash_put d k None
                    in Ret (uid_hash_put d k (Some a))
                | Some (Some p) \<Rightarrow>
                    let d = (case n_uid (heap d p) of
                               Some n \<Rightarrow> n_uid_dereference (n_uid_reference d a n) p
                             | None \<Rightarrow> d)
                    in Ret (n_uid_reference d p a))))"

text \<open>The loop that looks for the lease before \<open>a\<close> on a chain.\<close>

partial_function (option) chain_scan ::
    "(db_lease \<Rightarrow> ptr option) \<Rightarrow> (ptr \<Rightarrow> db_lease) \<Rightarrow> ptr \<Rightarrow> ptr \<Rightarrow> ptr option option" where
  "chain_scan link h a scan =
     (case link (h scan) of
        None \<Rightarrow> Some None
      | Some n \<Rightarrow> if n = a then Some (Some scan) else chain_scan link h a n)"

definition uid_hash_delete :: "db \<Rightarrow> ptr \<Rightarrow> db cres" where
  "uid_hash_delete d a =
     (case uid (heap d a) of
        None \<Rightarrow> Undef
      | Some k \<Rightarrow>
          (case find_lease_by_uid d k of
             None \<Rightarrow> Ret (n_uid_dereference d a)
           | Some head \<Rightarrow>
               if head = a then
                 let d = uid_hash_put d k None
                 in case n_uid (heap d a) of
                      None \<Rightarrow> Ret d
                    | Some n \<Rightarrow>
                        (case uid (heap d n) of
                           None \<Rightarrow> Undef
                         | Some k' \<Rightarrow> Ret (n_uid_dereference (uid_hash_put d k' (Some n)) a))
               else
                 (case chain_scan n_uid (heap d) a head of
                    None \<Rightarrow> Undef
                  | Some None \<Rightarrow> Ret d
                  | Some (Some y) \<Rightarrow>
                      let d = n_uid_dereference d y
                      in Ret (case n_uid (heap d a) of
                                Some n \<Rightarrow> n_uid_dereference (n_uid_reference d y n) a
                              | None \<Rightarrow> d))))"

definition hw_hash_add :: "db \<Rightarrow> ptr \<Rightarrow> db cres" where
  "hw_hash_add d a =
     (let k = hardware_addr (heap d a)
      in if k = [HTYPE_INFINIBAND] then Ret d
         else
           (case find_lease_by_hw_addr d k of
              None \<Rightarrow> Ret (hw_hash_put d k (Some a))
            | Some head \<Rightarrow>
                (case client_scan n_hw (heap d) (heap d a) None (Some head) of
                   None \<Rightarrow> Undef
                 | Some None \<Rightarrow>
                     let d = n_hw_reference d a head;
                         d = hw_hash_put d k None
                     in Ret (hw_hash_put d k (Some a))
                 | Some (Some p) \<Rightarrow>
                     let d = (case n_hw (heap d p) of
                                Some n \<Rightarrow> n_hw_dereference (n_hw_reference d a n) p
                              | None \<Rightarrow> d)
                     in Ret (n_hw_reference d p a))))"

definition hw_hash_delete :: "db \<Rightarrow> ptr \<Rightarrow> db cres" where
  "hw_hash_delete d a =
     (let k = hardware_addr (heap d a)
      in if k = [HTYPE_INFINIBAND] then Ret d
         else
           (case find_lease_by_hw_addr d k of
              None \<Rightarrow> Ret (n_hw_dereference d a)
            | Some head \<Rightarrow>
                if head = a then
                  let d = hw_hash_put d k None
                  in case n_hw (heap d a) of
                       None \<Rightarrow> Ret d
                     | Some n \<Rightarrow> Ret (n_hw_dereference (hw_hash_put d (hardware_addr (heap d n)) (Some n)) a)
                else
                  (case chain_scan n_hw (heap d) a head of
                     None \<Rightarrow> Undef
                   | Some None \<Rightarrow> Ret d
                   | Some (Some y) \<Rightarrow>
                       let d = n_hw_dereference d y
                       in Ret (case n_hw (heap d a) of
                                 Some n \<Rightarrow> n_hw_dereference (n_hw_reference d y n) a
                               | None \<Rightarrow> d))))"
section \<open>The order is a total preorder\<close>

text \<open>
  The key a lease is preferred by: the class of its state, then, for active leases the time it
  ends, for others the time of the client's last transaction.
\<close>

definition preference :: "db_lease \<Rightarrow> int \<times> int" where
  "preference l =
     (case binding_state l of
        FTS_ACTIVE \<Rightarrow> (3, ends l)
      | FTS_EXPIRED \<Rightarrow> (2, cltt l)
      | FTS_RELEASED \<Rightarrow> (2, cltt l)
      | FTS_ABANDONED \<Rightarrow> (0, cltt l)
      | _ \<Rightarrow> (1, cltt l))"

definition pref_le :: "int \<times> int \<Rightarrow> int \<times> int \<Rightarrow> bool" where
  "pref_le p q \<longleftrightarrow> fst p < fst q \<or> fst p = fst q \<and> snd p \<le> snd q"

lemma preferred_iff: "client_lease_preferred c l \<longleftrightarrow> pref_le (preference c) (preference l)"
  by (cases "binding_state c"; cases "binding_state l")
    (simp_all add: client_lease_preferred_def preference_def pref_le_def)

lemma pref_le_trans: "pref_le p q \<Longrightarrow> pref_le q r \<Longrightarrow> pref_le p r"
  by (auto simp: pref_le_def)

lemma pref_le_total: "pref_le p q \<or> pref_le q p"
  by (auto simp: pref_le_def)

section \<open>Chains\<close>

text \<open>Where a lease goes on a chain, as lists.\<close>

definition pref_insert :: "(ptr \<Rightarrow> db_lease) \<Rightarrow> ptr \<Rightarrow> ptr list \<Rightarrow> ptr list" where
  "pref_insert h a xs =
     takeWhile (\<lambda>c. \<not> client_lease_preferred (h c) (h a)) xs @ a #
     dropWhile (\<lambda>c. \<not> client_lease_preferred (h c) (h a)) xs"

definition pref_sorted :: "(ptr \<Rightarrow> db_lease) \<Rightarrow> ptr list \<Rightarrow> bool" where
  "pref_sorted h xs \<longleftrightarrow> sorted_wrt (\<lambda>a b. client_lease_preferred (h b) (h a)) xs"

lemma set_pref_insert [simp]: "set (pref_insert h a xs) = insert a (set xs)"
  by (metis (no_types, lifting) Un_insert_right list.simps(15) pref_insert_def set_append takeWhile_dropWhile_id)

lemma pref_insert_distinct: "distinct xs \<Longrightarrow> a \<notin> set xs \<Longrightarrow> distinct (pref_insert h a xs)"
  using takeWhile_dropWhile_id [of "\<lambda>c. \<not> client_lease_preferred (h c) (h a)" xs]
  unfolding pref_insert_def by (metis (no_types, lifting) distinct.simps(2) distinct_append
      Un_iff disjoint_insert(1) list.simps(15) set_append)

lemma pref_insert_sorted:
  assumes "pref_sorted h xs" shows "pref_sorted h (pref_insert h a xs)"
  using assms
proof (induction xs)
  case Nil
  then show ?case by (simp add: pref_sorted_def pref_insert_def)
next
  case (Cons x xs)
  show ?case
  proof (cases "client_lease_preferred (h x) (h a)")
    case True
    then have "pref_insert h a (x # xs) = a # x # xs" by (simp add: pref_insert_def)
    moreover have "client_lease_preferred (h c) (h a)" if "c \<in> set xs" for c
      using Cons.prems True that unfolding pref_sorted_def preferred_iff by (auto intro: pref_le_trans)
    ultimately show ?thesis using Cons.prems True by (simp add: pref_sorted_def)
  next
    case False
    then have "pref_insert h a (x # xs) = x # pref_insert h a xs" by (simp add: pref_insert_def)
    moreover have "client_lease_preferred (h a) (h x)" using False pref_le_total unfolding preferred_iff by blast
    ultimately show ?thesis using Cons by (simp add: pref_sorted_def)
  qed
qed

lemma client_scan_Some:
  "sll (\<lambda>c. link (h c)) xs None \<Longrightarrow>
   client_scan link h l prev (seg_head xs None) =
     Some (seg_last (takeWhile (\<lambda>c. \<not> client_lease_preferred (h c) l) xs) prev)"
proof (induction xs arbitrary: prev)
  case Nil
  then show ?case by (simp add: client_scan.simps)
next
  case (Cons x xs)
  then show ?case by (simp add: client_scan.simps [of _ _ _ _ "Some x"])
qed

lemma chain_scan_Some:
  assumes "sll (\<lambda>b. link (h b)) (x # ys @ a # zs) None" and "distinct (x # ys @ a # zs)"
  shows "chain_scan link h a x = Some (Some (last (x # ys)))"
  using assms
proof (induction ys arbitrary: x)
  case Nil
  then show ?case by (simp add: chain_scan.simps)
next
  case (Cons y ys)
  then show ?case by (simp add: chain_scan.simps [of _ _ _ x])
qed

text \<open>
  An index holds for each key \<open>k\<close> the chain \<open>H k\<close>, linked by \<open>nx\<close> and found by \<open>tbl\<close>, whose leases
  all have that key; a lease on no chain has no link.
\<close>

definition index_ok ::
    "(ptr \<Rightarrow> ptr option) \<Rightarrow> (ptr \<Rightarrow> byte list option) \<Rightarrow> (byte list \<Rightarrow> ptr option) \<Rightarrow> (byte list \<Rightarrow> ptr list) \<Rightarrow> bool" where
  "index_ok nx kf tbl H \<longleftrightarrow>
     (\<forall>k. tbl k = seg_head (H k) None \<and> sll nx (H k) None \<and> distinct (H k) \<and> (\<forall>a \<in> set (H k). kf a = Some k)) \<and>
     (\<forall>a. (\<forall>k. a \<notin> set (H k)) \<longrightarrow> nx a = None)"

definition unindexed :: "(byte list \<Rightarrow> ptr list) \<Rightarrow> ptr \<Rightarrow> bool" where
  "unindexed H a \<longleftrightarrow> (\<forall>k. a \<notin> set (H k))"

lemma index_okD:
  assumes "index_ok nx kf tbl H"
  shows "tbl k = seg_head (H k) None" "sll nx (H k) None" "distinct (H k)" "a \<in> set (H k) \<Longrightarrow> kf a = Some k"
    "unindexed H a \<Longrightarrow> nx a = None"
  using assms by (auto simp: index_ok_def unindexed_def)

definition link_after :: "(ptr \<Rightarrow> ptr option) \<Rightarrow> ptr option \<Rightarrow> ptr option \<Rightarrow> ptr \<Rightarrow> ptr \<Rightarrow> ptr option" where
  "link_after nx prev head a =
     (case prev of None \<Rightarrow> nx(a := head) | Some p \<Rightarrow> nx(a := nx p, p := Some a))"

lemma index_ok_insert:
  assumes ok: "index_ok nx kf tbl H" and a: "unindexed H a" "kf a = Some k" and sp: "H k = ys @ zs"
  shows "index_ok (link_after nx (seg_last ys None) (tbl k) a) kf (tbl(k := seg_head (ys @ a # zs) None))
           (H(k := ys @ a # zs))"
proof -
  let ?nx = "link_after nx (seg_last ys None) (tbl k) a"
  note D = index_okD [OF ok]
  have dj: "k' \<noteq> k \<Longrightarrow> set (H k') \<inter> set (H k) = {}" for k' using D(4) by (metis disjoint_iff option.inject)
  have same: "sll ?nx (H k') None" if "k' \<noteq> k" for k'
  proof (cases ys rule: rev_cases)
    case Nil
    then show ?thesis using a(1) D(2) by (simp add: link_after_def unindexed_def)
  next
    case (snoc us y)
    then have "y \<notin> set (H k')" using dj [OF that] sp by auto
    then show ?thesis using snoc a(1) D(2) by (simp add: link_after_def unindexed_def)
  qed
  have aH: "a \<notin> set (ys @ zs)" using a(1) sp unfolding unindexed_def by metis
  have dis: "distinct (ys @ a # zs)" using D(3) [of k] aH sp by auto
  have "sll ?nx (ys @ a # zs) None"
  proof (cases ys rule: rev_cases)
    case Nil
    then show ?thesis using D(1) [of k] D(2) [of k] aH sp by (simp add: link_after_def)
  next
    case (snoc us y)
    then show ?thesis using D(2) [of k] dis sp by (simp add: link_after_def sll_append)
  qed
  moreover note dis
  moreover have "?nx b = None" if "\<forall>k'. b \<notin> set ((H(k := ys @ a # zs)) k')" for b
  proof -
    have "b \<notin> set (H k')" for k'
      using that [THEN spec, of k'] sp by (cases "k' = k") auto
    moreover have "b \<noteq> a" "b \<notin> set ys" using that [THEN spec, of k] by simp_all
    ultimately have "unindexed H b" "b \<noteq> a" "b \<notin> set ys" unfolding unindexed_def by blast+
    then show ?thesis using D(5) [of b] by (cases "ys = []") (auto simp: link_after_def seg_last_eq)
  qed
  ultimately show ?thesis using D(1,3,4) same sp a(2) unfolding index_ok_def by auto
qed

definition link_before :: "(ptr \<Rightarrow> ptr option) \<Rightarrow> ptr option \<Rightarrow> ptr \<Rightarrow> ptr \<Rightarrow> ptr option" where
  "link_before nx prev a =
     (case prev of None \<Rightarrow> nx(a := None) | Some p \<Rightarrow> nx(p := nx a, a := None))"

lemma index_ok_remove:
  assumes ok: "index_ok nx kf tbl H" and sp: "H k = ys @ a # zs"
  shows "index_ok (link_before nx (seg_last ys None) a) kf (tbl(k := seg_head (ys @ zs) None)) (H(k := ys @ zs))"
    and "unindexed (H(k := ys @ zs)) a"
proof -
  let ?nx = "link_before nx (seg_last ys None) a"
  note D = index_okD [OF ok]
  have dj: "k' \<noteq> k \<Longrightarrow> set (H k') \<inter> set (H k) = {}" for k' using D(4) by (metis disjoint_iff option.inject)
  show un: "unindexed (H(k := ys @ zs)) a"
    using D(3) [of k] dj sp by (auto simp: unindexed_def)
  have same: "sll ?nx (H k') None" if "k' \<noteq> k" for k'
  proof -
    have "a \<notin> set (H k')" "set ys \<inter> set (H k') = {}" using dj [OF that] sp by auto
    then show ?thesis using D(2) by (auto simp: link_before_def seg_last_eq disjoint_iff)
  qed
  have dis: "distinct (ys @ a # zs)" using D(3) [of k] sp by simp
  have "sll ?nx (ys @ zs) None"
  proof (cases ys rule: rev_cases)
    case Nil
    then show ?thesis using D(2) [of k] dis sp by (simp add: link_before_def)
  next
    case (snoc us y)
    then show ?thesis using D(2) [of k] dis sp by (simp add: link_before_def sll_append)
  qed
  moreover have "distinct (ys @ zs)" using dis by simp
  moreover have "?nx b = None" if "\<forall>k'. b \<notin> set ((H(k := ys @ zs)) k')" for b
  proof (cases "b = a")
    case False
    have "b \<notin> set (H k')" for k'
      using that [THEN spec, of k'] False sp by (cases "k' = k") auto
    moreover have "b \<notin> set ys" using that [THEN spec, of k] by simp
    ultimately have "unindexed H b" "b \<notin> set ys" unfolding unindexed_def by blast+
    then show ?thesis using D(5) [of b] False by (cases "ys = []") (auto simp: link_before_def seg_last_eq)
  qed (simp add: link_before_def split: option.splits)
  ultimately show "index_ok ?nx kf (tbl(k := seg_head (ys @ zs) None)) (H(k := ys @ zs))"
    using D(1,3,4) same sp unfolding index_ok_def by auto
qed
section \<open>The index of client identifiers\<close>

definition uid_key :: "db_lease \<Rightarrow> byte list option" where
  "uid_key l = (case uid l of None \<Rightarrow> None | Some k \<Rightarrow> if k = [] then None else Some k)"

definition hw_key :: "db_lease \<Rightarrow> byte list option" where
  "hw_key l = (if hardware_addr l = [] \<or> hardware_addr l = [HTYPE_INFINIBAND] then None
               else Some (hardware_addr l))"

definition uid_ok :: "db \<Rightarrow> (byte list \<Rightarrow> ptr list) \<Rightarrow> bool" where
  "uid_ok d H \<longleftrightarrow> index_ok (\<lambda>a. n_uid (heap d a)) (\<lambda>a. uid_key (heap d a)) (find_lease_by_uid d) H"

definition hw_ok :: "db \<Rightarrow> (byte list \<Rightarrow> ptr list) \<Rightarrow> bool" where
  "hw_ok d H \<longleftrightarrow> index_ok (\<lambda>a. n_hw (heap d a)) (\<lambda>a. hw_key (heap d a)) (find_lease_by_hw_addr d) H"

definition index_add :: "(ptr \<Rightarrow> db_lease) \<Rightarrow> byte list option \<Rightarrow> ptr \<Rightarrow> (byte list \<Rightarrow> ptr list) \<Rightarrow> byte list \<Rightarrow> ptr list" where
  "index_add h ko a H = (case ko of None \<Rightarrow> H | Some k \<Rightarrow> H(k := pref_insert h a (H k)))"

definition index_del :: "byte list option \<Rightarrow> ptr \<Rightarrow> (byte list \<Rightarrow> ptr list) \<Rightarrow> byte list \<Rightarrow> ptr list" where
  "index_del ko a H = (case ko of None \<Rightarrow> H | Some k \<Rightarrow> H(k := remove1 a (H k)))"

text \<open>The operations on an index change nothing but its links and its table.\<close>

definition uid_frame :: "db \<Rightarrow> db \<Rightarrow> bool" where
  "uid_frame d d' \<longleftrightarrow> d'\<lparr>heap := \<lambda>_. new_lease, uid_hash := \<lambda>_. None\<rparr> = d\<lparr>heap := \<lambda>_. new_lease, uid_hash := \<lambda>_. None\<rparr> \<and>
     (\<forall>a. (heap d' a)\<lparr>n_uid := None\<rparr> = (heap d a)\<lparr>n_uid := None\<rparr>)"

definition hw_frame :: "db \<Rightarrow> db \<Rightarrow> bool" where
  "hw_frame d d' \<longleftrightarrow> d'\<lparr>heap := \<lambda>_. new_lease, hw_hash := \<lambda>_. None\<rparr> = d\<lparr>heap := \<lambda>_. new_lease, hw_hash := \<lambda>_. None\<rparr> \<and>
     (\<forall>a. (heap d' a)\<lparr>n_hw := None\<rparr> = (heap d a)\<lparr>n_hw := None\<rparr>)"

lemma uid_frame_put:
  "uid_frame d (uid_hash_put d k v)" "uid_frame d (n_uid_dereference d x)" "uid_frame d (n_uid_reference d x y)" 
  by (simp_all add: uid_frame_def uid_hash_put_def n_uid_dereference_def n_uid_reference_def upd_lease_def)

lemma hw_frame_put:
  "hw_frame d (hw_hash_put d k v)" "hw_frame d (n_hw_dereference d x)" "hw_frame d (n_hw_reference d x y)" 
  by (simp_all add: hw_frame_def hw_hash_put_def n_hw_dereference_def n_hw_reference_def upd_lease_def)

lemma uid_frame_trans: "uid_frame d d' \<Longrightarrow> uid_frame d' d'' \<Longrightarrow> uid_frame d d''"
  by (simp add: uid_frame_def)

lemma hw_frame_trans: "hw_frame d d' \<Longrightarrow> hw_frame d' d'' \<Longrightarrow> hw_frame d d''"
  by (simp add: hw_frame_def)

lemma frame_refl [simp]: "uid_frame d d" "hw_frame d d"
  by (simp_all add: uid_frame_def hw_frame_def)

lemmas uid_frame_then = uid_frame_put [THEN [2] uid_frame_trans]
lemmas hw_frame_then = hw_frame_put [THEN [2] hw_frame_trans]

lemma links_keys [simp]:
  "uid_key (l\<lparr>n_uid := x\<rparr>) = uid_key l" "uid_key (l\<lparr>n_hw := x\<rparr>) = uid_key l"
  "hw_key (l\<lparr>n_uid := x\<rparr>) = hw_key l" "hw_key (l\<lparr>n_hw := x\<rparr>) = hw_key l"
  "preference (l\<lparr>n_uid := x\<rparr>) = preference l" "preference (l\<lparr>n_hw := x\<rparr>) = preference l"
  by (simp_all add: uid_key_def hw_key_def preference_def split: binding_state.split)

lemma uid_frame_sel:
  assumes "uid_frame d d'"
  shows "uid_key (heap d' a) = uid_key (heap d a)" "preference (heap d' a) = preference (heap d a)"
    "hw_key (heap d' a) = hw_key (heap d a)" "n_hw (heap d' a) = n_hw (heap d a)" "hw_hash d' = hw_hash d"
    "uid (heap d' a) = uid (heap d a)" "hardware_addr (heap d' a) = hardware_addr (heap d a)"
proof -
  have e: "(heap d' a)\<lparr>n_uid := None\<rparr> = (heap d a)\<lparr>n_uid := None\<rparr>" using assms by (simp add: uid_frame_def)
  show "uid_key (heap d' a) = uid_key (heap d a)" "preference (heap d' a) = preference (heap d a)"
    "hw_key (heap d' a) = hw_key (heap d a)" "n_hw (heap d' a) = n_hw (heap d a)"
    "uid (heap d' a) = uid (heap d a)" "hardware_addr (heap d' a) = hardware_addr (heap d a)"
    using arg_cong [OF e, of uid_key] arg_cong [OF e, of preference] arg_cong [OF e, of hw_key] arg_cong [OF e, of n_hw]
      arg_cong [OF e, of uid] arg_cong [OF e, of hardware_addr]
    by simp_all
  have "hw_hash (d'\<lparr>heap := \<lambda>_. new_lease, uid_hash := \<lambda>_. None\<rparr>) = hw_hash (d\<lparr>heap := \<lambda>_. new_lease, uid_hash := \<lambda>_. None\<rparr>)"
    using assms by (simp only: uid_frame_def)
  then show "hw_hash d' = hw_hash d" by simp
qed

lemma hw_frame_sel:
  assumes "hw_frame d d'"
  shows "uid_key (heap d' a) = uid_key (heap d a)" "preference (heap d' a) = preference (heap d a)"
    "hw_key (heap d' a) = hw_key (heap d a)" "n_uid (heap d' a) = n_uid (heap d a)" "uid_hash d' = uid_hash d"
    "uid (heap d' a) = uid (heap d a)" "hardware_addr (heap d' a) = hardware_addr (heap d a)"
proof -
  have e: "(heap d' a)\<lparr>n_hw := None\<rparr> = (heap d a)\<lparr>n_hw := None\<rparr>" using assms by (simp add: hw_frame_def)
  show "uid_key (heap d' a) = uid_key (heap d a)" "preference (heap d' a) = preference (heap d a)"
    "hw_key (heap d' a) = hw_key (heap d a)" "n_uid (heap d' a) = n_uid (heap d a)"
    "uid (heap d' a) = uid (heap d a)" "hardware_addr (heap d' a) = hardware_addr (heap d a)"
    using arg_cong [OF e, of uid_key] arg_cong [OF e, of preference] arg_cong [OF e, of hw_key] arg_cong [OF e, of n_uid]
      arg_cong [OF e, of uid] arg_cong [OF e, of hardware_addr]
    by simp_all
  have "uid_hash (d'\<lparr>heap := \<lambda>_. new_lease, hw_hash := \<lambda>_. None\<rparr>) = uid_hash (d\<lparr>heap := \<lambda>_. new_lease, hw_hash := \<lambda>_. None\<rparr>)"
    using assms by (simp only: hw_frame_def)
  then show "uid_hash d' = uid_hash d" by simp
qed

lemma uid_frame_hw_ok: "uid_frame d d' \<Longrightarrow> hw_ok d' H = hw_ok d H"
  using uid_frame_sel(5) [of d d']
  by (simp add: hw_ok_def uid_frame_sel(3,4) find_lease_by_hw_addr_def [abs_def] cong: if_cong)

lemma hw_frame_uid_ok: "hw_frame d d' \<Longrightarrow> uid_ok d' H = uid_ok d H"
  using hw_frame_sel(5) [of d d']
  by (simp add: uid_ok_def hw_frame_sel(1,4) find_lease_by_uid_def [abs_def] cong: if_cong)

text \<open>The links after a link is set or cleared.\<close>

lemma n_uid_sel [simp]:
  "n_uid (heap (n_uid_reference d x a) b) = (if b = x \<and> n_uid (heap d x) = None then Some a else n_uid (heap d b))"
  "n_uid (heap (n_uid_dereference d x) b) = (if b = x then None else n_uid (heap d b))"
  "heap (uid_hash_put d k v) = heap d" "uid_hash (uid_hash_put d k v) = (uid_hash d)(k := v)"
  "uid_hash (n_uid_reference d x a) = uid_hash d" "uid_hash (n_uid_dereference d x) = uid_hash d"
  by (auto simp: n_uid_reference_def n_uid_dereference_def uid_hash_put_def fun_eq_iff)

lemma n_hw_sel [simp]:
  "n_hw (heap (n_hw_reference d x a) b) = (if b = x \<and> n_hw (heap d x) = None then Some a else n_hw (heap d b))"
  "n_hw (heap (n_hw_dereference d x) b) = (if b = x then None else n_hw (heap d b))"
  "heap (hw_hash_put d k v) = heap d" "hw_hash (hw_hash_put d k v) = (hw_hash d)(k := v)"
  "hw_hash (n_hw_reference d x a) = hw_hash d" "hw_hash (n_hw_dereference d x) = hw_hash d"
  by (auto simp: n_hw_reference_def n_hw_dereference_def hw_hash_put_def fun_eq_iff)

lemma uid_hash_add_ok:
  assumes ok: "uid_ok d H" and a: "uid (heap d a) = Some u" "unindexed H a"
  shows "\<exists>d'. uid_hash_add d a = Ret d' \<and> uid_ok d' (index_add (heap d) (uid_key (heap d a)) a H) \<and> uid_frame d d'"
proof (cases "u = []")
  case True
  have f: "find_lease_by_uid (uid_hash_put d [] v) = find_lease_by_uid d" for v
    by (auto simp: find_lease_by_uid_def fun_eq_iff)
  from True show ?thesis using assms
    by (simp add: uid_hash_add_def find_lease_by_uid_def [of _ "[]"] index_add_def uid_key_def [of "heap d a"] uid_frame_put
        uid_ok_def f)
next
  case False
  then have k: "uid_key (heap d a) = Some u" using a(1) by (simp add: uid_key_def)
  let ?P = "\<lambda>c. \<not> client_lease_preferred (heap d c) (heap d a)"
  let ?ys = "takeWhile ?P (H u)" and ?zs = "dropWhile ?P (H u)"
  note D = index_okD [OF ok [unfolded uid_ok_def]]
  have "\<exists>d'. uid_hash_add d a = Ret d' \<and> uid_frame d d' \<and>
      (\<lambda>b. n_uid (heap d' b)) = link_after (\<lambda>b. n_uid (heap d b)) (seg_last ?ys None) (find_lease_by_uid d u) a \<and>
      find_lease_by_uid d' = (find_lease_by_uid d)(u := seg_head (?ys @ a # ?zs) None)"
  proof (cases "H u")
    case Nil
    then have "find_lease_by_uid d u = None" using D(1) by simp
    then show ?thesis using a(1) Nil False D(5) [OF a(2)]
      by (auto simp: uid_hash_add_def uid_frame_put link_after_def find_lease_by_uid_def fun_eq_iff)
  next
    case (Cons x xs)
    have f: "find_lease_by_uid d u = Some x" using D(1) [of u] Cons by simp
    have scan: "client_scan n_uid (heap d) (heap d a) None (Some x) = Some (seg_last ?ys None)"
      using client_scan_Some [OF D(2) [of u], of "heap d a" None] Cons by simp
    have na: "n_uid (heap d a) = None" using D(5) [OF a(2)] .
    have ne: "p \<noteq> a" if "seg_last ?ys None = Some p" for p
      using that a(2) set_takeWhileD [of p ?P "H u"] unfolding unindexed_def seg_last_eq
      by (metis last_in_set option.distinct(1) option.inject)
    show ?thesis
    proof (cases "seg_last ?ys None")
      case None
      then have y: "?ys = []" by (simp add: seg_last_eq split: if_splits)
      show ?thesis using a(1) f scan None na y False
        by (auto simp: uid_hash_add_def Let_def link_after_def find_lease_by_uid_def fun_eq_iff intro!: uid_frame_then)
    next
      case (Some p)
      then have y: "seg_head (?ys @ a # ?zs) None = Some x" using Cons by (auto simp: seg_last_eq split: if_splits)
      show ?thesis using a(1) f scan Some na y False ne [OF Some]
        by (auto simp: uid_hash_add_def Let_def link_after_def find_lease_by_uid_def fun_eq_iff
            intro!: uid_frame_then split: option.splits)
    qed
  qed
  then obtain d' where d': "uid_hash_add d a = Ret d'" "uid_frame d d'"
      "(\<lambda>b. n_uid (heap d' b)) = link_after (\<lambda>b. n_uid (heap d b)) (seg_last ?ys None) (find_lease_by_uid d u) a"
      "find_lease_by_uid d' = (find_lease_by_uid d)(u := seg_head (?ys @ a # ?zs) None)" by blast
  have "uid_ok d' (H(u := ?ys @ a # ?zs))"
    unfolding uid_ok_def d'(3,4) uid_frame_sel(1) [OF d'(2)]
    by (rule index_ok_insert) (use ok a(2) k in \<open>auto simp: uid_ok_def\<close>)
  with d' k show ?thesis by (auto simp: index_add_def pref_insert_def)
qed

lemma chain_scan_None:
  assumes "sll (\<lambda>b. link (h b)) (x # xs) None" and "a \<notin> set xs"
  shows "chain_scan link h a x = Some None"
  using assms
proof (induction xs arbitrary: x)
  case Nil
  then show ?case by (simp add: chain_scan.simps)
next
  case (Cons y xs)
  then show ?case by (simp add: chain_scan.simps [of _ _ _ x])
qed

lemma index_unindexed:
  assumes "index_ok nx kf tbl H" and "kf a = Some k" and "a \<notin> set (H k)"
  shows "unindexed H a"
  using assms unfolding unindexed_def index_ok_def by (metis option.inject)

lemma uid_hash_delete_ok:
  assumes ok: "uid_ok d H" and a: "uid (heap d a) = Some u"
  shows "\<exists>d'. uid_hash_delete d a = Ret d' \<and> uid_ok d' (index_del (uid_key (heap d a)) a H) \<and> uid_frame d d' \<and>
           unindexed (index_del (uid_key (heap d a)) a H) a"
proof (cases "u \<noteq> [] \<and> a \<in> set (H u)")
  case False
  note D = index_okD [OF ok [unfolded uid_ok_def]]
  have un: "unindexed H a"
  proof (cases "u = []")
    case True
    then show ?thesis using D(4) [of a] a by (auto simp: unindexed_def uid_key_def)
  next
    case F: False
    show ?thesis by (rule index_unindexed [OF ok [unfolded uid_ok_def], of a u]) (use a False F in \<open>auto simp: uid_key_def\<close>)
  qed
  have del: "index_del (uid_key (heap d a)) a H = H"
    using un by (auto simp: index_del_def unindexed_def remove1_idem split: option.splits)
  have n: "n_uid_dereference d a = d"
    using D(5) [OF un] by (simp add: n_uid_dereference_def upd_lease_def fun_upd_idem)
  have "uid_hash_delete d a = Ret d"
  proof (cases "find_lease_by_uid d u")
    case None
    then show ?thesis using a n by (simp add: uid_hash_delete_def)
  next
    case (Some x)
    then obtain xs where xs: "H u = x # xs" using D(1) [of u] by (cases "H u") auto
    then have "x \<noteq> a" "a \<notin> set xs" using un by (auto simp: unindexed_def dest: spec [of _ u])
    then show ?thesis using a Some chain_scan_None [of n_uid "heap d" x xs a] D(2) [of u] xs
      by (simp add: uid_hash_delete_def)
  qed
  then show ?thesis using ok un del by simp
next
  case True
  then obtain ys zs where sp: "H u = ys @ a # zs" by (meson split_list)
  note D = index_okD [OF ok [unfolded uid_ok_def]]
  have k: "uid_key (heap d a) = Some u" using a True by (simp add: uid_key_def)
  have dis: "distinct (ys @ a # zs)" using D(3) [of u] sp by simp
  then have rm: "remove1 a (H u) = ys @ zs" using sp by (simp add: remove1_append)
  have na: "n_uid (heap d a) = seg_head zs None" using D(2) [of u] sp by (simp add: sll_append)
  have f: "find_lease_by_uid d u = seg_head (ys @ a # zs) None" using D(1) [of u] sp by simp
  have kz: "uid (heap d n) = Some u" if "n \<in> set zs" for n
    using D(4) [of n u] sp that by (auto simp: uid_key_def split: option.splits if_splits)
  have "\<exists>d'. uid_hash_delete d a = Ret d' \<and> uid_frame d d' \<and>
      (\<lambda>b. n_uid (heap d' b)) = link_before (\<lambda>b. n_uid (heap d b)) (seg_last ys None) a \<and>
      find_lease_by_uid d' = (find_lease_by_uid d)(u := seg_head (ys @ zs) None)"
  proof (cases ys)
    case Nil
    then show ?thesis using a na f True kz
      by (cases zs) (auto simp: uid_hash_delete_def Let_def link_before_def find_lease_by_uid_def fun_eq_iff
          intro!: uid_frame_then)
  next
    case (Cons x xs)
    have "chain_scan n_uid (heap d) a x = Some (Some (last ys))"
      using chain_scan_Some [of n_uid "heap d" x xs a zs] D(2) [of u] dis sp Cons by simp
    moreover have "x \<noteq> a" "last ys \<noteq> a" "last ys \<in> set ys" using dis Cons by (auto dest: last_in_set)
    moreover have "find_lease_by_uid d u = seg_head (ys @ zs) None" "seg_last ys None = Some (last ys)" using f Cons
      by (simp_all add: seg_last_eq)
    ultimately show ?thesis using a na f Cons True
      by (cases zs) (auto simp: uid_hash_delete_def Let_def link_before_def find_lease_by_uid_def fun_eq_iff
          intro!: uid_frame_then)
  qed
  then obtain d' where d': "uid_hash_delete d a = Ret d'" "uid_frame d d'"
      "(\<lambda>b. n_uid (heap d' b)) = link_before (\<lambda>b. n_uid (heap d b)) (seg_last ys None) a"
      "find_lease_by_uid d' = (find_lease_by_uid d)(u := seg_head (ys @ zs) None)" by blast
  have "uid_ok d' (H(u := ys @ zs))"
    unfolding uid_ok_def d'(3,4) uid_frame_sel(1) [OF d'(2)]
    by (rule index_ok_remove(1)) (use ok sp in \<open>auto simp: uid_ok_def\<close>)
  with d' k rm index_ok_remove(2) [OF ok [unfolded uid_ok_def] sp] show ?thesis by (simp add: index_del_def)
qed

section \<open>The index of hardware addresses\<close>

lemma hw_hash_add_ok:
  assumes ok: "hw_ok d H" and a: "hardware_addr (heap d a) = u" "unindexed H a"
  shows "\<exists>d'. hw_hash_add d a = Ret d' \<and> hw_ok d' (index_add (heap d) (hw_key (heap d a)) a H) \<and> hw_frame d d'"
proof (cases "u = [] \<or> u = [HTYPE_INFINIBAND]")
  case True
  have f: "find_lease_by_hw_addr (hw_hash_put d [] v) = find_lease_by_hw_addr d" for v
    by (auto simp: find_lease_by_hw_addr_def fun_eq_iff)
  from True show ?thesis using assms
    by (auto simp: hw_hash_add_def find_lease_by_hw_addr_def [of _ "[]"] index_add_def hw_key_def [of "heap d a"] hw_frame_put
        hw_ok_def f)
next
  case False
  then have k: "hw_key (heap d a) = Some u" using a(1) by (simp add: hw_key_def)
  let ?P = "\<lambda>c. \<not> client_lease_preferred (heap d c) (heap d a)"
  let ?ys = "takeWhile ?P (H u)" and ?zs = "dropWhile ?P (H u)"
  note D = index_okD [OF ok [unfolded hw_ok_def]]
  have "\<exists>d'. hw_hash_add d a = Ret d' \<and> hw_frame d d' \<and>
      (\<lambda>b. n_hw (heap d' b)) = link_after (\<lambda>b. n_hw (heap d b)) (seg_last ?ys None) (find_lease_by_hw_addr d u) a \<and>
      find_lease_by_hw_addr d' = (find_lease_by_hw_addr d)(u := seg_head (?ys @ a # ?zs) None)"
  proof (cases "H u")
    case Nil
    then have "find_lease_by_hw_addr d u = None" using D(1) by simp
    then show ?thesis using a(1) Nil False D(5) [OF a(2)]
      by (auto simp: hw_hash_add_def hw_frame_put link_after_def find_lease_by_hw_addr_def fun_eq_iff)
  next
    case (Cons x xs)
    have f: "find_lease_by_hw_addr d u = Some x" using D(1) [of u] Cons by simp
    have scan: "client_scan n_hw (heap d) (heap d a) None (Some x) = Some (seg_last ?ys None)"
      using client_scan_Some [OF D(2) [of u], of "heap d a" None] Cons by simp
    have na: "n_hw (heap d a) = None" using D(5) [OF a(2)] .
    have ne: "p \<noteq> a" if "seg_last ?ys None = Some p" for p
      using that a(2) set_takeWhileD [of p ?P "H u"] unfolding unindexed_def seg_last_eq
      by (metis last_in_set option.distinct(1) option.inject)
    show ?thesis
    proof (cases "seg_last ?ys None")
      case None
      then have y: "?ys = []" by (simp add: seg_last_eq split: if_splits)
      show ?thesis using a(1) f scan None na y False
        by (auto simp: hw_hash_add_def Let_def link_after_def find_lease_by_hw_addr_def fun_eq_iff intro!: hw_frame_then)
    next
      case (Some p)
      then have y: "seg_head (?ys @ a # ?zs) None = Some x" using Cons by (auto simp: seg_last_eq split: if_splits)
      show ?thesis using a(1) f scan Some na y False ne [OF Some]
        by (auto simp: hw_hash_add_def Let_def link_after_def find_lease_by_hw_addr_def fun_eq_iff
            intro!: hw_frame_then split: option.splits)
    qed
  qed
  then obtain d' where d': "hw_hash_add d a = Ret d'" "hw_frame d d'"
      "(\<lambda>b. n_hw (heap d' b)) = link_after (\<lambda>b. n_hw (heap d b)) (seg_last ?ys None) (find_lease_by_hw_addr d u) a"
      "find_lease_by_hw_addr d' = (find_lease_by_hw_addr d)(u := seg_head (?ys @ a # ?zs) None)" by blast
  have "hw_ok d' (H(u := ?ys @ a # ?zs))"
    unfolding hw_ok_def d'(3,4) hw_frame_sel(3) [OF d'(2)]
    by (rule index_ok_insert) (use ok a(2) k in \<open>auto simp: hw_ok_def\<close>)
  with d' k show ?thesis by (auto simp: index_add_def pref_insert_def)
qed

lemma hw_hash_delete_ok:
  assumes ok: "hw_ok d H" and a: "hardware_addr (heap d a) = u"
  shows "\<exists>d'. hw_hash_delete d a = Ret d' \<and> hw_ok d' (index_del (hw_key (heap d a)) a H) \<and> hw_frame d d' \<and>
           unindexed (index_del (hw_key (heap d a)) a H) a"
proof (cases "u \<noteq> [] \<and> u \<noteq> [HTYPE_INFINIBAND] \<and> a \<in> set (H u)")
  case False
  note D = index_okD [OF ok [unfolded hw_ok_def]]
  have un: "unindexed H a"
  proof (cases "u = [] \<or> u = [HTYPE_INFINIBAND]")
    case True
    then show ?thesis using D(4) [of a] a by (auto simp: unindexed_def hw_key_def)
  next
    case F: False
    show ?thesis by (rule index_unindexed [OF ok [unfolded hw_ok_def], of a u]) (use a False F in \<open>auto simp: hw_key_def\<close>)
  qed
  have del: "index_del (hw_key (heap d a)) a H = H"
    using un by (auto simp: index_del_def unindexed_def remove1_idem split: option.splits)
  have n: "n_hw_dereference d a = d"
    using D(5) [OF un] by (simp add: n_hw_dereference_def upd_lease_def fun_upd_idem)
  have "hw_hash_delete d a = Ret d"
  proof (cases "find_lease_by_hw_addr d u")
    case None
    then show ?thesis using a n by (simp add: hw_hash_delete_def)
  next
    case (Some x)
    then obtain xs where xs: "H u = x # xs" using D(1) [of u] by (cases "H u") auto
    then have "x \<noteq> a" "a \<notin> set xs" using un by (auto simp: unindexed_def dest: spec [of _ u])
    then show ?thesis using a Some chain_scan_None [of n_hw "heap d" x xs a] D(2) [of u] xs
      by (simp add: hw_hash_delete_def)
  qed
  then show ?thesis using ok un del by simp
next
  case True
  then obtain ys zs where sp: "H u = ys @ a # zs" by (meson split_list)
  note D = index_okD [OF ok [unfolded hw_ok_def]]
  have k: "hw_key (heap d a) = Some u" using a True by (simp add: hw_key_def)
  have dis: "distinct (ys @ a # zs)" using D(3) [of u] sp by simp
  then have rm: "remove1 a (H u) = ys @ zs" using sp by (simp add: remove1_append)
  have na: "n_hw (heap d a) = seg_head zs None" using D(2) [of u] sp by (simp add: sll_append)
  have f: "find_lease_by_hw_addr d u = seg_head (ys @ a # zs) None" using D(1) [of u] sp by simp
  have kz: "hardware_addr (heap d n) = u" if "n \<in> set zs" for n
    using D(4) [of n u] sp that by (auto simp: hw_key_def split: option.splits if_splits)
  have "\<exists>d'. hw_hash_delete d a = Ret d' \<and> hw_frame d d' \<and>
      (\<lambda>b. n_hw (heap d' b)) = link_before (\<lambda>b. n_hw (heap d b)) (seg_last ys None) a \<and>
      find_lease_by_hw_addr d' = (find_lease_by_hw_addr d)(u := seg_head (ys @ zs) None)"
  proof (cases ys)
    case Nil
    then show ?thesis using a na f True kz
      by (cases zs) (auto simp: hw_hash_delete_def Let_def link_before_def find_lease_by_hw_addr_def fun_eq_iff
          intro!: hw_frame_then)
  next
    case (Cons x xs)
    have "chain_scan n_hw (heap d) a x = Some (Some (last ys))"
      using chain_scan_Some [of n_hw "heap d" x xs a zs] D(2) [of u] dis sp Cons by simp
    moreover have "x \<noteq> a" "last ys \<noteq> a" "last ys \<in> set ys" using dis Cons by (auto dest: last_in_set)
    moreover have "find_lease_by_hw_addr d u = seg_head (ys @ zs) None" "seg_last ys None = Some (last ys)" using f Cons
      by (simp_all add: seg_last_eq)
    ultimately show ?thesis using a na f Cons True
      by (cases zs) (auto simp: hw_hash_delete_def Let_def link_before_def find_lease_by_hw_addr_def fun_eq_iff
          intro!: hw_frame_then)
  qed
  then obtain d' where d': "hw_hash_delete d a = Ret d'" "hw_frame d d'"
      "(\<lambda>b. n_hw (heap d' b)) = link_before (\<lambda>b. n_hw (heap d b)) (seg_last ys None) a"
      "find_lease_by_hw_addr d' = (find_lease_by_hw_addr d)(u := seg_head (ys @ zs) None)" by blast
  have "hw_ok d' (H(u := ys @ zs))"
    unfolding hw_ok_def d'(3,4) hw_frame_sel(3) [OF d'(2)]
    by (rule index_ok_remove(1)) (use ok sp in \<open>auto simp: hw_ok_def\<close>)
  with d' k rm index_ok_remove(2) [OF ok [unfolded hw_ok_def] sp] show ?thesis by (simp add: index_del_def)
qed

section \<open>The interface of an index\<close>

text \<open>
  What the database code relies on: adding a lease that is on no chain inserts it into the chain
  of its key in order of preference, deleting it takes it off that chain, and looking up a key
  gives the first lease of its chain. \<open>keyed\<close> is what the code checks before it calls the
  operations.
\<close>

locale client_index =
  fixes ok :: "db \<Rightarrow> (byte list \<Rightarrow> ptr list) \<Rightarrow> bool"
    and keyed :: "db_lease \<Rightarrow> bool"
    and lease_key :: "db_lease \<Rightarrow> byte list option"
    and find_lease :: "db \<Rightarrow> byte list \<Rightarrow> ptr option"
    and add_lease :: "db \<Rightarrow> ptr \<Rightarrow> db cres"
    and delete_lease :: "db \<Rightarrow> ptr \<Rightarrow> db cres"
  assumes add_ok: "ok d H \<Longrightarrow> keyed (heap d a) \<Longrightarrow> unindexed H a \<Longrightarrow>
      \<exists>d'. add_lease d a = Ret d' \<and> ok d' (index_add (heap d) (lease_key (heap d a)) a H) \<and>
           (\<forall>b. keyed (heap d' b) = keyed (heap d b) \<and> lease_key (heap d' b) = lease_key (heap d b) \<and>
                preference (heap d' b) = preference (heap d b))"
    and delete_ok: "ok d H \<Longrightarrow> keyed (heap d a) \<Longrightarrow>
      \<exists>d'. delete_lease d a = Ret d' \<and> ok d' (index_del (lease_key (heap d a)) a H) \<and>
           unindexed (index_del (lease_key (heap d a)) a H) a"
    and find_ok: "ok d H \<Longrightarrow> find_lease d k = seg_head (H k) None"
begin

lemma add_then_find:
  assumes "ok d H" "keyed (heap d a)" "unindexed H a" "lease_key (heap d a) = Some k" "pref_sorted (heap d) (H k)"
  shows "\<exists>d' b. add_lease d a = Ret d' \<and> find_lease d' k = Some b \<and> b \<in> insert a (set (H k)) \<and>
           (\<forall>c \<in> insert a (set (H k)). client_lease_preferred (heap d c) (heap d b)) \<and>
           ok d' (H(k := pref_insert (heap d) a (H k))) \<and> pref_sorted (heap d') (pref_insert (heap d) a (H k))"
proof -
  obtain d' where d': "add_lease d a = Ret d'" "ok d' (H(k := pref_insert (heap d) a (H k)))"
      "\<forall>b. preference (heap d' b) = preference (heap d b)"
    using add_ok [OF assms(1-3)] assms(4) by (auto simp: index_add_def)
  have so: "pref_sorted (heap d) (pref_insert (heap d) a (H k))" using assms(5) by (rule pref_insert_sorted)
  obtain b bs where b: "pref_insert (heap d) a (H k) = b # bs"
    by (cases "pref_insert (heap d) a (H k)") (auto simp: pref_insert_def)
  have mem: "set (b # bs) = insert a (set (H k))" using set_pref_insert [of "heap d" a "H k"] b by simp
  have "client_lease_preferred (heap d b) (heap d b)" using pref_le_total preferred_iff by blast
  then have "\<forall>c \<in> set (b # bs). client_lease_preferred (heap d c) (heap d b)"
    using so b by (auto simp: pref_sorted_def)
  moreover have "find_lease d' k = Some b" using find_ok [OF d'(2), of k] b by simp
  moreover have "b \<in> set (b # bs)" by simp
  ultimately show ?thesis using d' so unfolding mem pref_sorted_def preferred_iff by auto
qed

lemma add_then_delete:
  assumes "ok d H" "keyed (heap d a)" "unindexed H a"
  shows "\<exists>d' d''. add_lease d a = Ret d' \<and> delete_lease d' a = Ret d'' \<and> ok d'' H"
proof -
  obtain d' where d': "add_lease d a = Ret d'" "ok d' (index_add (heap d) (lease_key (heap d a)) a H)"
      "keyed (heap d' a)" "lease_key (heap d' a) = lease_key (heap d a)"
    using add_ok [OF assms] assms(2) by auto
  have "index_del (lease_key (heap d a)) a (index_add (heap d) (lease_key (heap d a)) a H) = H"
  proof (cases "lease_key (heap d a)")
    case (Some k)
    have "a \<notin> set (takeWhile (\<lambda>c. \<not> client_lease_preferred (heap d c) (heap d a)) (H k))"
      using assms(3) set_takeWhileD by (fastforce simp: unindexed_def)
    then show ?thesis using Some by (simp add: index_del_def index_add_def pref_insert_def remove1_append fun_upd_idem)
  qed (simp add: index_del_def index_add_def)
  with delete_ok [OF d'(2,3)] d' show ?thesis by auto
qed

end

interpretation uidx: client_index uid_ok "\<lambda>l. uid l \<noteq> None" uid_key find_lease_by_uid uid_hash_add uid_hash_delete
proof (unfold_locales, goal_cases)
  case (1 d H a)
  then show ?case using uid_hash_add_ok [of d H a] uid_frame_sel(1,2,6) by fastforce
next
  case (2 d H a)
  then show ?case using uid_hash_delete_ok [of d H a] by fastforce
next
  case (3 d H k)
  then show ?case using index_okD(1) by (auto simp: uid_ok_def)
qed

interpretation hwx: client_index hw_ok "\<lambda>l. True" hw_key find_lease_by_hw_addr hw_hash_add hw_hash_delete
proof (unfold_locales, goal_cases)
  case (1 d H a)
  then show ?case using hw_hash_add_ok [of d H a] hw_frame_sel(2,3) by fastforce
next
  case (2 d H a)
  then show ?case using hw_hash_delete_ok [of d H a] by fastforce
next
  case (3 d H k)
  then show ?case using index_okD(1) by (auto simp: hw_ok_def)
qed

section \<open>Properties\<close>

text \<open>
  C34. Adding a lease to the index of client identifiers inserts it into the chain of its client.
  If the leases of the chain were in order of preference (active leases first, the one with the
  longest life before the others; then expired and released ones, then the rest, then abandoned
  ones, the client's most recent first), they still are, and the lease that is found for the
  client is one that is preferred over every other lease of the client.
\<close>

theorem uid_hash_add_preferred:
  assumes "uid_ok d H" and "uid (heap d a) = Some k" and "k \<noteq> []" and "unindexed H a"
    and "pref_sorted (heap d) (H k)"
  shows "\<exists>d' b. uid_hash_add d a = Ret d' \<and> find_lease_by_uid d' k = Some b \<and> b \<in> insert a (set (H k)) \<and>
           (\<forall>c \<in> insert a (set (H k)). client_lease_preferred (heap d c) (heap d b)) \<and>
           uid_ok d' (H(k := pref_insert (heap d) a (H k))) \<and> pref_sorted (heap d') (pref_insert (heap d) a (H k))"
  by (rule uidx.add_then_find) (use assms in \<open>auto simp: uid_key_def\<close>)

definition exc_db :: db where
  "exc_db = new_db\<lparr>
     heap := (\<lambda>_. new_lease)
       (1 := new_lease\<lparr>uid := Some [1, 2, 3], hardware_addr := [1, 9], binding_state := FTS_EXPIRED, cltt := 500\<rparr>,
        2 := new_lease\<lparr>uid := Some [1, 2, 3], hardware_addr := [1, 9], binding_state := FTS_ACTIVE, ends := 700\<rparr>),
     uid_hash := (\<lambda>_. None)([1, 2, 3] := Some 1),
     hw_hash := (\<lambda>_. None)([1, 9] := Some 1)\<rparr>"

lemma exc_ok: "uid_ok exc_db ((\<lambda>_. [])([1, 2, 3] := [1]))" "hw_ok exc_db ((\<lambda>_. [])([1, 9] := [1]))"
  by (auto simp: uid_ok_def hw_ok_def index_ok_def find_lease_by_uid_def find_lease_by_hw_addr_def uid_key_def hw_key_def
      HTYPE_INFINIBAND_def exc_db_def new_db_def new_lease_def split: if_splits)

theorem uid_hash_add_preferred_witness:
  "\<exists>d'. uid_hash_add exc_db 2 = Ret d' \<and> find_lease_by_uid d' [1, 2, 3] = Some 2"
proof -
  have p: "\<not> client_lease_preferred (heap exc_db 2) (heap exc_db 1)"
    by (simp add: client_lease_preferred_def exc_db_def)
  have h: "uid (heap exc_db 2) = Some [1, 2, 3]" "unindexed ((\<lambda>_. [])([1, 2, 3] := [1])) 2"
    "pref_sorted (heap exc_db) (((\<lambda>_. [])([1, 2, 3] := [1])) [1, 2, 3])"
    by (simp_all add: exc_db_def unindexed_def pref_sorted_def)
  obtain d' b where b: "uid_hash_add exc_db 2 = Ret d'" "find_lease_by_uid d' [1, 2, 3] = Some b"
      "b = 2 \<or> b = 1" "client_lease_preferred (heap exc_db 2) (heap exc_db b)"
    using uid_hash_add_preferred [OF exc_ok(1) h(1) _ h(2,3)] by (simp only: fun_upd_same) auto
  with p have "b = 2" by auto
  with b show ?thesis by simp
qed

text \<open>
  C35. Adding a lease that is on no chain to the index of hardware addresses and deleting it again
  leaves every chain as it was; in between, every chain is properly linked and holds only leases
  with the hardware address it is found by. A lease without a hardware address to hash on, like
  an Infiniband one, is never indexed.
\<close>

theorem hw_hash_add_delete:
  assumes "hw_ok d H" and "unindexed H a"
  shows "\<exists>d' d''. hw_hash_add d a = Ret d' \<and> hw_ok d' (index_add (heap d) (hw_key (heap d a)) a H) \<and>
           hw_hash_delete d' a = Ret d'' \<and> hw_ok d'' H"
  using hwx.add_then_delete [OF assms(1) _ assms(2)] hwx.add_ok [OF assms(1) _ assms(2)] by auto

theorem hw_hash_add_delete_witness:
  "\<exists>d' d''. hw_hash_add exc_db 2 = Ret d' \<and> hw_ok d' ((\<lambda>_. [])([1, 9] := [2, 1])) \<and>
     hw_hash_delete d' 2 = Ret d'' \<and> hw_ok d'' ((\<lambda>_. [])([1, 9] := [1]))"
proof -
  have "index_add (heap exc_db) (hw_key (heap exc_db 2)) 2 ((\<lambda>_. [])([1, 9] := [1])) = (\<lambda>_. [])([1, 9] := [2, 1])"
    by (simp add: index_add_def hw_key_def exc_db_def pref_insert_def client_lease_preferred_def HTYPE_INFINIBAND_def)
  with hw_hash_add_delete [OF exc_ok(2), of 2] show ?thesis by (simp add: unindexed_def)
qed

end
