(* ===== verification/Billing.thy ===== *)
theory Billing
  imports LeaseTypes
begin

text \<open>
  Billing classes (\<open>server/class.c\<close>): a class admits a limited number of leases, which are recorded
  in its array \<open>billed_leases\<close>; and the collections classes are looked up in.
\<close>

section \<open>Billing a lease to a class\<close>

text \<open>The loops over \<open>billed_leases\<close>, which stop at the first entry that satisfies \<open>P\<close>.\<close>

function billed_scan :: "(ptr option \<Rightarrow> bool) \<Rightarrow> ptr option list \<Rightarrow> nat \<Rightarrow> nat \<Rightarrow> nat cres" where
  "billed_scan P xs limit i =
     (if i < limit then cbind (rd xs i) (\<lambda>x. if P x then Ret i else billed_scan P xs limit (i + 1))
      else Ret i)"
  by pat_completeness auto
termination by (relation "measure (\<lambda>(P, xs, limit, i). limit - i)") auto

definition unbill_class :: "db \<Rightarrow> ptr \<Rightarrow> db cres" where
  "unbill_class d a =
     (case billing_class (heap d a) of
        None \<Rightarrow> Ret d
      | Some c \<Rightarrow>
          cbind (billed_scan (\<lambda>x. x = Some a) (billed_leases (classes d c)) (lease_limit (classes d c)) 0)
            (\<lambda>i.
               let d = (if i = lease_limit (classes d c) then d
                        else upd_class c (\<lambda>r. r\<lparr>billed_leases := (billed_leases r)[i := None],
                                                leases_consumed := leases_consumed r - 1\<rparr>) d)
               in Ret (upd_lease a (\<lambda>l. l\<lparr>billing_class := None\<rparr>) d)))"

definition bill_class :: "db \<Rightarrow> ptr \<Rightarrow> nat \<Rightarrow> (db \<times> bool) cres" where
  "bill_class d a c =
     cbind (if billing_class (heap d a) \<noteq> None then unbill_class d a else Ret d)
       (\<lambda>d.
          if leases_consumed (classes d c) = int (lease_limit (classes d c)) then Ret (d, False)
          else
            cbind (billed_scan (\<lambda>x. x = None) (billed_leases (classes d c)) (lease_limit (classes d c)) 0)
              (\<lambda>i.
                 if i = lease_limit (classes d c) then Ret (d, False)
                 else
                   let d = upd_class c (\<lambda>r. r\<lparr>billed_leases := (billed_leases r)[i := Some a]\<rparr>) d;
                       d = upd_lease a (\<lambda>l. l\<lparr>billing_class := Some c\<rparr>) d
                   in Ret (upd_class c (\<lambda>r. r\<lparr>leases_consumed := leases_consumed r + 1\<rparr>) d, True)))"

section \<open>Collections of classes\<close>

text \<open>A collection is the list of its classes, a class being its number and its name, if any.\<close>

type_synonym collection = "(nat \<times> string option) list"

fun unlink_class :: "collection list \<Rightarrow> nat \<Rightarrow> collection list \<times> isc_result" where
  "unlink_class [] c = ([], ISC_R_NOTFOUND)"
| "unlink_class (lp # lps) c =
     (if c \<in> fst ` set lp
      then ((takeWhile (\<lambda>cp. fst cp \<noteq> c) lp @ tl (dropWhile (\<lambda>cp. fst cp \<noteq> c) lp)) # lps, ISC_R_SUCCESS)
      else (let (lps, r) = unlink_class lps c in (lp # lps, r)))"

fun find_class :: "collection list \<Rightarrow> string \<Rightarrow> nat option" where
  "find_class [] name = None"
| "find_class (lp # lps) name =
     (case find (\<lambda>cp. snd cp = Some name) lp of
        Some cp \<Rightarrow> Some (fst cp)
      | None \<Rightarrow> find_class lps name)"

section \<open>What the billing keeps\<close>

declare billed_scan.simps [simp del]

lemma billed_scan_gen:
  "i \<le> length xs \<Longrightarrow> billed_scan P xs (length xs) i = Ret (i + length (takeWhile (\<lambda>x. \<not> P x) (drop i xs)))"
proof (induction "length xs - i" arbitrary: i)
  case 0
  then show ?case by (simp add: billed_scan.simps)
next
  case (Suc n)
  then have i: "i < length xs" by simp
  with Suc show ?case by (simp add: billed_scan.simps [of P xs _ i] Cons_nth_drop_Suc [symmetric])
qed

lemma billed_scan_found:
  "P x \<Longrightarrow> \<forall>y \<in> set ys. \<not> P y \<Longrightarrow> billed_scan P (ys @ x # zs) (Suc (length ys + length zs)) 0 = Ret (length ys)"
  using billed_scan_gen [of 0 "ys @ x # zs" P] by (simp add: takeWhile_append)

lemma billed_scan_none:
  "\<forall>y \<in> set xs. \<not> P y \<Longrightarrow> billed_scan P xs (length xs) 0 = Ret (length xs)"
  using billed_scan_gen [of 0 xs P] by (simp add: takeWhile_eq_all_conv [THEN iffD2])

text \<open>
  \<open>S\<close> are the leases of the database. Each class has an array of as many entries as its limit, the count of those in use, and no
  lease twice in it; the leases in it are exactly those that are billed to the class.
\<close>

definition billing_ok :: "ptr set \<Rightarrow> db \<Rightarrow> bool" where
  "billing_ok S d \<longleftrightarrow>
     (\<forall>c. length (billed_leases (classes d c)) = lease_limit (classes d c) \<and>
          leases_consumed (classes d c) = int (length (filter (\<lambda>x. x \<noteq> None) (billed_leases (classes d c)))) \<and>
          distinct (filter (\<lambda>x. x \<noteq> None) (billed_leases (classes d c))) \<and>
          (\<forall>a. Some a \<in> set (billed_leases (classes d c)) \<longleftrightarrow> a \<in> S \<and> billing_class (heap d a) = Some c))"

lemma billing_okD:
  assumes "billing_ok S d"
  shows "length (billed_leases (classes d c)) = lease_limit (classes d c)"
    and "leases_consumed (classes d c) = int (length (filter (\<lambda>x. x \<noteq> None) (billed_leases (classes d c))))"
    and "distinct (filter (\<lambda>x. x \<noteq> None) (billed_leases (classes d c)))"
    and "Some a \<in> set (billed_leases (classes d c)) \<longleftrightarrow> a \<in> S \<and> billing_class (heap d a) = Some c"
  using assms by (auto simp: billing_ok_def)

lemma unbill_class_ok:
  assumes ok: "billing_ok S d" and aS: "a \<in> S"
  shows "\<exists>d'. unbill_class d a = Ret d' \<and> billing_ok S d' \<and> billing_class (heap d' a) = None \<and>
           (\<forall>b. heap d' b = (heap d b)\<lparr>billing_class := if b = a then None else billing_class (heap d b)\<rparr>) \<and>
           (\<forall>c. lease_limit (classes d' c) = lease_limit (classes d c) \<and>
                filter (\<lambda>x. x \<noteq> None) (billed_leases (classes d' c)) =
                  filter (\<lambda>x. x \<noteq> None \<and> x \<noteq> Some a) (billed_leases (classes d c))) \<and>
           d' = d\<lparr>heap := heap d', classes := classes d'\<rparr>"
proof (cases "billing_class (heap d a)")
  case None
  then have "Some a \<notin> set (billed_leases (classes d c))" for c using billing_okD(4) [OF ok, of a c] by simp
  then have "filter (\<lambda>x. x \<noteq> None) (billed_leases (classes d c)) =
      filter (\<lambda>x. x \<noteq> None \<and> x \<noteq> Some a) (billed_leases (classes d c))" for c
    by (intro filter_cong) auto
  with None show ?thesis using ok by (intro exI [of _ d]) (auto simp: unbill_class_def)
next
  case (Some c)
  let ?bl = "billed_leases (classes d c)"
  have "Some a \<in> set ?bl" using billing_okD(4) [OF ok] Some aS by blast
  then obtain ys zs where sp: "?bl = ys @ Some a # zs" and ys: "Some a \<notin> set ys" by (meson split_list_first)
  have lim: "lease_limit (classes d c) = Suc (length ys + length zs)" using billing_okD(1) [OF ok, of c] sp by simp
  have zs: "Some a \<notin> set zs" using billing_okD(3) [OF ok, of c] sp by auto
  have scan: "billed_scan (\<lambda>x. x = Some a) (ys @ Some a # zs) (Suc (length ys + length zs)) 0 = Ret (length ys)"
    by (rule billed_scan_found) (use ys in auto)
  define d' where "d' = upd_lease a (\<lambda>l. l\<lparr>billing_class := None\<rparr>)
      (upd_class c (\<lambda>r. r\<lparr>billed_leases := (billed_leases r)[length ys := None], leases_consumed := leases_consumed r - 1\<rparr>) d)"
  have "unbill_class d a = Ret d'" using Some scan by (simp add: unbill_class_def sp lim d'_def)
  moreover have "billing_ok S d'"
    unfolding billing_ok_def
  proof (intro allI)
    fix c'
    show "length (billed_leases (classes d' c')) = lease_limit (classes d' c') \<and>
          leases_consumed (classes d' c') = int (length (filter (\<lambda>x. x \<noteq> None) (billed_leases (classes d' c')))) \<and>
          distinct (filter (\<lambda>x. x \<noteq> None) (billed_leases (classes d' c'))) \<and>
          (\<forall>a. Some a \<in> set (billed_leases (classes d' c')) \<longleftrightarrow> a \<in> S \<and> billing_class (heap d' a) = Some c')"
    proof (cases "c' = c")
      case True
      have "b \<in> S \<and> billing_class (heap d b) = Some c \<longleftrightarrow> Some b \<in> set ys \<or> b = a \<or> Some b \<in> set zs" for b
        using billing_okD(4) [OF ok, of b c] sp by auto
      with True show ?thesis using billing_okD(1-3) [OF ok, of c] sp lim ys zs aS by (auto simp: d'_def)
    next
      case False
      then show ?thesis using billing_okD(1-3) [OF ok, of c'] billing_okD(4) [OF ok, of _ c'] Some aS by (auto simp: d'_def)
    qed
  qed
  moreover have "lease_limit (classes d' c') = lease_limit (classes d c') \<and>
      filter (\<lambda>x. x \<noteq> None) (billed_leases (classes d' c')) =
        filter (\<lambda>x. x \<noteq> None \<and> x \<noteq> Some a) (billed_leases (classes d c'))" for c'
  proof (cases "c' = c")
    case True
    have "filter (\<lambda>x. x \<noteq> None \<and> x \<noteq> Some a) xs = filter (\<lambda>x. x \<noteq> None) xs" if "Some a \<notin> set xs" for xs
      using that by (auto intro!: filter_cong)
    with True show ?thesis using ys zs sp by (simp add: d'_def)
  next
    case False
    then have "Some a \<notin> set (billed_leases (classes d c'))" using billing_okD(4) [OF ok, of a c'] Some by simp
    with False show ?thesis by (auto simp: d'_def intro!: filter_cong)
  qed
  ultimately show ?thesis by (auto simp: d'_def upd_lease_def upd_class_def)
qed

lemma filter_some_full:
  "length (filter (\<lambda>x. x \<noteq> None) xs) = length xs \<longleftrightarrow> None \<notin> set xs"
  using length_filter_less [of None xs "\<lambda>x. x \<noteq> None"] filter_True [of xs "\<lambda>x. x \<noteq> None"] by fastforce

lemma bill_class_ok:
  assumes ok: "billing_ok S d" and aS: "a \<in> S"
  shows "\<exists>d' b. bill_class d a c = Ret (d', b) \<and> billing_ok S d' \<and>
           billing_class (heap d' a) = (if b then Some c else None) \<and>
           b = (length (filter (\<lambda>x. x \<noteq> None \<and> x \<noteq> Some a) (billed_leases (classes d c))) < lease_limit (classes d c)) \<and>
           (\<forall>x. heap d' x = (heap d x)\<lparr>billing_class := if x = a then (if b then Some c else None) else billing_class (heap d x)\<rparr>) \<and>
           d' = d\<lparr>heap := heap d', classes := classes d'\<rparr>"
proof -
  obtain d1 where d1: "unbill_class d a = Ret d1" "billing_ok S d1" "billing_class (heap d1 a) = None"
      "\<And>b. heap d1 b = (heap d b)\<lparr>billing_class := if b = a then None else billing_class (heap d b)\<rparr>"
      "lease_limit (classes d1 c) = lease_limit (classes d c)"
      "filter (\<lambda>x. x \<noteq> None) (billed_leases (classes d1 c)) =
         filter (\<lambda>x. x \<noteq> None \<and> x \<noteq> Some a) (billed_leases (classes d c))"
      "d1 = d\<lparr>heap := heap d1, classes := classes d1\<rparr>"
    using unbill_class_ok [OF ok aS] by (elim exE conjE) (rule that; blast)
  let ?bl = "billed_leases (classes d1 c)" and ?n = "length (filter (\<lambda>x. x \<noteq> None) (billed_leases (classes d1 c)))"
  note D = billing_okD [OF d1(2)]
  have un: "(if billing_class (heap d a) \<noteq> None then unbill_class d a else Ret d) = Ret d1"
    using d1(1) by (auto simp: unbill_class_def)
  have le: "?n \<le> lease_limit (classes d1 c)" using D(1) [of c] length_filter_le [of _ ?bl] by metis
  show ?thesis
  proof (cases "?n = lease_limit (classes d1 c)")
    case True
    then have "bill_class d a c = Ret (d1, False)" using un D(2) [of c] by (simp add: bill_class_def)
    then show ?thesis using d1(2-7) True by (intro exI [of _ d1] exI [of _ False]) auto
  next
    case False
    then have "None \<in> set ?bl" using filter_some_full [of ?bl] D(1) [of c] by auto
    then obtain ys zs where sp: "?bl = ys @ None # zs" and ys: "None \<notin> set ys" by (meson split_list_first)
    have lim: "lease_limit (classes d1 c) = Suc (length ys + length zs)" using D(1) [of c] sp by simp
    have scan: "billed_scan (\<lambda>x. x = None) (ys @ None # zs) (Suc (length ys + length zs)) 0 = Ret (length ys)"
      by (rule billed_scan_found, simp) (use ys in metis)
    define d' where "d' = upd_class c (\<lambda>r. r\<lparr>leases_consumed := leases_consumed r + 1\<rparr>)
        (upd_lease a (\<lambda>l. l\<lparr>billing_class := Some c\<rparr>)
          (upd_class c (\<lambda>r. r\<lparr>billed_leases := (billed_leases r)[length ys := Some a]\<rparr>) d1))"
    have eq: "bill_class d a c = Ret (d', True)"
      using un D(2) [of c] False scan by (simp add: bill_class_def sp lim d'_def)
    have out: "Some a \<notin> set (billed_leases (classes d1 c'))" for c' using D(4) [of a c'] d1(3) by simp
    have "billing_ok S d'"
      unfolding billing_ok_def
    proof (intro allI)
      fix c'
      show "length (billed_leases (classes d' c')) = lease_limit (classes d' c') \<and>
            leases_consumed (classes d' c') = int (length (filter (\<lambda>x. x \<noteq> None) (billed_leases (classes d' c')))) \<and>
            distinct (filter (\<lambda>x. x \<noteq> None) (billed_leases (classes d' c'))) \<and>
            (\<forall>a. Some a \<in> set (billed_leases (classes d' c')) \<longleftrightarrow> a \<in> S \<and> billing_class (heap d' a) = Some c')"
      proof (cases "c' = c")
        case True
        have "b \<in> S \<and> billing_class (heap d1 b) = Some c \<longleftrightarrow> Some b \<in> set ys \<or> Some b \<in> set zs" for b
          using D(4) [of b c] sp by auto
        with True show ?thesis using D(1-3) [of c] sp lim out [of c] aS by (auto simp: d'_def)
      next
        case False
        then show ?thesis using D(1-3) [of c'] D(4) [of _ c'] out [of c'] aS by (auto simp: d'_def)
      qed
    qed
    moreover have "d' = d\<lparr>heap := heap d', classes := classes d'\<rparr>"
      using d1(7) by (cases d; cases d1) (simp add: d'_def upd_class_def upd_lease_def)
    moreover have "?n < lease_limit (classes d1 c)" using le False by simp
    ultimately show ?thesis using d1(4-6)
      by (intro exI [of _ d'] exI [of _ True]) (auto simp: eq d'_def)
  qed
qed

section \<open>Properties\<close>

text \<open>
  C36. Billing a lease to a class first ends any billing the lease had. It succeeds exactly if the
  leases then billed to the class are fewer than its limit, and then the lease is billed to that
  class and to no other; otherwise it is billed to none. In either case each class still
  has as many leases on its books as it counts, never more than its limit and none of them
  twice, and these are the leases that name the class.
\<close>

theorem bill_class_correct:
  assumes "billing_ok S d" and "a \<in> S"
  shows "\<exists>d' b. bill_class d a c = Ret (d', b) \<and> billing_ok S d' \<and>
           b = (length (filter (\<lambda>x. x \<noteq> None \<and> x \<noteq> Some a) (billed_leases (classes d c))) < lease_limit (classes d c)) \<and>
           billing_class (heap d' a) = (if b then Some c else None) \<and>
           (\<forall>x. x \<noteq> a \<longrightarrow> heap d' x = heap d x) \<and>
           (\<forall>k. 0 \<le> leases_consumed (classes d' k) \<and> leases_consumed (classes d' k) \<le> int (lease_limit (classes d' k)))"
proof -
  obtain d' b where d': "bill_class d a c = Ret (d', b)" "billing_ok S d'"
      "billing_class (heap d' a) = (if b then Some c else None)"
      "b = (length (filter (\<lambda>x. x \<noteq> None \<and> x \<noteq> Some a) (billed_leases (classes d c))) < lease_limit (classes d c))"
      "\<And>x. heap d' x = (heap d x)\<lparr>billing_class := if x = a then (if b then Some c else None) else billing_class (heap d x)\<rparr>"
    using bill_class_ok [OF assms, of c] by (elim exE conjE) (rule that; blast)
  have "leases_consumed (classes d' k) \<le> int (lease_limit (classes d' k))" for k
    using billing_okD(1,2) [OF d'(2), of k] length_filter_le [of "\<lambda>x. x \<noteq> None" "billed_leases (classes d' k)"] by simp
  with d' billing_okD(2) [OF d'(2)] show ?thesis by (intro exI [of _ d'] exI [of _ b]) auto
qed

definition exb_db :: db where
  "exb_db = new_db\<lparr>heap := (\<lambda>_. new_lease)(1 := new_lease\<lparr>billing_class := Some 0\<rparr>),
     classes := (\<lambda>_. \<lparr>lease_limit = 0, leases_consumed = 0, billed_leases = []\<rparr>)
       (0 := \<lparr>lease_limit = 2, leases_consumed = 1, billed_leases = [None, Some 1]\<rparr>)\<rparr>"

lemma exb_ok: "billing_ok {1, 2} exb_db"
  by (auto simp: billing_ok_def exb_db_def new_db_def new_lease_def split: if_splits)

theorem bill_class_correct_witness:
  "\<exists>d'. bill_class exb_db 2 0 = Ret (d', True) \<and> billing_ok {1, 2} d' \<and> billing_class (heap d' 2) = Some 0"
proof -
  have "length (filter (\<lambda>x. x \<noteq> None \<and> x \<noteq> Some 2) (billed_leases (classes exb_db 0))) < lease_limit (classes exb_db 0)"
    by (simp add: exb_db_def)
  with bill_class_correct [OF exb_ok, of 2 0] show ?thesis by auto
qed

end
