(* ===== verification/LeaseDb.thy ===== *)
theory LeaseDb
  imports FailoverQueue ClientHash Billing
begin

text \<open>
  The lease database of \<open>server/mdb.c\<close>: putting a lease on the queue of its state, changing a
  lease and moving it to the queue of its new state (\<open>supersede_lease\<close>), the state transition
  itself, releasing and abandoning a lease, and the timer that makes the changes that are due.
\<close>

section \<open>Queues of a pool\<close>

text \<open>
  \<open>LEASE_INSERTP\<close> and \<open>LEASE_REMOVEP\<close> on the list of the leases of a queue, as the linear queues
  carry them out: a lease goes before the first one that is not due earlier, and removing a
  lease that is not on the queue ends the server.
\<close>

definition queue_insert :: "(ptr \<Rightarrow> 'a lease_scheme) \<Rightarrow> ptr \<Rightarrow> ptr list \<Rightarrow> ptr list" where
  "queue_insert h a xs =
     takeWhile (\<lambda>b. sort_time (h b) < sort_time (h a)) xs @ a #
     dropWhile (\<lambda>b. sort_time (h b) < sort_time (h a)) xs"

definition queue_remove :: "ptr \<Rightarrow> ptr list \<Rightarrow> ptr list cres" where
  "queue_remove a xs = (if a \<in> set xs then Ret (remove1 a xs) else Fatal)"

definition set_queue :: "queue_name \<Rightarrow> ptr list \<Rightarrow> pool \<Rightarrow> pool" where
  "set_queue q xs p = p\<lparr>queue := (queue p)(q := xs)\<rparr>"

text \<open>The queue a lease belongs on, by its state and whether it is reserved.\<close>

definition queue_of :: "db_lease \<Rightarrow> queue_name option" where
  "queue_of l =
     (case binding_state l of
        FTS_FREE \<Rightarrow> Some (if has_flag l RESERVED_LEASE then RESERVED_LEASES else FREE_LEASES)
      | FTS_ACTIVE \<Rightarrow> Some ACTIVE_LEASES
      | FTS_EXPIRED \<Rightarrow> Some EXPIRED_LEASES
      | FTS_RELEASED \<Rightarrow> Some EXPIRED_LEASES
      | FTS_RESET \<Rightarrow> Some EXPIRED_LEASES
      | FTS_ABANDONED \<Rightarrow> Some ABANDONED_LEASES
      | FTS_BACKUP \<Rightarrow> Some (if has_flag l RESERVED_LEASE then RESERVED_LEASES else BACKUP_LEASES)
      | FTS_BOGUS _ \<Rightarrow> None)"

definition count_queue :: "queue_name \<Rightarrow> int \<Rightarrow> pool \<Rightarrow> pool" where
  "count_queue q n p =
     (case q of
        FREE_LEASES \<Rightarrow> p\<lparr>free_leases := free_leases p + n\<rparr>
      | BACKUP_LEASES \<Rightarrow> p\<lparr>backup_leases := backup_leases p + n\<rparr>
      | _ \<Rightarrow> p)"

definition peer_in_state :: "db \<Rightarrow> nat \<Rightarrow> failover_state \<Rightarrow> bool" where
  "peer_in_state d p st =
     (case failover_peer (pools d p) of None \<Rightarrow> False | Some s \<Rightarrow> me_state (peers d s) = st)"

text \<open>
  A lease is put on its queue before those that are due at the same time, as \<open>lease_insert\<close> does. The
  shortcut it takes while the lease file is read (\<open>SS_QFOLLOW\<close>, modelled in \<open>LeaseList\<close>) can put it after some of
  them; the order among such leases is of no consequence to what is shown of the database.
\<close>

definition enqueue_time :: "db \<Rightarrow> nat \<Rightarrow> db_lease \<Rightarrow> int" where
  "enqueue_time d p l =
     (if queue_of l = Some EXPIRED_LEASES \<and> peer_in_state d p partner_down
      then if ends l < tsfp l then tsfp l else ends l
      else ends l)"

definition lease_enqueue :: "db \<Rightarrow> ptr \<Rightarrow> db \<times> bool" where
  "lease_enqueue d a =
     (case l_pool (heap d a) of
        None \<Rightarrow> (d, False)
      | Some p \<Rightarrow>
          (case queue_of (heap d a) of
             None \<Rightarrow> (d, False)
           | Some q \<Rightarrow>
               let d = upd_pool p (count_queue q 1) d;
                   d = upd_lease a (\<lambda>l. l\<lparr>sort_time := enqueue_time d p l\<rparr>) d
               in (upd_pool p (\<lambda>pl. set_queue q (queue_insert (heap d) a (queue pl q)) pl) d, True)))"

section \<open>State transitions\<close>

text \<open>The client's bindings that both events end with.\<close>

definition forget_client :: "db \<Rightarrow> ptr \<Rightarrow> db cres" where
  "forget_client d a =
     cbind (if billing_class (heap d a) \<noteq> None then unbill_class d a else Ret d)
       (\<lambda>d. Ret (upd_lease a (\<lambda>l. l\<lparr>agent_options := None, client_hostname := None, l_host := None,
                                    tstp := ends l\<rparr>) d))"

definition expire_event :: "db_env \<Rightarrow> db \<Rightarrow> ptr \<Rightarrow> db cres" where
  "expire_event e d a =
     (let d = emit (EvDdnsRemovals a) d;
          d = (case on_expiry (heap d a) of
                 Some st \<Rightarrow> upd_lease a (\<lambda>l. l\<lparr>scope := run_statements e st (scope l), on_expiry := None\<rparr>)
                              (emit (EvExecute st a) d)
               | None \<Rightarrow> d);
          d = upd_lease a (\<lambda>l. l\<lparr>on_release := None\<rparr>) d
      in forget_client d a)"

definition release_event :: "db_env \<Rightarrow> db \<Rightarrow> ptr \<Rightarrow> db cres" where
  "release_event e d a =
     (let d = emit (EvDdnsRemovals a) d;
          d = (case on_release (heap d a) of
                 Some st \<Rightarrow> upd_lease a (\<lambda>l. l\<lparr>scope := run_statements e st (scope l), on_release := None\<rparr>)
                              (emit (EvExecute st a) d)
               | None \<Rightarrow> d);
          d = upd_lease a (\<lambda>l. l\<lparr>on_expiry := None\<rparr>) d
      in forget_client d a)"

definition lease_peer :: "db \<Rightarrow> db_lease \<Rightarrow> nat option" where
  "lease_peer d l = (case l_pool l of None \<Rightarrow> None | Some p \<Rightarrow> failover_peer (pools d p))"

definition expires_now :: "db \<Rightarrow> db_lease \<Rightarrow> bool" where
  "expires_now d l \<longleftrightarrow> next_binding_state l \<noteq> binding_state l \<and>
     (lease_peer d l \<noteq> None \<and> (binding_state l = FTS_EXPIRED \<or> binding_state l = FTS_ACTIVE) \<and>
        (next_binding_state l = FTS_FREE \<or> next_binding_state l = FTS_BACKUP) \<or>
      lease_peer d l = None \<and> binding_state l = FTS_ACTIVE \<and> next_binding_state l \<noteq> FTS_RELEASED)"

definition releases_now :: "db \<Rightarrow> db_lease \<Rightarrow> bool" where
  "releases_now d l \<longleftrightarrow> next_binding_state l \<noteq> binding_state l \<and>
     (lease_peer d l \<noteq> None \<and> binding_state l = FTS_RELEASED \<and>
        (next_binding_state l = FTS_FREE \<or> next_binding_state l = FTS_BACKUP) \<or>
      lease_peer d l = None \<and> binding_state l = FTS_ACTIVE \<and> next_binding_state l = FTS_RELEASED)"

text \<open>The state after the next one, and when a peer that is down will have forgotten the lease.\<close>

definition next_state :: "db \<Rightarrow> db_lease \<Rightarrow> db_lease" where
  "next_state d l =
     (case binding_state l of
        FTS_ACTIVE \<Rightarrow> l\<lparr>next_binding_state := if lease_peer d l \<noteq> None then FTS_EXPIRED else FTS_FREE\<rparr>
      | FTS_FREE \<Rightarrow> l\<lparr>next_binding_state := FTS_FREE\<rparr>
      | FTS_BACKUP \<Rightarrow> l\<lparr>next_binding_state := FTS_BACKUP\<rparr>
      | FTS_BOGUS _ \<Rightarrow> l
      | _ \<Rightarrow>
          let l = l\<lparr>next_binding_state := FTS_FREE\<rparr>
          in case lease_peer d l of
               Some s \<Rightarrow> if me_state (peers d s) = partner_down
                         then l\<lparr>tsfp := me_stos (peers d s) + mclt (peers d s)\<rparr> else l
             | None \<Rightarrow> l)"

definition make_binding_state_transition :: "db_env \<Rightarrow> db \<Rightarrow> ptr \<Rightarrow> db cres" where
  "make_binding_state_transition e d a =
     cbind (if expires_now d (heap d a) then expire_event e d a else Ret d)
       (\<lambda>d. cbind (if releases_now d (heap d a) then release_event e d a else Ret d)
         (\<lambda>d. let d = upd_lease a (\<lambda>l. l\<lparr>binding_state := next_binding_state l\<rparr>) d
              in Ret (upd_lease a (next_state d) d)))"

section \<open>Changing a lease\<close>

text \<open>
  The first half of \<open>supersede_lease\<close>: the data of \<open>lease\<close>, which is not \<open>cp\<close> itself, are copied or
  moved to \<open>cp\<close>, whose entries in the client indexes and whose billing follow. A log message about
  conflicting leases, which has no other effect, is left out.
\<close>

definition unindex_lease :: "db \<Rightarrow> ptr \<Rightarrow> db cres" where
  "unindex_lease d cp =
     cbind (if uid (heap d cp) \<noteq> None
            then cbind (uid_hash_delete d cp) (\<lambda>d. Ret (upd_lease cp (\<lambda>l. l\<lparr>uid := None\<rparr>) d)) else Ret d)
       (\<lambda>d. if hardware_addr (heap d cp) \<noteq> [] then hw_hash_delete d cp else Ret d)"

definition rebill_lease :: "db \<Rightarrow> ptr \<Rightarrow> ptr \<Rightarrow> db cres" where
  "rebill_lease d cp lease =
     (if billing_class (heap d cp) \<noteq> billing_class (heap d lease)
      then cbind (if billing_class (heap d cp) \<noteq> None then unbill_class d cp else Ret d)
             (\<lambda>d. case billing_class (heap d lease) of
                    Some c \<Rightarrow> cbind (bill_class d cp c) (\<lambda>(d, _). Ret d)
                  | None \<Rightarrow> Ret d)
      else Ret d)"

text \<open>What \<open>cp\<close> gets, in the order of the code, and what is taken from \<open>lease\<close>.\<close>

definition copy_uid :: "db_lease \<Rightarrow> db_lease \<Rightarrow> db_lease cres" where
  "copy_uid s l =
     (case uid s of
        Some u \<Rightarrow>
          if length u \<le> UID_BUF_SIZE then Ret (l\<lparr>uid := Some u, uid_in_buf := True\<rparr>)
          else if \<not> uid_in_buf s then Ret (l\<lparr>uid := Some u, uid_in_buf := False\<rparr>)
          else Fatal
      | None \<Rightarrow> Ret (l\<lparr>uid := None\<rparr>))"

definition copy_client :: "db_lease \<Rightarrow> db_lease \<Rightarrow> db_lease" where
  "copy_client s l =
     l\<lparr>l_host := l_host s, hardware_addr := hardware_addr s, scope := scope s,
       agent_options := (if next_binding_state s = FTS_ACTIVE \<or> next_binding_state s = FTS_EXPIRED
                         then agent_options s else None),
       client_hostname := client_hostname s,
       on_expiry := (if on_expiry s \<noteq> None then on_expiry s else on_expiry l),
       on_commit := (if on_commit s \<noteq> None then on_commit s else on_commit l),
       on_release := (if on_release s \<noteq> None then on_release s else on_release l)\<rparr>"

definition take_client :: "db_lease \<Rightarrow> db_lease" where
  "take_client s =
     s\<lparr>uid := (case uid s of Some u \<Rightarrow> if length u \<le> UID_BUF_SIZE then Some u else None | None \<Rightarrow> None),
       scope := None, agent_options := None, client_hostname := None\<rparr>"

definition copy_times :: "db_lease \<Rightarrow> db_lease \<Rightarrow> db_lease" where
  "copy_times s l =
     l\<lparr>cltt := cltt s, tstp := tstp s, tsfp := tsfp s, atsfp := atsfp s, ends := ends s,
       next_binding_state := next_binding_state s,
       ddns_cb := (if ddns_cb s \<noteq> None then ddns_cb s else ddns_cb l)\<rparr>"

definition index_lease :: "db \<Rightarrow> ptr \<Rightarrow> db cres" where
  "index_lease d cp =
     cbind (if uid (heap d cp) \<noteq> None then uid_hash_add d cp else Ret d)
       (\<lambda>d. if hardware_addr (heap d cp) \<noteq> [] then hw_hash_add d cp else Ret d)"

definition supersede_copy :: "db \<Rightarrow> ptr \<Rightarrow> ptr \<Rightarrow> db cres" where
  "supersede_copy d cp lease =
     cbind (unindex_lease d cp)
       (\<lambda>d. cbind (rebill_lease d cp lease)
         (\<lambda>d. cbind (copy_uid (heap d lease) ((heap d cp)\<lparr>starts := starts (heap d lease)\<rparr>))
           (\<lambda>l. let s = heap d lease;
                    d = upd_lease cp (\<lambda>_. copy_client s l) d;
                    d = upd_lease lease take_client d
                in cbind (index_lease d cp)
                     (\<lambda>d. Ret (upd_lease cp (copy_times (heap d lease)) d)))))"

text \<open>
  The second half, from the label \<open>just_move_it\<close> on: off the queue, through the transition, and
  onto the queue of the new state. The result says whether the function returned, and what.
\<close>

definition merge_flags :: "byte \<Rightarrow> byte \<Rightarrow> byte" where
  "merge_flags f g = (f AND NOT PERSISTENT_FLAGS) OR (g AND NOT EPHEMERAL_FLAGS)"

definition arm_pool_timer :: "db \<Rightarrow> ptr \<Rightarrow> nat \<Rightarrow> db cres" where
  "arm_pool_timer d cp p =
     (let t = sort_time (heap d cp)
      in if t \<noteq> MIN_TIME \<and> cur_time d < t \<and>
            (t < next_event_time (pools d p) \<or> next_event_time (pools d p) = MIN_TIME)
         then add_timeout (upd_pool p (\<lambda>pl. pl\<lparr>next_event_time := t\<rparr>) d) (t, 0) (Some POOL_TIMER) p
         else Ret d)"

definition step_rewind :: "db \<Rightarrow> nat \<Rightarrow> bool" where
  "step_rewind d p =
     (case failover_peer (pools d p) of
        None \<Rightarrow> False
      | Some s \<Rightarrow> p_service_state (peers d s) = cooperating \<or> p_service_state (peers d s) = not_responding)"

definition save_lease :: "db_env \<Rightarrow> db \<Rightarrow> ptr \<Rightarrow> nat \<Rightarrow> bool \<Rightarrow> db \<times> bool" where
  "save_lease e d cp p propogate =
     (let d = (if propogate \<and> step_rewind d p
               then upd_lease cp (\<lambda>l. l\<lparr>rewind_binding_state := binding_state l\<rparr>) d else d);
          ok = write_lease_ok e (heap d cp);
          d = write_lease d cp
      in if \<not> ok then (d, False)
         else if \<not> ss_nosync e then (commit_leases d, commit_leases_ok e)
         else (d, True))"

definition tell_peer :: "db_env \<Rightarrow> db \<Rightarrow> ptr \<Rightarrow> nat \<Rightarrow> bool \<Rightarrow> bool \<Rightarrow> bool \<Rightarrow> db cres" where
  "tell_peer e d cp p propogate pimmediate do_pool_check =
     cbind (if propogate
            then dhcp_failover_queue_update e
                   (upd_lease cp (\<lambda>l. l\<lparr>desired_binding_state := binding_state l\<rparr>) d) cp pimmediate
            else Ret d)
       (\<lambda>d. if do_pool_check \<and> failover_peer (pools d p) \<noteq> None then dhcp_failover_pool_check e d p
            else Ret d)"

definition finish_move ::
    "db_env \<Rightarrow> db \<Rightarrow> ptr \<Rightarrow> nat \<Rightarrow> bool \<Rightarrow> bool \<Rightarrow> bool \<Rightarrow> bool \<Rightarrow> (db \<times> bool option) cres" where
  "finish_move e d cp p commit propogate pimmediate do_pool_check =
     cbind (if commit \<or> \<not> pimmediate then arm_pool_timer d cp p else Ret d)
       (\<lambda>d. case (if commit then save_lease e d cp p propogate else (d, True)) of
              (d, saved) \<Rightarrow>
                if \<not> saved then Ret (d, Some False)
                else cbind (tell_peer e d cp p propogate pimmediate do_pool_check) (\<lambda>d. Ret (d, None)))"

definition requeue_lease ::
    "db_env \<Rightarrow> db \<Rightarrow> ptr \<Rightarrow> nat \<Rightarrow> bool \<Rightarrow> bool \<Rightarrow> bool \<Rightarrow> bool \<Rightarrow> (db \<times> bool option) cres" where
  "requeue_lease e d cp p commit propogate pimmediate do_pool_check =
     cbind (if commit \<or> \<not> pimmediate then make_binding_state_transition e d cp else Ret d)
       (\<lambda>d. case lease_enqueue d cp of
              (d, queued) \<Rightarrow>
                if \<not> queued then Ret (d, Some False)
                else finish_move e d cp p commit propogate pimmediate do_pool_check)"

definition supersede_move ::
    "db_env \<Rightarrow> db \<Rightarrow> ptr \<Rightarrow> ptr option \<Rightarrow> bool \<Rightarrow> bool \<Rightarrow> bool \<Rightarrow> (db \<times> bool option) cres" where
  "supersede_move e d cp lease commit propogate pimmediate =
     (let d = (if propogate then upd_lease cp (\<lambda>l. l\<lparr>atsfp := 0\<rparr>) d else d)
      in case l_pool (heap d cp) of
           None \<Rightarrow> Ret (d, Some False)
         | Some p \<Rightarrow>
             (case queue_of (heap d cp) of
                None \<Rightarrow> Ret (d, Some False)
              | Some q \<Rightarrow>
                  let do_pool_check = (binding_state (heap d cp) = FTS_FREE \<or> binding_state (heap d cp) = FTS_BACKUP);
                      d = upd_pool p (count_queue q (-1)) d
                  in cbind (queue_remove cp (queue (pools d p) q))
                    (\<lambda>xs.
                       let d = upd_pool p (set_queue q xs) d;
                           d = (case lease of
                                  Some s \<Rightarrow> upd_lease cp (\<lambda>l. l\<lparr>flags := merge_flags (flags (heap d s)) (flags l)\<rparr>) d
                                | None \<Rightarrow> d)
                       in requeue_lease e d cp p commit propogate pimmediate do_pool_check)))"

definition supersede_core ::
    "db_env \<Rightarrow> db \<Rightarrow> ptr \<Rightarrow> ptr option \<Rightarrow> bool \<Rightarrow> bool \<Rightarrow> bool \<Rightarrow> (db \<times> bool option) cres" where
  "supersede_core e d cp lease commit propogate pimmediate =
     (if pimmediate \<and> \<not> commit then Ret (d, Some False)
      else case lease of
             None \<Rightarrow> supersede_move e d cp None commit propogate pimmediate
           | Some s \<Rightarrow>
               if has_flag (heap d s) STATIC_LEASE then Ret (d, Some True)
               else cbind (supersede_copy d cp s)
                      (\<lambda>d. supersede_move e d cp lease commit propogate pimmediate))"

section \<open>The timer of a pool\<close>

text \<open>The queues in the order of the constants, and the ones the timer leaves alone.\<close>

definition lptr :: "queue_name list" where
  "lptr = [FREE_LEASES, ACTIVE_LEASES, EXPIRED_LEASES, ABANDONED_LEASES, BACKUP_LEASES, RESERVED_LEASES]"

definition skip_queue :: "db \<Rightarrow> nat \<Rightarrow> queue_name \<Rightarrow> bool" where
  "skip_queue d p q =
     (case failover_peer (pools d p) of
        None \<Rightarrow> False
      | Some s \<Rightarrow>
          me_state (peers d s) \<noteq> partner_down \<and>
          (q = ACTIVE_LEASES \<and> i_am (peers d s) = secondary \<and> me_state (peers d s) = normal \<or>
           q = EXPIRED_LEASES))"

definition may_rewind :: "db \<Rightarrow> db_lease \<Rightarrow> bool" where
  "may_rewind d l =
     (case lease_peer d l of
        None \<Rightarrow> False
      | Some s \<Rightarrow>
          p_service_state (peers d s) = not_cooperating \<and> next_binding_state l = FTS_EXPIRED \<and>
          (i_am (peers d s) = primary \<and> rewind_binding_state l = FTS_FREE \<or>
           i_am (peers d s) = secondary \<and> rewind_binding_state l = FTS_BACKUP))"

text \<open>\<open>LEASE_GET_NEXTP\<close>: the lease after \<open>a\<close> on its queue.\<close>

definition next_on :: "ptr list \<Rightarrow> ptr \<Rightarrow> ptr option" where
  "next_on xs a = seg_head (tl (dropWhile (\<lambda>b. b \<noteq> a) xs)) None"

text \<open>
  The loop over a queue; it gives the database and the time of the first change that is not due
  yet, the smaller of that and \<open>next_expiry\<close>. \<open>None\<close> when it does not end.
\<close>

partial_function (option) timer_walk ::
    "db_env \<Rightarrow> nat \<Rightarrow> queue_name \<Rightarrow> db \<Rightarrow> ptr option \<Rightarrow> int \<Rightarrow> (db \<times> int) cres option" where
  "timer_walk e p q d lease next_expiry =
     (case lease of
        None \<Rightarrow> Some (Ret (d, next_expiry))
      | Some a \<Rightarrow>
          let nx = next_on (queue (pools d p) q) a;
              l = heap d a
          in if cur_time d < sort_time l
             then Some (Ret (d, if sort_time l < next_expiry then sort_time l else next_expiry))
             else if next_binding_state l \<noteq> binding_state l
             then (let d = (if may_rewind d l
                            then upd_lease a (\<lambda>l. l\<lparr>next_binding_state := rewind_binding_state l\<rparr>) d else d)
                   in case supersede_core e d a None True True True of
                        Undef \<Rightarrow> Some Undef
                      | Fatal \<Rightarrow> Some Fatal
                      | Ret (d, _) \<Rightarrow> timer_walk e p q d nx next_expiry)
             else timer_walk e p q d nx next_expiry)"

fun timer_queues :: "db_env \<Rightarrow> nat \<Rightarrow> queue_name list \<Rightarrow> db \<Rightarrow> int \<Rightarrow> (db \<times> int) cres" where
  "timer_queues e p [] d next_expiry = Ret (d, next_expiry)"
| "timer_queues e p (q # qs) d next_expiry =
     (case queue (pools d p) q of
        [] \<Rightarrow> timer_queues e p qs d next_expiry
      | a # _ \<Rightarrow>
          if skip_queue d p q then timer_queues e p qs d next_expiry
          else case timer_walk e p q d (Some a) next_expiry of
                 None \<Rightarrow> Undef
               | Some r \<Rightarrow> cbind r (\<lambda>(d, next_expiry). timer_queues e p qs d next_expiry))"

definition pool_timer :: "db_env \<Rightarrow> db \<Rightarrow> nat \<Rightarrow> db cres" where
  "pool_timer e d p =
     cbind (timer_queues e p lptr d MAX_TIME)
       (\<lambda>(d, next_expiry).
          if next_expiry \<noteq> MAX_TIME \<and>
             (next_expiry < next_event_time (pools d p) \<or> next_event_time (pools d p) \<le> cur_time d)
          then add_timeout (upd_pool p (\<lambda>pl. pl\<lparr>next_event_time := next_expiry\<rparr>) d)
                 (next_expiry, 0) (Some POOL_TIMER) p
          else Ret (upd_pool p (\<lambda>pl. pl\<lparr>next_event_time := MIN_TIME\<rparr>) d))"

text \<open>\<open>supersede_lease\<close> with its last step, which runs the timer of the pool for a change that is overdue.\<close>

definition supersede_lease ::
    "db_env \<Rightarrow> db \<Rightarrow> ptr \<Rightarrow> ptr option \<Rightarrow> bool \<Rightarrow> bool \<Rightarrow> bool \<Rightarrow> bool \<Rightarrow> (db \<times> bool) cres" where
  "supersede_lease e d cp lease commit propogate pimmediate from_pool =
     cbind (supersede_core e d cp lease commit propogate pimmediate)
       (\<lambda>(d, r). case r of
          Some b \<Rightarrow> Ret (d, b)
        | None \<Rightarrow>
            if \<not> from_pool \<and> (commit \<or> \<not> pimmediate) \<and> sort_time (heap d cp) < cur_time d \<and>
               next_binding_state (heap d cp) \<noteq> binding_state (heap d cp)
            then (case l_pool (heap d cp) of
                    Some p \<Rightarrow> cbind (pool_timer e d p) (\<lambda>d. Ret (d, True))
                  | None \<Rightarrow> Undef)
            else Ret (d, True))"

section \<open>Copying, releasing and abandoning\<close>

text \<open>\<open>lease_copy\<close> makes its copy in the newly allocated lease \<open>lt\<close>.\<close>

definition lease_copy :: "db \<Rightarrow> ptr \<Rightarrow> ptr \<Rightarrow> db option" where
  "lease_copy d lt a =
     (if no_memory d then None
      else
        let l = heap d a
        in Some (upd_lease lt (\<lambda>_. new_lease\<lparr>
             ip_addr := ip_addr l, starts := starts l, ends := ends l, uid := uid l, uid_in_buf := uid_in_buf l,
             client_hostname := client_hostname l, scope := scope l, agent_options := agent_options l,
             l_host := l_host l, l_subnet := l_subnet l, l_pool := l_pool l, billing_class := billing_class l,
             hardware_addr := hardware_addr l, on_expiry := on_expiry l, on_commit := on_commit l,
             on_release := on_release l, flags := flags l, tstp := tstp l, tsfp := tsfp l, atsfp := atsfp l,
             cltt := cltt l, binding_state := binding_state l, next_binding_state := next_binding_state l,
             rewind_binding_state := rewind_binding_state l\<rparr>) d))"

definition released_state :: "db \<Rightarrow> db_lease \<Rightarrow> binding_state" where
  "released_state d l =
     (case lease_peer d l of
        None \<Rightarrow> FTS_FREE
      | Some s \<Rightarrow>
          if p_service_state (peers d s) = not_cooperating \<and>
             (i_am (peers d s) = primary \<and> rewind_binding_state l = FTS_FREE \<or>
              i_am (peers d s) = secondary \<and> rewind_binding_state l = FTS_BACKUP)
          then rewind_binding_state l else FTS_RELEASED)"

definition release_lease :: "db_env \<Rightarrow> db \<Rightarrow> ptr \<Rightarrow> db cres" where
  "release_lease e d a =
     (let d = emit (EvDdnsRemovals a) d;
          d = (case on_release (heap d a) of
                 Some st \<Rightarrow> upd_lease a (\<lambda>l. l\<lparr>scope := run_statements e st (scope l), on_release := None\<rparr>)
                              (emit (EvExecute st a) d)
               | None \<Rightarrow> d);
          d = upd_lease a (\<lambda>l. l\<lparr>on_expiry := None\<rparr>) d
      in if binding_state (heap d a) \<notin> {FTS_FREE, FTS_BACKUP, FTS_RELEASED, FTS_EXPIRED, FTS_RESET}
         then
           let d = upd_lease a (\<lambda>l. l\<lparr>on_commit := None, scope := None, ends := cur_time d, tstp := cur_time d\<rparr>) d;
               d = upd_lease a (\<lambda>l. l\<lparr>next_binding_state := released_state d l\<rparr>) d
           in cbind (supersede_lease e d a None True True True False) (\<lambda>(d, _). Ret d)
         else Ret d)"

definition abandon_ends :: "db_env \<Rightarrow> db \<Rightarrow> int" where
  "abandon_ends e d =
     (let t = cur_time d + abandon_lease_time e
      in if t < cur_time d \<or> MAX_TIME < t then MAX_TIME else t)"

definition abandon_lease :: "db_env \<Rightarrow> db \<Rightarrow> ptr \<Rightarrow> ptr \<Rightarrow> db cres" where
  "abandon_lease e d lt a =
     (let d = emit (EvDdnsRemovals a) d
      in case lease_copy d lt a of
           None \<Rightarrow> Ret d
         | Some d \<Rightarrow>
             let d = upd_lease lt (\<lambda>l. l\<lparr>scope := None, ends := abandon_ends e d, next_binding_state := FTS_ABANDONED,
                                        hardware_addr := [], uid := None\<rparr>) d
             in cbind (supersede_lease e d a (Some lt) True True True False) (\<lambda>(d, _). Ret d))"

section \<open>Reading the lease file\<close>

definition ip_hash_put :: "db \<Rightarrow> byte list \<Rightarrow> ptr option \<Rightarrow> db" where
  "ip_hash_put d k v = d\<lparr>ip_hash := (ip_hash d)(k := v)\<rparr>"

definition enter_lease :: "db \<Rightarrow> ptr \<Rightarrow> db" where
  "enter_lease d a =
     (let k = ip_addr (heap d a);
          d = (case find_lease_by_ip_addr d k of
                 None \<Rightarrow> d
               | Some c \<Rightarrow>
                   let d = upd_lease a (\<lambda>l. l\<lparr>
                             l_pool := (if l_pool l = None then l_pool (heap d c) else l_pool l),
                             l_subnet := (if l_subnet l = None then l_subnet (heap d c) else l_subnet l)\<rparr>) d
                   in ip_hash_put d k None)
      in if l_subnet (heap d a) = None then d else ip_hash_put d k (Some a))"

definition lease_instantiate :: "db \<Rightarrow> ptr \<Rightarrow> db cres" where
  "lease_instantiate d a =
     (case l_pool (heap d a) of
        None \<Rightarrow> Ret (ip_hash_put d (ip_addr (heap d a)) None)
      | Some p \<Rightarrow>
          let d = (if binding_state (heap d a) = FTS_BACKUP \<and> failover_peer (pools d p) = None
                   then upd_lease a (\<lambda>l. l\<lparr>binding_state := FTS_FREE, next_binding_state := FTS_FREE,
                                          rewind_binding_state := FTS_FREE\<rparr>) d
                   else d);
              (d, queued) = lease_enqueue d a
          in if \<not> queued then Ret d
             else cbind (index_lease d a)
               (\<lambda>d. case billing_class (heap d a) of
                      None \<Rightarrow> Ret d
                    | Some c \<Rightarrow>
                        let d = upd_lease a (\<lambda>l. l\<lparr>billing_class := None\<rparr>) d
                        in if binding_state (heap d a) \<in> {FTS_ACTIVE, FTS_EXPIRED, FTS_RELEASED, FTS_RESET}
                           then cbind (bill_class d a c) (\<lambda>(d, _). Ret d)
                           else Ret d))"

text \<open>
  Counting the leases of a queue: the lease, whether it can be allocated, and whether the peer
  has yet to be told of it.
\<close>

definition count_lease :: "db_env \<Rightarrow> db \<Rightarrow> nat \<Rightarrow> queue_name \<Rightarrow> ptr \<Rightarrow> db cres" where
  "count_lease e d p q a =
     (let l = heap d a;
          d = upd_pool p (\<lambda>pl. pl\<lparr>lease_count := lease_count pl + 1\<rparr>) d
      in cbind (if ends l \<le> cur_time d then
                  if binding_state l = FTS_FREE then
                    if q = FREE_LEASES then Ret (upd_pool p (\<lambda>pl. pl\<lparr>free_leases := free_leases pl + 1\<rparr>) d)
                    else if q \<noteq> RESERVED_LEASES then Fatal else Ret d
                  else if binding_state l = FTS_BACKUP then
                    if q = BACKUP_LEASES then Ret (upd_pool p (\<lambda>pl. pl\<lparr>backup_leases := backup_leases pl + 1\<rparr>) d)
                    else if q \<noteq> RESERVED_LEASES then Fatal else Ret d
                  else Ret d
                else Ret d)
           (\<lambda>d. if failover_peer (pools d p) \<noteq> None \<and> atsfp l < tstp l \<and> \<not> has_flag l ON_UPDATE_QUEUE
                then dhcp_failover_queue_update e
                       (upd_lease a (\<lambda>l. l\<lparr>desired_binding_state := binding_state l\<rparr>) d) a True
                else Ret d))"

fun count_leases :: "db_env \<Rightarrow> db \<Rightarrow> nat \<Rightarrow> queue_name \<Rightarrow> ptr list \<Rightarrow> db cres" where
  "count_leases e d p q [] = Ret d"
| "count_leases e d p q (a # xs) = cbind (count_lease e d p q a) (\<lambda>d. count_leases e d p q xs)"

fun count_queues :: "db_env \<Rightarrow> db \<Rightarrow> nat \<Rightarrow> queue_name list \<Rightarrow> db cres" where
  "count_queues e d p [] = Ret d"
| "count_queues e d p (q # qs) =
     cbind (count_leases e d p q (queue (pools d p) q)) (\<lambda>d. count_queues e d p qs)"

definition expire_pool :: "db_env \<Rightarrow> db \<Rightarrow> nat \<Rightarrow> db cres" where
  "expire_pool e d p =
     cbind (pool_timer e d p)
       (\<lambda>d. count_queues e (upd_pool p (\<lambda>pl. pl\<lparr>lease_count := 0, free_leases := 0, backup_leases := 0\<rparr>) d) p lptr)"

fun for_all :: "(db \<Rightarrow> nat \<Rightarrow> db cres) \<Rightarrow> db \<Rightarrow> nat list \<Rightarrow> db cres" where
  "for_all f d [] = Ret d"
| "for_all f d (x # xs) = cbind (f d x) (\<lambda>d. for_all f d xs)"

text \<open>
  \<open>leases\<close> are the leases of the address table in the order in which the hash table enumerates
  them. The growth factors set here only concern the memory of the lease chains, and are left out.
\<close>

definition expire_all_pools :: "db_env \<Rightarrow> db \<Rightarrow> ptr list \<Rightarrow> db cres" where
  "expire_all_pools e d leases =
     cbind (for_all lease_instantiate d leases)
       (\<lambda>d. for_all (expire_pool (e\<lparr>ss_nosync := True\<rparr>)) d (pool_list d))"

end
