(* ===== verification/LeaseDbInv.thy ===== *)
theory LeaseDbInv
  imports LeaseDb
begin

text \<open>
  The invariant of the lease database, and that every operation that changes a lease keeps it:
  each lease is on the queue of its state, the queues are in order of time, and the client
  indexes, the billing and the failover queues agree with the leases.
\<close>
section \<open>The invariant\<close>

text \<open>
  \<open>queues_ok\<close>: each queue of each pool is in order of \<open>sort_time\<close> and holds only leases of the pool
  that belong on it by their state. \<open>side_ok\<close>: everything else that refers to leases, \<open>S\<close> being
  the leases of the database, and the timer library works.
\<close>

definition queues_ok :: "db \<Rightarrow> bool" where
  "queues_ok d \<longleftrightarrow>
     (\<forall>p q. distinct (queue (pools d p) q) \<and> time_sorted (heap d) (queue (pools d p) q) \<and>
            (\<forall>a \<in> set (queue (pools d p) q). l_pool (heap d a) = Some p \<and> queue_of (heap d a) = Some q))"

definition rest_ok :: "ptr set \<Rightarrow> db \<Rightarrow> bool" where
  "rest_ok S d \<longleftrightarrow> (\<exists>H. uid_ok d H \<and> (\<forall>a. a \<notin> S \<longrightarrow> unindexed H a)) \<and>
     (\<exists>H. hw_ok d H \<and> (\<forall>a. a \<notin> S \<longrightarrow> unindexed H a)) \<and>
     (\<exists>U A. fq_ok S d U A) \<and> \<not> no_memory d \<and> \<not> isc_fails d"

definition side_ok :: "ptr set \<Rightarrow> db \<Rightarrow> bool" where
  "side_ok S d \<longleftrightarrow> billing_ok S d \<and> rest_ok S d"

definition on_queue :: "db \<Rightarrow> ptr \<Rightarrow> bool" where
  "on_queue d a \<longleftrightarrow> (\<exists>p q. a \<in> set (queue (pools d p) q))"

definition db_ok :: "ptr set \<Rightarrow> db \<Rightarrow> bool" where
  "db_ok S d \<longleftrightarrow> queues_ok d \<and> side_ok S d \<and> (\<forall>a. a \<in> S \<longleftrightarrow> on_queue d a)"

lemma queues_okD:
  assumes "queues_ok d"
  shows "distinct (queue (pools d p) q)" "time_sorted (heap d) (queue (pools d p) q)"
    "a \<in> set (queue (pools d p) q) \<Longrightarrow> l_pool (heap d a) = Some p"
    "a \<in> set (queue (pools d p) q) \<Longrightarrow> queue_of (heap d a) = Some q"
  using assms by (auto simp: queues_ok_def)

text \<open>A lease of the database is on exactly one queue.\<close>

lemma on_queue_unique:
  assumes "queues_ok d" "on_queue d a"
  shows "\<exists>p q. l_pool (heap d a) = Some p \<and> queue_of (heap d a) = Some q \<and> a \<in> set (queue (pools d p) q)"
  using assms unfolding on_queue_def by (metis queues_okD(3,4))

section \<open>What the invariant depends on\<close>

definition queue_view :: "db_lease \<Rightarrow> nat option \<times> queue_name option \<times> int" where
  "queue_view l = (l_pool l, queue_of l, sort_time l)"

definition side_view where
  "side_view l = (bit (flags l) 4, bit (flags l) 5, next_pending l, l_pool l, n_uid l, n_hw l, uid l,
     hardware_addr l)"

lemma queues_ok_cong:
  assumes "\<And>a. on_queue d a \<Longrightarrow> queue_view (heap d' a) = queue_view (heap d a)"
    and "\<And>p. queue (pools d' p) = queue (pools d p)"
  shows "queues_ok d \<Longrightarrow> queues_ok d'"
proof -
  assume ok: "queues_ok d"
  have v: "l_pool (heap d' a) = l_pool (heap d a)" "queue_of (heap d' a) = queue_of (heap d a)"
    "sort_time (heap d' a) = sort_time (heap d a)" if "a \<in> set (queue (pools d p) q)" for a p q
  proof -
    have "queue_view (heap d' a) = queue_view (heap d a)" using assms(1) that on_queue_def by blast
    then show "l_pool (heap d' a) = l_pool (heap d a)" "queue_of (heap d' a) = queue_of (heap d a)"
      "sort_time (heap d' a) = sort_time (heap d a)" by (simp_all add: queue_view_def)
  qed
  have "time_sorted (heap d') (queue (pools d p) q)" for p q
    using queues_okD(2) [OF ok, of p q] v(3) [of _ p q] unfolding time_sorted_def
    by (auto intro: sorted_wrt_mono_rel [of "queue (pools d p) q" "\<lambda>a b. sort_time (heap d a) \<le> sort_time (heap d b)"])
  then show ?thesis using ok v(1,2) unfolding queues_ok_def assms(2) by metis
qed

lemma on_queue_cong: "(\<And>p. queue (pools d' p) = queue (pools d p)) \<Longrightarrow> on_queue d' = on_queue d"
  by (simp add: on_queue_def fun_eq_iff)

lemma rest_ok_cong:
  assumes v: "\<And>a. side_view (heap d' a) = side_view (heap d a)"
    and s: "uid_hash d' = uid_hash d" "hw_hash d' = hw_hash d"
      "no_memory d' = no_memory d" "isc_fails d' = isc_fails d"
      "\<And>p. failover_peer (pools d' p) = failover_peer (pools d p)" "peers d' = peers d"
  shows "rest_ok S d' = rest_ok S d"
proof -
  have w: "bit (flags (heap d' a)) 4 = bit (flags (heap d a)) 4" "bit (flags (heap d' a)) 5 = bit (flags (heap d a)) 5"
    "next_pending (heap d' a) = next_pending (heap d a)" "l_pool (heap d' a) = l_pool (heap d a)"
    "n_uid (heap d' a) = n_uid (heap d a)" "n_hw (heap d' a) = n_hw (heap d a)" "uid (heap d' a) = uid (heap d a)"
    "hardware_addr (heap d' a) = hardware_addr (heap d a)" for a
    using v [of a] by (simp_all add: side_view_def)
  have "fq_ok S d' U A = fq_ok S d U A" for U A
    by (rule fq_ok_cong) (use w s(5,6) in \<open>simp_all add: fun_eq_iff pend_def on_update_def on_ack_def flag_bits peer_of_def\<close>)
  moreover have "uid_ok d' H = uid_ok d H" for H
    using w s(1) by (simp add: uid_ok_def uid_key_def find_lease_by_uid_def [abs_def] cong: if_cong)
  moreover have "hw_ok d' H = hw_ok d H" for H
    using w s(2) by (simp add: hw_ok_def hw_key_def find_lease_by_hw_addr_def [abs_def] cong: if_cong)
  ultimately show ?thesis using s(3,4) by (simp add: rest_ok_def)
qed

lemma billing_ok_cong:
  "(\<And>a. billing_class (heap d' a) = billing_class (heap d a)) \<Longrightarrow> classes d' = classes d \<Longrightarrow> billing_ok S d' = billing_ok S d"
  by (simp add: billing_ok_def)

lemma side_ok_cong:
  assumes "\<And>a. side_view (heap d' a) = side_view (heap d a)"
    "\<And>a. billing_class (heap d' a) = billing_class (heap d a)" "classes d' = classes d"
    "uid_hash d' = uid_hash d" "hw_hash d' = hw_hash d" "no_memory d' = no_memory d" "isc_fails d' = isc_fails d"
    "\<And>p. failover_peer (pools d' p) = failover_peer (pools d p)" "peers d' = peers d"
  shows "side_ok S d' = side_ok S d"
  unfolding side_ok_def using billing_ok_cong [OF assms(2,3), of S] rest_ok_cong [OF assms(1,4-9), of S] by simp

lemma side_ok_upd_lease:
  "side_view (f (heap d a)) = side_view (heap d a) \<Longrightarrow> billing_class (f (heap d a)) = billing_class (heap d a) \<Longrightarrow>
   side_ok S (upd_lease a f d) = side_ok S d"
  by (rule side_ok_cong) auto

lemma side_ok_upd_pool:
  "failover_peer (f (pools d p)) = failover_peer (pools d p) \<Longrightarrow> side_ok S (upd_pool p f d) = side_ok S d"
  by (rule side_ok_cong) auto

lemma side_ok_emit [simp]: "side_ok S (emit ev d) = side_ok S d"
  by (rule side_ok_cong) auto

lemma side_ok_add_timeout: "add_timeout d w f what = Ret d' \<Longrightarrow> side_ok S d' = side_ok S d"
proof -
  assume "add_timeout d w f what = Ret d'"
  then have e: "d' = d\<lparr>timeouts := timeouts d', next_addr := next_addr d'\<rparr>" by (rule add_timeout_frame)
  show ?thesis by (rule side_ok_cong) (subst e, simp)+
qed

section \<open>The transition\<close>

text \<open>Databases that differ in one lease, the classes and the log only.\<close>

definition at_lease :: "ptr \<Rightarrow> db \<Rightarrow> db \<Rightarrow> bool" where
  "at_lease a d d' \<longleftrightarrow> (\<forall>b. b \<noteq> a \<longrightarrow> heap d' b = heap d b) \<and>
     d'\<lparr>heap := \<lambda>_. new_lease, classes := classes new_db, events := []\<rparr> =
     d\<lparr>heap := \<lambda>_. new_lease, classes := classes new_db, events := []\<rparr>"

lemma at_lease_trans [trans]: "at_lease a d d' \<Longrightarrow> at_lease a d' d'' \<Longrightarrow> at_lease a d d''"
  by (simp add: at_lease_def)

lemma at_lease_step [simp]: "at_lease a d d" "at_lease a d (upd_lease a f d)" "at_lease a d (emit ev d)"
  by (simp_all add: at_lease_def upd_lease_def emit_def)

lemmas at_lease_then = at_lease_step(2,3) [THEN [2] at_lease_trans]

lemma at_lease_sel:
  assumes "at_lease a d d'"
  shows "pools d' = pools d" "peers d' = peers d" "cur_tv d' = cur_tv d" "timeouts d' = timeouts d"
    "uid_hash d' = uid_hash d" "hw_hash d' = hw_hash d" "ip_hash d' = ip_hash d" "no_memory d' = no_memory d"
    "isc_fails d' = isc_fails d" "playback d' = playback d" "pool_list d' = pool_list d" "next_addr d' = next_addr d"
proof -
  have e: "d'\<lparr>heap := \<lambda>_. new_lease, classes := classes new_db, events := []\<rparr> =
     d\<lparr>heap := \<lambda>_. new_lease, classes := classes new_db, events := []\<rparr>" using assms by (simp add: at_lease_def)
  show "pools d' = pools d" "peers d' = peers d" "cur_tv d' = cur_tv d" "timeouts d' = timeouts d"
    "uid_hash d' = uid_hash d" "hw_hash d' = hw_hash d" "ip_hash d' = ip_hash d" "no_memory d' = no_memory d"
    "isc_fails d' = isc_fails d" "playback d' = playback d" "pool_list d' = pool_list d" "next_addr d' = next_addr d"
    using arg_cong [OF e, of pools] arg_cong [OF e, of peers] arg_cong [OF e, of cur_tv] arg_cong [OF e, of timeouts]
      arg_cong [OF e, of uid_hash] arg_cong [OF e, of hw_hash] arg_cong [OF e, of ip_hash] arg_cong [OF e, of no_memory]
      arg_cong [OF e, of isc_fails] arg_cong [OF e, of playback] arg_cong [OF e, of pool_list] arg_cong [OF e, of next_addr]
    by simp_all
qed

text \<open>The fields that the events of a transition leave alone.\<close>

definition kept :: "db_lease \<Rightarrow> db_lease \<Rightarrow> bool" where
  "kept l l' \<longleftrightarrow> side_view l' = side_view l \<and> flags l' = flags l \<and> binding_state l' = binding_state l \<and>
     next_binding_state l' = next_binding_state l \<and> ends l' = ends l \<and> tsfp l' = tsfp l \<and> sort_time l' = sort_time l"

lemma unbill_side_ok:
  assumes "side_ok S d" "a \<in> S"
  shows "\<exists>d'. unbill_class d a = Ret d' \<and> side_ok S d' \<and> at_lease a d d' \<and>
           heap d' a = (heap d a)\<lparr>billing_class := None\<rparr>"
proof -
  obtain d' where d': "unbill_class d a = Ret d'" "billing_ok S d'" "billing_class (heap d' a) = None"
      "\<forall>b. heap d' b = (heap d b)\<lparr>billing_class := if b = a then None else billing_class (heap d b)\<rparr>"
      "d' = d\<lparr>heap := heap d', classes := classes d'\<rparr>"
    using unbill_class_ok [OF conjunct1 [OF assms(1) [unfolded side_ok_def]] assms(2)]
    by (elim exE conjE) (rule that; assumption)
  have al: "at_lease a d d'" unfolding at_lease_def
  proof
    show "\<forall>b. b \<noteq> a \<longrightarrow> heap d' b = heap d b" using d'(4) by simp
  qed (subst d'(5), simp)
  have "rest_ok S d' = rest_ok S d"
    by (rule rest_ok_cong) (use at_lease_sel [OF al] d'(4) in \<open>simp_all add: side_view_def\<close>)
  then show ?thesis using d' al assms(1) by (auto simp: side_ok_def)
qed

lemma forget_client_ok:
  assumes "side_ok S d" "a \<in> S"
  shows "\<exists>d'. forget_client d a = Ret d' \<and> side_ok S d' \<and> at_lease a d d' \<and> kept (heap d a) (heap d' a)"
proof -
  obtain d1 where d1: "unbill_class d a = Ret d1" "side_ok S d1" "at_lease a d d1"
      "heap d1 a = (heap d a)\<lparr>billing_class := None\<rparr>"
    using unbill_side_ok [OF assms] by blast
  obtain d2 where d2: "(if billing_class (heap d a) \<noteq> None then unbill_class d a else Ret d) = Ret d2"
      "side_ok S d2" "at_lease a d d2" "kept (heap d a) (heap d2 a)"
    using d1 assms(1) by (cases "billing_class (heap d a)") (auto simp: kept_def side_view_def)
  let ?d3 = "upd_lease a (\<lambda>l. l\<lparr>agent_options := None, client_hostname := None, l_host := None, tstp := ends l\<rparr>) d2"
  have "side_ok S ?d3" using d2(2) by (subst side_ok_upd_lease) (simp_all add: side_view_def)
  moreover have "kept (heap d a) (heap ?d3 a)" using d2(4) by (simp add: kept_def side_view_def)
  ultimately show ?thesis using d2(1) at_lease_trans [OF d2(3)] by (simp add: forget_client_def)
qed

lemma kept_trans: "kept l l' \<Longrightarrow> kept l' l'' \<Longrightarrow> kept l l''"
  by (simp add: kept_def)

lemma event_ok:
  assumes "side_ok S d" "a \<in> S" and "at_lease a d d0" "kept (heap d a) (heap d0 a)" "side_ok S d0"
  shows "\<exists>d'. forget_client d0 a = Ret d' \<and> side_ok S d' \<and> at_lease a d d' \<and> kept (heap d a) (heap d' a)"
  using forget_client_ok [OF assms(5,2)] at_lease_trans [OF assms(3)] kept_trans [OF assms(4)] by blast

lemma expire_event_ok:
  assumes "side_ok S d" "a \<in> S"
  shows "\<exists>d'. expire_event e d a = Ret d' \<and> side_ok S d' \<and> at_lease a d d' \<and> kept (heap d a) (heap d' a)"
  unfolding expire_event_def Let_def
  by (rule event_ok [OF assms])
    (auto intro!: at_lease_then simp: kept_def side_view_def assms(1) side_ok_upd_lease split: option.split)

lemma release_event_ok:
  assumes "side_ok S d" "a \<in> S"
  shows "\<exists>d'. release_event e d a = Ret d' \<and> side_ok S d' \<and> at_lease a d d' \<and> kept (heap d a) (heap d' a)"
  unfolding release_event_def Let_def
  by (rule event_ok [OF assms])
    (auto intro!: at_lease_then simp: kept_def side_view_def assms(1) side_ok_upd_lease split: option.split)

text \<open>The state a lease in state \<open>st\<close> goes to next, with and without a failover peer.\<close>

definition after_state :: "bool \<Rightarrow> binding_state \<Rightarrow> binding_state \<Rightarrow> binding_state" where
  "after_state with_peer nx st =
     (case st of
        FTS_ACTIVE \<Rightarrow> if with_peer then FTS_EXPIRED else FTS_FREE
      | FTS_BACKUP \<Rightarrow> FTS_BACKUP
      | FTS_BOGUS _ \<Rightarrow> nx
      | _ \<Rightarrow> FTS_FREE)"

definition moved :: "db \<Rightarrow> db_lease \<Rightarrow> db_lease \<Rightarrow> bool" where
  "moved d l l' \<longleftrightarrow> side_view l' = side_view l \<and> flags l' = flags l \<and> sort_time l' = sort_time l \<and> ends l' = ends l \<and>
     binding_state l' = next_binding_state l \<and>
     next_binding_state l' = after_state (lease_peer d l \<noteq> None) (next_binding_state l) (next_binding_state l)"

lemma next_state_moved:
  "moved d l (next_state d (l\<lparr>binding_state := next_binding_state l\<rparr>))"
  "billing_class (next_state d (l\<lparr>binding_state := next_binding_state l\<rparr>)) = billing_class l"
  by (cases "next_binding_state l"; auto simp: moved_def next_state_def after_state_def side_view_def Let_def lease_peer_def
      split: option.split)+

lemma transition_ok:
  assumes "side_ok S d" "a \<in> S"
  shows "\<exists>d'. make_binding_state_transition e d a = Ret d' \<and> side_ok S d' \<and> at_lease a d d' \<and>
           moved d (heap d a) (heap d' a)"
proof -
  obtain d1 where d1: "(if expires_now d (heap d a) then expire_event e d a else Ret d) = Ret d1" "side_ok S d1"
      "at_lease a d d1" "kept (heap d a) (heap d1 a)"
    using expire_event_ok [OF assms, of e] assms(1) by (cases "expires_now d (heap d a)") (auto simp: kept_def)
  obtain d2 where d2: "(if releases_now d1 (heap d1 a) then release_event e d1 a else Ret d1) = Ret d2" "side_ok S d2"
      "at_lease a d1 d2" "kept (heap d1 a) (heap d2 a)"
    using release_event_ok [OF d1(2) assms(2), of e] d1(2) by (cases "releases_now d1 (heap d1 a)") (auto simp: kept_def)
  note al = at_lease_trans [OF d1(3) d2(3)] and kp = kept_trans [OF d1(4) d2(4)]
  define d3 where "d3 = upd_lease a (\<lambda>l. l\<lparr>binding_state := next_binding_state l\<rparr>) d2"
  define d4 where "d4 = upd_lease a (next_state d3) d3"
  have eq: "make_binding_state_transition e d a = Ret d4"
    by (simp add: make_binding_state_transition_def d1(1) d2(1) d3_def d4_def Let_def)
  have lp: "lease_peer d3 = lease_peer d2" "peers d3 = peers d2"
    by (simp_all add: fun_eq_iff lease_peer_def d3_def split: option.split)
  have ns: "next_state d3 = next_state d2" unfolding next_state_def [abs_def] lp by (rule refl)
  have h4: "heap d4 a = next_state d2 ((heap d2 a)\<lparr>binding_state := next_binding_state (heap d2 a)\<rparr>)"
    using ns by (simp add: d4_def) (simp add: d3_def)
  note mv = next_state_moved [of d2 "heap d2 a", folded h4]
  have "d4 = upd_lease a (\<lambda>_. heap d4 a) d2" by (simp add: d4_def d3_def upd_lease_def)
  moreover have "side_ok S (upd_lease a (\<lambda>_. heap d4 a) d2)"
    using d2(2) mv by (subst side_ok_upd_lease) (auto simp: moved_def)
  ultimately have "side_ok S d4" by simp
  moreover have "at_lease a d d4" unfolding d4_def d3_def using al by (intro at_lease_then)
  moreover have "lease_peer d2 (heap d2 a) = lease_peer d (heap d a)"
    using kp unfolding lease_peer_def at_lease_sel(1) [OF al] by (simp add: kept_def side_view_def)
  then have "moved d (heap d a) (heap d4 a)" using mv(1) kp by (simp add: moved_def kept_def)
  ultimately show ?thesis using eq by blast
qed

section \<open>Off a queue and onto a queue\<close>

lemma queue_insert_split:
  "\<exists>ys zs. xs = ys @ zs \<and> queue_insert h a xs = ys @ a # zs \<and>
     (\<forall>b \<in> set ys. sort_time (h b) < sort_time (h a)) \<and> (zs \<noteq> [] \<longrightarrow> sort_time (h a) \<le> sort_time (h (hd zs)))"
proof -
  let ?P = "\<lambda>b. sort_time (h b) < sort_time (h a)"
  have "dropWhile ?P xs \<noteq> [] \<longrightarrow> \<not> ?P (hd (dropWhile ?P xs))" using hd_dropWhile by blast
  moreover have "\<forall>b \<in> set (takeWhile ?P xs). ?P b" by (auto dest: set_takeWhileD)
  ultimately show ?thesis
    by (intro exI [of _ "takeWhile ?P xs"] exI [of _ "dropWhile ?P xs"]) (auto simp: queue_insert_def)
qed

lemma queue_insert_ok:
  assumes "distinct xs" "time_sorted h xs" "a \<notin> set xs"
  shows "distinct (queue_insert h a xs)" "time_sorted h (queue_insert h a xs)"
    "set (queue_insert h a xs) = insert a (set xs)" "length (queue_insert h a xs) = Suc (length xs)"
proof -
  obtain ys zs where sp: "xs = ys @ zs" "queue_insert h a xs = ys @ a # zs"
      "\<forall>b \<in> set ys. sort_time (h b) < sort_time (h a)" "zs \<noteq> [] \<longrightarrow> sort_time (h a) \<le> sort_time (h (hd zs))"
    using queue_insert_split by blast
  have "\<forall>b \<in> set zs. sort_time (h a) \<le> sort_time (h b)"
    using assms(2) sp(1,4) by (cases zs) (auto simp: time_sorted_def sorted_wrt_append)
  then show "time_sorted h (queue_insert h a xs)"
    using assms(2) sp(1,3) unfolding sp(2) by (auto simp: time_sorted_def sorted_wrt_append)
qed (use assms queue_insert_split [of xs h a] in auto)

lemma count_queue_sel [simp]:
  "queue (count_queue q n p) = queue p" "failover_peer (count_queue q n p) = failover_peer p"
  "next_event_time (count_queue q n p) = next_event_time p"
  by (cases q; simp add: count_queue_def)+

lemma set_queue_sel [simp]:
  "queue (set_queue q xs p) = (queue p)(q := xs)" "failover_peer (set_queue q xs p) = failover_peer p"
  "next_event_time (set_queue q xs p) = next_event_time p" "free_leases (set_queue q xs p) = free_leases p"
  "backup_leases (set_queue q xs p) = backup_leases p"
  by (simp_all add: set_queue_def)

lemma queues_ok_remove:
  assumes "queues_ok d" and "queue_of (heap d a) = Some q" and "a \<in> set (queue (pools d p) q)"
    and "d' = upd_pool p (set_queue q (remove1 a (queue (pools d p) q))) d"
  shows "queues_ok d'" "\<not> on_queue d' a" "b \<noteq> a \<Longrightarrow> on_queue d' b = on_queue d b"
proof -
  note D = queues_okD [OF assms(1)]
  have dis: "distinct (queue (pools d p) q)" by (rule D(1))
  show "queues_ok d'"
    unfolding queues_ok_def assms(4)
    using D dis set_remove1_subset [of a "queue (pools d p) q"]
    by (auto simp: time_sorted_def sorted_wrt_filter distinct_remove1_removeAll removeAll_filter_not_eq)
  have "p' = p \<and> q' = q" if "a \<in> set (queue (pools d p') q')" for p' q'
    using D(3,4) assms(2,3) that by (metis option.inject)
  then show "\<not> on_queue d' a" using dis by (auto simp: on_queue_def assms(4) split: if_splits)
  show "on_queue d' b = on_queue d b" if "b \<noteq> a"
    using that unfolding on_queue_def assms(4) by (auto split: if_splits)
qed

lemma queues_ok_insert:
  assumes "queues_ok d" and "\<not> on_queue d a" and "l_pool (heap d a) = Some p" and "queue_of (heap d a) = Some q"
    and "d' = upd_pool p (set_queue q (queue_insert (heap d) a (queue (pools d p) q))) d"
  shows "queues_ok d'" "on_queue d' b \<longleftrightarrow> b = a \<or> on_queue d b"
proof -
  note D = queues_okD [OF assms(1)]
  have out: "a \<notin> set (queue (pools d p) q)" using assms(2) by (auto simp: on_queue_def)
  note Q = queue_insert_ok [OF D(1,2) out]
  show "queues_ok d'"
    unfolding queues_ok_def assms(5) using D Q assms(3,4) by auto
  show "on_queue d' b \<longleftrightarrow> b = a \<or> on_queue d b"
    unfolding on_queue_def assms(5) using Q(3) by (auto split: if_splits)
qed

section \<open>After the move\<close>

text \<open>What timers, the lease file and the failover peer leave alone.\<close>

definition state_view where
  "state_view l = (queue_view l, binding_state l, next_binding_state l, ends l, ip_addr l, bit (flags l) 2)"

definition calm :: "db \<Rightarrow> db \<Rightarrow> bool" where
  "calm d d' \<longleftrightarrow> (\<forall>a. state_view (heap d' a) = state_view (heap d a)) \<and>
     (\<forall>p. queue (pools d' p) = queue (pools d p) \<and> failover_peer (pools d' p) = failover_peer (pools d p) \<and>
          free_leases (pools d' p) = free_leases (pools d p) \<and> backup_leases (pools d' p) = backup_leases (pools d p)) \<and>
     cur_tv d' = cur_tv d \<and> pool_list d' = pool_list d"

text \<open>No timer is added, moved or dropped.\<close>

definition same_timers :: "db \<Rightarrow> db \<Rightarrow> bool" where
  "same_timers d d' \<longleftrightarrow> timeouts d' = timeouts d \<and> playback d' = playback d \<and> next_addr d' = next_addr d \<and>
     (\<forall>p. next_event_time (pools d' p) = next_event_time (pools d p))"

lemma same_timers_refl [simp]: "same_timers d d"
  by (simp add: same_timers_def)

lemma same_timers_trans [trans]: "same_timers d d' \<Longrightarrow> same_timers d' d'' \<Longrightarrow> same_timers d d''"
  by (simp add: same_timers_def)

lemma calm_refl [simp]: "calm d d"
  by (simp add: calm_def)

lemma calm_trans [trans]: "calm d d' \<Longrightarrow> calm d' d'' \<Longrightarrow> calm d d''"
  by (simp add: calm_def)

lemma calm_queues_ok: "calm d d' \<Longrightarrow> queues_ok d \<Longrightarrow> queues_ok d'"
  by (rule queues_ok_cong [of d d']) (auto simp: calm_def state_view_def)

lemma calm_on_queue: "calm d d' \<Longrightarrow> on_queue d' = on_queue d"
  by (rule on_queue_cong) (simp add: calm_def)

lemma calm_upd_lease: "state_view (f (heap d a)) = state_view (heap d a) \<Longrightarrow> calm d (upd_lease a f d)"
  by (simp add: calm_def)

lemma calm_emit [simp]: "calm d (emit ev d)"
  by (simp add: calm_def)

lemma calm_add_timeout: "add_timeout d w f what = Ret d' \<Longrightarrow> calm d d'"
proof -
  assume "add_timeout d w f what = Ret d'"
  then have e: "d' = d\<lparr>timeouts := timeouts d', next_addr := next_addr d'\<rparr>" by (rule add_timeout_frame)
  show "calm d d'" by (subst e) (simp add: calm_def)
qed

lemma fq_frame_calm:
  assumes "fq_frame d d'" shows "calm d d'"
proof -
  have e: "d' = d\<lparr>heap := heap d', peers := peers d', timeouts := timeouts d', next_addr := next_addr d', events := events d'\<rparr>"
    using assms by (simp add: fq_frame_def)
  then have p: "pools d' = pools d" "cur_tv d' = cur_tv d" "pool_list d' = pool_list d" by (cases d; cases d'; simp)+
  have "state_view (heap d' a) = state_view (heap d a)" for a
  proof -
    have l: "lease_frame (heap d a) (heap d' a)" using assms by (simp add: fq_frame_def)
    then have "bit (flags (heap d' a)) 2 = bit (flags (heap d a)) 2" by (simp add: lease_frame_def)
    moreover have "l_pool (heap d' a) = l_pool (heap d a)" "sort_time (heap d' a) = sort_time (heap d a)"
      "binding_state (heap d' a) = binding_state (heap d a)" "next_binding_state (heap d' a) = next_binding_state (heap d a)"
      "ends (heap d' a) = ends (heap d a)" "ip_addr (heap d' a) = ip_addr (heap d a)"
      using l by (cases "heap d a"; cases "heap d' a"; simp add: lease_frame_def)+
    ultimately show ?thesis by (simp add: state_view_def queue_view_def queue_of_def flag_bits)
  qed
  with p show ?thesis by (simp add: calm_def)
qed

lemma fq_frame_side:
  assumes "fq_frame d d'" "side_ok S d" "\<exists>U A. fq_ok S d' U A" shows "side_ok S d'"
proof -
  have e: "d' = d\<lparr>heap := heap d', peers := peers d', timeouts := timeouts d', next_addr := next_addr d', events := events d'\<rparr>"
    using assms(1) by (simp add: fq_frame_def)
  then have p: "classes d' = classes d" "uid_hash d' = uid_hash d" "hw_hash d' = hw_hash d" by (cases d; cases d'; simp)+
  have w: "n_uid (heap d' a) = n_uid (heap d a)" "n_hw (heap d' a) = n_hw (heap d a)" "uid (heap d' a) = uid (heap d a)"
    "hardware_addr (heap d' a) = hardware_addr (heap d a)" "billing_class (heap d' a) = billing_class (heap d a)" for a
  proof -
    have l: "lease_frame (heap d a) (heap d' a)" using assms(1) by (simp add: fq_frame_def)
    show "n_uid (heap d' a) = n_uid (heap d a)" "n_hw (heap d' a) = n_hw (heap d a)" "uid (heap d' a) = uid (heap d a)"
    "hardware_addr (heap d' a) = hardware_addr (heap d a)" "billing_class (heap d' a) = billing_class (heap d a)"
      using l by (cases "heap d a"; cases "heap d' a"; simp add: lease_frame_def)+
  qed
  have "uid_ok d' H = uid_ok d H" "hw_ok d' H = hw_ok d H" for H
    using w p by (simp_all add: uid_ok_def uid_key_def find_lease_by_uid_def [abs_def]
        hw_ok_def hw_key_def find_lease_by_hw_addr_def [abs_def] cong: if_cong)
  moreover have "billing_ok S d' = billing_ok S d" using w(5) p(1) by (simp add: billing_ok_def)
  ultimately show ?thesis using assms(2,3) fq_frame_sel(2,3) [OF assms(1)] by (simp add: side_ok_def rest_ok_def)
qed

lemma arm_pool_timer_ok:
  assumes "side_ok S d"
  shows "\<exists>d'. arm_pool_timer d cp p = Ret d' \<and> side_ok S d' \<and> calm d d'"
proof -
  let ?d1 = "upd_pool p (\<lambda>pl. pl\<lparr>next_event_time := sort_time (heap d cp)\<rparr>) d"
  have 1: "side_ok S ?d1" "calm d ?d1" using assms by (simp_all add: side_ok_upd_pool calm_def)
  obtain d2 where d2: "add_timeout ?d1 (sort_time (heap d cp), 0) (Some POOL_TIMER) p = Ret d2"
    using add_timeout_returns [of ?d1 "(sort_time (heap d cp), 0)" "Some POOL_TIMER" p] assms
    by (auto simp: side_ok_def rest_ok_def)
  show ?thesis using d2 side_ok_add_timeout [OF d2] calm_trans [OF 1(2) calm_add_timeout [OF d2]] 1(1) assms
    by (auto simp: arm_pool_timer_def Let_def)
qed

lemma save_lease_ok:
  assumes "side_ok S d" "save_lease e d cp p pg = (d', b)"
  shows "side_ok S d'" "calm d d'"
proof -
  define d1 where "d1 = (if pg \<and> step_rewind d p then upd_lease cp (\<lambda>l. l\<lparr>rewind_binding_state := binding_state l\<rparr>) d else d)"
  have 1: "side_ok S d1" "calm d d1" using assms(1)
    by (auto simp: d1_def side_ok_upd_lease side_view_def state_view_def queue_view_def queue_of_def intro!: calm_upd_lease)
  have "d' = write_lease d1 cp \<or> d' = commit_leases (write_lease d1 cp)"
    using assms(2) by (auto simp: save_lease_def d1_def [symmetric] Let_def split: if_splits)
  moreover have "calm d (emit ev2 (emit ev1 d1))" for ev1 ev2
    by (rule calm_trans [OF 1(2)], rule calm_trans [OF calm_emit], rule calm_emit)
  ultimately show "side_ok S d'" "calm d d'" using 1 calm_trans [OF 1(2) calm_emit]
    by (auto simp: write_lease_def commit_leases_def)
qed

lemma tell_peer_ok:
  assumes "side_ok S d" "cp \<in> S"
  shows "\<exists>d'. tell_peer e d cp p pg pimm chk = Ret d' \<and> side_ok S d' \<and> calm d d'"
proof -
  let ?d1 = "upd_lease cp (\<lambda>l. l\<lparr>desired_binding_state := binding_state l\<rparr>) d"
  have 1: "side_ok S ?d1" "calm d ?d1" using assms(1)
    by (auto simp: side_ok_upd_lease side_view_def state_view_def queue_view_def queue_of_def intro!: calm_upd_lease)
  have "\<exists>d2. (if pg then dhcp_failover_queue_update e ?d1 cp pimm else Ret d) = Ret d2 \<and> side_ok S d2 \<and> calm d d2"
  proof (cases pg)
    case True
    obtain U A where "fq_ok S ?d1 U A" using 1(1) by (auto simp: side_ok_def rest_ok_def)
    then obtain d2 U' A' where d2: "dhcp_failover_queue_update e ?d1 cp pimm = Ret d2" "fq_ok S d2 U' A'"
      using queue_update_returns [of S ?d1 U A cp e pimm] assms by (auto simp: side_ok_def rest_ok_def)
    note fr = fq_frame_queue_update [OF d2(1)]
    show ?thesis using d2 fq_frame_side [OF fr 1(1)] calm_trans [OF 1(2) fq_frame_calm [OF fr]] True by auto
  qed (use assms(1) in auto)
  then obtain d2 where d2: "(if pg then dhcp_failover_queue_update e ?d1 cp pimm else Ret d) = Ret d2"
      "side_ok S d2" "calm d d2" by blast
  have "\<exists>d3. (if chk \<and> failover_peer (pools d2 p) \<noteq> None then dhcp_failover_pool_check e d2 p else Ret d2) = Ret d3 \<and>
      side_ok S d3 \<and> calm d2 d3"
  proof (cases "chk \<and> failover_peer (pools d2 p) \<noteq> None")
    case True
    obtain U A where fq: "fq_ok S d2 U A" using d2(2) by (auto simp: side_ok_def rest_ok_def)
    then obtain d3 where d3: "dhcp_failover_pool_check e d2 p = Ret d3" "fq_ok S d3 U A"
      using pool_check_returns [OF fq, of e p] d2(2) by (auto simp: side_ok_def rest_ok_def)
    note fr = fq_frame_pool_check [OF d3(1)]
    show ?thesis using d3 fq_frame_side [OF fr d2(2)] fq_frame_calm [OF fr] True by auto
  qed (use d2(2) in auto)
  then show ?thesis using d2 calm_trans [OF d2(3)] unfolding tell_peer_def by auto
qed

section \<open>Moving a lease\<close>

text \<open>
  The number of leases a pool counts as free or backup, less the leases on these queues: what
  moving leases does not change.
\<close>

definition surplus :: "db \<Rightarrow> nat \<Rightarrow> int \<times> int" where
  "surplus d p = (free_leases (pools d p) - int (length (queue (pools d p) FREE_LEASES)),
                  backup_leases (pools d p) - int (length (queue (pools d p) BACKUP_LEASES)))"

lemma calm_surplus: "calm d d' \<Longrightarrow> surplus d' p = surplus d p"
  by (simp add: surplus_def calm_def)

text \<open>Every queue holds the same leases, in the same order, but for \<open>a\<close>.\<close>

definition others_stay :: "ptr \<Rightarrow> db \<Rightarrow> db \<Rightarrow> bool" where
  "others_stay a d d' \<longleftrightarrow>
     (\<forall>p q. filter (\<lambda>b. b \<noteq> a) (queue (pools d' p) q) = filter (\<lambda>b. b \<noteq> a) (queue (pools d p) q))"

lemma others_stay_trans: "others_stay a d d' \<Longrightarrow> others_stay a d' d'' \<Longrightarrow> others_stay a d d''"
  by (simp add: others_stay_def)

lemma calm_others: "calm d d' \<Longrightarrow> others_stay a d d'"
  by (simp add: others_stay_def calm_def)

lemma filter_remove1: "filter (\<lambda>b. b \<noteq> a) (remove1 a xs) = filter (\<lambda>b. b \<noteq> a) xs"
  by (induction xs) auto

lemma filter_queue_insert: "filter (\<lambda>b. b \<noteq> a) (queue_insert h a xs) = filter (\<lambda>b. b \<noteq> a) xs"
  using queue_insert_split [of xs h a] by auto

lemma at_lease_queues:
  assumes "at_lease a d d'" "queues_ok d" "\<not> on_queue d a"
  shows "queues_ok d'" "on_queue d' = on_queue d" "surplus d' = surplus d"
proof -
  have p: "pools d' = pools d" using at_lease_sel(1) [OF assms(1)] .
  have "heap d' b = heap d b" if "on_queue d b" for b
    using assms(1,3) that by (metis at_lease_def)
  then show "queues_ok d'" using queues_ok_cong [of d d'] assms(2) p by auto
  show "on_queue d' = on_queue d" by (rule on_queue_cong) (simp add: p)
  show "surplus d' = surplus d" by (simp add: surplus_def fun_eq_iff p)
qed

lemma take_off:
  assumes ok: "queues_ok d" and a: "l_pool (heap d a) = Some p" "queue_of (heap d a) = Some q" "a \<in> set (queue (pools d p) q)"
    and d': "d' = upd_pool p (set_queue q (remove1 a (queue (pools d p) q))) (upd_pool p (count_queue q (-1)) d)"
  shows "queues_ok d'" "\<not> on_queue d' a" "b \<noteq> a \<Longrightarrow> on_queue d' b = on_queue d b" "surplus d' = surplus d"
    "side_ok S d' = side_ok S d" "heap d' = heap d" "others_stay a d d'"
proof -
  define d1 where "d1 = upd_pool p (count_queue q (-1)) d"
  have q: "queue (pools d1 p') = queue (pools d p')" for p' by (simp add: d1_def)
  have ok1: "queues_ok d1" using queues_ok_cong [of d d1] ok q by (simp add: d1_def)
  have on1: "on_queue d1 = on_queue d" by (rule on_queue_cong) (rule q)
  have e: "d' = upd_pool p (set_queue q (remove1 a (queue (pools d1 p) q))) d1" using d' q by (simp add: d1_def)
  note R = queues_ok_remove [OF ok1 _ _ e]
  show "queues_ok d'" "\<not> on_queue d' a" "b \<noteq> a \<Longrightarrow> on_queue d' b = on_queue d b"
    using R a(2,3) q on1 by (auto simp: d1_def)
  show "side_ok S d' = side_ok S d" unfolding d' by (simp add: side_ok_upd_pool)
  show "heap d' = heap d" by (simp add: d')
  show "others_stay a d d'" by (auto simp: d' others_stay_def filter_remove1)
  have "int (length (remove1 a (queue (pools d p) q))) = int (length (queue (pools d p) q)) - 1"
    using a(3) length_pos_if_in_set [OF a(3)] by (simp add: length_remove1 of_nat_diff Suc_leI del: length_greater_0_conv)
  then show "surplus d' = surplus d"
    by (cases q) (auto simp: surplus_def fun_eq_iff d' count_queue_def set_queue_def)
qed

lemma queue_of_cong: "binding_state l' = binding_state l \<Longrightarrow> flags l' = flags l \<Longrightarrow> queue_of l' = queue_of l"
  by (simp add: queue_of_def)

lemma lease_enqueue_ok:
  assumes ok: "queues_ok d" "\<not> on_queue d a" and a: "l_pool (heap d a) = Some p" "queue_of (heap d a) = Some q"
    and side: "side_ok S d"
  shows "\<exists>d'. lease_enqueue d a = (d', True) \<and> queues_ok d' \<and> (\<forall>b. on_queue d' b \<longleftrightarrow> b = a \<or> on_queue d b) \<and>
           surplus d' = surplus d \<and> side_ok S d' \<and> cur_tv d' = cur_tv d \<and> others_stay a d d' \<and>
           (\<forall>p. failover_peer (pools d' p) = failover_peer (pools d p)) \<and> peers d' = peers d \<and> same_timers d d' \<and>
           (\<forall>b. heap d' b = (heap d b)\<lparr>sort_time := if b = a then enqueue_time d p (heap d a) else sort_time (heap d b)\<rparr>)"
proof -
  define d1 where "d1 = upd_pool p (count_queue q 1) d"
  define d2 where "d2 = upd_lease a (\<lambda>l. l\<lparr>sort_time := enqueue_time d1 p l\<rparr>) d1"
  define d3 where "d3 = upd_pool p (set_queue q (queue_insert (heap d2) a (queue (pools d2 p) q))) d2"
  have et: "enqueue_time d1 p l = enqueue_time d p l" for l
    by (simp add: d1_def enqueue_time_def peer_in_state_def split: option.split)
  have eq: "lease_enqueue d a = (d3, True)"
    using a by (simp add: lease_enqueue_def d1_def d2_def d3_def Let_def upd_pool_def upd_lease_def)
  have q: "queue (pools d2 p') = queue (pools d p')" for p' by (simp add: d1_def d2_def)
  have on2: "on_queue d2 = on_queue d" by (rule on_queue_cong) (rule q)
  have ok2: "queues_ok d2"
  proof (rule queues_ok_cong [OF _ q ok(1)])
    fix b assume "on_queue d b"
    then show "queue_view (heap d2 b) = queue_view (heap d b)" using ok(2) by (auto simp: d2_def d1_def)
  qed
  have a2: "l_pool (heap d2 a) = Some p" "queue_of (heap d2 a) = Some q"
    using a queue_of_cong [of "heap d2 a" "heap d a"] by (simp_all add: d2_def d1_def)
  have non: "\<not> on_queue d2 a" using ok(2) on2 by simp
  note I = queues_ok_insert [OF ok2 non a2 d3_def]
  have out: "a \<notin> set (queue (pools d p) q)" using ok(2) by (auto simp: on_queue_def)
  have "length (queue_insert (heap d2) a (queue (pools d p) q)) = Suc (length (queue (pools d p) q))"
    using queue_insert_split [of "queue (pools d p) q" "heap d2" a] by auto
  then have "surplus d3 = surplus d"
    by (cases q) (auto simp: surplus_def fun_eq_iff d3_def d2_def d1_def count_queue_def set_queue_def)
  moreover have "side_ok S d3" using side unfolding d3_def d2_def d1_def
    by (simp add: side_ok_upd_pool side_ok_upd_lease side_view_def)
  moreover have "others_stay a d d3"
    by (auto simp: d3_def others_stay_def filter_queue_insert q simp del: upd_lease_sel)
  moreover have "same_timers d d3" by (simp add: d3_def d2_def d1_def same_timers_def count_queue_def set_queue_def split: queue_name.split)
  ultimately show ?thesis using eq I on2 et by (auto simp: d3_def d2_def d1_def)
qed

lemma merge_flags_bits: "bit (merge_flags f g) 4 = bit g 4" "bit (merge_flags f g) 5 = bit g 5"
proof -
  have "bit PERSISTENT_FLAGS 4" "bit PERSISTENT_FLAGS 5" "\<not> bit EPHEMERAL_FLAGS 4" "\<not> bit EPHEMERAL_FLAGS 5"
    by (simp_all add: PERSISTENT_FLAGS_def EPHEMERAL_FLAGS_def ON_ACK_QUEUE_def ON_UPDATE_QUEUE_def MS_NULL_TERMINATION_def
        UNICAST_BROADCAST_HACK_def RESERVED_LEASE_def BOOTP_LEASE_def bit_or_iff)
  then show "bit (merge_flags f g) 4 = bit g 4" "bit (merge_flags f g) 5 = bit g 5"
    by (simp_all add: merge_flags_def bit_or_iff bit_and_iff bit_not_iff)
qed

text \<open>What a move does to the lease \<open>a\<close> and to the others.\<close>

definition lease_moved :: "ptr \<Rightarrow> db \<Rightarrow> db \<Rightarrow> bool" where
  "lease_moved a d d' \<longleftrightarrow>
     binding_state (heap d' a) = next_binding_state (heap d a) \<and>
     next_binding_state (heap d' a) =
       after_state (lease_peer d (heap d a) \<noteq> None) (next_binding_state (heap d a)) (next_binding_state (heap d a)) \<and>
     ends (heap d' a) = ends (heap d a) \<and> l_pool (heap d' a) = l_pool (heap d a) \<and>
     (lease_peer d (heap d a) = None \<longrightarrow> sort_time (heap d' a) = ends (heap d a)) \<and>
     ends (heap d a) \<le> sort_time (heap d' a) \<and>
     (\<forall>b. b \<noteq> a \<longrightarrow> state_view (heap d' b) = state_view (heap d b)) \<and>
     others_stay a d d' \<and> surplus d' = surplus d \<and> cur_tv d' = cur_tv d \<and>
     (\<forall>p. failover_peer (pools d' p) = failover_peer (pools d p))"

lemma save_lease_timers: "save_lease e d cp p pg = (d', b) \<Longrightarrow> same_timers d d'"
  by (auto simp: save_lease_def same_timers_def write_lease_def commit_leases_def Let_def split: if_splits)

lemma tell_peer_timers:
  assumes "tell_peer e d cp p pg pimm chk = Ret d'" "l_pool (heap d cp) = Some p" "failover_peer (pools d p) = None"
  shows "same_timers d d'"
proof -
  have "dhcp_failover_queue_update e (upd_lease cp (\<lambda>l. l\<lparr>desired_binding_state := binding_state l\<rparr>) d) cp pimm =
      Ret (upd_lease cp (\<lambda>l. l\<lparr>desired_binding_state := binding_state l\<rparr>) d)"
    using assms(2,3) by (simp add: dhcp_failover_queue_update_def)
  then show ?thesis using assms by (auto simp: tell_peer_def same_timers_def split: if_splits)
qed

lemma finish_ok:
  assumes side: "side_ok S d" and cp: "cp \<in> S" and ok: "queues_ok d" and cm: "commit \<or> \<not> pimm"
  shows "\<exists>d' r. finish_move e d cp p commit pg pimm chk = Ret (d', r) \<and>
           r \<noteq> Some True \<and> side_ok S d' \<and> queues_ok d' \<and> calm d d' \<and>
           (l_pool (heap d cp) = Some p \<and> failover_peer (pools d p) = None \<and> sort_time (heap d cp) \<le> cur_time d \<longrightarrow>
            same_timers d d')"
proof -
  obtain d1 where d1: "arm_pool_timer d cp p = Ret d1" "side_ok S d1" "calm d d1"
    using arm_pool_timer_ok [OF side] by blast
  obtain d2 b where d2: "(if commit then save_lease e d1 cp p pg else (d1, True)) = (d2, b)" by fastforce
  have s2: "side_ok S d2" "calm d1 d2"
    using d2 save_lease_ok [OF d1(2), of e cp p pg d2 b] d1(2) by (auto split: if_splits)
  obtain d3 where d3: "tell_peer e d2 cp p pg pimm chk = Ret d3" "side_ok S d3" "calm d2 d3"
    using tell_peer_ok [OF s2(1) cp] by blast
  note c2 = calm_trans [OF d1(3) s2(2)]
  note c3 = calm_trans [OF c2 d3(3)]
  have quiet: "same_timers d d2 \<and> same_timers d d3"
    if "l_pool (heap d cp) = Some p" "failover_peer (pools d p) = None" "sort_time (heap d cp) \<le> cur_time d"
  proof -
    have "d1 = d" using d1(1) that(3) by (simp add: arm_pool_timer_def)
    then have 2: "same_timers d d2" using d2 save_lease_timers [of e d1 cp p pg d2 b] by (auto split: if_splits)
    have "l_pool (heap d2 cp) = Some p" "failover_peer (pools d2 p) = None"
      using c2 that by (auto simp: calm_def state_view_def queue_view_def)
    then have "same_timers d2 d3" by (rule tell_peer_timers [OF d3(1)])
    then show ?thesis using 2 same_timers_trans by blast
  qed
  show ?thesis using d1(1) cm d2 d3 s2(1) c2 c3 calm_queues_ok [OF c2 ok] calm_queues_ok [OF c3 ok] quiet
    by (cases b) (auto simp: finish_move_def)
qed

lemma db_okD:
  assumes "db_ok S d"
  shows "queues_ok d" "side_ok S d" "a \<in> S \<longleftrightarrow> on_queue d a"
  using assms by (auto simp: db_ok_def)

lemma queue_of_valid: "(\<forall>x. binding_state l \<noteq> FTS_BOGUS x) \<Longrightarrow> \<exists>q. queue_of l = Some q"
  by (cases "binding_state l") (auto simp: queue_of_def)

lemma supersede_move_ok:
  assumes db: "db_ok S d" and cp: "cp \<in> S" and valid: "\<forall>x. next_binding_state (heap d cp) \<noteq> FTS_BOGUS x"
    and cm: "commit \<or> \<not> pimm"
  shows "\<exists>d' r. supersede_move e d cp lease commit pg pimm = Ret (d', r) \<and> r \<noteq> Some True \<and> db_ok S d' \<and>
           lease_moved cp d d' \<and> (lease = None \<longrightarrow> bit (flags (heap d' cp)) 2 = bit (flags (heap d cp)) 2) \<and>
           (lease_peer d (heap d cp) = None \<and> ends (heap d cp) \<le> cur_time d \<longrightarrow> same_timers d d')"
proof -
  note D = db_okD [OF db]
  obtain p q where pq: "l_pool (heap d cp) = Some p" "queue_of (heap d cp) = Some q" "cp \<in> set (queue (pools d p) q)"
    using on_queue_unique [OF D(1)] D(3) cp by blast
  define d1 where "d1 = (if pg then upd_lease cp (\<lambda>l. l\<lparr>atsfp := 0\<rparr>) d else d)"
  have c1: "calm d d1" "side_ok S d1"
    using D(2) by (auto simp: d1_def side_ok_upd_lease side_view_def state_view_def queue_view_def queue_of_def intro!: calm_upd_lease)
  have h1: "l_pool (heap d1 cp) = Some p" "queue_of (heap d1 cp) = Some q" "cp \<in> set (queue (pools d1 p) q)"
    "flags (heap d1 cp) = flags (heap d cp)"
    using pq c1(1) by (auto simp: calm_def state_view_def queue_view_def d1_def)
  define d3 where "d3 = upd_pool p (set_queue q (remove1 cp (queue (pools d1 p) q))) (upd_pool p (count_queue q (-1)) d1)"
  note T = take_off [OF calm_queues_ok [OF c1(1) D(1)] h1(1-3) d3_def]
  define d4 where "d4 = (case lease of Some s \<Rightarrow> upd_lease cp (\<lambda>l. l\<lparr>flags := merge_flags (flags (heap d3 s)) (flags l)\<rparr>) d3
                         | None \<Rightarrow> d3)"
  have 4: "at_lease cp d3 d4" "side_ok S d4"
    using T(5) [of S] c1(2) by (auto simp: d4_def side_ok_upd_lease side_view_def merge_flags_bits split: option.split)
  obtain d5 where d5: "make_binding_state_transition e d4 cp = Ret d5" "side_ok S d5" "at_lease cp d4 d5"
      "moved d4 (heap d4 cp) (heap d5 cp)"
    using transition_ok [OF 4(2) cp] by blast
  note al = at_lease_trans [OF 4(1) d5(3)]
  note Q5 = at_lease_queues [OF al T(1,2)]
  have s4: "l_pool (heap d4 cp) = Some p" "next_binding_state (heap d4 cp) = next_binding_state (heap d cp)"
    "ends (heap d4 cp) = ends (heap d cp)"
    using h1(1) by (auto simp: d4_def T(6) d1_def split: option.split)
  have lp: "lease_peer d4 (heap d4 cp) = lease_peer d (heap d cp)"
    using s4(1) pq(1) c1(1) by (auto simp: lease_peer_def d4_def d3_def calm_def split: option.split)
  have s5: "l_pool (heap d5 cp) = Some p" "binding_state (heap d5 cp) = next_binding_state (heap d cp)"
      "ends (heap d5 cp) = ends (heap d cp)"
      "next_binding_state (heap d5 cp) = after_state (lease_peer d (heap d cp) \<noteq> None)
         (next_binding_state (heap d cp)) (next_binding_state (heap d cp))"
      "flags (heap d5 cp) = flags (heap d4 cp)"
    using d5(4) s4 lp by (auto simp: moved_def side_view_def)
  then obtain q' where q': "queue_of (heap d5 cp) = Some q'" using queue_of_valid [of "heap d5 cp"] valid by auto
  have off5: "\<not> on_queue d5 cp" using Q5(2) T(2) by simp
  obtain d6 where d6: "lease_enqueue d5 cp = (d6, True)" "queues_ok d6" "\<forall>b. on_queue d6 b \<longleftrightarrow> b = cp \<or> on_queue d5 b"
      "surplus d6 = surplus d5" "side_ok S d6" "cur_tv d6 = cur_tv d5" "others_stay cp d5 d6"
      "\<forall>p. failover_peer (pools d6 p) = failover_peer (pools d5 p)" "same_timers d5 d6"
      "\<forall>b. heap d6 b = (heap d5 b)\<lparr>sort_time := if b = cp then enqueue_time d5 p (heap d5 cp) else sort_time (heap d5 b)\<rparr>"
    using lease_enqueue_ok [OF Q5(1) off5 s5(1) q' d5(2)] by (elim exE conjE) (rule that; assumption)
  define chk where "chk \<longleftrightarrow> binding_state (heap d1 cp) = FTS_FREE \<or> binding_state (heap d1 cp) = FTS_BACKUP"
  obtain d7 r where d7: "finish_move e d6 cp p commit pg pimm chk = Ret (d7, r)"
      "r \<noteq> Some True" "side_ok S d7" "queues_ok d7" "calm d6 d7"
      "l_pool (heap d6 cp) = Some p \<and> failover_peer (pools d6 p) = None \<and> sort_time (heap d6 cp) \<le> cur_time d6 \<longrightarrow> same_timers d6 d7"
    using finish_ok [OF d6(5) cp d6(2) cm] by blast
  have rm: "queue_remove cp (queue (pools d1 p) q) = Ret (remove1 cp (queue (pools d1 p) q))"
    using h1(3) by (simp add: queue_remove_def)
  have rq: "requeue_lease e d4 cp p commit pg pimm chk = Ret (d7, r)"
    using cm by (auto simp: requeue_lease_def d5(1) d6(1) d7(1))
  have eq: "supersede_move e d cp lease commit pg pimm = Ret (d7, r)"
    unfolding supersede_move_def d1_def [symmetric]
    using h1(1,2) by (simp add: Let_def rm chk_def [symmetric]) (simp only: d3_def [symmetric] d4_def [symmetric] rq)
  have st: "state_view (heap d7 b) = state_view (heap d6 b)" for b using d7(5) by (simp add: calm_def)
  have on: "on_queue d7 b \<longleftrightarrow> b = cp \<or> on_queue d b" for b
    using calm_on_queue [OF d7(5)] d6(3) Q5(2) T(2) T(3) [of b] calm_on_queue [OF c1(1)] by metis
  have "db_ok S d7" using d7(3,4) on D(3) cp by (auto simp: db_ok_def)
  moreover have "lease_moved cp d d7"
    unfolding lease_moved_def
  proof (intro conjI allI impI)
    have v: "binding_state (heap d7 cp) = binding_state (heap d5 cp)" "next_binding_state (heap d7 cp) = next_binding_state (heap d5 cp)"
      "ends (heap d7 cp) = ends (heap d5 cp)" "l_pool (heap d7 cp) = l_pool (heap d5 cp)"
      "sort_time (heap d7 cp) = enqueue_time d5 p (heap d5 cp)"
      using st [of cp] d6(10) [THEN spec, of cp] by (simp_all add: state_view_def queue_view_def)
    show "binding_state (heap d7 cp) = next_binding_state (heap d cp)" "ends (heap d7 cp) = ends (heap d cp)"
      "next_binding_state (heap d7 cp) = after_state (lease_peer d (heap d cp) \<noteq> None)
         (next_binding_state (heap d cp)) (next_binding_state (heap d cp))" "l_pool (heap d7 cp) = l_pool (heap d cp)"
      using v s5 pq(1) by simp_all
    show "sort_time (heap d7 cp) = ends (heap d cp)" if "lease_peer d (heap d cp) = None"
    proof -
      have "failover_peer (pools d5 p) = None"
        using that pq(1) c1(1) at_lease_sel(1) [OF al] by (simp add: lease_peer_def d3_def calm_def)
      then show ?thesis using v(5) s5(3) by (simp add: enqueue_time_def peer_in_state_def)
    qed
    show "ends (heap d cp) \<le> sort_time (heap d7 cp)" using v(5) s5(3) by (simp add: enqueue_time_def)
    show "state_view (heap d7 b) = state_view (heap d b)" if "b \<noteq> cp" for b
    proof -
      have "heap d6 b = heap d5 b" using d6(10) that by simp
      moreover have "heap d5 b = heap d3 b" using al that by (simp add: at_lease_def)
      ultimately show ?thesis using st [of b] T(6) c1(1) by (simp add: calm_def)
    qed
    have "others_stay cp d d3" using others_stay_trans [OF calm_others [OF c1(1)] T(7)] .
    moreover have "others_stay cp d3 d5" using at_lease_sel(1) [OF al] by (simp add: others_stay_def)
    ultimately show "others_stay cp d d7"
      using others_stay_trans d6(7) calm_others [OF d7(5)] by blast
    show "surplus d7 = surplus d"
      using calm_surplus [OF d7(5)] d6(4) Q5(3) T(4) calm_surplus [OF c1(1)] by (simp add: fun_eq_iff)
    show "cur_tv d7 = cur_tv d" using d7(5) d6(6) at_lease_sel(3) [OF al] c1(1) by (simp add: calm_def d3_def)
    show "failover_peer (pools d7 p') = failover_peer (pools d p')" for p'
      using d7(5) d6(8) at_lease_sel(1) [OF al] c1(1) by (simp add: calm_def d3_def)
  qed
  moreover have "bit (flags (heap d7 cp)) 2 = bit (flags (heap d cp)) 2" if "lease = None"
    using st [of cp] d6(10) [THEN spec, of cp] s5(5) that h1(4) T(6) by (simp add: state_view_def d4_def)
  moreover have "same_timers d d7" if "lease_peer d (heap d cp) = None" "ends (heap d cp) \<le> cur_time d"
  proof -
    have 5: "failover_peer (pools d5 p) = None"
      using that(1) pq(1) c1(1) at_lease_sel(1) [OF al] by (simp add: lease_peer_def d3_def calm_def)
    have "l_pool (heap d6 cp) = Some p" using d6(10) s5(1) by simp
    moreover have "sort_time (heap d6 cp) = ends (heap d cp)"
      using d6(10) s5(3) 5 by (simp add: enqueue_time_def peer_in_state_def)
    moreover have "cur_tv d6 = cur_tv d" using d6(6) at_lease_sel(3) [OF al] c1(1) by (simp add: calm_def d3_def)
    ultimately have "same_timers d6 d7" using d7(6) d6(8) 5 that(2) by simp
    moreover have "same_timers d d3" by (simp add: same_timers_def d3_def d1_def count_queue_def set_queue_def split: queue_name.split)
    moreover have "same_timers d3 d5" using at_lease_sel [OF al] by (simp add: same_timers_def)
    ultimately show ?thesis using d6(9) same_timers_trans by blast
  qed
  ultimately show ?thesis using eq d7(2) by (intro exI [of _ d7] exI [of _ r] conjI impI) auto
qed

section \<open>Copying a lease\<close>

text \<open>What copying the data of a lease to \<open>cp\<close> leaves alone.\<close>

definition place_view where
  "place_view l = (flags l, next_pending l, l_pool l, binding_state l, sort_time l, ip_addr l)"

definition copy_frame :: "ptr \<Rightarrow> db \<Rightarrow> db \<Rightarrow> bool" where
  "copy_frame cp d d' \<longleftrightarrow> (\<forall>b. place_view (heap d' b) = place_view (heap d b)) \<and>
     (\<forall>b. b \<noteq> cp \<longrightarrow> next_binding_state (heap d' b) = next_binding_state (heap d b) \<and> ends (heap d' b) = ends (heap d b)) \<and>
     pools d' = pools d \<and> peers d' = peers d \<and> cur_tv d' = cur_tv d \<and> pool_list d' = pool_list d \<and>
     no_memory d' = no_memory d \<and> isc_fails d' = isc_fails d"

lemma copy_frame_refl [simp]: "copy_frame cp d d"
  by (simp add: copy_frame_def)

lemma copy_frame_trans [trans]: "copy_frame cp d d' \<Longrightarrow> copy_frame cp d' d'' \<Longrightarrow> copy_frame cp d d''"
  by (simp add: copy_frame_def)

lemma copy_frame_upd:
  "place_view (f (heap d a)) = place_view (heap d a) \<Longrightarrow>
   (a \<noteq> cp \<Longrightarrow> next_binding_state (f (heap d a)) = next_binding_state (heap d a) \<and> ends (f (heap d a)) = ends (heap d a)) \<Longrightarrow>
   copy_frame cp d (upd_lease a f d)"
  by (auto simp: copy_frame_def)

lemma uid_frame_copy: assumes "uid_frame d d'" shows "copy_frame cp d d'"
proof -
  have e: "(heap d' a)\<lparr>n_uid := None\<rparr> = (heap d a)\<lparr>n_uid := None\<rparr>" for a using assms by (simp add: uid_frame_def)
  have h: "d'\<lparr>heap := \<lambda>_. new_lease, uid_hash := \<lambda>_. None\<rparr> = d\<lparr>heap := \<lambda>_. new_lease, uid_hash := \<lambda>_. None\<rparr>"
    using assms by (simp add: uid_frame_def)
  have "place_view ((heap d' a)\<lparr>n_uid := None\<rparr>) = place_view ((heap d a)\<lparr>n_uid := None\<rparr>)"
    "next_binding_state ((heap d' a)\<lparr>n_uid := None\<rparr>) = next_binding_state ((heap d a)\<lparr>n_uid := None\<rparr>)"
    "ends ((heap d' a)\<lparr>n_uid := None\<rparr>) = ends ((heap d a)\<lparr>n_uid := None\<rparr>)" for a by (simp_all only: e)
  then show ?thesis
    using arg_cong [OF h, of pools] arg_cong [OF h, of peers] arg_cong [OF h, of cur_tv] arg_cong [OF h, of pool_list]
      arg_cong [OF h, of no_memory] arg_cong [OF h, of isc_fails]
    by (simp add: copy_frame_def place_view_def)
qed

lemma hw_frame_copy: assumes "hw_frame d d'" shows "copy_frame cp d d'"
proof -
  have e: "(heap d' a)\<lparr>n_hw := None\<rparr> = (heap d a)\<lparr>n_hw := None\<rparr>" for a using assms by (simp add: hw_frame_def)
  have h: "d'\<lparr>heap := \<lambda>_. new_lease, hw_hash := \<lambda>_. None\<rparr> = d\<lparr>heap := \<lambda>_. new_lease, hw_hash := \<lambda>_. None\<rparr>"
    using assms by (simp add: hw_frame_def)
  have "place_view ((heap d' a)\<lparr>n_hw := None\<rparr>) = place_view ((heap d a)\<lparr>n_hw := None\<rparr>)"
    "next_binding_state ((heap d' a)\<lparr>n_hw := None\<rparr>) = next_binding_state ((heap d a)\<lparr>n_hw := None\<rparr>)"
    "ends ((heap d' a)\<lparr>n_hw := None\<rparr>) = ends ((heap d a)\<lparr>n_hw := None\<rparr>)" for a by (simp_all only: e)
  then show ?thesis
    using arg_cong [OF h, of pools] arg_cong [OF h, of peers] arg_cong [OF h, of cur_tv] arg_cong [OF h, of pool_list]
      arg_cong [OF h, of no_memory] arg_cong [OF h, of isc_fails]
    by (simp add: copy_frame_def place_view_def)
qed

lemma copy_frame_queues:
  assumes "copy_frame cp d d'" shows "queues_ok d \<Longrightarrow> queues_ok d'" "on_queue d' = on_queue d" "surplus d' = surplus d"
proof -
  have "queue_view (heap d' a) = queue_view (heap d a)" for a
    using assms queue_of_cong [of "heap d' a" "heap d a"] by (simp add: copy_frame_def place_view_def queue_view_def)
  then show "queues_ok d \<Longrightarrow> queues_ok d'" using queues_ok_cong [of d d'] assms by (simp add: copy_frame_def)
qed (use assms in \<open>simp_all add: copy_frame_def on_queue_def surplus_def fun_eq_iff\<close>)

lemma copy_frame_fq: "copy_frame cp d d' \<Longrightarrow> fq_ok S d' U A = fq_ok S d U A"
  by (rule fq_ok_cong) (simp_all add: copy_frame_def place_view_def fun_eq_iff pend_def on_update_def on_ack_def peer_of_def)

text \<open>The client indexes, for the leases \<open>T\<close> that may be on their chains.\<close>

definition index_part :: "ptr set \<Rightarrow> db \<Rightarrow> bool" where
  "index_part T d \<longleftrightarrow> (\<exists>H. uid_ok d H \<and> (\<forall>a. a \<notin> T \<longrightarrow> unindexed H a)) \<and> (\<exists>H. hw_ok d H \<and> (\<forall>a. a \<notin> T \<longrightarrow> unindexed H a))"

lemma rest_ok_iff: "rest_ok S d \<longleftrightarrow> index_part S d \<and> (\<exists>U A. fq_ok S d U A) \<and> \<not> no_memory d \<and> \<not> isc_fails d"
  by (auto simp: rest_ok_def index_part_def)

lemma index_ok_rekey:
  assumes "index_ok nx kf tbl H" and "\<And>b. \<not> unindexed H b \<Longrightarrow> kf' b = kf b" shows "index_ok nx kf' tbl H"
  using assms unfolding index_ok_def unindexed_def by metis

lemma index_part_upd:
  assumes "index_part T d" "a \<notin> T" "n_uid (f (heap d a)) = n_uid (heap d a) \<and> n_hw (f (heap d a)) = n_hw (heap d a)"
  shows "index_part T (upd_lease a f d)"
proof -
  have l: "(\<lambda>b. n_uid (heap (upd_lease a f d) b)) = (\<lambda>b. n_uid (heap d b))"
    "(\<lambda>b. n_hw (heap (upd_lease a f d) b)) = (\<lambda>b. n_hw (heap d b))"
    "find_lease_by_uid (upd_lease a f d) = find_lease_by_uid d" "find_lease_by_hw_addr (upd_lease a f d) = find_lease_by_hw_addr d"
    using assms(3) by (auto simp: fun_eq_iff find_lease_by_uid_def find_lease_by_hw_addr_def)
  have "uid_ok (upd_lease a f d) H" if "uid_ok d H" "\<forall>a. a \<notin> T \<longrightarrow> unindexed H a" for H
    using that assms(2) unfolding uid_ok_def l by (auto elim!: index_ok_rekey)
  moreover have "hw_ok (upd_lease a f d) H" if "hw_ok d H" "\<forall>a. a \<notin> T \<longrightarrow> unindexed H a" for H
    using that assms(2) unfolding hw_ok_def l by (auto elim!: index_ok_rekey)
  ultimately show ?thesis using assms(1) unfolding index_part_def by blast
qed

lemma index_part_at_lease:
  assumes "index_part T d" "at_lease a d d'" "side_view (heap d' a) = side_view (heap d a)" shows "index_part T d'"
proof -
  have "n_uid (heap d' b) = n_uid (heap d b)" "n_hw (heap d' b) = n_hw (heap d b)"
    "uid (heap d' b) = uid (heap d b)" "hardware_addr (heap d' b) = hardware_addr (heap d b)" for b
    using assms(2,3) by (cases "b = a"; simp add: at_lease_def side_view_def)+
  then have "uid_ok d' H = uid_ok d H" "hw_ok d' H = hw_ok d H" for H
    using at_lease_sel(5,6) [OF assms(2)] by (simp_all add: uid_ok_def uid_key_def find_lease_by_uid_def [abs_def]
        hw_ok_def hw_key_def find_lease_by_hw_addr_def [abs_def] cong: if_cong)
  then show ?thesis using assms(1) by (simp add: index_part_def)
qed

lemma unindexed_del: "unindexed H b \<Longrightarrow> unindexed (index_del ko a H) b"
  by (auto simp: unindexed_def index_del_def notin_set_remove1 split: option.splits)

lemma unindexed_add: "unindexed H b \<Longrightarrow> b \<noteq> a \<Longrightarrow> unindexed (index_add h ko a H) b"
  by (auto simp: unindexed_def index_add_def split: option.splits)

text \<open>The links of the indexes are no concern of the rest of a lease.\<close>

definition client_view where
  "client_view l = (uid l, uid_in_buf l, hardware_addr l, billing_class l, next_binding_state l, ends l, place_view l)"

lemma uid_frame_client:
  assumes "uid_frame d d'" shows "client_view (heap d' b) = client_view (heap d b)" "billing_ok S d' = billing_ok S d"
proof -
  have e: "(heap d' a)\<lparr>n_uid := None\<rparr> = (heap d a)\<lparr>n_uid := None\<rparr>" for a using assms by (simp add: uid_frame_def)
  have h: "d'\<lparr>heap := \<lambda>_. new_lease, uid_hash := \<lambda>_. None\<rparr> = d\<lparr>heap := \<lambda>_. new_lease, uid_hash := \<lambda>_. None\<rparr>"
    using assms by (simp add: uid_frame_def)
  have v: "client_view (heap d' b) = client_view (heap d b)" for b
    using arg_cong [OF e [of b], of client_view] by (simp add: client_view_def place_view_def)
  then show "client_view (heap d' b) = client_view (heap d b)" .
  show "billing_ok S d' = billing_ok S d"
    by (rule billing_ok_cong) (use v arg_cong [OF h, of classes] in \<open>simp_all add: client_view_def\<close>)
qed

lemma hw_frame_client:
  assumes "hw_frame d d'" shows "client_view (heap d' b) = client_view (heap d b)" "billing_ok S d' = billing_ok S d"
proof -
  have e: "(heap d' a)\<lparr>n_hw := None\<rparr> = (heap d a)\<lparr>n_hw := None\<rparr>" for a using assms by (simp add: hw_frame_def)
  have h: "d'\<lparr>heap := \<lambda>_. new_lease, hw_hash := \<lambda>_. None\<rparr> = d\<lparr>heap := \<lambda>_. new_lease, hw_hash := \<lambda>_. None\<rparr>"
    using assms by (simp add: hw_frame_def)
  have v: "client_view (heap d' b) = client_view (heap d b)" for b
    using arg_cong [OF e [of b], of client_view] by (simp add: client_view_def place_view_def)
  then show "client_view (heap d' b) = client_view (heap d b)" .
  show "billing_ok S d' = billing_ok S d"
    by (rule billing_ok_cong) (use v arg_cong [OF h, of classes] in \<open>simp_all add: client_view_def\<close>)
qed

lemma hw_ok_upd:
  assumes "n_hw (f (heap d a)) = n_hw (heap d a)" "hardware_addr (f (heap d a)) = hardware_addr (heap d a)"
  shows "hw_ok (upd_lease a f d) H = hw_ok d H"
proof -
  have "(\<lambda>b. n_hw (heap (upd_lease a f d) b)) = (\<lambda>b. n_hw (heap d b))"
    "(\<lambda>b. hw_key (heap (upd_lease a f d) b)) = (\<lambda>b. hw_key (heap d b))"
    "find_lease_by_hw_addr (upd_lease a f d) = find_lease_by_hw_addr d"
    using assms by (auto simp: fun_eq_iff find_lease_by_hw_addr_def hw_key_def)
  then show ?thesis by (simp only: hw_ok_def)
qed

lemma delete_uid_ok:
  assumes "index_part T d"
  shows "\<exists>d' Hu Hw. (if uid (heap d cp) \<noteq> None
            then cbind (uid_hash_delete d cp) (\<lambda>d. Ret (upd_lease cp (\<lambda>l. l\<lparr>uid := None\<rparr>) d)) else Ret d) = Ret d' \<and>
           uid_ok d' Hu \<and> (\<forall>a. a \<notin> T - {cp} \<longrightarrow> unindexed Hu a) \<and> hw_ok d' Hw \<and> (\<forall>a. a \<notin> T \<longrightarrow> unindexed Hw a) \<and>
           copy_frame cp d d' \<and> (\<forall>b. b \<noteq> cp \<longrightarrow> client_view (heap d' b) = client_view (heap d b)) \<and>
           hardware_addr (heap d' cp) = hardware_addr (heap d cp) \<and> billing_class (heap d' cp) = billing_class (heap d cp) \<and>
           billing_ok S d' = billing_ok S d"
proof -
  obtain Hu Hw where H: "uid_ok d Hu" "\<forall>a. a \<notin> T \<longrightarrow> unindexed Hu a" "hw_ok d Hw" "\<forall>a. a \<notin> T \<longrightarrow> unindexed Hw a"
    using assms by (auto simp: index_part_def)
  show ?thesis
  proof (cases "uid (heap d cp)")
    case None
    have "unindexed Hu cp"
      using None index_okD(4) [OF H(1) [unfolded uid_ok_def], of cp] by (auto simp: unindexed_def uid_key_def)
    then show ?thesis using None H by (intro exI [of _ d] exI [of _ Hu] exI [of _ Hw]) auto
  next
    case (Some u)
    obtain d1 where d1: "uid_hash_delete d cp = Ret d1" "uid_ok d1 (index_del (uid_key (heap d cp)) cp Hu)" "uid_frame d d1"
        "unindexed (index_del (uid_key (heap d cp)) cp Hu) cp"
      using uid_hash_delete_ok [OF H(1) Some] by blast
    let ?Hu = "index_del (uid_key (heap d cp)) cp Hu" and ?d2 = "upd_lease cp (\<lambda>l. l\<lparr>uid := None\<rparr>) d1"
    have un: "unindexed ?Hu a" if "a \<notin> T - {cp}" for a using that d1(4) unindexed_del H(2) by (cases "a = cp") auto
    have l: "(\<lambda>b. n_uid (heap ?d2 b)) = (\<lambda>b. n_uid (heap d1 b))" "find_lease_by_uid ?d2 = find_lease_by_uid d1"
      by (auto simp: fun_eq_iff find_lease_by_uid_def)
    have "uid_ok ?d2 ?Hu" unfolding uid_ok_def l
      by (rule index_ok_rekey [OF d1(2) [unfolded uid_ok_def]]) (use d1(4) in auto)
    moreover have "hw_ok ?d2 Hw = hw_ok d1 Hw" by (rule hw_ok_upd) simp_all
    then have "hw_ok ?d2 Hw" using uid_frame_hw_ok [OF d1(3)] H(3) by simp
    moreover have "copy_frame cp d ?d2"
      by (rule copy_frame_trans [OF uid_frame_copy [OF d1(3)] copy_frame_upd]) (simp_all add: place_view_def)
    moreover have "billing_ok S ?d2 = billing_ok S d"
      using uid_frame_client(2) [OF d1(3)] billing_ok_cong [of ?d2 d1 S] by simp
    ultimately show ?thesis using Some d1(1) un H(4) uid_frame_client(1) [OF d1(3)]
      by (intro exI [of _ ?d2] exI [of _ ?Hu] exI [of _ Hw]) (auto simp: client_view_def)
  qed
qed

lemma unindex_lease_ok:
  assumes "index_part T d"
  shows "\<exists>d'. unindex_lease d cp = Ret d' \<and> index_part (T - {cp}) d' \<and> copy_frame cp d d' \<and>
           (\<forall>b. b \<noteq> cp \<longrightarrow> client_view (heap d' b) = client_view (heap d b)) \<and>
           billing_class (heap d' cp) = billing_class (heap d cp) \<and> billing_ok S d' = billing_ok S d"
proof -
  obtain d1 Hu Hw where d1: "(if uid (heap d cp) \<noteq> None
            then cbind (uid_hash_delete d cp) (\<lambda>d. Ret (upd_lease cp (\<lambda>l. l\<lparr>uid := None\<rparr>) d)) else Ret d) = Ret d1"
      "uid_ok d1 Hu" "\<forall>a. a \<notin> T - {cp} \<longrightarrow> unindexed Hu a" "hw_ok d1 Hw" "\<forall>a. a \<notin> T \<longrightarrow> unindexed Hw a"
      "copy_frame cp d d1" "\<forall>b. b \<noteq> cp \<longrightarrow> client_view (heap d1 b) = client_view (heap d b)"
      "hardware_addr (heap d1 cp) = hardware_addr (heap d cp)" "billing_class (heap d1 cp) = billing_class (heap d cp)"
      "billing_ok S d1 = billing_ok S d"
    using delete_uid_ok [OF assms, of cp S] by (elim exE conjE) (rule that; assumption)
  show ?thesis
  proof (cases "hardware_addr (heap d1 cp) = []")
    case True
    have "unindexed Hw cp"
      using True index_okD(4) [OF d1(4) [unfolded hw_ok_def], of cp] by (auto simp: unindexed_def hw_key_def)
    then have "index_part (T - {cp}) d1" using d1(2-5) unfolding index_part_def by blast
    then show ?thesis using d1 True by (auto simp: unindex_lease_def)
  next
    case False
    obtain d2 where d2: "hw_hash_delete d1 cp = Ret d2" "hw_ok d2 (index_del (hw_key (heap d1 cp)) cp Hw)" "hw_frame d1 d2"
        "unindexed (index_del (hw_key (heap d1 cp)) cp Hw) cp"
      using hw_hash_delete_ok [OF d1(4) refl] by blast
    have "unindexed (index_del (hw_key (heap d1 cp)) cp Hw) a" if "a \<notin> T - {cp}" for a
      using that d2(4) unindexed_del d1(5) by (cases "a = cp") auto
    then have "index_part (T - {cp}) d2"
      using hw_frame_uid_ok [OF d2(3)] d1(2,3) d2(2) unfolding index_part_def by blast
    moreover have "copy_frame cp d d2" using copy_frame_trans [OF d1(6) hw_frame_copy [OF d2(3)]] .
    ultimately show ?thesis using d1 d2(1) False hw_frame_client [OF d2(3)]
      by (auto simp: unindex_lease_def client_view_def)
  qed
qed

lemma index_lease_ok:
  assumes "index_part (T - {cp}) d" "cp \<in> T"
  shows "\<exists>d'. index_lease d cp = Ret d' \<and> index_part T d' \<and> copy_frame cp d d' \<and>
           (\<forall>b. client_view (heap d' b) = client_view (heap d b)) \<and> billing_ok S d' = billing_ok S d"
proof -
  obtain Hu Hw where H: "uid_ok d Hu" "\<forall>a. a \<notin> T - {cp} \<longrightarrow> unindexed Hu a" "hw_ok d Hw" "\<forall>a. a \<notin> T - {cp} \<longrightarrow> unindexed Hw a"
    using assms by (auto simp: index_part_def)
  have ucp: "unindexed Hu cp" "unindexed Hw cp" using H(2,4) by auto
  obtain d1 Hu' where d1: "(if uid (heap d cp) \<noteq> None then uid_hash_add d cp else Ret d) = Ret d1" "uid_ok d1 Hu'"
      "\<forall>a. a \<notin> T \<longrightarrow> unindexed Hu' a" "uid_frame d d1"
  proof (cases "uid (heap d cp)")
    case None
    then show thesis using H(1,2) by (intro that [of d Hu]) auto
  next
    case (Some u)
    have "\<forall>a. a \<notin> T \<longrightarrow> unindexed (index_add (heap d) (uid_key (heap d cp)) cp Hu) a"
      using H(2) assms(2) by (auto intro!: unindexed_add)
    with Some show thesis using uid_hash_add_ok [OF H(1) Some ucp(1)] by (auto intro!: that)
  qed
  have hw1: "hw_ok d1 Hw" using uid_frame_hw_ok [OF d1(4)] H(3) by simp
  show ?thesis
  proof (cases "hardware_addr (heap d1 cp) = []")
    case True
    have "index_part T d1" using d1(2,3) hw1 H(4) by (auto simp: index_part_def)
    then show ?thesis using d1(1) True uid_frame_copy [OF d1(4)] uid_frame_client [OF d1(4)]
      by (auto simp: index_lease_def)
  next
    case False
    obtain d2 where d2: "hw_hash_add d1 cp = Ret d2" "hw_ok d2 (index_add (heap d1) (hw_key (heap d1 cp)) cp Hw)" "hw_frame d1 d2"
      using hw_hash_add_ok [OF hw1 refl ucp(2)] by blast
    have "\<forall>a. a \<notin> T \<longrightarrow> unindexed (index_add (heap d1) (hw_key (heap d1 cp)) cp Hw) a"
      using H(4) assms(2) by (auto intro!: unindexed_add)
    then have "index_part T d2" using d1(2,3) d2(2) hw_frame_uid_ok [OF d2(3)] unfolding index_part_def by blast
    moreover have "copy_frame cp d d2" using copy_frame_trans [OF uid_frame_copy [OF d1(4)] hw_frame_copy [OF d2(3)]] .
    ultimately show ?thesis using d1(1) d2(1) False uid_frame_client [OF d1(4)] hw_frame_client [OF d2(3)]
      by (auto simp: index_lease_def)
  qed
qed

lemma bill_at_lease:
  assumes "\<forall>x. heap d' x = (heap d x)\<lparr>billing_class := if x = a then b else billing_class (heap d x)\<rparr>"
    and "d' = d\<lparr>heap := heap d', classes := classes d'\<rparr>"
  shows "at_lease a d d'" "heap d' a = (heap d a)\<lparr>billing_class := b\<rparr>"
proof -
  show "at_lease a d d'" unfolding at_lease_def
  proof
    show "\<forall>b. b \<noteq> a \<longrightarrow> heap d' b = heap d b" using assms(1) by simp
  qed (subst assms(2), simp)
  show "heap d' a = (heap d a)\<lparr>billing_class := b\<rparr>" using assms(1) by simp
qed

lemma rebill_lease_ok:
  assumes "billing_ok S d" "cp \<in> S" "s \<noteq> cp"
  shows "\<exists>d' b. rebill_lease d cp s = Ret d' \<and> billing_ok S d' \<and> at_lease cp d d' \<and>
           heap d' cp = (heap d cp)\<lparr>billing_class := b\<rparr>"
proof (cases "billing_class (heap d cp) = billing_class (heap d s)")
  case True
  then show ?thesis using assms(1) by (intro exI [of _ d] exI [of _ "billing_class (heap d cp)"]) (simp add: rebill_lease_def)
next
  case False
  obtain d1 where d1: "unbill_class d cp = Ret d1" "billing_ok S d1"
      "\<forall>b. heap d1 b = (heap d b)\<lparr>billing_class := if b = cp then None else billing_class (heap d b)\<rparr>"
      "d1 = d\<lparr>heap := heap d1, classes := classes d1\<rparr>"
    using unbill_class_ok [OF assms(1,2)] by (elim exE conjE) (rule that; assumption)
  note A1 = bill_at_lease [OF d1(3,4)]
  have u: "(if billing_class (heap d cp) \<noteq> None then unbill_class d cp else Ret d) = Ret d1"
    using d1(1) by (auto simp: unbill_class_def)
  have bs: "billing_class (heap d1 s) = billing_class (heap d s)" using d1(3) assms(3) by simp
  show ?thesis
  proof (cases "billing_class (heap d s)")
    case None
    then show ?thesis using False u bs d1(2) A1 by (intro exI [of _ d1] exI [of _ None]) (simp add: rebill_lease_def)
  next
    case (Some c)
    obtain d2 b where d2: "bill_class d1 cp c = Ret (d2, b)" "billing_ok S d2"
        "\<forall>x. heap d2 x = (heap d1 x)\<lparr>billing_class := if x = cp then (if b then Some c else None) else billing_class (heap d1 x)\<rparr>"
        "d2 = d1\<lparr>heap := heap d2, classes := classes d2\<rparr>"
      using bill_class_ok [OF d1(2) assms(2), of c] by (elim exE conjE) (rule that; assumption)
    note A2 = bill_at_lease [OF d2(3,4)]
    show ?thesis using False u bs Some d2(1,2) at_lease_trans [OF A1(1) A2(1)] A1(2) A2(2)
      by (intro exI [of _ d2] exI [of _ "if b then Some c else None"]) (simp add: rebill_lease_def)
  qed
qed

text \<open>A lease that data are copied from: it is not part of the database, and its identifier is where it can be.\<close>

definition sample_ok :: "ptr set \<Rightarrow> db \<Rightarrow> ptr \<Rightarrow> bool" where
  "sample_ok S d s \<longleftrightarrow> s \<notin> S \<and>
     (\<forall>u. uid (heap d s) = Some u \<and> uid_in_buf (heap d s) \<longrightarrow> length u \<le> UID_BUF_SIZE)"

lemma copy_uid_ok:
  assumes "\<forall>u. uid s = Some u \<and> uid_in_buf s \<longrightarrow> length u \<le> UID_BUF_SIZE"
  shows "\<exists>w. copy_uid s l = Ret (l\<lparr>uid := uid s, uid_in_buf := w\<rparr>)"
proof (cases "uid s")
  case None
  then show ?thesis by (intro exI [of _ "uid_in_buf l"]) (simp add: copy_uid_def)
next
  case (Some u)
  then show ?thesis using assms by (intro exI [of _ "length u \<le> UID_BUF_SIZE"]) (auto simp: copy_uid_def)
qed

lemma supersede_copy_ok:
  assumes db: "db_ok S d" and cp: "cp \<in> S" and s: "sample_ok S d s"
  shows "\<exists>d'. supersede_copy d cp s = Ret d' \<and> db_ok S d' \<and> copy_frame cp d d' \<and>
           next_binding_state (heap d' cp) = next_binding_state (heap d s) \<and> ends (heap d' cp) = ends (heap d s) \<and>
           uid (heap d' cp) = uid (heap d s) \<and> hardware_addr (heap d' cp) = hardware_addr (heap d s)"
proof -
  note D = db_okD [OF db]
  have sc: "s \<noteq> cp" using cp s by (auto simp: sample_ok_def)
  have B: "billing_ok S d" "index_part S d" using D(2) by (auto simp: side_ok_def rest_ok_iff)
  obtain d1 where d1: "unindex_lease d cp = Ret d1" "index_part (S - {cp}) d1" "copy_frame cp d d1"
      "\<forall>b. b \<noteq> cp \<longrightarrow> client_view (heap d1 b) = client_view (heap d b)" "billing_ok S d1"
    using unindex_lease_ok [OF B(2), of cp S] B(1) by (elim exE conjE) (rule that; simp)
  obtain d2 b where d2: "rebill_lease d1 cp s = Ret d2" "billing_ok S d2" "at_lease cp d1 d2"
      "heap d2 cp = (heap d1 cp)\<lparr>billing_class := b\<rparr>"
    using rebill_lease_ok [OF d1(5) cp sc] by blast
  have i2: "index_part (S - {cp}) d2"
    by (rule index_part_at_lease [OF d1(2) d2(3)]) (simp add: d2(4) side_view_def)
  have hs: "heap d2 s = heap d1 s" using d2(3) sc by (simp add: at_lease_def)
  have vs: "client_view (heap d2 s) = client_view (heap d s)" using hs d1(4) sc by simp
  have f2: "copy_frame cp d1 d2"
    unfolding copy_frame_def
  proof (intro conjI allI)
    fix x
    show "place_view (heap d2 x) = place_view (heap d1 x)"
      using d2(3,4) by (cases "x = cp") (simp_all add: at_lease_def place_view_def)
  qed (use d2(3) at_lease_sel [OF d2(3)] in \<open>auto simp: at_lease_def\<close>)
  obtain w where w: "copy_uid (heap d2 s) ((heap d2 cp)\<lparr>starts := starts (heap d2 s)\<rparr>) =
      Ret ((heap d2 cp)\<lparr>starts := starts (heap d2 s), uid := uid (heap d2 s), uid_in_buf := w\<rparr>)"
    using copy_uid_ok [of "heap d2 s" "(heap d2 cp)\<lparr>starts := starts (heap d2 s)\<rparr>"] s vs
    by (auto simp: sample_ok_def client_view_def)
  define l where "l = copy_client (heap d2 s) ((heap d2 cp)\<lparr>starts := starts (heap d2 s), uid := uid (heap d2 s), uid_in_buf := w\<rparr>)"
  define d3 where "d3 = upd_lease s take_client (upd_lease cp (\<lambda>_. l) d2)"
  have h3: "heap d3 cp = l" "heap d3 s = take_client (heap d2 s)" using sc by (simp_all add: d3_def)
  have lv: "place_view l = place_view (heap d2 cp)" "n_uid l = n_uid (heap d2 cp)" "n_hw l = n_hw (heap d2 cp)"
    "billing_class l = billing_class (heap d2 cp)" "uid l = uid (heap d2 s)" "hardware_addr l = hardware_addr (heap d2 s)"
    by (simp_all add: l_def copy_client_def place_view_def)
  have f3: "copy_frame cp d2 d3" unfolding d3_def
    by (rule copy_frame_trans [OF copy_frame_upd copy_frame_upd]) (use lv sc in \<open>auto simp: place_view_def take_client_def\<close>)
  have b3: "billing_ok S d3" using d2(2) lv(4) billing_ok_cong [of d3 d2 S] by (simp add: d3_def take_client_def)
  have i3: "index_part (S - {cp}) d3" unfolding d3_def
  proof (rule index_part_upd [OF index_part_upd [OF i2]])
    show "s \<notin> S - {cp}" using s by (simp add: sample_ok_def)
  qed (use lv in \<open>auto simp: take_client_def\<close>)
  obtain d4 where d4: "index_lease d3 cp = Ret d4" "index_part S d4" "copy_frame cp d3 d4"
      "\<forall>b. client_view (heap d4 b) = client_view (heap d3 b)" "billing_ok S d4"
    using index_lease_ok [OF i3 cp, of S] b3 by (elim exE conjE) (rule that; simp)
  note f4 = copy_frame_trans [OF copy_frame_trans [OF copy_frame_trans [OF d1(3) f2] f3] d4(3)]
  have "side_ok S d4"
    using d4(2,5) copy_frame_fq [OF f4] D(2) f4 by (simp add: side_ok_def rest_ok_iff copy_frame_def)
  define d5 where "d5 = upd_lease cp (copy_times (heap d4 s)) d4"
  have s5: "side_ok S d5" unfolding d5_def
    by (subst side_ok_upd_lease) (simp_all add: copy_times_def side_view_def \<open>side_ok S d4\<close>)
  have f5: "copy_frame cp d d5" unfolding d5_def
    by (rule copy_frame_trans [OF f4 copy_frame_upd]) (simp_all add: copy_times_def place_view_def)
  have "db_ok S d5" using s5 copy_frame_queues [OF f5] D by (simp add: db_ok_def)
  moreover have "supersede_copy d cp s = Ret d5"
    by (simp add: supersede_copy_def d1(1) d2(1) w Let_def l_def [symmetric] d3_def [symmetric] d4(1) d5_def)
  moreover have "client_view (heap d4 s) = client_view (take_client (heap d2 s))" "client_view (heap d4 cp) = client_view l"
    using d4(4) h3 by auto
  then have "next_binding_state (heap d4 s) = next_binding_state (heap d s)" "ends (heap d4 s) = ends (heap d s)"
    "uid (heap d4 cp) = uid (heap d s)" "hardware_addr (heap d4 cp) = hardware_addr (heap d s)"
    using vs lv(5,6) by (auto simp: client_view_def take_client_def)
  ultimately show ?thesis using f5 by (intro exI [of _ d5]) (auto simp: d5_def copy_times_def)
qed

section \<open>Changing a lease\<close>

text \<open>What the callers of \<open>supersede_lease\<close> see to.\<close>

definition request_ok :: "ptr set \<Rightarrow> db \<Rightarrow> ptr \<Rightarrow> ptr option \<Rightarrow> bool" where
  "request_ok S d cp lease \<longleftrightarrow> cp \<in> S \<and>
     (case lease of
        None \<Rightarrow> \<forall>x. next_binding_state (heap d cp) \<noteq> FTS_BOGUS x
      | Some s \<Rightarrow> sample_ok S d s \<and> \<not> has_flag (heap d s) STATIC_LEASE \<and>
                  (\<forall>x. next_binding_state (heap d s) \<noteq> FTS_BOGUS x))"

definition source_lease :: "db \<Rightarrow> ptr \<Rightarrow> ptr option \<Rightarrow> db_lease" where
  "source_lease d cp lease = (case lease of None \<Rightarrow> heap d cp | Some s \<Rightarrow> heap d s)"

text \<open>What a change does: the lease gets the data and the state, and no other lease changes.\<close>

definition lease_changed :: "ptr \<Rightarrow> db_lease \<Rightarrow> db \<Rightarrow> db \<Rightarrow> bool" where
  "lease_changed a src d d' \<longleftrightarrow>
     binding_state (heap d' a) = next_binding_state src \<and>
     next_binding_state (heap d' a) =
       after_state (lease_peer d (heap d a) \<noteq> None) (next_binding_state src) (next_binding_state src) \<and>
     ends (heap d' a) = ends src \<and> l_pool (heap d' a) = l_pool (heap d a) \<and>
     (lease_peer d (heap d a) = None \<longrightarrow> sort_time (heap d' a) = ends src) \<and>
     ends src \<le> sort_time (heap d' a) \<and>
     (\<forall>b. b \<noteq> a \<longrightarrow> state_view (heap d' b) = state_view (heap d b)) \<and>
     others_stay a d d' \<and> surplus d' = surplus d \<and> cur_tv d' = cur_tv d \<and>
     (\<forall>p. failover_peer (pools d' p) = failover_peer (pools d p))"

lemma supersede_core_ok:
  assumes db: "db_ok S d" and rq: "request_ok S d cp lease" and cm: "commit \<or> \<not> pimm"
  shows "\<exists>d' r. supersede_core e d cp lease commit pg pimm = Ret (d', r) \<and> r \<noteq> Some True \<and> db_ok S d' \<and>
           lease_changed cp (source_lease d cp lease) d d' \<and>
           (lease = None \<longrightarrow> bit (flags (heap d' cp)) 2 = bit (flags (heap d cp)) 2 \<and>
              (lease_peer d (heap d cp) = None \<and> ends (heap d cp) \<le> cur_time d \<longrightarrow> same_timers d d'))"
proof (cases lease)
  case None
  then show ?thesis
    using supersede_move_ok [OF db _ _ cm, of cp e None pg] rq cm
    by (auto simp: supersede_core_def request_ok_def source_lease_def lease_changed_def lease_moved_def)
next
  case (Some s)
  have cp: "cp \<in> S" and s: "sample_ok S d s" and st: "\<not> has_flag (heap d s) STATIC_LEASE"
    and nb: "\<forall>x. next_binding_state (heap d s) \<noteq> FTS_BOGUS x"
    using rq Some by (auto simp: request_ok_def)
  obtain d1 where d1: "supersede_copy d cp s = Ret d1" "db_ok S d1" "copy_frame cp d d1"
      "next_binding_state (heap d1 cp) = next_binding_state (heap d s)" "ends (heap d1 cp) = ends (heap d s)"
    using supersede_copy_ok [OF db cp s] by blast
  obtain d2 r where d2: "supersede_move e d1 cp lease commit pg pimm = Ret (d2, r)" "r \<noteq> Some True" "db_ok S d2"
      "lease_moved cp d1 d2"
    using supersede_move_ok [OF d1(2) cp _ cm, of e lease pg] nb d1(4) by auto
  have v: "state_view (heap d1 b) = state_view (heap d b)" if "b \<noteq> cp" for b
    using d1(3) that queue_of_cong [of "heap d1 b" "heap d b"]
    by (simp add: copy_frame_def place_view_def state_view_def queue_view_def)
  have p: "pools d1 = pools d" "l_pool (heap d1 cp) = l_pool (heap d cp)" "cur_tv d1 = cur_tv d"
    using d1(3) by (auto simp: copy_frame_def place_view_def)
  have "lease_peer d1 (heap d1 cp) = lease_peer d (heap d cp)" by (simp only: lease_peer_def p)
  then have "lease_changed cp (heap d s) d d2"
    using d2(4) d1(4,5) v p copy_frame_queues(3) [OF d1(3)]
    by (simp add: lease_changed_def lease_moved_def others_stay_def)
  then show ?thesis using Some st cm d1(1) d2
    by (auto simp: supersede_core_def source_lease_def)
qed

end
