(* ===== verification/PoolTimer.thy ===== *)
theory PoolTimer
  imports LeaseDbInv
begin

text \<open>
  The timer of a pool and the operations that end by running it: they return, they keep the
  invariant of the database, and they change the leases whose time has come and no others.
\<close>

section \<open>The timer ends\<close>

text \<open>How many changes a lease can still go through by itself.\<close>

definition pending_rank :: "db_lease \<Rightarrow> nat" where
  "pending_rank l =
     (if next_binding_state l = binding_state l then 0
      else case next_binding_state l of
             FTS_FREE \<Rightarrow> 1 | FTS_BACKUP \<Rightarrow> 1 | FTS_ACTIVE \<Rightarrow> 3 | _ \<Rightarrow> 2)"

definition pool_leases :: "db \<Rightarrow> nat \<Rightarrow> ptr set" where
  "pool_leases d p = {a. \<exists>q. a \<in> set (queue (pools d p) q)}"

definition total_rank :: "db \<Rightarrow> nat \<Rightarrow> nat" where
  "total_rank d p = (\<Sum>a \<in> pool_leases d p. pending_rank (heap d a))"

lemma UNIV_queue_name: "(UNIV :: queue_name set) = set lptr"
proof -
  have "q \<in> set lptr" for q by (cases q) (simp_all add: lptr_def)
  then show ?thesis by auto
qed

lemma finite_pool_leases: "finite (pool_leases d p)"
proof -
  have "pool_leases d p = (\<Union>q \<in> set lptr. set (queue (pools d p) q))"
    by (auto simp: pool_leases_def UNIV_queue_name [symmetric])
  then show ?thesis by simp
qed

lemma pool_leases_iff:
  assumes "db_ok S d" shows "a \<in> pool_leases d p \<longleftrightarrow> a \<in> S \<and> l_pool (heap d a) = Some p"
proof
  assume "a \<in> pool_leases d p"
  then show "a \<in> S \<and> l_pool (heap d a) = Some p"
    using db_okD(1,3) [OF assms] queues_okD(3) by (auto simp: pool_leases_def on_queue_def)
next
  assume "a \<in> S \<and> l_pool (heap d a) = Some p"
  then show "a \<in> pool_leases d p"
    using db_okD(3) [OF assms, of a] on_queue_unique [OF db_okD(1) [OF assms], of a] by (auto simp: pool_leases_def)
qed

lemma pool_leases_same:
  assumes "db_ok S d" "db_ok S d'" "\<And>b. l_pool (heap d' b) = l_pool (heap d b)"
  shows "pool_leases d' p = pool_leases d p"
  using pool_leases_iff [OF assms(1)] pool_leases_iff [OF assms(2)] assms(3) by auto

lemma total_rank_less:
  assumes "db_ok S d" "db_ok S d'" "\<And>b. b \<noteq> a \<Longrightarrow> state_view (heap d' b) = state_view (heap d b)"
    "l_pool (heap d' a) = l_pool (heap d a)" "a \<in> pool_leases d p"
    "pending_rank (heap d' a) < pending_rank (heap d a)"
  shows "total_rank d' p < total_rank d p"
proof -
  have "l_pool (heap d' b) = l_pool (heap d b)" for b
    using assms(3) [of b] assms(4) by (cases "b = a") (auto simp: state_view_def queue_view_def)
  then have pl: "pool_leases d' p = pool_leases d p" by (rule pool_leases_same [OF assms(1,2)])
  have "pending_rank (heap d' b) = pending_rank (heap d b)" if "b \<noteq> a" for b
    using assms(3) [OF that] by (auto simp: pending_rank_def state_view_def)
  then have "\<forall>b. pending_rank (heap d' b) \<le> pending_rank (heap d b)" using assms(6)
    by (metis order.refl less_imp_le)
  then show ?thesis unfolding total_rank_def pl
    by (intro sum_strict_mono_ex1 finite_pool_leases) (use assms(5,6) in auto)
qed

text \<open>The leases of a pool have states to go to.\<close>

definition valid_next :: "db \<Rightarrow> nat \<Rightarrow> bool" where
  "valid_next d p \<longleftrightarrow> (\<forall>a \<in> pool_leases d p. \<forall>x. next_binding_state (heap d a) \<noteq> FTS_BOGUS x)"

lemma valid_next_changed:
  assumes "db_ok S d" "db_ok S d'" "\<And>b. b \<noteq> a \<Longrightarrow> state_view (heap d' b) = state_view (heap d b)"
    "l_pool (heap d' a) = l_pool (heap d a)" "valid_next d p" "\<And>x. next_binding_state (heap d' a) \<noteq> FTS_BOGUS x"
  shows "valid_next d' p"
proof -
  have l: "l_pool (heap d' b) = l_pool (heap d b)" for b
    using assms(3) [of b] assms(4) by (cases "b = a") (auto simp: state_view_def queue_view_def)
  have pl: "pool_leases d' p = pool_leases d p" by (rule pool_leases_same [OF assms(1,2) l])
  have "next_binding_state (heap d' b) = next_binding_state (heap d b)" if "b \<noteq> a" for b
    using assms(3) [OF that] by (auto simp: state_view_def)
  then show ?thesis using assms(5,6) unfolding valid_next_def pl by metis
qed

text \<open>One change made by the timer, a rewind before it included.\<close>

definition rewound :: "db \<Rightarrow> ptr \<Rightarrow> db" where
  "rewound d a = (if may_rewind d (heap d a)
                  then upd_lease a (\<lambda>l. l\<lparr>next_binding_state := rewind_binding_state l\<rparr>) d else d)"

lemma upd_next_ok:
  assumes "db_ok S d" shows "db_ok S (upd_lease a (\<lambda>l. l\<lparr>next_binding_state := v l\<rparr>) d)"
proof -
  let ?d = "upd_lease a (\<lambda>l. l\<lparr>next_binding_state := v l\<rparr>) d"
  have "queue_view (heap ?d b) = queue_view (heap d b)" for b by (auto simp: queue_view_def queue_of_def)
  then have "queues_ok ?d" using queues_ok_cong [of d ?d] db_okD(1) [OF assms] by simp
  moreover have "side_ok S ?d" using db_okD(2) [OF assms] by (subst side_ok_upd_lease) (simp_all add: side_view_def)
  ultimately show ?thesis using assms by (simp add: db_ok_def on_queue_def)
qed

lemma timer_step_ok:
  assumes "db_ok S d" "valid_next d p" "a \<in> pool_leases d p"
    "next_binding_state (heap d a) \<noteq> binding_state (heap d a)"
  shows "\<exists>d' r. supersede_core e (rewound d a) a None True True True = Ret (d', r) \<and> db_ok S d' \<and> valid_next d' p \<and>
           total_rank d' p < total_rank d p \<and> cur_tv d' = cur_tv d \<and> pool_leases d' p = pool_leases d p \<and>
           lease_changed a (heap (rewound d a) a) (rewound d a) d' \<and> bit (flags (heap d' a)) 2 = bit (flags (heap d a)) 2 \<and>
           (\<forall>p'. valid_next d p' \<longrightarrow> valid_next d' p')"
proof -
  let ?d0 = "rewound d a"
  have db0: "db_ok S ?d0" using assms(1) upd_next_ok by (auto simp: rewound_def)
  have aS: "a \<in> S" using pool_leases_iff [OF assms(1)] assms(3) by blast
  have rw: "next_binding_state (heap d a) = FTS_EXPIRED \<and> (rewind_binding_state (heap d a) = FTS_FREE \<or> rewind_binding_state (heap d a) = FTS_BACKUP)"
    if "may_rewind d (heap d a)" using that by (auto simp: may_rewind_def split: option.splits)
  have n0: "next_binding_state (heap ?d0 a) \<noteq> FTS_BOGUS x" for x
    using rw assms(2,3) by (auto simp: rewound_def valid_next_def)
  have h0: "heap ?d0 b = heap d b" if "b \<noteq> a" for b using that by (simp add: rewound_def)
  have p0: "l_pool (heap ?d0 a) = l_pool (heap d a)" "pools ?d0 = pools d" "cur_tv ?d0 = cur_tv d"
    "flags (heap ?d0 a) = flags (heap d a)" "binding_state (heap ?d0 a) = binding_state (heap d a)"
    by (simp_all add: rewound_def)
  obtain d' r where d': "supersede_core e ?d0 a None True True True = Ret (d', r)" "db_ok S d'"
      "lease_changed a (heap ?d0 a) ?d0 d'" "bit (flags (heap d' a)) 2 = bit (flags (heap d a)) 2"
    using supersede_core_ok [OF db0, of a None True True e True] n0 aS p0(4)
    by (auto simp: request_ok_def source_lease_def)
  have v: "state_view (heap d' b) = state_view (heap d b)" if "b \<noteq> a" for b
    using d'(3) h0 [OF that] that by (simp add: lease_changed_def)
  have lp: "l_pool (heap d' a) = l_pool (heap d a)" using d'(3) p0(1) by (simp add: lease_changed_def)
  have rank: "pending_rank (heap d' a) < pending_rank (heap d a)"
  proof (cases "may_rewind d (heap d a)")
    case True
    then have n: "next_binding_state (heap d a) = FTS_EXPIRED"
      "next_binding_state (heap ?d0 a) = FTS_FREE \<or> next_binding_state (heap ?d0 a) = FTS_BACKUP"
      using rw by (auto simp: rewound_def)
    then have "pending_rank (heap d' a) = 0" using d'(3) by (auto simp: lease_changed_def pending_rank_def after_state_def)
    moreover have "pending_rank (heap d a) = 2" using n(1) assms(4) by (simp add: pending_rank_def)
    ultimately show ?thesis by simp
  next
    case False
    then have "?d0 = d" by (simp add: rewound_def)
    then show ?thesis using d'(3) assms(4)
      by (cases "next_binding_state (heap d a)") (auto simp: lease_changed_def pending_rank_def after_state_def)
  qed
  have nb: "next_binding_state (heap d' a) \<noteq> FTS_BOGUS x" for x
    using d'(3) n0 by (cases "next_binding_state (heap ?d0 a)") (auto simp: lease_changed_def after_state_def)
  have "total_rank d' p < total_rank d p" by (rule total_rank_less [OF assms(1) d'(2) v lp assms(3) rank])
  moreover have vk: "valid_next d' p'" if "valid_next d p'" for p' by (rule valid_next_changed [OF assms(1) d'(2) v lp that nb])
  moreover have "valid_next d' p" by (rule vk [OF assms(2)])
  moreover have "l_pool (heap d' b) = l_pool (heap d b)" for b
    using v [of b] lp by (cases "b = a") (auto simp: state_view_def queue_view_def)
  then have "pool_leases d' p = pool_leases d p" by (rule pool_leases_same [OF assms(1) d'(2)])
  moreover have "cur_tv d' = cur_tv d" using d'(3) p0(3) by (simp add: lease_changed_def)
  ultimately show ?thesis using d' by blast
qed

lemma next_on_member: "next_on xs a = Some b \<Longrightarrow> b \<in> set xs"
proof -
  assume "next_on xs a = Some b"
  then have "b \<in> set (tl (dropWhile (\<lambda>b. b \<noteq> a) xs))"
    by (cases "tl (dropWhile (\<lambda>b. b \<noteq> a) xs)") (auto simp: next_on_def)
  then have "b \<in> set (dropWhile (\<lambda>b. b \<noteq> a) xs)" by (cases "dropWhile (\<lambda>b. b \<noteq> a) xs") simp_all
  then show ?thesis using set_dropWhileD [of b "\<lambda>b. b \<noteq> a" xs] by blast
qed

text \<open>
  The walk along a queue ends: it either changes a lease, and leases can only change so often, or
  goes on to the next lease. It may follow a lease that has moved on to a later queue.
\<close>

lemma next_on_shorter:
  "next_on xs a = Some b \<Longrightarrow> distinct xs \<Longrightarrow> length (dropWhile (\<lambda>c. c \<noteq> b) xs) < length (dropWhile (\<lambda>c. c \<noteq> a) xs)"
proof (induction xs)
  case (Cons x xs)
  show ?case
  proof (cases "x = a")
    case True
    then show ?thesis using Cons.prems by (cases xs) (auto simp: next_on_def intro: le_imp_less_Suc length_dropWhile_le)
  next
    case False
    then have nx: "next_on xs a = Some b" using Cons.prems(1) by (simp add: next_on_def)
    then have "x \<noteq> b" using next_on_member [OF nx] Cons.prems(2) by auto
    then show ?thesis using Cons.IH [OF nx] Cons.prems(2) False by simp
  qed
qed (simp add: next_on_def)

lemma timer_walk_returns:
  assumes "db_ok S d" "valid_next d p" "\<And>a. lease = Some a \<Longrightarrow> a \<in> pool_leases d p"
  shows "\<exists>d' t. timer_walk e p q d lease n = Some (Ret (d', t)) \<and> db_ok S d' \<and> valid_next d' p \<and> cur_tv d' = cur_tv d \<and>
           (\<forall>p'. valid_next d p' \<longrightarrow> valid_next d' p')"
  using assms
proof (induction "(total_rank d p, case lease of None \<Rightarrow> 0 | Some a \<Rightarrow> Suc (length (dropWhile (\<lambda>b. b \<noteq> a) (queue (pools d p) q))))"
    arbitrary: d lease n rule: wf_induct_rule [OF wf_lex_prod [OF wf_less wf_less]])
  case (1 d lease n)
  show ?case
  proof (cases lease)
    case None
    then show ?thesis using "1.prems" by (subst timer_walk.simps) simp
  next
    case (Some a)
    let ?nx = "next_on (queue (pools d p) q) a"
    have nx: "b \<in> pool_leases d p" if "?nx = Some b" for b using next_on_member [OF that] by (auto simp: pool_leases_def)
    consider "cur_time d < sort_time (heap d a)"
      | "\<not> cur_time d < sort_time (heap d a)" "next_binding_state (heap d a) \<noteq> binding_state (heap d a)"
      | "\<not> cur_time d < sort_time (heap d a)" "next_binding_state (heap d a) = binding_state (heap d a)" by blast
    then show ?thesis
    proof cases
      case 1
      then show ?thesis using "1.prems" Some by (subst timer_walk.simps) (simp add: Let_def)
    next
      case 2
      have aP: "a \<in> pool_leases d p" using "1.prems"(3) Some by blast
      obtain d' r where d': "supersede_core e (rewound d a) a None True True True = Ret (d', r)" "db_ok S d'"
          "valid_next d' p" "total_rank d' p < total_rank d p" "cur_tv d' = cur_tv d"
          "pool_leases d' p = pool_leases d p" "\<forall>p'. valid_next d p' \<longrightarrow> valid_next d' p'"
        using timer_step_ok [OF "1.prems"(1,2) aP 2(2), of e] by blast
      have "\<exists>d'' t. timer_walk e p q d' ?nx n = Some (Ret (d'', t)) \<and> db_ok S d'' \<and> valid_next d'' p \<and> cur_tv d'' = cur_tv d' \<and>
          (\<forall>p'. valid_next d' p' \<longrightarrow> valid_next d'' p')"
        using nx d'(4,6) by (intro "1.hyps" d'(2,3)) auto
      then show ?thesis using 2 Some d'(1,5,7) by (subst timer_walk.simps) (simp add: Let_def flip: rewound_def, blast)
    next
      case 3
      have "\<exists>d'' t. timer_walk e p q d ?nx n = Some (Ret (d'', t)) \<and> db_ok S d'' \<and> valid_next d'' p \<and> cur_tv d'' = cur_tv d \<and>
          (\<forall>p'. valid_next d p' \<longrightarrow> valid_next d'' p')"
      proof (intro "1.hyps" "1.prems"(1,2))
        show "((total_rank d p, case ?nx of None \<Rightarrow> 0 | Some a \<Rightarrow> Suc (length (dropWhile (\<lambda>b. b \<noteq> a) (queue (pools d p) q)))),
            total_rank d p, case lease of None \<Rightarrow> 0 | Some a \<Rightarrow> Suc (length (dropWhile (\<lambda>b. b \<noteq> a) (queue (pools d p) q))))
            \<in> {(x, y). x < y} <*lex*> {(x, y). x < y}"
          using next_on_shorter [of "queue (pools d p) q" a] queues_okD(1) [OF db_okD(1) [OF "1.prems"(1)]] Some
          by (cases ?nx) auto
      qed (use nx in blast)
      then show ?thesis using 3 Some by (subst timer_walk.simps) (simp add: Let_def)
    qed
  qed
qed

section \<open>The operations keep the invariant\<close>

lemma timer_queues_ok:
  assumes "db_ok S d" "valid_next d p"
  shows "\<exists>d' t. timer_queues e p qs d n = Ret (d', t) \<and> db_ok S d' \<and> valid_next d' p \<and> cur_tv d' = cur_tv d \<and>
           (\<forall>p'. valid_next d p' \<longrightarrow> valid_next d' p')"
  using assms
proof (induction qs arbitrary: d n)
  case (Cons q qs)
  show ?case
  proof (cases "queue (pools d p) q")
    case (Cons a xs)
    have "a \<in> pool_leases d p" using Cons unfolding pool_leases_def by (auto intro!: exI [of _ q])
    then obtain d1 t where "timer_walk e p q d (Some a) n = Some (Ret (d1, t))" "db_ok S d1" "valid_next d1 p"
        "cur_tv d1 = cur_tv d" "\<forall>p'. valid_next d p' \<longrightarrow> valid_next d1 p'"
      using timer_walk_returns [OF Cons.prems, of "Some a" e q n] by auto
    then show ?thesis using Cons.IH [of d1 t] Cons.IH [OF Cons.prems, of n] Cons by simp blast
  qed (use Cons in simp)
qed simp

lemma next_event_ok:
  assumes "db_ok S d" shows "db_ok S (upd_pool p (\<lambda>pl. pl\<lparr>next_event_time := t\<rparr>) d)"
proof -
  let ?d = "upd_pool p (\<lambda>pl. pl\<lparr>next_event_time := t\<rparr>) d"
  have c: "calm d ?d" by (simp add: calm_def)
  show ?thesis using db_okD [OF assms] calm_queues_ok [OF c] calm_on_queue [OF c] side_ok_upd_pool
    by (simp add: db_ok_def side_ok_upd_pool)
qed

lemma add_timeout_ok:
  assumes "db_ok S d"
  shows "\<exists>d'. add_timeout d w f what = Ret d' \<and> db_ok S d' \<and> d' = d\<lparr>timeouts := timeouts d', next_addr := next_addr d'\<rparr>"
proof -
  obtain d' where d': "add_timeout d w f what = Ret d'"
    using add_timeout_returns [of d w f what] db_okD(2) [OF assms] by (auto simp: side_ok_def rest_ok_def)
  note c = calm_add_timeout [OF d']
  have "db_ok S d'" using db_okD [OF assms] calm_queues_ok [OF c] calm_on_queue [OF c] side_ok_add_timeout [OF d']
    by (simp add: db_ok_def)
  then show ?thesis using d' add_timeout_frame [OF d'] by blast
qed

lemma pool_timer_ok:
  assumes "db_ok S d" "valid_next d p"
  shows "\<exists>d'. pool_timer e d p = Ret d' \<and> db_ok S d' \<and> valid_next d' p \<and> cur_tv d' = cur_tv d \<and>
           (\<forall>p'. valid_next d p' \<longrightarrow> valid_next d' p')"
proof -
  obtain d1 t where d1: "timer_queues e p lptr d MAX_TIME = Ret (d1, t)" "db_ok S d1" "valid_next d1 p" "cur_tv d1 = cur_tv d"
      "\<And>p'. valid_next d p' \<Longrightarrow> valid_next d1 p'"
    using timer_queues_ok [OF assms] by blast
  have v: "valid_next d2 p'" if "heap d2 = heap d1" "\<And>p q. queue (pools d2 p) q = queue (pools d1 p) q" "valid_next d1 p'" for d2 p'
    using that by (simp add: valid_next_def pool_leases_def)
  let ?d2 = "upd_pool p (\<lambda>pl. pl\<lparr>next_event_time := t\<rparr>) d1"
  obtain d3 where d3: "add_timeout ?d2 (t, 0) (Some POOL_TIMER) p = Ret d3" "db_ok S d3"
      "d3 = ?d2\<lparr>timeouts := timeouts d3, next_addr := next_addr d3\<rparr>"
    using add_timeout_ok [OF next_event_ok [OF d1(2), of p t], of "(t, 0)" "Some POOL_TIMER" p]
    by (elim exE conjE) (rule that; assumption)
  have s3: "heap d3 = heap d1" "queue (pools d3 p') q = queue (pools d1 p') q" "cur_tv d3 = cur_tv d1" for p' q
    by (subst d3(3), simp)+
  have "valid_next d3 p'" if "valid_next d1 p'" for p' by (rule v [OF s3(1,2) that])
  moreover have "valid_next (upd_pool p (\<lambda>pl. pl\<lparr>next_event_time := MIN_TIME\<rparr>) d1) p'" if "valid_next d1 p'" for p'
    by (rule v [OF _ _ that]) simp_all
  ultimately show ?thesis using d1(1,3,4,5) d3(1,2) s3(3) next_event_ok [OF d1(2), of p MIN_TIME]
    by (simp add: pool_timer_def)
qed

lemma supersede_lease_ok:
  assumes db: "db_ok S d" and rq: "request_ok S d cp lease" and cm: "commit \<or> \<not> pimm"
    and vn: "\<And>p. l_pool (heap d cp) = Some p \<Longrightarrow> valid_next d p"
  shows "\<exists>d' b. supersede_lease e d cp lease commit pg pimm fp = Ret (d', b) \<and> db_ok S d' \<and> cur_tv d' = cur_tv d"
proof -
  obtain d1 r where d1: "supersede_core e d cp lease commit pg pimm = Ret (d1, r)" "db_ok S d1"
      "lease_changed cp (source_lease d cp lease) d d1"
    using supersede_core_ok [OF db rq cm] by blast
  have c: "cur_tv d1 = cur_tv d" "l_pool (heap d1 cp) = l_pool (heap d cp)" using d1(3) by (simp_all add: lease_changed_def)
  have n1: "next_binding_state (source_lease d cp lease) \<noteq> FTS_BOGUS x" for x
    using rq by (auto simp: source_lease_def request_ok_def split: option.splits)
  have n2: "next_binding_state (heap d1 cp) \<noteq> FTS_BOGUS x" for x
    using d1(3) n1 by (cases "next_binding_state (source_lease d cp lease)") (auto simp: lease_changed_def after_state_def)
  have cp: "cp \<in> S" using rq by (simp add: request_ok_def)
  then obtain p where p: "l_pool (heap d cp) = Some p"
    using on_queue_unique [OF db_okD(1) [OF db]] db_okD(3) [OF db] by blast
  have v: "\<And>b. b \<noteq> cp \<Longrightarrow> state_view (heap d1 b) = state_view (heap d b)" using d1(3) by (simp add: lease_changed_def)
  have "valid_next d1 p" by (rule valid_next_changed [OF db d1(2) v c(2) vn [OF p] n2])
  then obtain d2 where "pool_timer e d1 p = Ret d2" "db_ok S d2" "cur_tv d2 = cur_tv d1"
    using pool_timer_ok [OF d1(2)] by blast
  then show ?thesis using d1(1,2) c p by (cases r) (auto simp: supersede_lease_def)
qed

section \<open>What the timer of a pool without a peer does\<close>

text \<open>
  Without a failover peer a lease that is not free becomes free when its time has come. \<open>plain\<close>:
  the pool has no peer, and its leases are in states the code leaves leases in.
\<close>

definition plain :: "db \<Rightarrow> nat \<Rightarrow> bool" where
  "plain d p \<longleftrightarrow> failover_peer (pools d p) = None \<and>
     (\<forall>a \<in> pool_leases d p. sort_time (heap d a) = ends (heap d a) \<and>
        next_binding_state (heap d a) = after_state False FTS_FREE (binding_state (heap d a)))"

definition ends_now :: "int \<Rightarrow> db_lease \<Rightarrow> bool" where
  "ends_now t l \<longleftrightarrow> binding_state l \<noteq> FTS_FREE \<and> binding_state l \<noteq> FTS_BACKUP \<and> ends l \<le> t"

text \<open>The leases of \<open>A\<close> become free, at the same end time, and every other lease stays as it is.\<close>

definition expired :: "ptr set \<Rightarrow> db \<Rightarrow> db \<Rightarrow> bool" where
  "expired A d d' \<longleftrightarrow>
     (\<forall>a. if a \<in> A
          then binding_state (heap d' a) = FTS_FREE \<and> ends (heap d' a) = ends (heap d a) \<and>
               l_pool (heap d' a) = l_pool (heap d a)
          else state_view (heap d' a) = state_view (heap d a)) \<and> cur_tv d' = cur_tv d"

definition due_leases :: "db \<Rightarrow> nat \<Rightarrow> queue_name \<Rightarrow> ptr set" where
  "due_leases d p q = {a \<in> set (queue (pools d p) q). ends_now (cur_time d) (heap d a)}"

lemma member_queue:
  assumes "db_ok S d"
  shows "a \<in> set (queue (pools d p) q) \<longleftrightarrow> a \<in> S \<and> l_pool (heap d a) = Some p \<and> queue_of (heap d a) = Some q"
  using db_okD(3) [OF assms, of a] queues_okD(3,4) [OF db_okD(1) [OF assms], of a] on_queue_unique [OF db_okD(1) [OF assms], of a]
  by (auto simp: on_queue_def)

lemma plainD:
  assumes "plain d p" "a \<in> pool_leases d p"
  shows "sort_time (heap d a) = ends (heap d a)"
    "next_binding_state (heap d a) = after_state False FTS_FREE (binding_state (heap d a))"
  using assms by (auto simp: plain_def)

lemma ends_now_cong: "state_view l' = state_view l \<Longrightarrow> ends_now t l' = ends_now t l"
  by (simp add: ends_now_def state_view_def)

lemma expired_empty [simp]: "expired {} d d"
  by (simp add: expired_def)

lemma expired_trans:
  assumes "expired A d d1" "expired B d1 d2" shows "expired (A \<union> B) d d2"
proof -
  have "if a \<in> A \<union> B
        then binding_state (heap d2 a) = FTS_FREE \<and> ends (heap d2 a) = ends (heap d a) \<and>
             l_pool (heap d2 a) = l_pool (heap d a)
        else state_view (heap d2 a) = state_view (heap d a)" for a
    using assms unfolding expired_def state_view_def queue_view_def
    by (cases "a \<in> A"; cases "a \<in> B") (auto split: if_splits)
  then show ?thesis using assms by (simp add: expired_def)
qed

lemma expired_due:
  assumes "db_ok S d" "db_ok S d1" "expired A d d1"
  shows "due_leases d1 p q = due_leases d p q - A"
proof -
  have "a \<in> due_leases d1 p q \<longleftrightarrow> a \<in> due_leases d p q \<and> a \<notin> A" for a
  proof (cases "a \<in> A")
    case True
    then have "\<not> ends_now t (heap d1 a)" for t using assms(3) by (auto simp: expired_def ends_now_def)
    then show ?thesis using True by (simp add: due_leases_def)
  next
    case False
    then have s: "state_view (heap d1 a) = state_view (heap d a)" "cur_tv d1 = cur_tv d"
      using assms(3) by (auto simp: expired_def)
    have "a \<in> set (queue (pools d1 p) q) \<longleftrightarrow> a \<in> set (queue (pools d p) q)"
      using s(1) member_queue [OF assms(1), of a p q] member_queue [OF assms(2), of a p q]
      by (simp add: state_view_def queue_view_def)
    then show ?thesis using False s(2) ends_now_cong [OF s(1)] by (simp add: due_leases_def)
  qed
  then show ?thesis by blast
qed

lemma after_free [simp]: "after_state False x FTS_FREE = FTS_FREE" "after_state False x FTS_BACKUP = FTS_BACKUP"
  by (simp_all add: after_state_def)

lemma queue_of_idle:
  assumes "queue_of l = Some q"
  shows "q \<in> {FREE_LEASES, BACKUP_LEASES, RESERVED_LEASES} \<longleftrightarrow> binding_state l = FTS_FREE \<or> binding_state l = FTS_BACKUP"
  using assms by (cases "binding_state l") (auto simp: queue_of_def split: if_splits)

lemma pending_iff:
  assumes "plain d p" "a \<in> pool_leases d p" "queue_of (heap d a) = Some q"
  shows "next_binding_state (heap d a) \<noteq> binding_state (heap d a) \<longleftrightarrow> q \<notin> {FREE_LEASES, BACKUP_LEASES, RESERVED_LEASES}"
  using plainD(2) [OF assms(1,2)] queue_of_idle [OF assms(3)] assms(3)
  by (cases "binding_state (heap d a)") (auto simp: after_state_def queue_of_def)

text \<open>One lease expires.\<close>

lemma expired_plain:
  assumes "db_ok S d" "db_ok S d'" "plain d p" "expired A d d'" "failover_peer (pools d' p) = None"
    "\<And>a. a \<in> A \<Longrightarrow> next_binding_state (heap d' a) = FTS_FREE \<and> sort_time (heap d' a) = ends (heap d' a)"
  shows "plain d' p"
proof -
  have "sort_time (heap d' a) = ends (heap d' a) \<and>
        next_binding_state (heap d' a) = after_state False FTS_FREE (binding_state (heap d' a))" if "a \<in> pool_leases d' p" for a
  proof (cases "a \<in> A")
    case True
    then show ?thesis using assms(4) assms(6) [OF True] by (auto simp: expired_def)
  next
    case False
    then have s: "state_view (heap d' a) = state_view (heap d a)" using assms(4) by (auto simp: expired_def)
    then have "a \<in> pool_leases d p" using that pool_leases_iff [OF assms(1)] pool_leases_iff [OF assms(2)]
      by (simp add: state_view_def queue_view_def)
    then show ?thesis using plainD [OF assms(3)] s by (simp add: state_view_def queue_view_def)
  qed
  then show ?thesis using assms(5) by (simp add: plain_def)
qed

lemma expire_step:
  assumes db: "db_ok S d" and pl: "plain d p" and a: "a \<in> set (queue (pools d p) q)"
    and q: "q \<notin> {FREE_LEASES, BACKUP_LEASES, RESERVED_LEASES}"
  shows "rewound d a = d"
    and "\<exists>d' r. supersede_core e d a None True True True = Ret (d', r) \<and> db_ok S d' \<and> plain d' p \<and>
           filter (\<lambda>b. b \<noteq> a) (queue (pools d' p) q) = filter (\<lambda>b. b \<noteq> a) (queue (pools d p) q) \<and>
           a \<notin> set (queue (pools d' p) q) \<and> expired {a} d d' \<and> (ends (heap d a) \<le> cur_time d \<longrightarrow> same_timers d d') \<and>
           (\<forall>p. failover_peer (pools d' p) = failover_peer (pools d p))"
proof -
  have aS: "a \<in> S" "l_pool (heap d a) = Some p" "queue_of (heap d a) = Some q" using a member_queue [OF db] by auto
  have aP: "a \<in> pool_leases d p" using a by (auto simp: pool_leases_def)
  have peer: "lease_peer d (heap d a) = None" using pl aS(2) by (simp add: lease_peer_def plain_def)
  have nf: "binding_state (heap d a) \<noteq> FTS_FREE" "binding_state (heap d a) \<noteq> FTS_BACKUP"
    using queue_of_idle [OF aS(3)] q by auto
  have nx: "next_binding_state (heap d a) = FTS_FREE"
    using plainD(2) [OF pl aP] nf by (cases "binding_state (heap d a)") (auto simp: after_state_def)
  show "rewound d a = d" by (simp add: rewound_def may_rewind_def peer)
  obtain d' r where d': "supersede_core e d a None True True True = Ret (d', r)" "db_ok S d'" "lease_changed a (heap d a) d d'"
      "ends (heap d a) \<le> cur_time d \<longrightarrow> same_timers d d'"
    using supersede_core_ok [OF db, of a None True True e True] nx aS(1) peer by (auto simp: request_ok_def source_lease_def)
  have ch: "binding_state (heap d' a) = FTS_FREE" "next_binding_state (heap d' a) = FTS_FREE"
      "ends (heap d' a) = ends (heap d a)" "sort_time (heap d' a) = ends (heap d a)" "l_pool (heap d' a) = l_pool (heap d a)"
      "\<forall>b. b \<noteq> a \<longrightarrow> state_view (heap d' b) = state_view (heap d b)" "others_stay a d d'" "cur_tv d' = cur_tv d"
      "failover_peer (pools d' p) = None" "\<forall>p. failover_peer (pools d' p) = failover_peer (pools d p)"
    using d'(3) nx peer pl by (simp_all add: lease_changed_def after_state_def plain_def)
  have ex: "expired {a} d d'" using ch by (simp add: expired_def)
  have "plain d' p" by (rule expired_plain [OF db d'(2) pl ex ch(9)]) (use ch in simp)
  moreover have "a \<notin> set (queue (pools d' p) q)"
    using member_queue [OF d'(2), of a p q] queue_of_idle [of "heap d' a" q] ch(1) q by auto
  ultimately show "\<exists>d' r. supersede_core e d a None True True True = Ret (d', r) \<and> db_ok S d' \<and> plain d' p \<and>
           filter (\<lambda>b. b \<noteq> a) (queue (pools d' p) q) = filter (\<lambda>b. b \<noteq> a) (queue (pools d p) q) \<and>
           a \<notin> set (queue (pools d' p) q) \<and> expired {a} d d' \<and> (ends (heap d a) \<le> cur_time d \<longrightarrow> same_timers d d') \<and>
           (\<forall>p. failover_peer (pools d' p) = failover_peer (pools d p))"
    using d' ex ch(7,10) by (auto simp: others_stay_def)
qed

text \<open>The time the walk of a queue finds: the first of \<open>n\<close> and the ends of the leases \<open>A\<close>.\<close>

definition first_end :: "int \<Rightarrow> (ptr \<Rightarrow> db_lease) \<Rightarrow> ptr set \<Rightarrow> int \<Rightarrow> bool" where
  "first_end n h A t \<longleftrightarrow> t \<le> n \<and> (\<forall>a \<in> A. t \<le> ends (h a)) \<and> (t = n \<or> (\<exists>a \<in> A. t = ends (h a)))"

lemma first_end_empty [simp]: "first_end n h {} t \<longleftrightarrow> t = n"
  by (auto simp: first_end_def)

lemma first_end_trans:
  assumes "first_end n h A t" "first_end t h' B u" "\<And>a. a \<in> B \<Longrightarrow> ends (h' a) = ends (h a)"
  shows "first_end n h (A \<union> B) u"
  using assms unfolding first_end_def by (auto intro: order_trans)

definition later_leases :: "db \<Rightarrow> nat \<Rightarrow> queue_name \<Rightarrow> ptr set" where
  "later_leases d p q = {a \<in> set (queue (pools d p) q). cur_time d < ends (heap d a)}"

lemma expired_ends: assumes "expired A d d1" shows "ends (heap d1 a) = ends (heap d a)"
proof (cases "a \<in> A")
  case False
  then have "state_view (heap d1 a) = state_view (heap d a)" using assms by (auto simp: expired_def)
  then show ?thesis by (simp add: state_view_def)
qed (use assms in \<open>auto simp: expired_def\<close>)

lemma expired_later:
  assumes "db_ok S d" "db_ok S d1" "expired A d d1" "\<And>a. a \<in> A \<Longrightarrow> ends (heap d a) \<le> cur_time d"
  shows "later_leases d1 p q = later_leases d p q"
proof -
  have "a \<in> later_leases d1 p q \<longleftrightarrow> a \<in> later_leases d p q" for a
  proof (cases "a \<in> A")
    case True
    then show ?thesis using assms(3,4) by (fastforce simp: expired_def later_leases_def)
  next
    case False
    then have s: "state_view (heap d1 a) = state_view (heap d a)" "cur_tv d1 = cur_tv d"
      using assms(3) by (auto simp: expired_def)
    then show ?thesis using member_queue [OF assms(1), of a p q] member_queue [OF assms(2), of a p q]
      by (simp add: state_view_def queue_view_def later_leases_def)
  qed
  then show "later_leases d1 p q = later_leases d p q" by blast
qed

text \<open>On an ordered queue everything after a lease that is not due is not due either.\<close>

lemma walk_stops:
  assumes "db_ok S d" "plain d p" "queue (pools d p) q = ys @ a # zs" "cur_time d < sort_time (heap d a)"
    "\<forall>b \<in> set ys. ends (heap d b) \<le> cur_time d"
  shows "\<exists>t. timer_walk e p q d (Some a) n = Some (Ret (d, t)) \<and> first_end n (heap d) (later_leases d p q) t"
    "due_leases d p q \<subseteq> set ys"
proof -
  have P: "b \<in> pool_leases d p" if "b \<in> set (ys @ a # zs)" for b
    using that assms(3) unfolding pool_leases_def by (metis (mono_tags) mem_Collect_eq)
  have "time_sorted (heap d) (ys @ a # zs)" using queues_okD(2) [OF db_okD(1) [OF assms(1)], of p q] assms(3) by simp
  then have after: "sort_time (heap d a) \<le> sort_time (heap d b)" if "b \<in> set zs" for b
    using that by (simp add: time_sorted_def sorted_wrt_append)
  have s: "sort_time (heap d b) = ends (heap d b)" if "b \<in> set (ys @ a # zs)" for b
    by (rule plainD(1) [OF assms(2) P [OF that]])
  have l: "later_leases d p q = insert a (set zs)"
    using assms(3,4,5) after s by (fastforce simp: later_leases_def)
  show "due_leases d p q \<subseteq> set ys" using assms(3,4) after s by (fastforce simp: due_leases_def ends_now_def)
  show "\<exists>t. timer_walk e p q d (Some a) n = Some (Ret (d, t)) \<and> first_end n (heap d) (later_leases d p q) t"
    using assms(4) after s by (subst timer_walk.simps) (auto simp: Let_def l first_end_def intro: order_trans [of n "ends (heap d a)"])
qed

definition same_pools :: "db \<Rightarrow> db \<Rightarrow> bool" where
  "same_pools d d' \<longleftrightarrow> same_timers d d' \<and> (\<forall>p. failover_peer (pools d' p) = failover_peer (pools d p))"

lemma same_pools_refl [simp]: "same_pools d d"
  by (simp add: same_pools_def)

lemma same_pools_trans: "same_pools d d' \<Longrightarrow> same_pools d' d'' \<Longrightarrow> same_pools d d''"
  using same_timers_trans by (auto simp: same_pools_def)

lemma next_on_split: "distinct (ys @ a # zs) \<Longrightarrow> next_on (ys @ a # zs) a = seg_head zs None"
proof -
  assume "distinct (ys @ a # zs)"
  then have "dropWhile (\<lambda>b. b \<noteq> a) (ys @ a # zs) = a # zs" by (subst dropWhile_append2) auto
  then show ?thesis by (simp add: next_on_def)
qed

lemma walk_idle:
  assumes "db_ok S d" "plain d p" "q \<in> {FREE_LEASES, BACKUP_LEASES, RESERVED_LEASES}"
    "queue (pools d p) q = ys @ zs" "\<forall>b \<in> set ys. ends (heap d b) \<le> cur_time d"
  shows "\<exists>t. timer_walk e p q d (seg_head zs None) n = Some (Ret (d, t)) \<and> first_end n (heap d) (later_leases d p q) t"
  using assms(4,5)
proof (induction zs arbitrary: ys)
  case Nil
  then have "later_leases d p q = {}" by (auto simp: later_leases_def)
  then show ?case by (subst timer_walk.simps) simp
next
  case (Cons a zs)
  show ?case
  proof (cases "cur_time d < sort_time (heap d a)")
    case True
    then show ?thesis using walk_stops(1) [OF assms(1,2) Cons.prems(1) True Cons.prems(2)] by simp
  next
    case False
    have a: "a \<in> set (queue (pools d p) q)" using Cons.prems(1) by simp
    then have aP: "a \<in> pool_leases d p" by (auto simp: pool_leases_def)
    have "queue_of (heap d a) = Some q" using a member_queue [OF assms(1)] by blast
    then have "next_binding_state (heap d a) = binding_state (heap d a)" using pending_iff [OF assms(2) aP] assms(3) by auto
    moreover have "next_on (queue (pools d p) q) a = seg_head zs None"
      using Cons.prems(1) next_on_split [of ys a zs] queues_okD(1) [OF db_okD(1) [OF assms(1)], of p q] by simp
    ultimately show ?thesis using Cons.IH [of "ys @ [a]"] Cons.prems False plainD(1) [OF assms(2) aP]
      by (subst timer_walk.simps) (simp add: Let_def)
  qed
qed

lemma walk_pending:
  assumes "q \<notin> {FREE_LEASES, BACKUP_LEASES, RESERVED_LEASES}" "db_ok S d" "plain d p" "queue (pools d p) q = xs"
  shows "\<exists>d' t. timer_walk e p q d (seg_head xs None) n = Some (Ret (d', t)) \<and> db_ok S d' \<and> plain d' p \<and>
           expired (due_leases d p q) d d' \<and> same_pools d d' \<and> first_end n (heap d) (later_leases d p q) t"
  using assms(2-)
proof (induction xs arbitrary: d)
  case Nil
  then show ?case by (subst timer_walk.simps) (simp add: due_leases_def later_leases_def)
next
  case (Cons a xs)
  note db = Cons.prems(1) and pl = Cons.prems(2)
  have a: "a \<in> set (queue (pools d p) q)" using Cons.prems(3) by simp
  then have aP: "a \<in> pool_leases d p" by (auto simp: pool_leases_def)
  have st: "sort_time (heap d a) = ends (heap d a)" by (rule plainD(1) [OF pl aP])
  show ?case
  proof (cases "cur_time d < sort_time (heap d a)")
    case True
    then have "due_leases d p q = {}" using walk_stops(2) [OF db pl, of q "[]" a xs] Cons.prems(3) by simp
    then show ?thesis using walk_stops(1) [OF db pl, of q "[]" a xs e n] True Cons.prems by auto
  next
    case False
    have qa: "queue_of (heap d a) = Some q" using a member_queue [OF db] by blast
    have nb: "next_binding_state (heap d a) \<noteq> binding_state (heap d a)" using pending_iff [OF pl aP qa] assms(1) by blast
    note step = expire_step [OF db pl a assms(1)]
    obtain d1 r where d1: "supersede_core e d a None True True True = Ret (d1, r)" "db_ok S d1" "plain d1 p"
        "filter (\<lambda>b. b \<noteq> a) (queue (pools d1 p) q) = filter (\<lambda>b. b \<noteq> a) (queue (pools d p) q)"
        "a \<notin> set (queue (pools d1 p) q)" "expired {a} d d1" "same_pools d d1"
      using step(2) [of e] False st by (auto simp: same_pools_def)
    have ds: "distinct (a # xs)" using queues_okD(1) [OF db_okD(1) [OF db], of p q] Cons.prems(3) by simp
    then have q1: "queue (pools d1 p) q = xs"
      using d1(4,5) Cons.prems(3) by (metis (mono_tags, lifting) distinct.simps(2) filter.simps(2) filter_True)
    have nx: "next_on (queue (pools d p) q) a = seg_head xs None"
      using Cons.prems(3) next_on_split [of "[]" a xs] ds by simp
    obtain d2 t where d2: "timer_walk e p q d1 (seg_head xs None) n = Some (Ret (d2, t))" "db_ok S d2" "plain d2 p"
        "expired (due_leases d1 p q) d1 d2" "first_end n (heap d1) (later_leases d1 p q) t" "same_pools d1 d2"
      using Cons.IH [OF d1(2,3) q1] by blast
    have w: "timer_walk e p q d (seg_head (a # xs) None) n = Some (Ret (d2, t))"
    proof -
      have "(if may_rewind d (heap d a) then upd_lease a (\<lambda>l. l\<lparr>next_binding_state := rewind_binding_state l\<rparr>) d else d) = d"
        using step(1) by (simp only: rewound_def)
      then show ?thesis using False nb nx d1(1) d2(1)
        by (subst timer_walk.simps) (simp only: Let_def seg_head.simps option.case if_False if_True cres.case prod.case simp_thms)
    qed
    have fa: "binding_state (heap d a) \<noteq> FTS_FREE \<and> binding_state (heap d a) \<noteq> FTS_BACKUP"
      using queue_of_idle [OF qa] assms(1) by blast
    have "a \<in> due_leases d p q" using a False st fa by (simp add: due_leases_def ends_now_def)
    then have "due_leases d p q = {a} \<union> due_leases d1 p q"
      unfolding expired_due [OF db d1(2,6)] by blast
    moreover have "expired ({a} \<union> due_leases d1 p q) d d2" by (rule expired_trans [OF d1(6) d2(4)])
    moreover have "first_end n (heap d) (later_leases d p q) t"
      using d2(5) expired_later [OF db d1(2,6), of p q] False st expired_ends [OF d1(6)] by (simp add: first_end_def)
    ultimately show ?thesis using w d2(2,3) same_pools_trans [OF d1(7) d2(6)] by auto
  qed
qed

lemma timer_walk_plain:
  assumes "db_ok S d" "plain d p"
  shows "\<exists>d' t. timer_walk e p q d (seg_head (queue (pools d p) q) None) n = Some (Ret (d', t)) \<and> db_ok S d' \<and> plain d' p \<and>
           expired (due_leases d p q) d d' \<and> same_pools d d' \<and> first_end n (heap d) (later_leases d p q) t"
proof (cases "q \<in> {FREE_LEASES, BACKUP_LEASES, RESERVED_LEASES}")
  case True
  have "\<not> ends_now t (heap d a)" if "a \<in> set (queue (pools d p) q)" for a t
    using that member_queue [OF assms(1), of a p q] queue_of_idle [of "heap d a" q] True by (auto simp: ends_now_def)
  then have "due_leases d p q = {}" by (simp add: due_leases_def)
  then show ?thesis using walk_idle [OF assms True, of "[]" "queue (pools d p) q" e n] assms by auto
next
  case False
  then show ?thesis using walk_pending [OF False assms refl] by blast
qed

lemma timer_queues_plain:
  assumes "db_ok S d" "plain d p"
  shows "\<exists>d' t. timer_queues e p qs d n = Ret (d', t) \<and> db_ok S d' \<and> plain d' p \<and>
           expired (\<Union>q \<in> set qs. due_leases d p q) d d' \<and> same_pools d d' \<and> first_end n (heap d) (\<Union>q \<in> set qs. later_leases d p q) t"
  using assms
proof (induction qs arbitrary: d n)
  case (Cons q qs)
  note db = Cons.prems(1) and pl = Cons.prems(2)
  obtain d1 t where d1: "timer_walk e p q d (seg_head (queue (pools d p) q) None) n = Some (Ret (d1, t))" "db_ok S d1"
      "plain d1 p" "expired (due_leases d p q) d d1" "first_end n (heap d) (later_leases d p q) t" "same_pools d d1"
    using timer_walk_plain [OF db pl] by blast
  obtain d2 u where d2: "timer_queues e p qs d1 t = Ret (d2, u)" "db_ok S d2" "plain d2 p"
      "expired (\<Union>q \<in> set qs. due_leases d1 p q) d1 d2" "first_end t (heap d1) (\<Union>q \<in> set qs. later_leases d1 p q) u"
      "same_pools d1 d2"
    using Cons.IH [OF d1(2,3)] by blast
  have w: "timer_queues e p (q # qs) d n = Ret (d2, u)"
  proof (cases "queue (pools d p) q")
    case Nil
    then have "d1 = d \<and> t = n" using d1(1) by (simp add: timer_walk.simps [of e p q d None])
    then show ?thesis using Nil d2(1) by simp
  next
    case (Cons a xs)
    have "\<not> skip_queue d p q" using pl by (simp add: skip_queue_def plain_def)
    then show ?thesis using Cons d1(1) d2(1) by simp
  qed
  have past: "ends (heap d a) \<le> cur_time d" if "a \<in> due_leases d p q" for a
    using that by (simp add: due_leases_def ends_now_def)
  have "(\<Union>q \<in> set qs. due_leases d1 p q) = (\<Union>q \<in> set qs. due_leases d p q) - due_leases d p q"
    using expired_due [OF db d1(2,4)] by auto
  then have "expired (\<Union>q \<in> set (q # qs). due_leases d p q) d d2"
    using expired_trans [OF d1(4) d2(4)] by (simp add: Un_Diff_cancel)
  moreover have "later_leases d1 p q' = later_leases d p q'" for q'
    by (rule expired_later [OF db d1(2,4) past])
  then have "first_end n (heap d) (\<Union>q \<in> set (q # qs). later_leases d p q) u"
    using first_end_trans [OF d1(5) d2(5) expired_ends [OF d1(4)]] by simp
  ultimately show ?case using w d2(2,3) same_pools_trans [OF d1(6) d2(6)] by blast
qed simp

lemma pool_leases_queues:
  "a \<in> pool_leases d p \<longleftrightarrow> (\<exists>q \<in> set lptr. a \<in> set (queue (pools d p) q))"
  by (auto simp: pool_leases_def UNIV_queue_name [symmetric])

lemma due_all: "(\<Union>q \<in> set lptr. due_leases d p q) = {a \<in> pool_leases d p. ends_now (cur_time d) (heap d a)}"
  by (auto simp: due_leases_def pool_leases_queues)

lemma later_all: "(\<Union>q \<in> set lptr. later_leases d p q) = {a \<in> pool_leases d p. cur_time d < ends (heap d a)}"
  by (auto simp: later_leases_def pool_leases_queues)

lemma pool_timer_plain:
  assumes "db_ok S d" "plain d p"
  shows "\<exists>d1 d' t. pool_timer e d p = Ret d' \<and> db_ok S d' \<and> plain d' p \<and>
           expired {a \<in> pool_leases d p. ends_now (cur_time d) (heap d a)} d d' \<and>
           first_end MAX_TIME (heap d) {a \<in> pool_leases d p. cur_time d < ends (heap d a)} t \<and>
           same_pools d d1 \<and> cur_tv d1 = cur_tv d \<and> db_ok S d1 \<and>
           (if t \<noteq> MAX_TIME \<and> (t < next_event_time (pools d p) \<or> next_event_time (pools d p) \<le> cur_time d)
            then add_timeout (upd_pool p (\<lambda>pl. pl\<lparr>next_event_time := t\<rparr>) d1) (t, 0) (Some POOL_TIMER) p = Ret d'
            else d' = upd_pool p (\<lambda>pl. pl\<lparr>next_event_time := MIN_TIME\<rparr>) d1)"
proof -
  obtain d1 t where d1: "timer_queues e p lptr d MAX_TIME = Ret (d1, t)" "db_ok S d1" "plain d1 p"
      "expired {a \<in> pool_leases d p. ends_now (cur_time d) (heap d a)} d d1"
      "first_end MAX_TIME (heap d) {a \<in> pool_leases d p. cur_time d < ends (heap d a)} t" "same_pools d d1"
    using timer_queues_plain [OF assms, of e lptr MAX_TIME] unfolding due_all later_all by blast
  have same: "plain d2 p \<and> expired A d d2"
    if "heap d2 = heap d1" "\<forall>q. queue (pools d2 p) q = queue (pools d1 p) q" "cur_tv d2 = cur_tv d1"
      "failover_peer (pools d2 p) = failover_peer (pools d1 p)" "expired A d d1" for d2 A
    using d1(3) that by (simp add: plain_def pool_leases_def expired_def)
  let ?d2 = "upd_pool p (\<lambda>pl. pl\<lparr>next_event_time := t\<rparr>) d1" and ?d4 = "upd_pool p (\<lambda>pl. pl\<lparr>next_event_time := MIN_TIME\<rparr>) d1"
  obtain d3 where d3: "add_timeout ?d2 (t, 0) (Some POOL_TIMER) p = Ret d3" "db_ok S d3"
      "d3 = ?d2\<lparr>timeouts := timeouts d3, next_addr := next_addr d3\<rparr>"
    using add_timeout_ok [OF next_event_ok [OF d1(2), of p t], of "(t, 0)" "Some POOL_TIMER" p]
    by (elim exE conjE) (rule that; assumption)
  have s3: "heap d3 = heap d1" "\<forall>q. queue (pools d3 p) q = queue (pools d1 p) q" "cur_tv d3 = cur_tv d1"
      "failover_peer (pools d3 p) = failover_peer (pools d1 p)"
    by (subst d3(3), simp)+
  have ct: "cur_tv d1 = cur_tv d" "next_event_time (pools d1 p) = next_event_time (pools d p)"
    using d1(4,6) by (simp_all add: expired_def same_pools_def same_timers_def)
  show ?thesis
  proof (cases "t \<noteq> MAX_TIME \<and> (t < next_event_time (pools d p) \<or> next_event_time (pools d p) \<le> cur_time d)")
    case True
    then have "pool_timer e d p = Ret d3" using d1(1) ct d3(1) by (simp add: pool_timer_def)
    then show ?thesis using True d1(2,5,6) d3(1,2) same [OF s3 d1(4)] ct(1) by auto
  next
    case False
    then have "pool_timer e d p = Ret ?d4" using d1(1) ct by (auto simp: pool_timer_def)
    then show ?thesis using False d1(2,5,6) next_event_ok [OF d1(2)] same [OF _ _ _ _ d1(4), of ?d4] ct(1) by auto
  qed
qed

section \<open>Releasing and abandoning a lease\<close>

lemma db_ok_upd:
  assumes "db_ok S d" "queue_view (f (heap d a)) = queue_view (heap d a)" "side_view (f (heap d a)) = side_view (heap d a)"
    "billing_class (f (heap d a)) = billing_class (heap d a)"
  shows "db_ok S (upd_lease a f d)"
proof -
  let ?d = "upd_lease a f d"
  have "queue_view (heap ?d b) = queue_view (heap d b)" for b using assms(2) by simp
  then have "queues_ok ?d" using queues_ok_cong [of d ?d] db_okD(1) [OF assms(1)] by simp
  moreover have "side_ok S ?d" using db_okD(2) [OF assms(1)] side_ok_upd_lease [of f d a S] assms(3,4) by simp
  ultimately show ?thesis using assms(1) by (simp add: db_ok_def on_queue_def)
qed

lemma db_ok_emit: "db_ok S d \<Longrightarrow> db_ok S (emit ev d)"
  using queues_ok_cong [of d "emit ev d"] by (simp add: db_ok_def on_queue_def)

text \<open>A lease that is not in the database, such as a copy, can be written to freely.\<close>

lemma fq_ok_other: assumes "fq_ok S d U A" "a \<notin> S" shows "fq_ok S (upd_lease a f d) U A"
proof -
  have m: "pend (upd_lease a f d) b = pend d b" "on_update (upd_lease a f d) b = on_update d b"
    "on_ack (upd_lease a f d) b = on_ack d b" "peer_of (upd_lease a f d) b = peer_of d b" if "b \<in> S" for b
    using that assms(2) by (auto simp: pend_def on_update_def on_ack_def peer_of_def)
  have p: "pend (upd_lease a f d) = (pend d)(a := next_pending (f (heap d a)))" by (auto simp: pend_def fun_eq_iff)
  have l: "linked (pend (upd_lease a f d)) x y xs = linked (pend d) x y xs" if "set xs \<subseteq> S" for x y xs
  proof -
    have "a \<notin> set xs" using that assms(2) by blast
    then show ?thesis unfolding p linked_def by simp
  qed
  have "set (U s) \<subseteq> S" "set (A s) \<subseteq> S" for s using assms(1) by (auto simp: fq_ok_def)
  then show ?thesis using assms(1) l m unfolding fq_ok_def by (simp cong: conj_cong)
qed

lemma db_ok_copy:
  assumes "db_ok S d" "a \<notin> S" "n_uid (f (heap d a)) = None" "n_hw (f (heap d a)) = None"
  shows "db_ok S (upd_lease a f d)"
proof -
  let ?d = "upd_lease a f d"
  note D = db_okD [OF assms(1)]
  have "queue_view (heap ?d b) = queue_view (heap d b)" if "on_queue d b" for b
    using that D(3) [of b] assms(2) by auto
  then have "queues_ok ?d" using queues_ok_cong [of d ?d] D(1) by simp
  moreover have "billing_ok S ?d" using D(2) assms(2) by (auto simp: side_ok_def billing_ok_def)
  moreover have "index_part S ?d"
  proof -
    obtain H K where H: "uid_ok d H" "unindexed H a" "hw_ok d K" "unindexed K a"
      using D(2) assms(2) by (auto simp: side_ok_def rest_ok_def)
    have "n_uid (heap d a) = None" "n_hw (heap d a) = None"
      using index_okD(5) [OF H(1) [unfolded uid_ok_def] H(2)] index_okD(5) [OF H(3) [unfolded hw_ok_def] H(4)] by auto
    then show ?thesis using index_part_upd [of S d a f] assms D(2) by (simp add: side_ok_def rest_ok_iff)
  qed
  moreover obtain U A where "fq_ok S d U A" using D(2) by (auto simp: side_ok_def rest_ok_def)
  then have "\<exists>U A. fq_ok S ?d U A" using fq_ok_other [OF _ assms(2)] by blast
  moreover have "\<not> no_memory d \<and> \<not> isc_fails d" using D(2) by (simp add: side_ok_def rest_ok_def)
  ultimately show ?thesis using assms(1) by (simp add: db_ok_def on_queue_def side_ok_def rest_ok_iff)
qed

lemma released_state_valid: "released_state d l \<in> {FTS_FREE, FTS_BACKUP, FTS_RELEASED}"
  by (auto simp: released_state_def split: option.split)

lemma state_of_lease:
  assumes "db_ok S d" "a \<in> S" shows "\<exists>p q. l_pool (heap d a) = Some p \<and> queue_of (heap d a) = Some q"
  using on_queue_unique [OF db_okD(1) [OF assms(1)]] db_okD(3) [OF assms(1)] assms(2) by blast

text \<open>A change that leaves the lease with an end that is not past does not run the timer of the pool.\<close>

lemma supersede_lease_now:
  assumes "db_ok S d" "request_ok S d cp lease" "commit \<or> \<not> pimm" "cur_time d \<le> ends (source_lease d cp lease)"
  shows "\<exists>d' b. supersede_lease e d cp lease commit pg pimm fp = Ret (d', b) \<and> db_ok S d' \<and>
           lease_changed cp (source_lease d cp lease) d d'"
proof -
  obtain d' r where d': "supersede_core e d cp lease commit pg pimm = Ret (d', r)" "db_ok S d'"
      "lease_changed cp (source_lease d cp lease) d d'"
    using supersede_core_ok [OF assms(1-3)] by blast
  have "cur_tv d' = cur_tv d" "ends (source_lease d cp lease) \<le> sort_time (heap d' cp)" using d'(3) by (simp_all add: lease_changed_def)
  then show ?thesis using d' assms(4) by (cases r) (auto simp: supersede_lease_def)
qed

lemma release_lease_ok:
  assumes "db_ok S d" "a \<in> S"
  shows "\<exists>d'. release_lease e d a = Ret d' \<and> db_ok S d' \<and> cur_tv d' = cur_tv d \<and>
           (\<forall>b. b \<noteq> a \<longrightarrow> state_view (heap d' b) = state_view (heap d b)) \<and>
           (if binding_state (heap d a) \<in> {FTS_ACTIVE, FTS_ABANDONED}
            then binding_state (heap d' a) = released_state d (heap d a) \<and> ends (heap d' a) = cur_time d
            else state_view (heap d' a) = state_view (heap d a))"
proof -
  define d1 where "d1 = emit (EvDdnsRemovals a) d"
  define d2 where "d2 = (case on_release (heap d1 a) of
                 Some st \<Rightarrow> upd_lease a (\<lambda>l. l\<lparr>scope := run_statements e st (scope l), on_release := None\<rparr>)
                              (emit (EvExecute st a) d1)
               | None \<Rightarrow> d1)"
  define d3 where "d3 = upd_lease a (\<lambda>l. l\<lparr>on_expiry := None\<rparr>) d2"
  have 2: "db_ok S d2 \<and> cur_tv d2 = cur_tv d \<and> pools d2 = pools d \<and> peers d2 = peers d \<and> (\<forall>b. b \<noteq> a \<longrightarrow> heap d2 b = heap d b) \<and>
      state_view (heap d2 a) = state_view (heap d a) \<and> l_pool (heap d2 a) = l_pool (heap d a) \<and>
      rewind_binding_state (heap d2 a) = rewind_binding_state (heap d a)"
    using assms(1) by (auto simp: d2_def d1_def state_view_def queue_view_def queue_of_def side_view_def
        intro!: db_ok_upd db_ok_emit split: option.split)
  have 3: "db_ok S d3" using 2 by (auto simp: d3_def queue_view_def queue_of_def side_view_def intro!: db_ok_upd)
  have v3: "state_view (heap d3 a) = state_view (heap d2 a)" by (simp add: d3_def state_view_def queue_view_def queue_of_def)
  have s3: "cur_tv d3 = cur_tv d" "pools d3 = pools d" "peers d3 = peers d" "\<forall>b. b \<noteq> a \<longrightarrow> heap d3 b = heap d b"
      "state_view (heap d3 a) = state_view (heap d a)" "l_pool (heap d3 a) = l_pool (heap d a)"
      "rewind_binding_state (heap d3 a) = rewind_binding_state (heap d a)"
    using 2 v3 by (simp_all add: d3_def)
  have b3: "binding_state (heap d3 a) = binding_state (heap d a)" using s3(5) by (simp add: state_view_def)
  have nb: "binding_state (heap d a) \<notin> {FTS_FREE, FTS_BACKUP, FTS_RELEASED, FTS_EXPIRED, FTS_RESET} \<longleftrightarrow>
      binding_state (heap d a) \<in> {FTS_ACTIVE, FTS_ABANDONED}"
    using state_of_lease [OF assms] by (cases "binding_state (heap d a)") (auto simp: queue_of_def)
  define d4 where "d4 = upd_lease a (\<lambda>l. l\<lparr>on_commit := None, scope := None, ends := cur_time d3, tstp := cur_time d3\<rparr>) d3"
  define d5 where "d5 = upd_lease a (\<lambda>l. l\<lparr>next_binding_state := released_state d4 l\<rparr>) d4"
  have eq: "release_lease e d a = (if binding_state (heap d a) \<in> {FTS_ACTIVE, FTS_ABANDONED}
      then cbind (supersede_lease e d5 a None True True True False) (\<lambda>(d, _). Ret d) else Ret d3)"
    unfolding release_lease_def Let_def d1_def [symmetric] d2_def [symmetric] d3_def [symmetric] d4_def [symmetric] d5_def [symmetric]
      b3 nb by (rule refl)
  show ?thesis
  proof (cases "binding_state (heap d a) \<in> {FTS_ACTIVE, FTS_ABANDONED}")
    case False
    then show ?thesis using eq 3 s3 by auto
  next
    case True
    have 5: "db_ok S d5" using 3 unfolding d5_def d4_def
      by (intro db_ok_upd) (auto simp: queue_view_def queue_of_def side_view_def)
    have rs: "released_state d4 (heap d4 a) = released_state d (heap d a)"
    proof -
      have "pools d4 = pools d" "peers d4 = peers d" "l_pool (heap d4 a) = l_pool (heap d a)"
        "rewind_binding_state (heap d4 a) = rewind_binding_state (heap d a)" using s3 by (simp_all add: d4_def)
      then show ?thesis by (simp only: released_state_def lease_peer_def)
    qed
    have h5: "next_binding_state (heap d5 a) = released_state d (heap d a)" "ends (heap d5 a) = cur_time d" "cur_tv d5 = cur_tv d"
      using rs s3(1) by (simp_all add: d5_def) (simp_all add: d4_def s3(1))
    have "request_ok S d5 a None" using assms(2) h5(1) released_state_valid [of d "heap d a"] by (auto simp: request_ok_def)
    then obtain d' b where d': "supersede_lease e d5 a None True True True False = Ret (d', b)" "db_ok S d'"
        "lease_changed a (heap d5 a) d5 d'"
      using supersede_lease_now [OF 5, of a None True True e True False] h5 by (auto simp: source_lease_def)
    have "state_view (heap d5 b) = state_view (heap d b)" if "b \<noteq> a" for b using that s3(4) by (simp add: d5_def d4_def)
    then show ?thesis using eq True d' h5 by (auto simp: lease_changed_def)
  qed
qed

lemma abandon_ends_bounds: "0 \<le> abandon_lease_time e \<Longrightarrow> cur_time d \<le> MAX_TIME \<Longrightarrow> cur_time d \<le> abandon_ends e d \<and> abandon_ends e d \<le> MAX_TIME"
  by (auto simp: abandon_ends_def Let_def)

lemma lease_copy_sel:
  "\<not> no_memory d \<Longrightarrow> \<exists>c. lease_copy d lt a = Some (upd_lease lt (\<lambda>_. c) d) \<and> n_uid c = None \<and> n_hw c = None \<and>
     flags c = flags (heap d a)"
  unfolding lease_copy_def Let_def
  by (subst if_not_P, assumption) (rule exI, rule conjI, rule refl, simp add: new_lease_def)

lemma abandon_lease_ok:
  assumes "db_ok S d" "a \<in> S" "lt \<notin> S" "\<not> has_flag (heap d a) STATIC_LEASE" "0 \<le> abandon_lease_time e" "cur_time d \<le> MAX_TIME"
  shows "\<exists>d'. abandon_lease e d lt a = Ret d' \<and> db_ok S d' \<and> cur_tv d' = cur_tv d \<and>
           (\<forall>b. b \<noteq> a \<and> b \<noteq> lt \<longrightarrow> state_view (heap d' b) = state_view (heap d b)) \<and>
           binding_state (heap d' a) = FTS_ABANDONED \<and> next_binding_state (heap d' a) = FTS_FREE \<and>
           ends (heap d' a) = abandon_ends e d"
proof -
  define d1 where "d1 = emit (EvDdnsRemovals a) d"
  have 1: "db_ok S d1" "cur_tv d1 = cur_tv d" "heap d1 = heap d" using assms(1) db_ok_emit by (simp_all add: d1_def)
  have nm: "\<not> no_memory d1" using db_okD(2) [OF 1(1)] by (simp add: side_ok_def rest_ok_def)
  obtain c where c: "lease_copy d1 lt a = Some (upd_lease lt (\<lambda>_. c) d1)" "n_uid c = None" "n_hw c = None" "flags c = flags (heap d1 a)"
    using lease_copy_sel [OF nm, of lt a] by blast
  have "db_ok S (upd_lease lt (\<lambda>_. c) d1)" by (rule db_ok_copy [OF 1(1) assms(3)]) (simp_all add: c)
  then obtain d2 where d2: "lease_copy d1 lt a = Some d2" "db_ok S d2" "cur_tv d2 = cur_tv d" "\<forall>b. b \<noteq> lt \<longrightarrow> heap d2 b = heap d b"
      "flags (heap d2 lt) = flags (heap d a)" "n_uid (heap d2 lt) = None" "n_hw (heap d2 lt) = None"
    using c 1(2,3) that [OF c(1)] by simp
  define d3 where "d3 = upd_lease lt (\<lambda>l. l\<lparr>scope := None, ends := abandon_ends e d2, next_binding_state := FTS_ABANDONED,
                                        hardware_addr := [], uid := None\<rparr>) d2"
  have 3: "db_ok S d3" unfolding d3_def using d2(6,7) by (intro db_ok_copy [OF d2(2) assms(3)]) auto
  have ae: "abandon_ends e d2 = abandon_ends e d" by (simp add: abandon_ends_def d2(3))
  have eq: "abandon_lease e d lt a = cbind (supersede_lease e d3 a (Some lt) True True True False) (\<lambda>(d, _). Ret d)"
    by (simp add: abandon_lease_def Let_def d1_def [symmetric] d2(1) d3_def)
  have "request_ok S d3 a (Some lt)" using assms(2-4) d2(5) by (simp add: request_ok_def sample_ok_def d3_def)
  then obtain d' b where d': "supersede_lease e d3 a (Some lt) True True True False = Ret (d', b)" "db_ok S d'"
      "lease_changed a (heap d3 lt) d3 d'"
    using supersede_lease_now [OF 3, of a "Some lt" True True e True False] abandon_ends_bounds [OF assms(5,6)] ae d2(3)
    by (auto simp: source_lease_def d3_def)
  have "state_view (heap d3 b) = state_view (heap d b)" if "b \<noteq> a" "b \<noteq> lt" for b using that d2(4) by (simp add: d3_def)
  then show ?thesis using eq d' ae d2(3) by (auto simp: lease_changed_def d3_def after_state_def)
qed

end
