(* ===== verification/Expiry.thy ===== *)
theory Expiry
  imports PoolTimer
begin

text \<open>
  The list of timeouts and the lease database together: as the clock goes on, the timers of the
  pools run and the leases whose time has come become free.
\<close>

section \<open>The functions timeouts call\<close>

text \<open>
  A timeout holds a pointer to one of the functions of \<open>timer_func\<close>. \<open>other\<close> stands for those of
  the failover link, which no timeout of a server without failover peers calls.
\<close>

definition run_timer ::
    "db_env \<Rightarrow> (timer_func \<Rightarrow> nat \<Rightarrow> db \<Rightarrow> db cres) \<Rightarrow> timer_func option \<Rightarrow> nat \<Rightarrow> db \<Rightarrow> db cres" where
  "run_timer e other f what d =
     (case f of
        None \<Rightarrow> Undef
      | Some POOL_TIMER \<Rightarrow> pool_timer e d what
      | Some TOACK_QUEUE_TIMEOUT \<Rightarrow> dhcp_failover_toack_queue_timeout e d what
      | Some g \<Rightarrow> other g what d)"

section \<open>Leases and timers\<close>

text \<open>
  Every lease that will become free by itself has a timeout of its pool that is not later, and the
  timeouts are those of pools, each at the time noted in its pool.
\<close>

definition waiting :: "db_lease \<Rightarrow> bool" where
  "waiting l \<longleftrightarrow> binding_state l \<noteq> FTS_FREE \<and> binding_state l \<noteq> FTS_BACKUP"

definition armed :: "db \<Rightarrow> bool" where
  "armed d \<longleftrightarrow>
     (\<forall>p. \<forall>a \<in> pool_leases d p. waiting (heap d a) \<and> ends (heap d a) < MAX_TIME \<longrightarrow>
        (\<exists>q \<in> set (timeouts d). is_for (Some POOL_TIMER) p q \<and> next_event_time (pools d p) \<le> ends (heap d a))) \<and>
     (\<forall>q \<in> set (timeouts d). t_func q = Some POOL_TIMER \<and> t_when q = (next_event_time (pools d (t_what q)), 0))"

definition clock_ok :: "ptr set \<Rightarrow> db \<Rightarrow> bool" where
  "clock_ok S d \<longleftrightarrow> db_ok S d \<and> (\<forall>p. plain d p) \<and> armed d \<and> timeouts_ok d \<and> playback d \<and>
     tv_sorted (timeouts d) \<and> 0 \<le> cur_time d \<and> snd (cur_tv d) = 0"

text \<open>The lemmas on \<open>pool_timer\<close>, for all pools at once.\<close>

lemma expired_l_pool: assumes "expired A d d'" shows "l_pool (heap d' a) = l_pool (heap d a)"
proof (cases "a \<in> A")
  case False
  then have "state_view (heap d' a) = state_view (heap d a)" using assms by (auto simp: expired_def)
  then show ?thesis by (simp add: state_view_def queue_view_def)
qed (use assms in \<open>auto simp: expired_def\<close>)

lemma expired_elsewhere:
  assumes "db_ok S d" "db_ok S d'" "expired A d d'" "\<And>a. a \<in> A \<Longrightarrow> l_pool (heap d a) = Some p" "p' \<noteq> p"
  shows "pool_leases d' p' = pool_leases d p'" "a \<in> pool_leases d p' \<Longrightarrow> state_view (heap d' a) = state_view (heap d a)"
proof -
  show "pool_leases d' p' = pool_leases d p'" by (rule pool_leases_same [OF assms(1,2) expired_l_pool [OF assms(3)]])
  assume "a \<in> pool_leases d p'"
  then have "a \<notin> A" using pool_leases_iff [OF assms(1)] assms(4,5) by auto
  then show "state_view (heap d' a) = state_view (heap d a)" using assms(3) by (auto simp: expired_def)
qed

lemma plain_elsewhere:
  assumes "db_ok S d" "db_ok S d'" "expired A d d'" "\<And>a. a \<in> A \<Longrightarrow> l_pool (heap d a) = Some p" "p' \<noteq> p"
    "plain d p'" "failover_peer (pools d' p') = failover_peer (pools d p')"
  shows "plain d' p'"
  unfolding plain_def
proof (intro conjI ballI)
  note E = expired_elsewhere [OF assms(1-5)]
  show "failover_peer (pools d' p') = None" using assms(6,7) by (simp add: plain_def)
  fix a assume "a \<in> pool_leases d' p'"
  then have a: "a \<in> pool_leases d p'" using E(1) by simp
  show "sort_time (heap d' a) = ends (heap d' a)"
    "next_binding_state (heap d' a) = after_state False FTS_FREE (binding_state (heap d' a))"
    using plainD [OF assms(6) a] E(2) [OF _ a] by (simp_all add: state_view_def queue_view_def)
qed

text \<open>What the timer leaves on the list of timeouts.\<close>

lemma add_pool_timeout:
  fixes d :: db
  assumes "timeouts_ok d" "\<not> no_memory d" "\<not> isc_fails d" "playback d" "tv_sorted (timeouts d)"
    "\<forall>q \<in> set (timeouts d). \<not> is_for (Some POOL_TIMER) p q" "0 \<le> cur_time d" "snd (cur_tv d) = 0" "cur_time d < t" "t < MAX_TIME"
  shows "\<exists>d' q. add_timeout d (t, 0) (Some POOL_TIMER) p = Ret d' \<and> timeouts_ok d' \<and> tv_sorted (timeouts d') \<and>
           set (timeouts d') = insert q (set (timeouts d)) \<and> is_for (Some POOL_TIMER) p q \<and> t_when q = (t, 0) \<and>
           filter (due (cur_tv d)) (timeouts d') = filter (due (cur_tv d)) (timeouts d) \<and>
           d' = d\<lparr>timeouts := timeouts d', next_addr := next_addr d'\<rparr>"
proof -
  obtain n q ys zs where add: "add_timeout d (t, 0) (Some POOL_TIMER) p = Ret (d\<lparr>timeouts := ys @ q # zs, next_addr := n\<rparr>)"
      and rest: "filter (\<lambda>q. \<not> is_for (Some POOL_TIMER) p q) (timeouts d) = ys @ zs"
      and q: "new_timeout d (t, 0) POOL_TIMER p q"
      and pb: "ys @ q # zs = (if playback d then playback_insert q (ys @ zs) else q # ys @ zs)"
      and ok: "timeouts_ok (d\<lparr>timeouts := ys @ q # zs, next_addr := n\<rparr>)"
    using add_timeout_split [OF assms(1-3), of "(t, 0)" POOL_TIMER p] by (elim exE conjE) (rule that; assumption)
  have ts: "timeouts d = ys @ zs" using rest assms(6) by (metis (mono_tags, lifting) filter_True)
  have w: "t_when q = (t, 0)"
    using q add_timeout_when [of "cur_tv d" "(t, 0)"] assms(7-10) by (simp add: new_timeout_def USEC_MAX_def TIME_MAX_def MAX_TIME_def)
  have "\<not> due (cur_tv d) q" using w assms(8,9) by (simp add: due_def)
  then have "filter (due (cur_tv d)) (ys @ q # zs) = filter (due (cur_tv d)) (timeouts d)" using ts by simp
  moreover have "tv_sorted (ys @ q # zs)" using pb assms(4,5) ts playback_insert_sorted [of "ys @ zs" q] by simp
  moreover have "set (ys @ q # zs) = insert q (set (timeouts d))" using ts by auto
  ultimately show ?thesis using add ok q w
    by (intro exI [of _ "d\<lparr>timeouts := ys @ q # zs, next_addr := n\<rparr>"] exI [of _ q]) (simp add: new_timeout_def)
qed

text \<open>What the timer of pool \<open>p\<close> does to a lease of that pool.\<close>

lemma still_waiting:
  assumes "expired {a \<in> pool_leases d p. ends_now (cur_time d) (heap d a)} d d'" "a \<in> pool_leases d p"
    "waiting (heap d' a)"
  shows "cur_time d < ends (heap d' a)" "ends (heap d' a) = ends (heap d a)"
proof -
  have "\<not> ends_now (cur_time d) (heap d a)" using assms by (auto simp: expired_def waiting_def)
  then have "state_view (heap d' a) = state_view (heap d a)" using assms(1) by (auto simp: expired_def)
  then show "cur_time d < ends (heap d' a)" "ends (heap d' a) = ends (heap d a)"
    using assms(3) \<open>\<not> ends_now (cur_time d) (heap d a)\<close> by (auto simp: state_view_def ends_now_def waiting_def)
qed

lemma timeouts_ok_other:
  assumes "timeouts_ok d" "timeouts d = t # ts" "q \<in> set ts" "t_func q = t_func t" shows "t_what q \<noteq> t_what t"
proof
  assume "t_what q = t_what t"
  then have "(t_func t, t_what t) \<in> (\<lambda>q. (t_func q, t_what q)) ` set ts" using assms(3,4) by (intro rev_image_eqI [of q]) auto
  then show False using assms(1,2) by (simp add: timeouts_ok_def)
qed

lemma armed_after:
  assumes ar: "armed d" and ts: "timeouts d = t # ts" and t: "t_what t = p" and ok: "timeouts_ok d"
    and db: "db_ok S d" "db_ok S d'" and ex: "expired {a \<in> pool_leases d p. ends_now (cur_time d) (heap d a)} d d'"
    and pools': "\<And>p'. p' \<noteq> p \<Longrightarrow> next_event_time (pools d' p') = next_event_time (pools d p')"
    and old: "set ts \<subseteq> set (timeouts d')"
    and new: "\<And>q. q \<in> set (timeouts d') \<Longrightarrow> q \<notin> set ts \<Longrightarrow>
        is_for (Some POOL_TIMER) p q \<and> t_when q = (next_event_time (pools d' p), 0)"
    and mine: "\<And>a. a \<in> pool_leases d p \<Longrightarrow> cur_time d < ends (heap d a) \<Longrightarrow> ends (heap d a) < MAX_TIME \<Longrightarrow>
        \<exists>q \<in> set (timeouts d'). is_for (Some POOL_TIMER) p q \<and> next_event_time (pools d' p) \<le> ends (heap d a)"
  shows "armed d'"
  unfolding armed_def
proof (intro conjI allI ballI impI)
  have inA: "l_pool (heap d a) = Some p" if "a \<in> {a \<in> pool_leases d p. ends_now (cur_time d) (heap d a)}" for a
    using that pool_leases_iff [OF db(1)] by blast
  fix p' a assume a: "a \<in> pool_leases d' p'" "waiting (heap d' a) \<and> ends (heap d' a) < MAX_TIME"
  show "\<exists>q \<in> set (timeouts d'). is_for (Some POOL_TIMER) p' q \<and> next_event_time (pools d' p') \<le> ends (heap d' a)"
  proof (cases "p' = p")
    case True
    then have "a \<in> pool_leases d p" using a(1) pool_leases_same [OF db expired_l_pool [OF ex]] by blast
    then show ?thesis using mine [of a] still_waiting [OF ex, of a] a(2) True by auto
  next
    case False
    note E = expired_elsewhere [OF db ex inA False]
    have aP: "a \<in> pool_leases d p'" using a(1) E(1) by blast
    have "state_view (heap d' a) = state_view (heap d a)" using E(2) [OF _ aP] by blast
    then have "waiting (heap d a)" "ends (heap d' a) = ends (heap d a)" using a(2) by (auto simp: waiting_def state_view_def)
    then obtain q where q: "q \<in> set (timeouts d)" "is_for (Some POOL_TIMER) p' q" "next_event_time (pools d p') \<le> ends (heap d' a)"
      using ar aP a(2) unfolding armed_def by metis
    then have "q \<in> set ts" using ts t False by auto
    then show ?thesis using q old pools' [OF False] by auto
  qed
next
  fix q assume q: "q \<in> set (timeouts d')"
  have "t_func q = Some POOL_TIMER \<and> t_when q = (next_event_time (pools d' (t_what q)), 0)"
  proof (cases "q \<in> set ts")
    case True
    have 1: "t_func q = Some POOL_TIMER" "t_func t = Some POOL_TIMER" "t_when q = (next_event_time (pools d (t_what q)), 0)"
      using ar ts True by (auto simp: armed_def)
    then have "t_what q \<noteq> p" using timeouts_ok_other [OF ok ts True] t by simp
    then show ?thesis using 1 pools' by simp
  next
    case False
    then show ?thesis using new [OF q] by auto
  qed
  then show "t_func q = Some POOL_TIMER" "t_when q = (next_event_time (pools d' (t_what q)), 0)" by auto
qed

lemma db_ok_timer:
  assumes "db_ok S d" shows "db_ok S (d\<lparr>timeouts := ts\<rparr>)" "db_ok S (d\<lparr>cur_tv := tv\<rparr>)"
proof -
  have "side_ok S (d\<lparr>timeouts := ts\<rparr>) = side_ok S d" "side_ok S (d\<lparr>cur_tv := tv\<rparr>) = side_ok S d"
    by (rule side_ok_cong; simp)+
  then show "db_ok S (d\<lparr>timeouts := ts\<rparr>)" "db_ok S (d\<lparr>cur_tv := tv\<rparr>)"
    using assms queues_ok_cong [of d "d\<lparr>timeouts := ts\<rparr>"] queues_ok_cong [of d "d\<lparr>cur_tv := tv\<rparr>"]
    by (simp_all add: db_ok_def on_queue_def)
qed

lemma clock_okD:
  assumes "clock_ok S d"
  shows "db_ok S d" "plain d p" "armed d" "timeouts_ok d" "playback d" "tv_sorted (timeouts d)" "0 \<le> cur_time d"
    "snd (cur_tv d) = 0"
  using assms by (auto simp: clock_ok_def)

lemma clock_step:
  assumes ok: "clock_ok S d" and ts: "timeouts d = t # ts" and due: "due (cur_tv d) t"
  shows "\<exists>d'. run_timer e other (t_func t) (t_what t) (d\<lparr>timeouts := ts\<rparr>) = Ret d' \<and> clock_ok S d' \<and>
           cur_tv d' = cur_tv d \<and> due_count d' \<le> length (filter (due (cur_tv d)) ts) \<and>
           expired {a \<in> pool_leases d (t_what t). ends_now (cur_time d) (heap d a)} d d'"
proof -
  note D = clock_okD [OF ok]
  define p where "p = t_what t"
  define d0 where "d0 = d\<lparr>timeouts := ts\<rparr>"
  have db0: "db_ok S d0" using db_ok_timer(1) [OF D(1)] by (simp add: d0_def)
  have pl0: "plain d0 p'" for p' using D(2) [of p'] by (simp add: d0_def plain_def pool_leases_def)
  have f0: "pool_leases d0 = pool_leases d" "heap d0 = heap d" "cur_tv d0 = cur_tv d" "pools d0 = pools d" "timeouts d0 = ts"
    "playback d0" "no_memory d0 = no_memory d" "isc_fails d0 = isc_fails d" "next_addr d0 = next_addr d"
    using D(5) by (simp_all add: d0_def pool_leases_def fun_eq_iff)
  have fn: "t_func t = Some POOL_TIMER" "t_when t = (next_event_time (pools d p), 0)" using D(3) ts by (auto simp: armed_def p_def)
  have past: "next_event_time (pools d p) \<le> cur_time d" using due fn(2) D(8) by (auto simp: due_def)
  have tok: "timeouts_ok d0" using D(4) ts by (auto simp: timeouts_ok_def d0_def)
  have srt: "tv_sorted ts" using D(6) ts by (simp add: tv_sorted_def)
  have nop: "\<forall>q \<in> set ts. \<not> is_for (Some POOL_TIMER) p q" using timeouts_ok_other [OF D(4) ts] fn(1) p_def by metis
  obtain d1 d' u where r: "pool_timer e d0 p = Ret d'" "db_ok S d'" "plain d' p"
      and ex0: "expired {a \<in> pool_leases d0 p. ends_now (cur_time d0) (heap d0 a)} d0 d'"
      and fe: "first_end MAX_TIME (heap d) {a \<in> pool_leases d p. cur_time d < ends (heap d a)} u"
      and d1: "same_pools d0 d1" "cur_tv d1 = cur_tv d" "db_ok S d1"
      and fin: "if u \<noteq> MAX_TIME then add_timeout (upd_pool p (\<lambda>pl. pl\<lparr>next_event_time := u\<rparr>) d1) (u, 0) (Some POOL_TIMER) p = Ret d'
                else d' = upd_pool p (\<lambda>pl. pl\<lparr>next_event_time := MIN_TIME\<rparr>) d1"
    using pool_timer_plain [OF db0 pl0, of e p] past unfolding f0 by auto
  have ex: "expired {a \<in> pool_leases d p. ends_now (cur_time d) (heap d a)} d d'"
    using ex0 by (simp add: expired_def f0)
  have s1: "timeouts d1 = ts" "playback d1" "next_addr d1 = next_addr d" "\<And>p'. next_event_time (pools d1 p') = next_event_time (pools d p')"
      "\<And>p'. failover_peer (pools d1 p') = failover_peer (pools d p')"
    using d1(1) f0 by (simp_all add: same_pools_def same_timers_def)
  have run: "run_timer e other (t_func t) (t_what t) (d\<lparr>timeouts := ts\<rparr>) = Ret d'"
    using r(1) fn(1) by (simp add: run_timer_def p_def d0_def)
  have ct: "cur_tv d' = cur_tv d" using ex by (simp add: expired_def)
  have inA: "l_pool (heap d a) = Some p" if "a \<in> {a \<in> pool_leases d p. ends_now (cur_time d) (heap d a)}" for a
    using that pool_leases_iff [OF D(1)] by blast
  have le: "u \<le> ends (heap d a)" if "a \<in> pool_leases d p" "cur_time d < ends (heap d a)" for a
    using that fe by (simp add: first_end_def)
  have "timeouts_ok d' \<and> playback d' \<and> tv_sorted (timeouts d') \<and> filter (due (cur_tv d)) (timeouts d') = filter (due (cur_tv d)) ts \<and>
      (\<forall>p'. failover_peer (pools d' p') = failover_peer (pools d p')) \<and> armed d'"
  proof (cases "u = MAX_TIME")
    case True
    then have d': "d' = upd_pool p (\<lambda>pl. pl\<lparr>next_event_time := MIN_TIME\<rparr>) d1" using fin by simp
    have "timeouts d' = ts" "next_addr d' = next_addr d" "playback d'" using s1 by (simp_all add: d')
    moreover have "armed d'"
    proof (rule armed_after [OF D(3) ts p_def [symmetric] D(4,1) r(2) ex])
      show "\<exists>q \<in> set (timeouts d'). is_for (Some POOL_TIMER) p q \<and> next_event_time (pools d' p) \<le> ends (heap d a)"
        if "a \<in> pool_leases d p" "cur_time d < ends (heap d a)" "ends (heap d a) < MAX_TIME" for a
        using le [OF that(1,2)] that(3) True by simp
    qed (use s1 in \<open>auto simp: d'\<close>)
    ultimately show ?thesis using srt tok s1(5) f0(5,9) by (auto simp: timeouts_ok_def d')
  next
    case False
    let ?d2 = "upd_pool p (\<lambda>pl. pl\<lparr>next_event_time := u\<rparr>) d1"
    have u: "cur_time d < u" "u < MAX_TIME" using fe False by (auto simp: first_end_def)
    have mem: "\<not> no_memory ?d2" "\<not> isc_fails ?d2" using db_okD(2) [OF d1(3)] by (simp_all add: side_ok_def rest_ok_def)
    have tok2: "timeouts_ok ?d2" using tok s1 f0 by (simp add: timeouts_ok_def)
    have pre: "playback ?d2" "tv_sorted (timeouts ?d2)" "\<forall>q \<in> set (timeouts ?d2). \<not> is_for (Some POOL_TIMER) p q"
      "0 \<le> cur_time ?d2" "snd (cur_tv ?d2) = 0" "cur_time ?d2 < u"
      using s1 srt nop D(7,8) u(1) d1(2) by simp_all
    obtain d3 q where d3: "add_timeout ?d2 (u, 0) (Some POOL_TIMER) p = Ret d3" "timeouts_ok d3" "tv_sorted (timeouts d3)"
        "set (timeouts d3) = insert q (set (timeouts ?d2))" "t_func q = Some POOL_TIMER" "t_what q = p" "t_when q = (u, 0)"
        "filter (due (cur_tv ?d2)) (timeouts d3) = filter (due (cur_tv ?d2)) (timeouts ?d2)"
        "d3 = ?d2\<lparr>timeouts := timeouts d3, next_addr := next_addr d3\<rparr>"
      using add_pool_timeout [OF tok2 mem pre u(2)] by (elim exE conjE) (rule that; assumption)
    have e: "d' = d3" using fin False d3(1) by simp
    have s3: "playback d3 = playback ?d2" "pools d3 = pools ?d2" by (subst d3(9), simp)+
    have "armed d'"
    proof (rule armed_after [OF D(3) ts p_def [symmetric] D(4,1) r(2) ex])
      show "\<exists>q \<in> set (timeouts d'). is_for (Some POOL_TIMER) p q \<and> next_event_time (pools d' p) \<le> ends (heap d a)"
        if "a \<in> pool_leases d p" "cur_time d < ends (heap d a)" "ends (heap d a) < MAX_TIME" for a
        using le [OF that(1,2)] d3(4-6) s3(2) e by auto
    qed (use s1 s3 d3(4-7) e in auto)
    then show ?thesis using d3(2,3,8) s1 s3 d1(2) e by auto
  qed
  moreover have "plain d' p'" for p'
  proof (cases "p' = p")
    case False
    show ?thesis using plain_elsewhere [OF D(1) r(2) ex inA False D(2)] calculation by blast
  qed (use r(3) in simp)
  ultimately show ?thesis using run r(2) ct ex D(7,8) by (auto simp: clock_ok_def due_count_def p_def)
qed

section \<open>Time passes\<close>

text \<open>The databases the clock goes through at time \<open>T\<close>: some of the leases that end by then are free already.\<close>

definition clock_from :: "ptr set \<Rightarrow> db \<Rightarrow> int \<Rightarrow> db \<Rightarrow> bool" where
  "clock_from S d0 T d \<longleftrightarrow> clock_ok S d \<and> cur_time d = T \<and> (\<exists>A \<subseteq> {a \<in> S. ends_now T (heap d0 a)}. expired A d0 d)"

lemma clock_from_step:
  assumes "clock_from S d0 T d" "timeouts d = t # ts" "due (cur_tv d) t"
  shows "\<exists>d'. run_timer e other (t_func t) (t_what t) (d\<lparr>timeouts := ts\<rparr>) = Ret d' \<and> clock_from S d0 T d' \<and>
           cur_tv d' = cur_tv d \<and> due_count d' \<le> length (filter (due (cur_tv d)) ts)"
proof -
  obtain A where A: "A \<subseteq> {a \<in> S. ends_now T (heap d0 a)}" "expired A d0 d" "clock_ok S d" "cur_time d = T"
    using assms(1) by (auto simp: clock_from_def)
  let ?B = "{a \<in> pool_leases d (t_what t). ends_now (cur_time d) (heap d a)}"
  obtain d' where d': "run_timer e other (t_func t) (t_what t) (d\<lparr>timeouts := ts\<rparr>) = Ret d'" "clock_ok S d'"
      "cur_tv d' = cur_tv d" "due_count d' \<le> length (filter (due (cur_tv d)) ts)" "expired ?B d d'"
    using clock_step [OF A(3) assms(2,3)] by blast
  have "a \<in> {a \<in> S. ends_now T (heap d0 a)}" if "a \<in> ?B" for a
  proof (cases "a \<in> A")
    case False
    then have "state_view (heap d a) = state_view (heap d0 a)" using A(2) by (auto simp: expired_def)
    then have "ends_now T (heap d0 a) = ends_now T (heap d a)" by (metis ends_now_cong)
    then show ?thesis using that A(4) pool_leases_iff [OF clock_okD(1) [OF A(3)], of a] by simp
  qed (use A(1) in blast)
  then have sub: "A \<union> ?B \<subseteq> {a \<in> S. ends_now T (heap d0 a)}" using A(1) by blast
  have "cur_time d' = T" using d'(3) A(4) by simp
  then have "clock_from S d0 T d'" unfolding clock_from_def
    by (intro conjI exI [of _ "A \<union> ?B"] d'(2) sub expired_trans [OF A(2) d'(5)])
  then show ?thesis using d' by blast
qed

interpretation clk: timer_callback "run_timer e other" "clock_from S d0 T" for e other S d0 T
proof
  show "tv_sorted (timeouts d)" if "clock_from S d0 T d" for d
    using that clock_okD(6) by (auto simp: clock_from_def)
qed (rule clock_from_step)

lemma clock_ok_at: assumes "clock_ok S d" "0 \<le> t" shows "clock_ok S (d\<lparr>cur_tv := (t, 0)\<rparr>)"
proof -
  let ?d = "d\<lparr>cur_tv := (t, 0)\<rparr>"
  note D = clock_okD [OF assms(1)]
  have "db_ok S ?d" by (rule db_ok_timer(2) [OF D(1)])
  moreover have "plain ?d p" for p using D(2) [of p] by (simp add: plain_def pool_leases_def)
  moreover have "pool_leases ?d = pool_leases d" "heap ?d = heap d" "pools ?d = pools d" "timeouts ?d = timeouts d"
    by (simp_all add: pool_leases_def fun_eq_iff)
  then have "armed ?d" using D(3) by (simp only: armed_def)
  ultimately show ?thesis using D assms(2) by (simp add: clock_ok_def timeouts_ok_def)
qed

text \<open>When no timeout is due any more, every lease that has ended is free.\<close>

lemma nothing_due:
  assumes "clock_from S d0 T d" "due_count d = 0" "T < MAX_TIME"
  shows "expired {a \<in> S. ends_now T (heap d0 a)} d0 d"
proof -
  obtain A where A: "A \<subseteq> {a \<in> S. ends_now T (heap d0 a)}" "expired A d0 d" "clock_ok S d" "cur_time d = T"
    using assms(1) by (auto simp: clock_from_def)
  note D = clock_okD [OF A(3)]
  have "a \<in> A" if a: "a \<in> S" "ends_now T (heap d0 a)" for a
  proof (rule ccontr)
    assume "a \<notin> A"
    then have s: "state_view (heap d a) = state_view (heap d0 a)" using A(2) by (auto simp: expired_def)
    then have en: "ends_now T (heap d a)" using ends_now_cong [OF s] a(2) by simp
    obtain p where p: "a \<in> pool_leases d p" using state_of_lease [OF D(1) a(1)] pool_leases_iff [OF D(1)] a(1) by blast
    then obtain q where "q \<in> set (timeouts d)" "is_for (Some POOL_TIMER) p q" "next_event_time (pools d p) \<le> ends (heap d a)"
      using D(3) en assms(3) unfolding armed_def waiting_def ends_now_def by (metis order.strict_trans1)
    moreover from this have "t_when q = (next_event_time (pools d p), 0)" using D(3) by (auto simp: armed_def)
    ultimately have "q \<in> set (filter (due (cur_tv d)) (timeouts d))" using en A(4) D(8) by (auto simp: due_def ends_now_def)
    then have "0 < due_count d" unfolding due_count_def by (rule length_pos_if_in_set)
    then show False using assms(2) by simp
  qed
  then have "A = {a \<in> S. ends_now T (heap d0 a)}" using A(1) by blast
  then show ?thesis using A(2) by simp
qed

section \<open>A small server\<close>

text \<open>One pool, at time 100: lease 1 is free, lease 2 is active until 150 and lease 3 until 300.\<close>

definition ext_lease :: "binding_state \<Rightarrow> binding_state \<Rightarrow> int \<Rightarrow> db_lease" where
  "ext_lease st nx t = new_lease\<lparr>l_pool := Some 0, binding_state := st, next_binding_state := nx, ends := t, sort_time := t\<rparr>"

definition ext_db :: db where
  "ext_db = new_db\<lparr>cur_tv := (100, 0), playback := True, next_addr := 1,
     timeouts := [\<lparr>t_addr = 0, t_when = (150, 0), t_func = Some POOL_TIMER, t_what = 0, isc_timeout = None\<rparr>],
     heap := (\<lambda>_. new_lease)(1 := ext_lease FTS_FREE FTS_FREE 50, 2 := ext_lease FTS_ACTIVE FTS_FREE 150,
                             3 := ext_lease FTS_ACTIVE FTS_FREE 300),
     pools := (\<lambda>_. new_pool)(0 := new_pool\<lparr>queue := (\<lambda>_. [])(FREE_LEASES := [1], ACTIVE_LEASES := [2, 3]),
                             next_event_time := 150, lease_count := 3, free_leases := 1\<rparr>),
     pool_list := [0]\<rparr>"

lemma ext_db_sel [simp]:
  "cur_tv ext_db = (100, 0)" "playback ext_db" "next_addr ext_db = 1" "classes ext_db = classes new_db"
  "peers ext_db = (\<lambda>_. new_peer)" "uid_hash ext_db = (\<lambda>_. None)" "hw_hash ext_db = (\<lambda>_. None)"
  "\<not> no_memory ext_db" "\<not> isc_fails ext_db" "failover_peer (pools ext_db p) = None"
  "timeouts ext_db = [\<lparr>t_addr = 0, t_when = (150, 0), t_func = Some POOL_TIMER, t_what = 0, isc_timeout = None\<rparr>]"
  "heap ext_db = (\<lambda>_. new_lease)(1 := ext_lease FTS_FREE FTS_FREE 50, 2 := ext_lease FTS_ACTIVE FTS_FREE 150,
                             3 := ext_lease FTS_ACTIVE FTS_FREE 300)"
  "queue (pools ext_db p) = (if p = 0 then (\<lambda>_. [])(FREE_LEASES := [1], ACTIVE_LEASES := [2, 3]) else (\<lambda>_. []))"
  "next_event_time (pools ext_db p) = (if p = 0 then 150 else MIN_TIME)"
  by (simp_all add: ext_db_def new_db_def new_pool_def)

lemma ext_lease_sel [simp]:
  "l_pool (ext_lease st nx t) = Some 0" "binding_state (ext_lease st nx t) = st" "next_binding_state (ext_lease st nx t) = nx"
  "ends (ext_lease st nx t) = t" "sort_time (ext_lease st nx t) = t" "flags (ext_lease st nx t) = 0"
  "uid (ext_lease st nx t) = None" "hardware_addr (ext_lease st nx t) = []" "n_uid (ext_lease st nx t) = None"
  "n_hw (ext_lease st nx t) = None" "next_pending (ext_lease st nx t) = None" "billing_class (ext_lease st nx t) = None"
  "on_release (ext_lease st nx t) = None" "on_expiry (ext_lease st nx t) = None"
  by (simp_all add: ext_lease_def new_lease_def)

lemma ext_on_queue: "on_queue ext_db a \<longleftrightarrow> a \<in> {1, 2, 3}"
proof
  assume "on_queue ext_db a"
  then show "a \<in> {1, 2, 3}" by (auto simp: on_queue_def split: if_splits)
next
  assume a: "a \<in> {1, 2, 3}"
  have "a \<in> set (queue (pools ext_db 0) FREE_LEASES) \<or> a \<in> set (queue (pools ext_db 0) ACTIVE_LEASES)" using a by simp
  then show "on_queue ext_db a" unfolding on_queue_def by blast
qed

lemma ext_queues: "queues_ok ext_db"
  unfolding queues_ok_def
proof (intro allI)
  fix p q
  show "distinct (queue (pools ext_db p) q) \<and> time_sorted (heap ext_db) (queue (pools ext_db p) q) \<and>
      (\<forall>a \<in> set (queue (pools ext_db p) q). l_pool (heap ext_db a) = Some p \<and> queue_of (heap ext_db a) = Some q)"
    by (cases "p = 0"; cases q) (simp_all add: time_sorted_def queue_of_def)
qed

lemma ext_side: "side_ok {1, 2, 3} ext_db"
proof -
  have "billing_ok {1, 2, 3} ext_db" by (simp add: billing_ok_def new_db_def new_lease_def)
  moreover have "uid_ok ext_db (\<lambda>_. [])" "hw_ok ext_db (\<lambda>_. [])"
    by (simp_all add: uid_ok_def hw_ok_def index_ok_def find_lease_by_uid_def find_lease_by_hw_addr_def new_lease_def)
  moreover have "fq_ok {1, 2, 3} ext_db (\<lambda>_. []) (\<lambda>_. [])"
    by (simp add: fq_ok_def linked_def pend_def on_update_def on_ack_def peer_of_def new_peer_def)
  ultimately show ?thesis by (auto simp: side_ok_def rest_ok_def unindexed_def intro!: exI [of _ "\<lambda>_. []"])
qed

lemma ext_ok: "db_ok {1, 2, 3} ext_db"
  using ext_queues ext_side ext_on_queue by (simp add: db_ok_def)

lemma ext_pool_leases: "pool_leases ext_db p = (if p = 0 then {1, 2, 3} else {})"
  by (rule set_eqI, subst pool_leases_iff [OF ext_ok]) auto

lemma ext_plain: "plain ext_db p"
  by (cases "p = 0") (simp_all add: plain_def ext_pool_leases after_state_def)

lemma ext_clock: "clock_ok {1, 2, 3} ext_db"
  using ext_ok ext_plain
  by (simp add: clock_ok_def armed_def timeouts_ok_def tv_sorted_def ext_pool_leases waiting_def MAX_TIME_def)

lemma expired_state: assumes "expired A d d'"
  shows "binding_state (heap d' a) = (if a \<in> A then FTS_FREE else binding_state (heap d a))"
proof (cases "a \<in> A")
  case False
  then have "state_view (heap d' a) = state_view (heap d a)" using assms by (auto simp: expired_def)
  then show ?thesis using False by (simp add: state_view_def)
qed (use assms in \<open>auto simp: expired_def\<close>)

section \<open>Changing leases\<close>

text \<open>
  C1. \<open>supersede_lease\<close>, called for a lease of the database and a sample that is not in it, always
  returns and keeps the database consistent: every lease of the database is on exactly the queue of
  its pool that its state calls for, the queues are ordered by time, the client indexes, the
  billing and the queues of failover updates refer to the leases they should. Unless the lease is
  overdue and the timer of the pool runs right away, the lease has the state and the end that were
  asked for and every other lease is as before.
\<close>

theorem supersede_lease_correct:
  assumes "db_ok S d" and "request_ok S d cp lease" and "commit \<or> \<not> pimm"
    and "\<And>p. l_pool (heap d cp) = Some p \<Longrightarrow> valid_next d p"
  shows "\<exists>d' b. supersede_lease e d cp lease commit pg pimm fp = Ret (d', b) \<and> db_ok S d' \<and>
           (cur_time d \<le> ends (source_lease d cp lease) \<longrightarrow> lease_changed cp (source_lease d cp lease) d d')"
  using supersede_lease_ok [OF assms] supersede_lease_now [OF assms(1-3)] by blast

lemma ext_valid: "valid_next ext_db p"
  by (cases "p = 0") (simp_all add: valid_next_def ext_pool_leases)

theorem supersede_lease_correct_witness:
  "\<exists>d' b. supersede_lease plain_env ext_db 2 None True True True False = Ret (d', b) \<and> db_ok {1, 2, 3} d' \<and>
     binding_state (heap d' 2) = FTS_FREE \<and> binding_state (heap d' 3) = FTS_ACTIVE"
proof -
  have "request_ok {1, 2, 3} ext_db 2 None" by (simp add: request_ok_def)
  then obtain d' b where d': "supersede_lease plain_env ext_db 2 None True True True False = Ret (d', b)" "db_ok {1, 2, 3} d'"
      "lease_changed 2 (heap ext_db 2) ext_db d'"
    using supersede_lease_correct [OF ext_ok, of 2 None True True plain_env True False] ext_valid
    by (auto simp: source_lease_def)
  have "binding_state (heap d' 2) = FTS_FREE" "state_view (heap d' 3) = state_view (heap ext_db 3)"
    using d'(3) by (simp_all add: lease_changed_def)
  then show ?thesis using d' by (simp add: state_view_def)
qed

text \<open>
  C11. \<open>release_lease\<close> of an active or abandoned lease makes it end now. In a pool without a failover
  peer it becomes free. With a peer it becomes released, and is available only once the peer has
  agreed; except that while the servers do not communicate, the primary makes a lease free, and
  the secondary makes it backup, when that was its state as the peer last knew it. A lease in another state
  keeps it. No other lease changes and the database stays consistent.
\<close>

theorem release_lease_correct:
  assumes "db_ok S d" and "a \<in> S"
  shows "\<exists>d'. release_lease e d a = Ret d' \<and> db_ok S d' \<and> cur_tv d' = cur_tv d \<and>
           (\<forall>b. b \<noteq> a \<longrightarrow> state_view (heap d' b) = state_view (heap d b)) \<and>
           (if binding_state (heap d a) \<in> {FTS_ACTIVE, FTS_ABANDONED}
            then ends (heap d' a) = cur_time d \<and>
              (case lease_peer d (heap d a) of
                 None \<Rightarrow> binding_state (heap d' a) = FTS_FREE
               | Some s \<Rightarrow>
                   let known = rewind_binding_state (heap d a); apart = p_service_state (peers d s) = not_cooperating
                   in binding_state (heap d' a) =
                      (if apart \<and> i_am (peers d s) = primary \<and> known = FTS_FREE then FTS_FREE
                       else if apart \<and> i_am (peers d s) = secondary \<and> known = FTS_BACKUP then FTS_BACKUP
                       else FTS_RELEASED))
            else state_view (heap d' a) = state_view (heap d a))"
  using release_lease_ok [OF assms, of e] by (auto simp: released_state_def Let_def split: option.splits if_splits)

theorem release_lease_correct_witness:
  "\<exists>d'. release_lease plain_env ext_db 3 = Ret d' \<and> binding_state (heap d' 3) = FTS_FREE \<and> ends (heap d' 3) = 100"
  using release_lease_correct [OF ext_ok, of 3 plain_env]
  by (auto simp: lease_peer_def)

text \<open>
  C12. \<open>abandon_lease\<close> takes a lease out of use: it is abandoned for the configured time, or until
  the end of time where that is beyond it, after which it will be free. No other lease changes, but
  for the copy that the code makes, and the database stays consistent. (The comment above the
  function in \<open>server/mdb.c\<close> says that its timeout is set to infinity, which is no longer so; the manual page
  describes \<open>abandon-lease-time\<close>.)
\<close>

theorem abandon_lease_correct:
  assumes "db_ok S d" and "a \<in> S" and "lt \<notin> S" and "\<not> has_flag (heap d a) STATIC_LEASE"
    and "0 \<le> abandon_lease_time e" and "cur_time d \<le> MAX_TIME"
  shows "\<exists>d'. abandon_lease e d lt a = Ret d' \<and> db_ok S d' \<and> cur_tv d' = cur_tv d \<and>
           (\<forall>b. b \<noteq> a \<and> b \<noteq> lt \<longrightarrow> state_view (heap d' b) = state_view (heap d b)) \<and>
           binding_state (heap d' a) = FTS_ABANDONED \<and> next_binding_state (heap d' a) = FTS_FREE \<and>
           ends (heap d' a) = min MAX_TIME (cur_time d + abandon_lease_time e)"
proof -
  have "abandon_ends e d = min MAX_TIME (cur_time d + abandon_lease_time e)"
    using assms(5) by (auto simp: abandon_ends_def Let_def)
  then show ?thesis using abandon_lease_ok [OF assms] by simp
qed

theorem abandon_lease_correct_witness:
  "\<exists>d'. abandon_lease plain_env ext_db 9 2 = Ret d' \<and> db_ok {1, 2, 3} d' \<and> binding_state (heap d' 2) = FTS_ABANDONED \<and>
     ends (heap d' 2) = 86500"
  using abandon_lease_correct [OF ext_ok, of 2 9 plain_env] by (auto simp: plain_env_def MAX_TIME_def)

section \<open>The timer of a pool\<close>

text \<open>
  C4. \<open>pool_timer\<close> ends, whatever the failover state, and keeps the database consistent: every
  change it makes brings a lease closer to a state it does not leave by itself.
\<close>

theorem pool_timer_terminates:
  assumes "db_ok S d" and "valid_next d p"
  shows "\<exists>d'. pool_timer e d p = Ret d' \<and> db_ok S d' \<and> cur_tv d' = cur_tv d"
  using pool_timer_ok [OF assms] by blast

theorem pool_timer_terminates_witness: "\<exists>d'. pool_timer plain_env ext_db 0 = Ret d' \<and> db_ok {1, 2, 3} d'"
  using pool_timer_terminates [OF ext_ok ext_valid] by blast

text \<open>
  C3. In a pool without a failover peer \<open>pool_timer\<close> makes exactly those leases free that are not
  free yet and have ended, keeps the end of every lease, and changes no other lease, in this pool
  or another.
\<close>

theorem pool_timer_expires:
  assumes "db_ok S d" and "plain d p"
  shows "\<exists>d'. pool_timer e d p = Ret d' \<and> db_ok S d' \<and> plain d' p \<and>
           (\<forall>a \<in> S. l_pool (heap d a) = Some p \<longrightarrow> ends (heap d' a) = ends (heap d a) \<and>
              binding_state (heap d' a) =
                (if ends_now (cur_time d) (heap d a) then FTS_FREE else binding_state (heap d a))) \<and>
           (\<forall>a. l_pool (heap d a) \<noteq> Some p \<longrightarrow> state_view (heap d' a) = state_view (heap d a))"
proof -
  let ?A = "{a \<in> pool_leases d p. ends_now (cur_time d) (heap d a)}"
  obtain d' where d': "pool_timer e d p = Ret d'" "db_ok S d'" "plain d' p" "expired ?A d d'"
    using pool_timer_plain [OF assms] by blast
  have P: "a \<in> ?A \<longleftrightarrow> a \<in> S \<and> l_pool (heap d a) = Some p \<and> ends_now (cur_time d) (heap d a)" for a
    using pool_leases_iff [OF assms(1)] by blast
  have "binding_state (heap d' a) = (if a \<in> ?A then FTS_FREE else binding_state (heap d a))" for a
    by (rule expired_state [OF d'(4)])
  moreover have "state_view (heap d' a) = state_view (heap d a)" if "a \<notin> ?A" for a
    using d'(4) that by (auto simp: expired_def)
  ultimately show ?thesis using d' P expired_ends [OF d'(4)] by (intro exI [of _ d']) auto
qed

theorem pool_timer_expires_witness:
  "\<exists>d'. pool_timer plain_env (ext_db\<lparr>cur_tv := (200, 0)\<rparr>) 0 = Ret d' \<and> binding_state (heap d' 2) = FTS_FREE \<and>
     binding_state (heap d' 3) = FTS_ACTIVE"
proof -
  have "clock_ok {1, 2, 3} (ext_db\<lparr>cur_tv := (200, 0)\<rparr>)" by (rule clock_ok_at [OF ext_clock]) simp
  from pool_timer_expires [OF clock_okD(1,2) [OF this], of plain_env 0] show ?thesis
    by (auto simp: ends_now_def)
qed

text \<open>
  C2. The clock and the lease database together, in a server none of whose pools has a failover
  peer and whose pending timeouts are all those of pools: when the clock is set to a new time,
  while a trace is played back, the timers that are due are run, this ends, and
  afterwards the leases that have ended are free, with the ends they had, and every other
  lease has its queue, states and end as before. The timers that remain are again such that the same holds
  for the next time the clock is set. (With a failover peer an active lease that ended becomes
  expired and waits for the peer, which this property does not cover.)
\<close>

theorem set_time_expires:
  assumes "clock_ok S d" and "cur_time d \<noteq> t" and "0 \<le> t" and "t < MAX_TIME"
  shows "\<exists>d'. set_time (run_timer e other) t d = Some (Ret d') \<and> clock_ok S d' \<and> cur_tv d' = (t, 0) \<and>
           (\<forall>a. if a \<in> S \<and> ends_now t (heap d a)
                then binding_state (heap d' a) = FTS_FREE \<and> ends (heap d' a) = ends (heap d a)
                else state_view (heap d' a) = state_view (heap d a))"
proof -
  let ?d = "d\<lparr>cur_tv := (t, 0)\<rparr>"
  have "clock_from S ?d t ?d" using clock_ok_at [OF assms(1,3)] by (auto simp: clock_from_def intro!: exI [of _ "{}"])
  from clk.set_time_returns [OF assms(2) this, of e other] obtain d' where
    d': "set_time (run_timer e other) t d = Some (Ret d')" "clock_from S ?d t d'" "cur_tv d' = (t, 0)" "due_count d' = 0" by blast
  have "clock_ok S d'" using d'(2) by (simp add: clock_from_def)
  moreover have "expired {a \<in> S. ends_now t (heap d a)} ?d d'" using nothing_due [OF d'(2,4) assms(4)] by simp
  ultimately show ?thesis using d' by (auto simp: expired_def)
qed

theorem set_time_expires_witness:
  "\<exists>d'. set_time (run_timer plain_env (\<lambda>_ _ _. Undef)) 200 ext_db = Some (Ret d') \<and>
     binding_state (heap d' 2) = FTS_FREE \<and> binding_state (heap d' 3) = FTS_ACTIVE"
proof -
  obtain d' where d': "set_time (run_timer plain_env (\<lambda>_ _ _. Undef)) 200 ext_db = Some (Ret d')"
      "\<forall>a. if a \<in> {1, 2, 3} \<and> ends_now 200 (heap ext_db a)
           then binding_state (heap d' a) = FTS_FREE \<and> ends (heap d' a) = ends (heap ext_db a)
           else state_view (heap d' a) = state_view (heap ext_db a)"
    using set_time_expires [OF ext_clock, of 200 plain_env "\<lambda>_ _ _. Undef"] by (auto simp: MAX_TIME_def)
  then show ?thesis using spec [OF d'(2), of 2] spec [OF d'(2), of 3] by (simp add: ends_now_def state_view_def)
qed

text \<open>
  C15. When \<open>pool_timer\<close> runs while its timeout is still to come, as it does at the end of
  \<open>supersede_lease\<close>, and that timeout is for the lease that ends next, it resets
  \<open>next_event_time\<close> to \<open>MIN_TIME\<close> although the timeout stays on the list. The next lease that is
  queued then replaces the timeout by a later one, and the lease that ends first is not made free
  when it ends.
\<close>

theorem pool_timer_forgets_timer:
  assumes "db_ok S d" and "plain d p" and "timeouts_ok d" and "0 \<le> cur_time d" and "cur_time d < n" and "n < MAX_TIME"
    and "next_event_time (pools d p) = n"
    and "\<exists>a \<in> pool_leases d p. ends (heap d a) = n"
    and "\<forall>a \<in> pool_leases d p. cur_time d < ends (heap d a) \<longrightarrow> n \<le> ends (heap d a)"
  shows "\<exists>d'. pool_timer e d p = Ret d' \<and> next_event_time (pools d' p) = MIN_TIME \<and> timeouts d' = timeouts d \<and>
           (\<forall>c. n < sort_time (heap d' c) \<and> sort_time (heap d' c) < MAX_TIME \<longrightarrow>
              (\<exists>d'' q. arm_pool_timer d' c p = Ret d'' \<and> filter (is_for (Some POOL_TIMER) p) (timeouts d'') = [q] \<and>
                 fst (t_when q) = sort_time (heap d' c)))"
proof -
  obtain d1 d' u where r: "pool_timer e d p = Ret d'" "db_ok S d'"
      and fe: "first_end MAX_TIME (heap d) {a \<in> pool_leases d p. cur_time d < ends (heap d a)} u"
      and d1: "same_pools d d1" "cur_tv d1 = cur_tv d"
      and fin: "if u \<noteq> MAX_TIME \<and> (u < next_event_time (pools d p) \<or> next_event_time (pools d p) \<le> cur_time d)
            then add_timeout (upd_pool p (\<lambda>pl. pl\<lparr>next_event_time := u\<rparr>) d1) (u, 0) (Some POOL_TIMER) p = Ret d'
            else d' = upd_pool p (\<lambda>pl. pl\<lparr>next_event_time := MIN_TIME\<rparr>) d1"
    using pool_timer_plain [OF assms(1,2), of e] by (elim exE conjE) (rule that; assumption)
  have "n \<le> u" using fe assms(6,9) by (auto simp: first_end_def)
  then have d': "d' = upd_pool p (\<lambda>pl. pl\<lparr>next_event_time := MIN_TIME\<rparr>) d1" using fin assms(5,7) by auto
  have s: "next_event_time (pools d' p) = MIN_TIME" "timeouts d' = timeouts d" "cur_tv d' = cur_tv d" "next_addr d' = next_addr d"
    using d1 by (simp_all add: d' same_pools_def same_timers_def)
  have "\<exists>d'' q. arm_pool_timer d' c p = Ret d'' \<and> filter (is_for (Some POOL_TIMER) p) (timeouts d'') = [q] \<and>
      fst (t_when q) = sort_time (heap d' c)" if c: "n < sort_time (heap d' c)" "sort_time (heap d' c) < MAX_TIME" for c
  proof -
    let ?t = "sort_time (heap d' c)"
    let ?d = "upd_pool p (\<lambda>pl. pl\<lparr>next_event_time := ?t\<rparr>) d'"
    have ok: "timeouts_ok ?d" using assms(3) s by (simp add: timeouts_ok_def)
    have mem: "\<not> no_memory ?d" "\<not> isc_fails ?d" using db_okD(2) [OF r(2)] by (simp_all add: side_ok_def rest_ok_def)
    obtain d'' q where q: "add_timeout ?d (?t, 0) (Some POOL_TIMER) p = Ret d''"
        "filter (is_for (Some POOL_TIMER) p) (timeouts d'') = [q]" "new_timeout ?d (?t, 0) POOL_TIMER p q"
      using add_timeout_replaces [OF ok mem] by blast
    have "arm_pool_timer d' c p = Ret d''"
      using q(1) c assms(4,5) s by (simp add: arm_pool_timer_def Let_def MIN_TIME_def)
    moreover have "fst (t_when q) = ?t"
      using q(3) c assms(4,5) s(3) by (auto simp: new_timeout_def timeout_interval_def Let_def TIME_MAX_def MAX_TIME_def USEC_MAX_def)
    ultimately show ?thesis using q(2) by blast
  qed
  then show ?thesis using r(1) s by (intro exI [of _ d']) simp
qed

theorem pool_timer_forgets_timer_witness:
  "\<exists>d'. pool_timer plain_env ext_db 0 = Ret d' \<and> next_event_time (pools d' 0) = MIN_TIME \<and> timeouts d' = timeouts ext_db"
proof -
  have "\<exists>a \<in> pool_leases ext_db 0. ends (heap ext_db a) = 150"
    "\<forall>a \<in> pool_leases ext_db 0. cur_time ext_db < ends (heap ext_db a) \<longrightarrow> 150 \<le> ends (heap ext_db a)"
    by (simp_all add: ext_pool_leases)
  from pool_timer_forgets_timer [OF ext_ok ext_plain clock_okD(4) [OF ext_clock] _ _ _ _ this, of plain_env]
  show ?thesis by (auto simp: MAX_TIME_def)
qed

section \<open>Counting the leases\<close>

lemma count_lease_plain:
  assumes "failover_peer (pools d p) = None" "queue_of (heap d a) = Some q"
  shows "count_lease e d p q a = Ret (upd_pool p (\<lambda>pl. pl\<lparr>lease_count := lease_count pl + 1,
           free_leases := free_leases pl + (if q = FREE_LEASES \<and> ends (heap d a) \<le> cur_time d then 1 else 0),
           backup_leases := backup_leases pl + (if q = BACKUP_LEASES \<and> ends (heap d a) \<le> cur_time d then 1 else 0)\<rparr>) d)"
  using assms by (cases "binding_state (heap d a)")
    (auto simp: count_lease_def queue_of_def Let_def upd_pool_def split: if_splits)

text \<open>The counters of a pool after the leases \<open>xs\<close> of queue \<open>q\<close> have been counted.\<close>

definition count_ended :: "db \<Rightarrow> ptr list \<Rightarrow> int" where
  "count_ended d xs = int (length (filter (\<lambda>a. ends (heap d a) \<le> cur_time d) xs))"

definition counted :: "nat \<Rightarrow> int \<Rightarrow> int \<Rightarrow> int \<Rightarrow> db \<Rightarrow> db" where
  "counted p n f b d = upd_pool p (\<lambda>pl. pl\<lparr>lease_count := lease_count pl + n, free_leases := free_leases pl + f,
                                           backup_leases := backup_leases pl + b\<rparr>) d"

lemma counted_sel [simp]:
  "heap (counted p n f b d) = heap d" "cur_tv (counted p n f b d) = cur_tv d"
  "queue (pools (counted p n f b d) p') = queue (pools d p')"
  "failover_peer (pools (counted p n f b d) p') = failover_peer (pools d p')"
  by (simp_all add: counted_def)

lemma counted_counted [simp]: "counted p n' f' b' (counted p n f b d) = counted p (n + n') (f + f') (b + b') d"
  by (simp add: counted_def upd_pool_def add.assoc)

lemma counted_0 [simp]: "counted p 0 0 0 d = d"
  by (simp add: counted_def upd_pool_def)

lemma count_ended_counted [simp]: "count_ended (counted p n f b d) xs = count_ended d xs"
  by (simp add: count_ended_def)

lemma count_leases_plain:
  assumes "failover_peer (pools d p) = None" "\<forall>a \<in> set xs. queue_of (heap d a) = Some q"
  shows "count_leases e d p q xs = Ret (counted p (int (length xs)) (if q = FREE_LEASES then count_ended d xs else 0)
           (if q = BACKUP_LEASES then count_ended d xs else 0) d)"
  using assms
proof (induction xs arbitrary: d)
  case (Cons a xs)
  let ?x = "if ends (heap d a) \<le> cur_time d then 1 else 0 :: int"
  have "count_lease e d p q a = Ret (counted p 1 (if q = FREE_LEASES then ?x else 0) (if q = BACKUP_LEASES then ?x else 0) d)"
    using count_lease_plain [of d p a q e] Cons.prems by (simp add: counted_def if_distrib cong: if_cong)
  then show ?case using Cons.IH [of "counted p 1 (if q = FREE_LEASES then ?x else 0) (if q = BACKUP_LEASES then ?x else 0) d"] Cons.prems
    by (simp add: count_ended_def)
qed (simp add: count_ended_def)

lemma count_queues_plain:
  assumes "failover_peer (pools d p) = None" "queues_ok d"
  shows "count_queues e d p qs = Ret (counted p (\<Sum>q \<leftarrow> qs. int (length (queue (pools d p) q)))
           (\<Sum>q \<leftarrow> qs. if q = FREE_LEASES then count_ended d (queue (pools d p) q) else 0)
           (\<Sum>q \<leftarrow> qs. if q = BACKUP_LEASES then count_ended d (queue (pools d p) q) else 0) d)"
  using assms
proof (induction qs arbitrary: d)
  case (Cons q qs)
  let ?d = "counted p (int (length (queue (pools d p) q))) (if q = FREE_LEASES then count_ended d (queue (pools d p) q) else 0)
           (if q = BACKUP_LEASES then count_ended d (queue (pools d p) q) else 0) d"
  have "\<forall>a \<in> set (queue (pools d p) q). queue_of (heap d a) = Some q" using queues_okD(4) [OF Cons.prems(2)] by blast
  then have 1: "count_leases e d p q (queue (pools d p) q) = Ret ?d" by (rule count_leases_plain [OF Cons.prems(1)])
  have "queues_ok ?d" using queues_ok_cong [of d ?d] Cons.prems(2) by simp
  then show ?case using Cons.IH [of ?d] Cons.prems(1) 1 by (simp cong: if_cong)
qed simp

lemma pool_leases_count:
  assumes "queues_ok d" shows "(\<Sum>q \<leftarrow> lptr. int (length (queue (pools d p) q))) = int (card (pool_leases d p))"
proof -
  have c: "length (queue (pools d p) q) = card (set (queue (pools d p) q))" for q
    using queues_okD(1) [OF assms] by (simp add: distinct_card)
  have dl: "distinct lptr" by (simp add: lptr_def)
  have "pool_leases d p = (\<Union>q \<in> set lptr. set (queue (pools d p) q))"
    by (auto simp: pool_leases_queues)
  moreover have "card (\<Union>q \<in> set lptr. set (queue (pools d p) q)) = (\<Sum>q \<in> set lptr. card (set (queue (pools d p) q)))"
    by (rule card_UN_disjoint) (use queues_okD(4) [OF assms] in \<open>auto, metis option.inject\<close>)
  ultimately show ?thesis using c dl by (simp add: sum_list_distinct_conv_sum_set)
qed

text \<open>
  C13. At startup every pool without a failover peer is brought up to date and its leases are
  counted: this never ends the server, the leases that have ended are free, \<open>lease_count\<close> is the
  number of the leases of the pool, and \<open>free_leases\<close> and \<open>backup_leases\<close> are the numbers of leases on
  the queues of free and of backup leases that have ended.
\<close>

theorem expire_pool_counts:
  assumes "db_ok S d" and "plain d p"
  shows "\<exists>d'. expire_pool e d p = Ret d' \<and> queues_ok d' \<and> plain d' p \<and>
           lease_count (pools d' p) = int (card {a \<in> S. l_pool (heap d a) = Some p}) \<and>
           free_leases (pools d' p) = count_ended d' (queue (pools d' p) FREE_LEASES) \<and>
           backup_leases (pools d' p) = count_ended d' (queue (pools d' p) BACKUP_LEASES) \<and>
           (\<forall>a \<in> pool_leases d' p. \<not> ends_now (cur_time d') (heap d' a))"
proof -
  let ?A = "{a \<in> pool_leases d p. ends_now (cur_time d) (heap d a)}"
  obtain d1 where d1: "pool_timer e d p = Ret d1" "db_ok S d1" "plain d1 p" "expired ?A d d1"
    using pool_timer_plain [OF assms] by blast
  define d2 where "d2 = upd_pool p (\<lambda>pl. pl\<lparr>lease_count := 0, free_leases := 0, backup_leases := 0\<rparr>) d1"
  have q2: "queues_ok d2" "failover_peer (pools d2 p) = None"
    using queues_ok_cong [of d1 d2] db_okD(1) [OF d1(2)] d1(3) by (simp_all add: d2_def plain_def)
  define d3 where "d3 = counted p (int (card (pool_leases d2 p))) (count_ended d2 (queue (pools d2 p) FREE_LEASES))
      (count_ended d2 (queue (pools d2 p) BACKUP_LEASES)) d2"
  have "count_queues e d2 p lptr = Ret d3"
    using count_queues_plain [OF q2(2,1), of e lptr] pool_leases_count [OF q2(1), of p] by (simp add: lptr_def d3_def)
  then have eq: "expire_pool e d p = Ret d3" using d1(1) by (simp add: expire_pool_def d2_def)
  have same: "heap d3 = heap d1" "queue (pools d3 p') = queue (pools d1 p')" "cur_tv d3 = cur_tv d1" "pool_leases d3 p = pool_leases d1 p"
      "failover_peer (pools d3 p) = failover_peer (pools d1 p)" for p'
    by (simp_all add: d3_def d2_def pool_leases_def)
  have pl: "pool_leases d1 p = pool_leases d p" by (rule pool_leases_same [OF assms(1) d1(2) expired_l_pool [OF d1(4)]])
  have "queues_ok d3" using queues_ok_cong [of d1 d3] db_okD(1) [OF d1(2)] same by simp
  moreover have "plain d3 p" using d1(3) same by (simp add: plain_def)
  moreover have "\<not> ends_now (cur_time d3) (heap d3 a)" if "a \<in> pool_leases d3 p" for a
    using that same pl expired_state [OF d1(4), of a] expired_ends [OF d1(4), of a] d1(4)
    by (auto simp: ends_now_def expired_def split: if_splits)
  moreover have "pool_leases d p = {a \<in> S. l_pool (heap d a) = Some p}" using pool_leases_iff [OF assms(1)] by blast
  moreover have "pool_leases d2 p = pool_leases d1 p" by (simp add: d2_def pool_leases_def)
  ultimately show ?thesis using eq pl
    by (intro exI [of _ d3]) (simp add: d3_def count_ended_def, simp add: counted_def d2_def)
qed

theorem expire_pool_counts_witness:
  "\<exists>d'. expire_pool plain_env (ext_db\<lparr>cur_tv := (200, 0)\<rparr>) 0 = Ret d' \<and> lease_count (pools d' 0) = 3"
proof -
  have ok: "clock_ok {1, 2, 3} (ext_db\<lparr>cur_tv := (200, 0)\<rparr>)" by (rule clock_ok_at [OF ext_clock]) simp
  have "{a \<in> {1, 2, 3}. l_pool (heap (ext_db\<lparr>cur_tv := (200, 0)\<rparr>) a) = Some 0} = {1, 2, 3 :: ptr}" by auto
  then show ?thesis using expire_pool_counts [OF clock_okD(1,2) [OF ok], of plain_env 0] by auto
qed

end
