(* ===== verification/LoadBalance.thy ===== *)
theory LoadBalance
  imports LeaseDb "HOL-Library.Multiset"
begin

text \<open>
  Who serves a client (\<open>server/failover.c\<close>): the hash that divides the clients between the two
  servers of a failover pair, the hash bucket array made from \<open>split\<close> (\<open>server/confpars.c\<close>), which
  of a peer's binding updates to believe, and which leases a server may give to a new client.
\<close>

section \<open>Load balancing\<close>

text \<open>The mixing table.\<close>

definition loadb_mx_tbl :: "byte list" where
  "loadb_mx_tbl =
    [251, 175, 119, 215, 81, 14, 79, 191, 103, 49, 181, 143, 186, 157, 0, 232,
     31, 32, 55, 60, 152, 58, 17, 237, 174, 70, 160, 144, 220, 90, 57, 223,
     59, 3, 18, 140, 111, 166, 203, 196, 134, 243, 124, 95, 222, 179, 197, 65,
     180, 48, 36, 15, 107, 46, 233, 130, 165, 30, 123, 161, 209, 23, 97, 16,
     40, 91, 219, 61, 100, 10, 210, 109, 250, 127, 22, 138, 29, 108, 244, 67,
     207, 9, 178, 204, 74, 98, 126, 249, 167, 116, 34, 77, 193, 200, 121, 5,
     20, 113, 71, 35, 128, 13, 182, 94, 25, 226, 227, 199, 75, 27, 41, 245,
     230, 224, 43, 225, 177, 26, 155, 150, 212, 142, 218, 115, 241, 73, 88, 105,
     39, 114, 62, 255, 192, 201, 145, 214, 168, 158, 221, 148, 154, 122, 12, 84,
     82, 163, 44, 139, 228, 236, 205, 242, 217, 11, 187, 146, 159, 64, 86, 239,
     195, 42, 106, 198, 118, 112, 184, 172, 87, 2, 173, 117, 176, 229, 247, 253,
     137, 185, 99, 164, 102, 147, 45, 66, 231, 52, 141, 211, 194, 206, 246, 238,
     56, 110, 78, 248, 63, 240, 189, 93, 92, 51, 53, 183, 19, 171, 72, 50,
     33, 104, 101, 69, 8, 252, 83, 120, 76, 135, 85, 54, 202, 125, 188, 213,
     96, 235, 136, 208, 162, 129, 190, 132, 156, 38, 47, 1, 7, 254, 24, 4,
     216, 131, 89, 21, 28, 133, 37, 153, 149, 80, 170, 68, 6, 169, 234, 151]"

text \<open>The hash is taken from the last byte to the first; \<open>len\<close> bytes are read.\<close>

fun loadb_loop :: "byte list \<Rightarrow> nat \<Rightarrow> byte \<Rightarrow> byte cres" where
  "loadb_loop k 0 h = Ret h"
| "loadb_loop k (Suc i) h =
     cbind (rd k i) (\<lambda>b. cbind (rd loadb_mx_tbl (unat (h XOR b))) (\<lambda>h. loadb_loop k i h))"

definition loadb_p_hash :: "byte list \<Rightarrow> nat \<Rightarrow> byte cres" where
  "loadb_p_hash k n = loadb_loop k n (of_nat n)"

text \<open>The bit of the hash bucket array for a hash.\<close>

definition hba_bit :: "byte list \<Rightarrow> byte \<Rightarrow> bool cres" where
  "hba_bit hb ix =
     cbind (rd hb (unat (drop_bit 3 ix AND 0x1F)))
       (\<lambda>b. Ret (b AND push_bit (unat (ix AND 7)) 1 \<noteq> 0))"

text \<open>
  What is used of a packet: \<open>secs\<close> in host order, the client identifier that the options give
  when they have one and it can be evaluated, and the hardware address. \<open>secs_byteorder\<close> is the
  build option of the same name.
\<close>

record packet =
  secs :: u16
  client_identifier :: "byte list option"
  chaddr :: "byte list"
  hlen :: byte

definition elapsed :: "bool \<Rightarrow> packet \<Rightarrow> u16" where
  "elapsed secs_byteorder pk =
     (let ec = secs pk
      in if secs_byteorder \<and> 255 < ec \<and> ec AND 0xff = 0 then drop_bit 8 ec OR push_bit 8 ec else ec)"

definition load_balance_mine :: "bool \<Rightarrow> packet \<Rightarrow> peer \<Rightarrow> bool cres" where
  "load_balance_mine secs_byteorder pk p =
     (if load_balance_max_secs p < uint (elapsed secs_byteorder pk) then Ret True
      else case hba p of
             None \<Rightarrow> Ret False
           | Some hb \<Rightarrow>
               cbind (case client_identifier pk of
                        Some ds \<Rightarrow> loadb_p_hash ds (length ds)
                      | None \<Rightarrow> loadb_p_hash (chaddr pk) (unat (hlen pk)))
                 (\<lambda>hbaix. cbind (hba_bit hb hbaix)
                   (\<lambda>hm. Ret (if i_am p = primary then hm else \<not> hm))))"

definition peer_wants_lease :: "db \<Rightarrow> ptr \<Rightarrow> bool cres" where
  "peer_wants_lease d a =
     (let l = heap d a
      in case lease_peer d l of
           None \<Rightarrow> Ret False
         | Some s \<Rightarrow>
             (case hba (peers d s) of
                None \<Rightarrow> Ret False
              | Some hb \<Rightarrow>
                  let ident = (case uid l of Some u \<Rightarrow> u | None \<Rightarrow> []);
                      ident = (if ident \<noteq> [] then ident else tl (hardware_addr l))
                  in if ident = [] then Ret False
                     else cbind (loadb_p_hash ident (length ident))
                       (\<lambda>hbaix. cbind (hba_bit hb hbaix)
                         (\<lambda>hm. Ret (if i_am (peers d s) = primary then \<not> hm else hm)))))"

text \<open>
  \<open>split\<close> in the declaration of a failover peer: the array with its first \<open>split\<close> bits set, or
  no array when there are not that many bits.
\<close>

fun split_loop :: "byte list \<Rightarrow> nat \<Rightarrow> nat \<Rightarrow> byte list cres" where
  "split_loop hb i 0 = Ret hb"
| "split_loop hb i (Suc n) =
     cbind (rd hb (i div 8))
       (\<lambda>b. cbind (wr hb (i div 8) (b OR push_bit (i mod 8) 1)) (\<lambda>hb. split_loop hb (i + 1) n))"

definition split_hba :: "nat \<Rightarrow> byte list option cres" where
  "split_hba split =
     (if 256 < split then Ret None
      else cbind (split_loop (replicate 32 0) 0 split) (\<lambda>hb. Ret (Some hb)))"

section \<open>Which updates to believe\<close>

text \<open>
  What becomes of a lease when the peer says it is in state \<open>st\<close>, in the normal state and when
  the servers may be in conflict. The times are in seconds; \<open>Fatal\<close> for a state that is none.
\<close>

definition FUDGE :: int where "FUDGE = 65"

definition known_state :: "binding_state \<Rightarrow> bool" where
  "known_state st = (case st of FTS_BOGUS _ \<Rightarrow> False | _ \<Rightarrow> True)"

text \<open>The answer to a peer that says the lease can be given away, by the time the peer was promised.\<close>

definition unless_promised :: "int \<Rightarrow> int \<Rightarrow> binding_state \<Rightarrow> binding_state \<Rightarrow> binding_state cres" where
  "unless_promised now ts cur st = (if now < ts then Ret cur else Ret st)"

definition normal_binding_state_transition_check ::
    "int \<Rightarrow> db_lease \<Rightarrow> peer \<Rightarrow> binding_state \<Rightarrow> int \<Rightarrow> binding_state cres" where
  "normal_binding_state_transition_check now l p st ts =
     (let cur = binding_state l
      in if st = cur then Ret st
         else case cur of
           FTS_FREE \<Rightarrow> if known_state st then Ret st else Fatal
         | FTS_ABANDONED \<Rightarrow> if known_state st then Ret st else Fatal
         | FTS_ACTIVE \<Rightarrow>
             if i_am p = primary then
               if st = FTS_RELEASED \<or> st = FTS_ABANDONED then Ret st else Ret cur
             else (case st of
                     FTS_FREE \<Rightarrow> unless_promised now ts cur st
                   | FTS_BACKUP \<Rightarrow> unless_promised now ts cur st
                   | FTS_EXPIRED \<Rightarrow> if now < ends l - FUDGE then Ret cur else Ret st
                   | FTS_BOGUS _ \<Rightarrow> Fatal
                   | _ \<Rightarrow> Ret st)
         | FTS_EXPIRED \<Rightarrow>
             (case st of
                FTS_FREE \<Rightarrow> unless_promised now ts cur st
              | FTS_BACKUP \<Rightarrow> unless_promised now ts cur st
              | FTS_BOGUS _ \<Rightarrow> Fatal
              | _ \<Rightarrow> Ret st)
         | FTS_RELEASED \<Rightarrow> if known_state st then Ret st else Fatal
         | FTS_RESET \<Rightarrow>
             (case st of
                FTS_FREE \<Rightarrow> unless_promised now ts cur st
              | FTS_BACKUP \<Rightarrow> unless_promised now ts cur st
              | FTS_BOGUS _ \<Rightarrow> Fatal
              | _ \<Rightarrow> Ret st)
         | FTS_BACKUP \<Rightarrow> if known_state st then Ret st else Fatal
         | FTS_BOGUS _ \<Rightarrow> Fatal)"

definition conflict_binding_state_transition_check ::
    "int \<Rightarrow> db_lease \<Rightarrow> peer \<Rightarrow> binding_state \<Rightarrow> int \<Rightarrow> binding_state cres" where
  "conflict_binding_state_transition_check now l p st ts =
     (let cur = binding_state l
      in if st = cur then Ret st
         else case cur of
           FTS_ACTIVE \<Rightarrow>
             (case st of
                FTS_FREE \<Rightarrow> Ret cur
              | FTS_BACKUP \<Rightarrow> Ret cur
              | FTS_EXPIRED \<Rightarrow> if now < ends l - FUDGE then Ret cur else Ret st
              | FTS_RELEASED \<Rightarrow> Ret st
              | FTS_RESET \<Rightarrow> Ret st
              | FTS_ABANDONED \<Rightarrow> Ret st
              | _ \<Rightarrow> Fatal)
         | FTS_BOGUS _ \<Rightarrow> Fatal
         | _ \<Rightarrow> Ret st)"

section \<open>Which leases can be given away\<close>

text \<open>
  \<open>peer_gone\<close>: in partner-down, when the peer can no longer have made the lease active.
\<close>

definition peer_gone :: "int \<Rightarrow> peer \<Rightarrow> db_lease \<Rightarrow> bool" where
  "peer_gone now p l \<longleftrightarrow>
     p_service_state p = service_partner_down \<and>
     (if tsfp l < me_stos p then me_stos p + mclt p < now else tsfp l + mclt p < now)"

definition mine_to_reallocate :: "int \<Rightarrow> peer \<Rightarrow> db_lease \<Rightarrow> bool cres" where
  "mine_to_reallocate now p l =
     (case binding_state l of
        FTS_ACTIVE \<Rightarrow> Ret False
      | FTS_FREE \<Rightarrow> Ret (i_am p = primary \<or> peer_gone now p l)
      | FTS_ABANDONED \<Rightarrow> Ret (i_am p = primary \<or> peer_gone now p l)
      | FTS_RESET \<Rightarrow> Ret (p_service_state p = service_partner_down \<and> tsfp l < now)
      | FTS_BACKUP \<Rightarrow> Ret (i_am p = secondary \<or> peer_gone now p l)
      | FTS_BOGUS _ \<Rightarrow> Fatal
      | _ \<Rightarrow>
          Ret (i_am p = primary \<and> rewind_binding_state l = FTS_FREE \<or>
               i_am p = secondary \<and> rewind_binding_state l = FTS_BACKUP \<or>
               p_service_state p = service_partner_down \<and> tsfp l < now))"

definition lease_mine_to_reallocate :: "db \<Rightarrow> ptr option \<Rightarrow> bool cres" where
  "lease_mine_to_reallocate d lease =
     (case lease of
        None \<Rightarrow> Ret False
      | Some a \<Rightarrow>
          (case lease_peer d (heap d a) of
             Some s \<Rightarrow> mine_to_reallocate (cur_time d) (peers d s) (heap d a)
           | None \<Rightarrow> Ret (binding_state (heap d a) = FTS_FREE \<or> binding_state (heap d a) = FTS_BACKUP)))"

section \<open>The hash\<close>

lemma tbl_length [simp]: "length loadb_mx_tbl = 256"
  by (simp add: loadb_mx_tbl_def)

lemma tbl_sorted: "sort (map uint loadb_mx_tbl) = [0..255]"
  by code_simp

lemma tbl_distinct: "distinct loadb_mx_tbl"
proof -
  have "distinct (sort (map uint loadb_mx_tbl))" unfolding tbl_sorted by simp
  then show ?thesis by (simp add: distinct_map)
qed

definition mix :: "byte \<Rightarrow> byte \<Rightarrow> byte" where
  "mix b h = loadb_mx_tbl ! unat (h XOR b)"

definition loadb_hash :: "byte list \<Rightarrow> byte" where
  "loadb_hash xs = foldr mix xs (of_nat (length xs))"

lemma unat_byte [simp]: "unat (b::byte) < 256"
  using unsigned_less [of b, where 'a = nat] by simp

lemma mix_iff: "mix b h = mix c k \<longleftrightarrow> h XOR b = k XOR c"
proof -
  have "mix b h = mix c k \<longleftrightarrow> unat (h XOR b) = unat (k XOR c)"
    unfolding mix_def by (rule nth_eq_iff_index_eq [OF tbl_distinct]) simp_all
  then show ?thesis by (simp add: word_unat_eq_iff)
qed

lemma xor_inj: "(h::byte) XOR b = k XOR b \<longleftrightarrow> h = k" "(h::byte) XOR b = h XOR c \<longleftrightarrow> b = c"
  by (auto simp: bit_eq_iff bit_xor_iff)

lemma mix_inj: "mix b h = mix b k \<longleftrightarrow> h = k" "mix b h = mix c h \<longleftrightarrow> b = c"
  by (simp_all only: mix_iff xor_inj)

lemma foldr_mix_inj: "foldr mix xs h = foldr mix xs k \<longleftrightarrow> h = k"
  by (induction xs) (simp_all add: mix_inj)

lemma loadb_loop_hash: "n \<le> length k \<Longrightarrow> loadb_loop k n h = Ret (foldr mix (take n k) h)"
proof (induction n arbitrary: h)
  case (Suc n)
  then show ?case by (simp add: take_Suc_conv_app_nth mix_def)
qed simp

lemma loadb_p_hash_eq: "n \<le> length k \<Longrightarrow> loadb_p_hash k n = Ret (loadb_hash (take n k))"
  by (simp add: loadb_p_hash_def loadb_loop_hash loadb_hash_def min_def)

section \<open>The buckets\<close>

lemma hba_index: "unat (drop_bit 3 (ix::byte) AND 0x1F) = unat ix div 8" "unat ((ix::byte) AND 7) = unat ix mod 8"
proof -
  have m: "(0x1F::byte) = mask 5" "(7::byte) = mask 3" by (simp_all add: mask_eq_exp_minus_1)
  have "unat (drop_bit 3 ix AND 0x1F) = take_bit 5 (drop_bit 3 (unat ix))"
    unfolding m take_bit_eq_mask [symmetric] using unat_byte [of ix]
    by (simp add: unsigned_take_bit_eq unsigned_drop_bit_eq take_bit_nat_eq_self)
  also have "\<dots> = unat ix div 8"
  proof -
    have "unat ix div 8 < 32" using unat_byte [of ix] by (simp add: div_less_iff_less_mult)
    then show ?thesis by (simp add: take_bit_eq_mod drop_bit_eq_div)
  qed
  finally show "unat (drop_bit 3 ix AND 0x1F) = unat ix div 8" .
  show "unat (ix AND 7) = unat ix mod 8"
    unfolding m take_bit_eq_mask [symmetric] by (simp add: unsigned_take_bit_eq) (simp add: take_bit_eq_mod)
qed

lemma hba_bit_eq:
  assumes "length hb = 32"
  shows "hba_bit hb ix = Ret (bit (hb ! (unat ix div 8)) (unat ix mod 8))"
proof -
  have "unat ix div 8 < length hb" using unat_byte [of ix] assms by (simp add: div_less_iff_less_mult)
  then show ?thesis by (simp add: hba_bit_def hba_index and_exp_eq_0_iff_not_bit)
qed

lemma bit_set: "k < 8 \<Longrightarrow> bit ((b::byte) OR 2 ^ j) k \<longleftrightarrow> bit b k \<or> k = j"
  using bit_exp_iff [of j k, where 'a = byte] by (auto simp: bit_or_iff possible_bit_def)

lemma split_loop_bits:
  assumes "i + n \<le> 256" "length hb = 32"
  shows "\<exists>hb'. split_loop hb i n = Ret hb' \<and> length hb' = 32 \<and>
     (\<forall>k < 256. bit (hb' ! (k div 8)) (k mod 8) \<longleftrightarrow> bit (hb ! (k div 8)) (k mod 8) \<or> i \<le> k \<and> k < i + n)"
  using assms
proof (induction n arbitrary: i hb)
  case (Suc n)
  define hb1 where "hb1 = hb[i div 8 := hb ! (i div 8) OR push_bit (i mod 8) 1]"
  have i: "i div 8 < length hb" using Suc.prems by (simp add: div_less_iff_less_mult)
  have b: "bit (hb1 ! (k div 8)) (k mod 8) \<longleftrightarrow> bit (hb ! (k div 8)) (k mod 8) \<or> k = i" if "k < 256" for k
  proof (cases "k div 8 = i div 8")
    case True
    then have "k mod 8 = i mod 8 \<longleftrightarrow> k = i" by (metis div_mult_mod_eq)
    then show ?thesis using i True by (simp add: hb1_def bit_set)
  next
    case False
    then show ?thesis by (auto simp: hb1_def)
  qed
  obtain hb' where h: "split_loop hb1 (i + 1) n = Ret hb'" "length hb' = 32"
      "\<forall>k < 256. bit (hb' ! (k div 8)) (k mod 8) \<longleftrightarrow> bit (hb1 ! (k div 8)) (k mod 8) \<or> i + 1 \<le> k \<and> k < i + 1 + n"
    using Suc.IH [of "i + 1" hb1] Suc.prems by (auto simp: hb1_def)
  have "split_loop hb i (Suc n) = Ret hb'" using i h(1) by (simp add: hb1_def)
  moreover have "bit (hb' ! (k div 8)) (k mod 8) \<longleftrightarrow> bit (hb ! (k div 8)) (k mod 8) \<or> i \<le> k \<and> k < i + Suc n" if "k < 256" for k
    using h(3) that b [OF that] by auto
  ultimately show ?case using h(2) by blast
qed auto

lemma split_hba_bits:
  assumes "n \<le> 256"
  shows "\<exists>hb. split_hba n = Ret (Some hb) \<and> length hb = 32 \<and> (\<forall>ix. hba_bit hb ix = Ret (unat ix < n))"
proof -
  obtain hb where h: "split_loop (replicate 32 0) 0 n = Ret hb" "length hb = 32"
      "\<forall>k < 256. bit (hb ! (k div 8)) (k mod 8) \<longleftrightarrow> bit (replicate 32 (0::byte) ! (k div 8)) (k mod 8) \<or> 0 \<le> k \<and> k < 0 + n"
    using split_loop_bits [of 0 n "replicate 32 0"] assms by auto
  have "bit (hb ! (unat ix div 8)) (unat ix mod 8) \<longleftrightarrow> unat ix < n" for ix :: byte
    using h(3) [rule_format, OF unat_byte, of ix] unat_byte [of ix] by (simp add: div_less_iff_less_mult)
  with h show ?thesis using assms by (simp add: split_hba_def hba_bit_eq)
qed

section \<open>Dividing the clients\<close>

definition client_key :: "packet \<Rightarrow> byte list" where
  "client_key pk = (case client_identifier pk of Some ds \<Rightarrow> ds | None \<Rightarrow> take (unat (hlen pk)) (chaddr pk))"

lemma load_balance_mine_eq:
  assumes "\<not> load_balance_max_secs p < uint (elapsed sb pk)" "hba p = Some hb" "unat (hlen pk) \<le> length (chaddr pk)"
    "hba_bit hb (loadb_hash (client_key pk)) = Ret hm"
  shows "load_balance_mine sb pk p = Ret (if i_am p = primary then hm else \<not> hm)"
  using assms by (auto simp: load_balance_mine_def client_key_def loadb_p_hash_eq split: option.splits)

lemma load_balance_split_lemma:
  assumes n: "n \<le> 256" "split_hba n = Ret (hba p)" and h: "unat (hlen pk) \<le> length (chaddr pk)"
    and q: "hba q = hba p" "load_balance_max_secs q = load_balance_max_secs p" "i_am p = primary" "i_am q = secondary"
  shows "load_balance_mine sb pk p =
           Ret (load_balance_max_secs p < uint (elapsed sb pk) \<or> unat (loadb_hash (client_key pk)) < n)"
    "load_balance_mine sb pk q =
           Ret (load_balance_max_secs p < uint (elapsed sb pk) \<or> \<not> unat (loadb_hash (client_key pk)) < n)"
proof -
  obtain hb where hb: "hba p = Some hb" "\<And>ix. hba_bit hb ix = Ret (unat ix < n)"
    using split_hba_bits [OF n(1)] n(2) by auto
  show "load_balance_mine sb pk p =
           Ret (load_balance_max_secs p < uint (elapsed sb pk) \<or> unat (loadb_hash (client_key pk)) < n)"
    using load_balance_mine_eq [OF _ hb(1) h hb(2), of sb] q(3) by (cases "load_balance_max_secs p < uint (elapsed sb pk)")
      (simp add: load_balance_mine_def, simp)
  show "load_balance_mine sb pk q =
           Ret (load_balance_max_secs p < uint (elapsed sb pk) \<or> \<not> unat (loadb_hash (client_key pk)) < n)"
    using load_balance_mine_eq [OF _ _ h hb(2), of q sb] q hb(1) by (cases "load_balance_max_secs p < uint (elapsed sb pk)")
      (simp add: load_balance_mine_def, simp)
qed

text \<open>A lease that is held by the client that sent the packet.\<close>

definition held_by :: "db_lease \<Rightarrow> packet \<Rightarrow> bool" where
  "held_by l pk \<longleftrightarrow>
     (case client_identifier pk of
        Some ds \<Rightarrow> ds \<noteq> [] \<and> uid l = Some ds
      | None \<Rightarrow> (uid l = None \<or> uid l = Some []) \<and> 0 < unat (hlen pk) \<and> unat (hlen pk) \<le> length (chaddr pk) \<and>
                tl (hardware_addr l) = take (unat (hlen pk)) (chaddr pk))"

lemma peer_wants_lease_eq:
  assumes "lease_peer d (heap d a) = Some s" "hba (peers d s) = Some hb" "length hb = 32" "held_by (heap d a) pk"
  shows "peer_wants_lease d a = cbind (hba_bit hb (loadb_hash (client_key pk)))
           (\<lambda>hm. Ret (if i_am (peers d s) = primary then \<not> hm else hm))"
  using assms by (auto simp: peer_wants_lease_def held_by_def client_key_def loadb_p_hash_eq Let_def split: option.splits)

text \<open>
  C30. Load balancing divides the clients: with the hash bucket array made from \<open>split n\<close>, which both
  servers of the pair have, the primary answers a client exactly when its hash is below \<open>n\<close> and
  the secondary exactly when it is not, until the client has waited longer than
  \<open>load_balance_max_secs\<close>, when both answer. No packet makes the code read outside of the array.
\<close>

theorem load_balance_split:
  assumes "n \<le> 256" "split_hba n = Ret (hba p)" "unat (hlen pk) \<le> length (chaddr pk)"
    "hba q = hba p" "load_balance_max_secs q = load_balance_max_secs p" "i_am p = primary" "i_am q = secondary"
  shows "load_balance_mine sb pk p =
           Ret (load_balance_max_secs p < uint (elapsed sb pk) \<or> unat (loadb_hash (client_key pk)) < n) \<and>
         load_balance_mine sb pk q =
           Ret (load_balance_max_secs p < uint (elapsed sb pk) \<or> \<not> unat (loadb_hash (client_key pk)) < n)"
  using load_balance_split_lemma [OF assms] by simp

definition ex_packet :: packet where
  "ex_packet = \<lparr>secs = 0, client_identifier = None, chaddr = [0, 1, 2, 3, 4, 5], hlen = 6\<rparr>"

lemma ex_hash: "loadb_hash (client_key ex_packet) = 161"
  by code_simp

theorem load_balance_split_witness:
  "\<exists>hb. split_hba 128 = Ret hb \<and>
     load_balance_mine False ex_packet (new_peer\<lparr>hba := hb\<rparr>) = Ret False \<and>
     load_balance_mine False ex_packet (new_peer\<lparr>hba := hb, i_am := secondary\<rparr>) = Ret True"
proof -
  obtain hb where hb: "split_hba 128 = Ret hb" using split_hba_bits [of 128] by auto
  have c: "unat (hlen ex_packet) \<le> length (chaddr ex_packet)" "uint (elapsed False ex_packet) = 0"
    by (simp_all add: ex_packet_def elapsed_def)
  have "load_balance_mine False ex_packet (new_peer\<lparr>hba := hb\<rparr>) = Ret False \<and>
     load_balance_mine False ex_packet (new_peer\<lparr>hba := hb, i_am := secondary\<rparr>) = Ret True"
    using load_balance_split [of 128 "new_peer\<lparr>hba := hb\<rparr>" ex_packet "new_peer\<lparr>hba := hb, i_am := secondary\<rparr>" False] c hb
    by (simp add: new_peer_def ex_hash)
  with hb show ?thesis by blast
qed

text \<open>
  The rule by which a server gives free leases to its peer agrees with the rule by which the
  two divide the clients: for a lease that the client of a packet held, \<open>peer_wants_lease\<close> says that
  the peer should have it exactly when \<open>load_balance_mine\<close> says that the client is not ours.
\<close>

theorem peer_wants_lease_inverse:
  assumes "lease_peer d (heap d a) = Some s" "hba (peers d s) = Some hb" "length hb = 32" "held_by (heap d a) pk"
    "unat (hlen pk) \<le> length (chaddr pk)" "uint (elapsed sb pk) \<le> load_balance_max_secs (peers d s)"
  shows "\<exists>b. load_balance_mine sb pk (peers d s) = Ret b \<and> peer_wants_lease d a = Ret (\<not> b)"
proof -
  have "\<not> load_balance_max_secs (peers d s) < uint (elapsed sb pk)" using assms(6) by simp
  then show ?thesis
    using load_balance_mine_eq [OF _ assms(2,5) hba_bit_eq [OF assms(3)], of sb] peer_wants_lease_eq [OF assms(1-4)]
    by (simp add: hba_bit_eq [OF assms(3)])
qed

definition exl_db :: db where
  "exl_db = new_db\<lparr>heap := \<lambda>_. new_lease\<lparr>l_pool := Some 0, hardware_addr := [1, 0, 1, 2, 3, 4, 5]\<rparr>,
     pools := \<lambda>_. new_pool\<lparr>failover_peer := Some 0\<rparr>, peers := \<lambda>_. new_peer\<lparr>hba := Some (replicate 32 0x0F)\<rparr>\<rparr>"

theorem peer_wants_lease_inverse_witness:
  "\<exists>b. load_balance_mine False ex_packet (peers exl_db 0) = Ret b \<and> peer_wants_lease exl_db 1 = Ret (\<not> b)"
  by (rule peer_wants_lease_inverse [of exl_db 1 0 "replicate 32 0x0F" ex_packet False])
    (simp_all add: exl_db_def lease_peer_def held_by_def ex_packet_def new_lease_def new_pool_def new_peer_def elapsed_def)

section \<open>Believing the peer\<close>

lemma normal_check_safe:
  assumes "known_state (binding_state l)" "known_state st"
  shows "\<exists>st'. normal_binding_state_transition_check now l p st ts = Ret st' \<and> st' \<in> {st, binding_state l} \<and>
           (binding_state l \<in> {FTS_ACTIVE, FTS_EXPIRED, FTS_RESET} \<and> now < ts \<longrightarrow> st' \<notin> {FTS_FREE, FTS_BACKUP}) \<and>
           (binding_state l = FTS_ACTIVE \<and> i_am p = primary \<longrightarrow> st' \<in> {FTS_ACTIVE, FTS_RELEASED, FTS_ABANDONED}) \<and>
           (binding_state l = FTS_ACTIVE \<and> now < ends l - 65 \<longrightarrow> st' \<noteq> FTS_EXPIRED)"
  using assms by (cases "binding_state l"; cases st)
    (simp_all add: normal_binding_state_transition_check_def known_state_def FUDGE_def unless_promised_def)

lemma conflict_check_safe:
  assumes "known_state (binding_state l)" "known_state st"
  shows "\<exists>st'. conflict_binding_state_transition_check now l p st ts = Ret st' \<and> st' \<in> {st, binding_state l} \<and>
           (binding_state l = FTS_ACTIVE \<longrightarrow> st' \<notin> {FTS_FREE, FTS_BACKUP} \<and> (now < ends l - 65 \<longrightarrow> st' \<noteq> FTS_EXPIRED))"
  using assms by (cases "binding_state l"; cases st)
    (simp_all add: conflict_binding_state_transition_check_def known_state_def FUDGE_def)

text \<open>
  C31. What the checks of a binding update answer is the state the lease has or the one the peer
  says, and they never give away a lease that may be in use. In the normal state the primary takes
  of an active lease only its release or abandonment from the secondary; the secondary frees an
  active lease only after the time it was promised and lets it expire only near the end it knows;
  an expired or reset lease is not freed before the time that was promised. In potential
  conflict an active lease is never freed.
\<close>

theorem transition_checks_safe:
  assumes "known_state (binding_state l)" "known_state st"
  shows "(\<exists>st'. normal_binding_state_transition_check now l p st ts = Ret st' \<and> st' \<in> {st, binding_state l} \<and>
           (binding_state l \<in> {FTS_ACTIVE, FTS_EXPIRED, FTS_RESET} \<and> now < ts \<longrightarrow> st' \<notin> {FTS_FREE, FTS_BACKUP}) \<and>
           (binding_state l = FTS_ACTIVE \<and> i_am p = primary \<longrightarrow> st' \<in> {FTS_ACTIVE, FTS_RELEASED, FTS_ABANDONED}) \<and>
           (binding_state l = FTS_ACTIVE \<and> now < ends l - 65 \<longrightarrow> st' \<noteq> FTS_EXPIRED)) \<and>
         (\<exists>st'. conflict_binding_state_transition_check now l p st ts = Ret st' \<and> st' \<in> {st, binding_state l} \<and>
           (binding_state l = FTS_ACTIVE \<longrightarrow> st' \<notin> {FTS_FREE, FTS_BACKUP} \<and> (now < ends l - 65 \<longrightarrow> st' \<noteq> FTS_EXPIRED)))"
  using normal_check_safe [OF assms, of now p ts] conflict_check_safe [OF assms, of now p ts] by (rule conjI)

theorem transition_checks_safe_witness:
  "normal_binding_state_transition_check 100 (new_lease\<lparr>binding_state := FTS_ACTIVE, ends := 500\<rparr>) new_peer FTS_FREE 400 =
     Ret FTS_ACTIVE"
  using transition_checks_safe [of "new_lease\<lparr>binding_state := FTS_ACTIVE, ends := 500\<rparr>" FTS_FREE 100 new_peer 400]
  by (auto simp: known_state_def)
section \<open>Giving leases away\<close>

text \<open>A server whose peer is up may give a lease away only when the peer may not.\<close>

lemma mine_exclusive:
  assumes "mine_to_reallocate now p l = Ret True" "mine_to_reallocate now' q l' = Ret True" "i_am p = primary" "i_am q = secondary"
    "binding_state l' = binding_state l" "rewind_binding_state l' = rewind_binding_state l"
  shows "p_service_state p = service_partner_down \<or> p_service_state q = service_partner_down"
  using assms by (cases "binding_state l") (auto simp: mine_to_reallocate_def peer_gone_def)

end
