(* ===== verification/FailoverState.thy ===== *)
theory FailoverState
  imports LoadBalance PoolTimer
begin

text \<open>
  The state machine of a failover peer (\<open>server/failover.c\<close>): the states of this server and of its
  partner, how each change of one makes the other change, what this server does on entering a
  state, and the balancing of the free leases between the two.
\<close>

section \<open>Messages\<close>

text \<open>
  A message with the next transaction number of the link. Whatever keeps a message from being put
  on the link is \<open>ISC_R_FAILURE\<close> here; the callers do not tell the reasons apart.
\<close>

definition put_numbered :: "db_env \<Rightarrow> db \<Rightarrow> nat \<Rightarrow> (u32 \<Rightarrow> event) \<Rightarrow> (db \<times> isc_result) cres" where
  "put_numbered e d s m =
     (case link_xid (peers d s) of
        None \<Rightarrow> Ret (d, DHCP_R_INVALIDARG)
      | Some xid \<Rightarrow>
          cbind (dhcp_failover_put_message e (upd_peer s (\<lambda>p. p\<lparr>link_xid := Some (xid + 1)\<rparr>) d) s (m xid))
            (\<lambda>(d, ok). Ret (d, if ok then ISC_R_SUCCESS else ISC_R_FAILURE)))"

text \<open>The state that is announced and recorded: during startup, the one before it.\<close>

definition shown_state :: "peer \<Rightarrow> failover_state" where
  "shown_state p = (if me_state p = startup then saved_state p else me_state p)"

definition dhcp_failover_send_state :: "db_env \<Rightarrow> db \<Rightarrow> nat \<Rightarrow> (db \<times> isc_result) cres" where
  "dhcp_failover_send_state e d s =
     (let p = peers d s
      in if link_xid p = None then Ret (d, DHCP_R_INVALIDARG)
         else cbind (put_numbered e d s (\<lambda>xid. EvState s xid (shown_state p) (p_service_state p = service_startup) (me_stos p)))
                (\<lambda>(d, _). Ret (d, ISC_R_SUCCESS)))"

definition dhcp_failover_send_poolreq :: "db_env \<Rightarrow> db \<Rightarrow> nat \<Rightarrow> (db \<times> isc_result) cres" where
  "dhcp_failover_send_poolreq e d s = put_numbered e d s (EvPoolReq s)"

definition dhcp_failover_send_poolresp :: "db_env \<Rightarrow> db \<Rightarrow> nat \<Rightarrow> u32 \<Rightarrow> int \<Rightarrow> (db \<times> isc_result) cres" where
  "dhcp_failover_send_poolresp e d s xid leases =
     (if link_xid (peers d s) = None then Ret (d, DHCP_R_INVALIDARG)
      else cbind (dhcp_failover_put_message e d s (EvPoolResp s xid leases))
             (\<lambda>(d, ok). Ret (d, if ok then ISC_R_SUCCESS else ISC_R_FAILURE)))"

definition dhcp_failover_send_update_request_all :: "db_env \<Rightarrow> db \<Rightarrow> nat \<Rightarrow> (db \<times> isc_result) cres" where
  "dhcp_failover_send_update_request_all e d s =
     (if link_xid (peers d s) = None then Ret (d, DHCP_R_INVALIDARG)
      else cbind (put_numbered e d s (EvUpdReqAll s))
             (\<lambda>(d, r). Ret (upd_peer s (\<lambda>p. p\<lparr>curUPD := FTM_UPDREQALL\<rparr>) d, r)))"

definition dhcp_failover_send_update_request :: "db_env \<Rightarrow> db \<Rightarrow> nat \<Rightarrow> (db \<times> isc_result) cres" where
  "dhcp_failover_send_update_request e d s =
     (if link_xid (peers d s) = None then Ret (d, DHCP_R_INVALIDARG)
      else if curUPD (peers d s) = FTM_UPDREQALL then dhcp_failover_send_update_request_all e d s
      else cbind (put_numbered e d s (EvUpdReq s))
             (\<lambda>(d, r). Ret (upd_peer s (\<lambda>p. p\<lparr>curUPD := FTM_UPDREQ\<rparr>) d, r)))"

definition dhcp_failover_send_update_done :: "db_env \<Rightarrow> db \<Rightarrow> nat \<Rightarrow> (db \<times> isc_result) cres" where
  "dhcp_failover_send_update_done e d s =
     (if link_xid (peers d s) = None then Ret (d, DHCP_R_INVALIDARG)
      else cbind (dhcp_failover_put_message e d s (EvUpdDone s (updxid (peers d s))))
             (\<lambda>(d, ok). Ret (commit_leases (upd_peer s (\<lambda>p. p\<lparr>updxid := updxid p - 1\<rparr>) d),
                             if ok then ISC_R_SUCCESS else ISC_R_FAILURE)))"

section \<open>Serving clients\<close>

text \<open>What service a failover state allows, and why not when it allows none.\<close>

definition own_service :: "failover_state \<Rightarrow> (service_state \<times> string) cres" where
  "own_service st =
     (case st of
        unknown_state \<Rightarrow> Ret (not_responding, '' (my state unknown)'')
      | partner_down \<Rightarrow> Ret (service_partner_down, '''')
      | normal \<Rightarrow> Ret (cooperating, '''')
      | communications_interrupted \<Rightarrow> Ret (not_cooperating, '''')
      | resolution_interrupted \<Rightarrow> Ret (not_responding, '' (resolving conflicts)'')
      | potential_conflict \<Rightarrow> Ret (not_responding, '' (resolving conflicts)'')
      | conflict_done \<Rightarrow> Ret (not_responding, '' (resolving conflicts)'')
      | recover \<Rightarrow> Ret (not_responding, '' (recovering)'')
      | shut_down \<Rightarrow> Ret (not_responding, '' (shut down)'')
      | paused \<Rightarrow> Ret (not_responding, '' (paused)'')
      | recover_wait \<Rightarrow> Ret (not_responding, '' (recover wait)'')
      | recover_done \<Rightarrow> Ret (not_responding, '' (recover done)'')
      | startup \<Rightarrow> Ret (service_startup, '' (startup)'')
      | other_state _ \<Rightarrow> Fatal)"

definition dhcp_failover_set_service_state :: "db \<Rightarrow> nat \<Rightarrow> db cres" where
  "dhcp_failover_set_service_state d s =
     cbind (own_service (me_state (peers d s)))
       (\<lambda>(sv, why).
          let (sv, why) =
            (if sv = not_responding then (sv, why)
             else case partner_state (peers d s) of
                    partner_down \<Rightarrow> (not_responding, '' (peer demands: recovering)'')
                  | potential_conflict \<Rightarrow> (not_responding, '' (peer demands: resolving conflicts)'')
                  | conflict_done \<Rightarrow> (not_responding, '' (peer demands: resolving conflicts)'')
                  | resolution_interrupted \<Rightarrow> (not_responding, '' (peer demands: resolving conflicts)'')
                  | _ \<Rightarrow> (sv, why))
          in Ret (upd_peer s (\<lambda>p. p\<lparr>p_service_state := sv, nrr := why\<rparr>) d))"

section \<open>Updates to send again\<close>

text \<open>The loop over the unacknowledged updates; \<open>None\<close> when it does not end.\<close>

partial_function (option) rescind_flags :: "db \<Rightarrow> ptr option \<Rightarrow> db option" where
  "rescind_flags d lp =
     (case lp of
        None \<Rightarrow> Some d
      | Some a \<Rightarrow>
          let d = upd_lease a (\<lambda>l. l\<lparr>flags := (flags l AND NOT ON_ACK_QUEUE) OR ON_UPDATE_QUEUE\<rparr>) d
          in rescind_flags d (next_pending (heap d a)))"

definition dhcp_failover_rescind_updates :: "db \<Rightarrow> nat \<Rightarrow> db cres" where
  "dhcp_failover_rescind_updates d s =
     (case ack_queue_tail (peers d s) of
        None \<Rightarrow> Ret d
      | Some t \<Rightarrow>
          (case rescind_flags d (ack_queue_head (peers d s)) of
             None \<Rightarrow> Undef
           | Some d \<Rightarrow>
               let d = (case update_queue_head (peers d s) of
                          Some u \<Rightarrow> upd_peer s (\<lambda>p. p\<lparr>update_queue_head := None\<rparr>) (pending_reference d t u)
                        | None \<Rightarrow> d);
                   d = upd_peer s (\<lambda>p. p\<lparr>update_queue_head := ack_queue_head p\<rparr>) d;
                   d = (if update_queue_tail (peers d s) = None
                        then upd_peer s (\<lambda>p. p\<lparr>update_queue_tail := Some t\<rparr>) d else d)
               in Ret (upd_peer s (\<lambda>p. p\<lparr>ack_queue_tail := None, ack_queue_head := None, cur_unacked_updates := 0\<rparr>) d)))"

text \<open>Putting the updates of a peer's leases on the queue, all of them or those it may not know.\<close>

definition generate_update :: "db_env \<Rightarrow> bool \<Rightarrow> queue_name \<Rightarrow> db \<Rightarrow> ptr \<Rightarrow> db cres" where
  "generate_update e everythingp q d a =
     (let l = heap d a
      in if \<not> has_flag l (ON_UPDATE_QUEUE OR ON_ACK_QUEUE) \<and> (everythingp \<or> atsfp l < tstp l \<or> q = EXPIRED_LEASES)
         then dhcp_failover_queue_update e
                (upd_lease a (\<lambda>l. l\<lparr>desired_binding_state := binding_state l\<rparr>) d) a False
         else Ret d)"

fun generate_queues :: "db_env \<Rightarrow> bool \<Rightarrow> db \<Rightarrow> nat \<Rightarrow> queue_name list \<Rightarrow> db cres" where
  "generate_queues e everythingp d p [] = Ret d"
| "generate_queues e everythingp d p (q # qs) =
     cbind (for_all (generate_update e everythingp q) d (queue (pools d p) q))
       (\<lambda>d. generate_queues e everythingp d p qs)"

definition dhcp_failover_generate_update_queue :: "db_env \<Rightarrow> db \<Rightarrow> nat \<Rightarrow> bool \<Rightarrow> db cres" where
  "dhcp_failover_generate_update_queue e d s everythingp =
     for_all (\<lambda>d p. if failover_peer (pools d p) \<noteq> Some s then Ret d else generate_queues e everythingp d p lptr)
       d (pool_list d)"
section \<open>Balancing the free leases\<close>

definition scrub_lease :: "db_lease \<Rightarrow> db_lease" where
  "scrub_lease l = l\<lparr>client_hostname := None\<rparr>"

text \<open>Giving a lease to the peer.\<close>

definition balance_give :: "db_env \<Rightarrow> db \<Rightarrow> ptr \<Rightarrow> binding_state \<Rightarrow> db cres" where
  "balance_give e d a st =
     (let d = upd_lease a (\<lambda>l. scrub_lease (l\<lparr>next_binding_state := st, tstp := cur_time d, starts := cur_time d\<rparr>)) d
      in cbind (supersede_lease e d a None False True False False)
           (\<lambda>(d, ok). Ret (if ok then write_lease d a else d)))"

definition balanced_enough :: "int \<Rightarrow> bool \<Rightarrow> db_lease \<Rightarrow> int \<Rightarrow> bool" where
  "balanced_enough hold second l lts =
     (if second then if ends l \<noteq> 0 then lts \<le> hold else lts \<le> 0 else lts \<le> - hold)"

text \<open>
  The loop over the free leases of this server, in two passes: first the leases the peer would
  want, then any. It gives the database, the surplus that is left and the number of leases given;
  \<open>None\<close> when it does not end.
\<close>

partial_function (option) balance_walk ::
    "db_env \<Rightarrow> nat \<Rightarrow> queue_name \<Rightarrow> binding_state \<Rightarrow> int \<Rightarrow> db \<Rightarrow> ptr option \<Rightarrow> bool \<Rightarrow> int \<Rightarrow> int \<Rightarrow>
     (db \<times> int \<times> int) cres option" where
  "balance_walk e p q st hold d lp second lts queued =
     (case lp of
        None \<Rightarrow> Some (Ret (d, lts, queued))
      | Some a \<Rightarrow>
          let nx = next_on (queue (pools d p) q) a
          in if balanced_enough hold second (heap d a) lts then Some (Ret (d, lts, queued))
             else case (if second then Ret True else peer_wants_lease d a) of
                    Undef \<Rightarrow> Some Undef
                  | Fatal \<Rightarrow> Some Fatal
                  | Ret give \<Rightarrow>
                      (case (if give then balance_give e d a st else Ret d) of
                         Undef \<Rightarrow> Some Undef
                       | Fatal \<Rightarrow> Some Fatal
                       | Ret d \<Rightarrow>
                           let lts = (if give then lts - 1 else lts);
                               queued = (if give then queued + 1 else queued)
                           in case nx of
                                Some b \<Rightarrow> balance_walk e p q st hold d (Some b) second lts queued
                              | None \<Rightarrow>
                                  if second then Some (Ret (d, lts, queued))
                                  else balance_walk e p q st hold d
                                         (seg_head (queue (pools d p) q) None) True lts queued))"

text \<open>
  The percentages are unsigned 32-bit numbers, so the products with the number of leases are too;
  the division by two rounds towards zero.
\<close>

definition percent_of :: "int \<Rightarrow> int \<Rightarrow> int" where
  "percent_of n pct = ((n * pct + 50) mod 2 ^ 32) div 100"

definition lease_surplus :: "peer \<Rightarrow> pool \<Rightarrow> int" where
  "lease_surplus p pl =
     (if i_am p = primary then (free_leases pl - backup_leases pl) sdiv 2
      else (backup_leases pl - free_leases pl) sdiv 2)"

definition wants_poolreq :: "peer \<Rightarrow> pool \<Rightarrow> bool" where
  "wants_poolreq p pl =
     (let thresh = percent_of (backup_leases pl + free_leases pl) (max_lease_misbalance p);
          panic = thresh * - 2;
          panic = (if panic = 0 then - 1 else panic)
      in lease_surplus p pl < panic)"

definition balance_pool :: "db_env \<Rightarrow> nat \<Rightarrow> db \<Rightarrow> nat \<Rightarrow> (db \<times> int) cres" where
  "balance_pool e s d p =
     (let pl = pools d p;
          (st, q) = (if i_am (peers d s) = primary then (FTS_BACKUP, FREE_LEASES) else (FTS_FREE, BACKUP_LEASES));
          hold = percent_of (backup_leases pl + free_leases pl) (max_lease_ownership (peers d s))
      in case balance_walk e p q st hold d (seg_head (queue pl q) None) False (lease_surplus (peers d s) pl) 0 of
           None \<Rightarrow> Undef
         | Some r \<Rightarrow> cbind r (\<lambda>(d, _, queued). cbind (dhcp_failover_pool_check e d p) (\<lambda>d. Ret (d, queued))))"

fun balance_pools :: "db_env \<Rightarrow> nat \<Rightarrow> db \<Rightarrow> nat list \<Rightarrow> int \<Rightarrow> bool \<Rightarrow> (db \<times> int \<times> bool) cres" where
  "balance_pools e s d [] queued req = Ret (d, queued, req)"
| "balance_pools e s d (p # ps) queued req =
     (if failover_peer (pools d p) \<noteq> Some s then balance_pools e s d ps queued req
      else
        let req = (req \<or> wants_poolreq (peers d s) (pools d p))
        in cbind (balance_pool e s d p) (\<lambda>(d, n). balance_pools e s d ps (queued + n) req))"

text \<open>It gives the number of leases given, and whether the peer should be asked for some.\<close>

definition dhcp_failover_pool_dobalance :: "db_env \<Rightarrow> db \<Rightarrow> nat \<Rightarrow> (db \<times> int \<times> bool) cres" where
  "dhcp_failover_pool_dobalance e d s =
     (if me_state (peers d s) \<noteq> normal then Ret (d, 0, False)
      else cbind (balance_pools e s (upd_peer s (\<lambda>p. p\<lparr>last_balance := cur_time d\<rparr>) d) (pool_list d) 0 False)
             (\<lambda>(d, queued, req). Ret (if queued \<noteq> 0 then commit_leases d else d, queued, req)))"

definition dhcp_failover_pool_balance :: "db_env \<Rightarrow> db \<Rightarrow> nat \<Rightarrow> db cres" where
  "dhcp_failover_pool_balance e d s =
     cbind (dhcp_failover_pool_dobalance e
              (upd_peer s (\<lambda>p. p\<lparr>sched_balance := 0\<rparr>) (cancel_timeout d (Some POOL_REBALANCE) s)) s)
       (\<lambda>(d, _). Ret d)"

definition dhcp_failover_pool_rebalance :: "db_env \<Rightarrow> db \<Rightarrow> nat \<Rightarrow> db cres" where
  "dhcp_failover_pool_rebalance e d s =
     cbind (dhcp_failover_pool_dobalance e (upd_peer s (\<lambda>p. p\<lparr>sched_balance := 0\<rparr>) d) s)
       (\<lambda>(d, queued, req).
          cbind (if queued \<noteq> 0 then dhcp_failover_send_updates e d s else Ret d)
            (\<lambda>d. if req then cbind (dhcp_failover_send_poolreq e d s) (\<lambda>(d, _). Ret d) else Ret d))"

definition dhcp_failover_pool_reqbalance :: "db_env \<Rightarrow> db \<Rightarrow> nat \<Rightarrow> u32 \<Rightarrow> db cres" where
  "dhcp_failover_pool_reqbalance e d s xid =
     cbind (dhcp_failover_pool_dobalance e
              (upd_peer s (\<lambda>p. p\<lparr>sched_balance := 0\<rparr>) (cancel_timeout d (Some POOL_REBALANCE) s)) s)
       (\<lambda>(d, queued, _).
          cbind (dhcp_failover_send_poolresp e d s xid queued)
            (\<lambda>(d, _). if queued \<noteq> 0 then dhcp_failover_send_updates e d s else Ret d))"

section \<open>Changing the state\<close>

text \<open>Recording the state in the lease file.\<close>

definition write_failover_state :: "db \<Rightarrow> nat \<Rightarrow> db" where
  "write_failover_state d s =
     (let p = peers d s
      in emit (EvWriteState s (shown_state p) (me_stos p) (partner_state p) (partner_stos p)) d)"

definition record_state :: "db_env \<Rightarrow> db \<Rightarrow> nat \<Rightarrow> db \<times> bool" where
  "record_state e d s =
     (let d = write_failover_state d s
      in if write_failover_state_ok e then (commit_leases d, commit_leases_ok e) else (d, False))"

definition stop_sending :: "db \<Rightarrow> nat \<Rightarrow> db cres" where
  "stop_sending d s =
     (if me_state (peers d s) \<in> {normal, potential_conflict, partner_down}
      then cbind (dhcp_failover_rescind_updates d s) (\<lambda>d. Ret (cancel_timeout d (Some KEEPALIVE) s))
      else Ret d)"

definition tentative :: "int \<Rightarrow> failover_state \<Rightarrow> peer \<Rightarrow> peer" where
  "tentative now st p =
     (let stos = (if st \<noteq> recover_wait \<and> st \<noteq> startup \<and> me_state p \<noteq> startup then now else me_stos p);
          stos = (if st = recover \<and> me_state p = shut_down \<and> partner_state p = partner_down \<and>
                     update_queue_head p = None \<and> ack_queue_head p = None
                  then now - mclt p else stos)
      in p\<lparr>me_stos := stos, me_state := st,
           saved_state := (if st = startup \<and> me_state p \<noteq> startup then me_state p else saved_state p)\<rparr>)"

text \<open>On entering partner-down, the leases that wait for the peer wait for MCLT instead.\<close>

definition await_mclt :: "peer \<Rightarrow> db_lease \<Rightarrow> db_lease" where
  "await_mclt p l =
     (let ts = me_stos p + mclt p
      in l\<lparr>tsfp := ts, sort_time := (if ends l < ts then ts else ends l)\<rparr>)"

definition await_pool :: "nat \<Rightarrow> db \<Rightarrow> nat \<Rightarrow> db cres" where
  "await_pool s d p =
     (if failover_peer (pools d p) \<noteq> Some s then Ret d
      else
        let xs = queue (pools d p) EXPIRED_LEASES;
            d = fold (\<lambda>a d. upd_lease a (await_mclt (peers d s)) d) xs d
        in case xs of
             [] \<Rightarrow> Ret d
           | a # _ \<Rightarrow>
               let t = sort_time (heap d a)
               in if t < next_event_time (pools d p)
                  then add_timeout (upd_pool p (\<lambda>pl. pl\<lparr>next_event_time := t\<rparr>) d) (t, 0) (Some POOL_TIMER) p
                  else Ret d)"

definition drop_result :: "(db \<times> isc_result) cres \<Rightarrow> db cres" where
  "drop_result m = cbind m (\<lambda>(d, _). Ret d)"

definition enter_state :: "db_env \<Rightarrow> db \<Rightarrow> nat \<Rightarrow> failover_state \<Rightarrow> db cres" where
  "enter_state e d s st =
     (let p = peers d s
      in case st of
           communications_interrupted \<Rightarrow>
             if auto_partner_down p = 0 then Ret d
             else add_timeout d (cur_time d + auto_partner_down p, 0) (Some AUTO_PARTNER_DOWN) s
         | normal \<Rightarrow>
             cbind (dhcp_failover_pool_balance e d s)
               (\<lambda>d. cbind (dhcp_failover_generate_update_queue e d s False)
                 (\<lambda>d. if update_queue_tail (peers d s) \<noteq> None then dhcp_failover_send_updates e d s else Ret d))
         | potential_conflict \<Rightarrow>
             if i_am p = primary \<or> i_am p = secondary \<and> partner_state p = conflict_done
             then drop_result (dhcp_failover_send_update_request e d s) else Ret d
         | startup \<Rightarrow> add_timeout d (cur_time d + 15, 0) (Some STARTUP_TIMEOUT) s
         | recover_wait \<Rightarrow> add_timeout d (c_int (me_stos p + mclt p), 0) (Some RECOVER_DONE) s
         | recover \<Rightarrow>
             if link_xid p \<noteq> None then drop_result (dhcp_failover_send_update_request_all e d s) else Ret d
         | partner_down \<Rightarrow> for_all (await_pool s) d (pool_list d)
         | _ \<Rightarrow> Ret d)"

text \<open>
  A transition. Entering recover-wait when there is nothing to wait for goes on to recover-done at
  once; that is the only transition made within a transition.
\<close>

function dhcp_failover_set_state :: "db_env \<Rightarrow> db \<Rightarrow> nat \<Rightarrow> failover_state \<Rightarrow> (db \<times> isc_result) cres" where
  "dhcp_failover_set_state e d s st =
     cbind (stop_sending d s)
       (\<lambda>d. let saved = peers d s
            in case record_state e (upd_peer s (tentative (cur_time d) st) d) s of
                 (d, recorded) \<Rightarrow>
                   if \<not> recorded
                   then Ret (upd_peer s (\<lambda>p. p\<lparr>me_state := me_state saved, me_stos := me_stos saved\<rparr>) d, ISC_R_IOERROR)
                   else
                     let d = (if st \<noteq> startup \<and> me_state saved = startup
                              then cancel_timeout d (Some STARTUP_TIMEOUT) s else d)
                     in cbind (dhcp_failover_set_service_state (cancel_timeout d (Some AUTO_PARTNER_DOWN) s) s)
                       (\<lambda>d. cbind (if link_xid (peers d s) \<noteq> None then drop_result (dhcp_failover_send_state e d s) else Ret d)
                         (\<lambda>d. cbind (if st = recover_wait \<and> me_stos (peers d s) + mclt (peers d s) \<le> cur_time d
                                    then drop_result (dhcp_failover_set_state e d s recover_done)
                                    else enter_state e d s st)
                           (\<lambda>d. Ret (d, ISC_R_SUCCESS)))))"
  by pat_completeness auto

termination dhcp_failover_set_state
  by (relation "measure (\<lambda>(_, _, _, st). if st = recover_wait then 1 else 0)") auto

declare dhcp_failover_set_state.simps [simp del]
section \<open>Reacting to events\<close>

abbreviation go_to :: "db_env \<Rightarrow> db \<Rightarrow> nat \<Rightarrow> failover_state \<Rightarrow> db cres" where
  "go_to e d s st \<equiv> drop_result (dhcp_failover_set_state e d s st)"

definition dhcp_failover_recover_done :: "db_env \<Rightarrow> db \<Rightarrow> nat \<Rightarrow> db cres" where
  "dhcp_failover_recover_done e d s = go_to e d s recover_done"

definition dhcp_failover_auto_partner_down :: "db_env \<Rightarrow> db \<Rightarrow> nat \<Rightarrow> db cres" where
  "dhcp_failover_auto_partner_down e d s = go_to e d s partner_down"

text \<open>The loss of the connection, a new connection, the start of the server, and silence.\<close>

definition lose_link :: "db \<Rightarrow> nat \<Rightarrow> db" where
  "lose_link d s =
     (let d = upd_peer s (\<lambda>p. p\<lparr>link_xid := None\<rparr>) d;
          d = cancel_timeout d (Some SEND_CONTACT) s;
          d = cancel_timeout d (Some FAILOVER_TIMEOUT) s
      in cancel_timeout d (Some STARTUP_TIMEOUT) s)"

definition stay :: "db_env \<Rightarrow> db \<Rightarrow> nat \<Rightarrow> (db \<times> isc_result) cres" where
  "stay e d s =
     (if me_state (peers d s) = startup then dhcp_failover_set_state e d s (saved_state (peers d s))
      else Ret (d, ISC_R_SUCCESS))"

definition dhcp_failover_state_transition :: "db_env \<Rightarrow> db \<Rightarrow> nat \<Rightarrow> string \<Rightarrow> (db \<times> isc_result) cres" where
  "dhcp_failover_state_transition e d s name =
     (if name = ''disconnect'' then
        let d = lose_link d s
        in case shown_state (peers d s) of
             conflict_done \<Rightarrow> cbind (dhcp_failover_rescind_updates d s) (\<lambda>d. stay e d s)
           | communications_interrupted \<Rightarrow> stay e d s
           | partner_down \<Rightarrow> stay e d s
           | paused \<Rightarrow> stay e d s
           | recover \<Rightarrow> stay e d s
           | recover_done \<Rightarrow> stay e d s
           | recover_wait \<Rightarrow> stay e d s
           | resolution_interrupted \<Rightarrow> stay e d s
           | shut_down \<Rightarrow> stay e d s
           | potential_conflict \<Rightarrow> dhcp_failover_set_state e d s resolution_interrupted
           | normal \<Rightarrow> dhcp_failover_set_state e d s communications_interrupted
           | unknown_state \<Rightarrow> dhcp_failover_set_state e d s resolution_interrupted
           | _ \<Rightarrow> Fatal
      else if name = ''connect'' then
        case me_state (peers d s) of
          communications_interrupted \<Rightarrow>
            cbind (dhcp_failover_set_state e d s normal)
              (\<lambda>(d, r). cbind (dhcp_failover_send_updates e d s) (\<lambda>d. Ret (d, r)))
        | resolution_interrupted \<Rightarrow> dhcp_failover_set_state e d s potential_conflict
        | other_state _ \<Rightarrow> Fatal
        | _ \<Rightarrow> dhcp_failover_send_state e d s
      else if name = ''startup'' then
        cbind (dhcp_failover_set_state e d s startup) (\<lambda>(d, _). Ret (d, ISC_R_SUCCESS))
      else if name = ''connect-timeout'' then
        case me_state (peers d s) of
          normal \<Rightarrow> dhcp_failover_set_state e d s communications_interrupted
        | recover \<Rightarrow> dhcp_failover_set_state e d s communications_interrupted
        | recover_wait \<Rightarrow> dhcp_failover_set_state e d s communications_interrupted
        | recover_done \<Rightarrow> dhcp_failover_set_state e d s communications_interrupted
        | unknown_state \<Rightarrow> dhcp_failover_set_state e d s communications_interrupted
        | potential_conflict \<Rightarrow> dhcp_failover_set_state e d s resolution_interrupted
        | other_state _ \<Rightarrow> Fatal
        | _ \<Rightarrow> Ret (d, ISC_R_SUCCESS)
      else Ret (d, DHCP_R_INVALIDARG))"

definition dhcp_failover_startup_timeout :: "db_env \<Rightarrow> db \<Rightarrow> nat \<Rightarrow> db cres" where
  "dhcp_failover_startup_timeout e d s = drop_result (dhcp_failover_state_transition e d s ''disconnect'')"

text \<open>
  What this server does when the partner enters a state: \<open>mine\<close> is the state of this server, during
  startup the one before it, \<open>prev\<close> the one the partner was in. Going to normal from
  communications-interrupted is preceded by sending the updates that wait.
\<close>

datatype reaction = RStay | RGo failover_state | RSendGo failover_state | RPoolCheck | RUpdReq | RUpdReqAll | RFatal

definition peer_reaction :: "failover_state \<Rightarrow> failover_state \<Rightarrow> failover_state \<Rightarrow> bool \<Rightarrow> bool \<Rightarrow> reaction" where
  "peer_reaction mine prev new in_startup startupp =
     (case mine of
        normal \<Rightarrow>
          (case new of
             normal \<Rightarrow> RPoolCheck
           | partner_down \<Rightarrow> if in_startup then RGo recover else RGo potential_conflict
           | potential_conflict \<Rightarrow> RGo shut_down
           | resolution_interrupted \<Rightarrow> RGo shut_down
           | conflict_done \<Rightarrow> RGo shut_down
           | recover \<Rightarrow> RGo partner_down
           | shut_down \<Rightarrow> RGo partner_down
           | paused \<Rightarrow> RGo communications_interrupted
           | _ \<Rightarrow> RStay)
      | recover \<Rightarrow>
          (case new of
             recover \<Rightarrow> if in_startup then RStay else RUpdReqAll
           | potential_conflict \<Rightarrow> RGo potential_conflict
           | resolution_interrupted \<Rightarrow> RGo potential_conflict
           | conflict_done \<Rightarrow> RGo potential_conflict
           | normal \<Rightarrow> RGo potential_conflict
           | partner_down \<Rightarrow> if in_startup then RStay else RUpdReqAll
           | communications_interrupted \<Rightarrow> if in_startup then RStay else RUpdReqAll
           | shut_down \<Rightarrow> RGo partner_down
           | _ \<Rightarrow> RStay)
      | potential_conflict \<Rightarrow>
          (case new of
             normal \<Rightarrow> RGo shut_down
           | conflict_done \<Rightarrow> if prev = potential_conflict then RUpdReq else RStay
           | recover \<Rightarrow> RGo recover
           | shut_down \<Rightarrow> RGo partner_down
           | _ \<Rightarrow> RStay)
      | conflict_done \<Rightarrow>
          (case new of
             normal \<Rightarrow> RGo normal
           | shut_down \<Rightarrow> RGo shut_down
           | potential_conflict \<Rightarrow> RStay
           | resolution_interrupted \<Rightarrow> RStay
           | _ \<Rightarrow> RFatal)
      | partner_down \<Rightarrow>
          if startupp then RStay
          else (case new of
                  recover_done \<Rightarrow> RGo normal
                | normal \<Rightarrow> RGo potential_conflict
                | potential_conflict \<Rightarrow> RGo potential_conflict
                | partner_down \<Rightarrow> RGo potential_conflict
                | communications_interrupted \<Rightarrow> RGo potential_conflict
                | resolution_interrupted \<Rightarrow> RGo potential_conflict
                | conflict_done \<Rightarrow> RGo potential_conflict
                | _ \<Rightarrow> RStay)
      | communications_interrupted \<Rightarrow>
          (case new of
             recover \<Rightarrow> RGo partner_down
           | normal \<Rightarrow> RSendGo normal
           | communications_interrupted \<Rightarrow> RSendGo normal
           | recover_done \<Rightarrow> RSendGo normal
           | recover_wait \<Rightarrow> RSendGo normal
           | potential_conflict \<Rightarrow> RGo potential_conflict
           | partner_down \<Rightarrow> RGo potential_conflict
           | resolution_interrupted \<Rightarrow> RGo potential_conflict
           | conflict_done \<Rightarrow> RGo potential_conflict
           | shut_down \<Rightarrow> RGo partner_down
           | _ \<Rightarrow> RStay)
      | resolution_interrupted \<Rightarrow>
          (case new of
             paused \<Rightarrow> RStay
           | unknown_state \<Rightarrow> RStay
           | startup \<Rightarrow> RStay
           | shut_down \<Rightarrow> RGo partner_down
           | other_state _ \<Rightarrow> RStay
           | _ \<Rightarrow> RGo potential_conflict)
      | recover_done \<Rightarrow>
          (case new of
             recover_done \<Rightarrow> RGo normal
           | normal \<Rightarrow> RGo normal
           | shut_down \<Rightarrow> RGo partner_down
           | _ \<Rightarrow> RStay)
      | recover_wait \<Rightarrow> RStay
      | shut_down \<Rightarrow> RStay
      | paused \<Rightarrow> RStay
      | unknown_state \<Rightarrow> RStay
      | _ \<Rightarrow> RFatal)"

definition react :: "db_env \<Rightarrow> db \<Rightarrow> nat \<Rightarrow> reaction \<Rightarrow> db cres" where
  "react e d s r =
     (case r of
        RStay \<Rightarrow> Ret d
      | RGo st \<Rightarrow> go_to e d s st
      | RSendGo st \<Rightarrow> cbind (dhcp_failover_send_updates e d s) (\<lambda>d. go_to e d s st)
      | RPoolCheck \<Rightarrow> dhcp_failover_state_pool_check e d s
      | RUpdReq \<Rightarrow> drop_result (dhcp_failover_send_update_request e d s)
      | RUpdReqAll \<Rightarrow> drop_result (dhcp_failover_send_update_request_all e d s)
      | RFatal \<Rightarrow> Fatal)"

text \<open>When the partner repeats its state, most states have nothing to do.\<close>

definition repeated_state :: "failover_state \<Rightarrow> bool cres" where
  "repeated_state mine =
     (case mine of
        partner_down \<Rightarrow> Ret False
      | communications_interrupted \<Rightarrow> Ret False
      | resolution_interrupted \<Rightarrow> Ret False
      | recover \<Rightarrow> Ret False
      | conflict_done \<Rightarrow> Ret False
      | other_state _ \<Rightarrow> Fatal
      | _ \<Rightarrow> Ret True)"

definition finish_startup :: "db_env \<Rightarrow> db \<Rightarrow> nat \<Rightarrow> db cres" where
  "finish_startup e d s =
     cbind (if me_state (peers d s) = startup \<and> saved_state (peers d s) \<noteq> startup
            then go_to e d s (saved_state (peers d s)) else Ret d)
       (\<lambda>d. dhcp_failover_set_service_state d s)"

definition peer_moves :: "db_env \<Rightarrow> db \<Rightarrow> nat \<Rightarrow> failover_state \<Rightarrow> bool \<Rightarrow> db cres" where
  "peer_moves e d s new startupp =
     (let prev = partner_state (peers d s);
          d = upd_peer s (\<lambda>p. p\<lparr>partner_state := new, partner_stos := cur_time d\<rparr>) d;
          d = fst (record_state e d s)
      in case new of
           other_state _ \<Rightarrow> go_to e d s shut_down
         | _ \<Rightarrow>
             let p = peers d s
             in cbind (react e d s (peer_reaction (shown_state p) prev new (me_state p = startup) startupp))
                  (\<lambda>d. finish_startup e d s))"

definition dhcp_failover_peer_state_changed :: "db_env \<Rightarrow> db \<Rightarrow> nat \<Rightarrow> failover_state \<Rightarrow> bool \<Rightarrow> db cres" where
  "dhcp_failover_peer_state_changed e d s new startupp =
     (let p = peers d s
      in if partner_state p = new \<and> me_state p \<noteq> unknown_state
         then if me_state p = startup
              then go_to e d s (if saved_state p = resolution_interrupted then potential_conflict else saved_state p)
              else cbind (repeated_state (me_state p)) (\<lambda>done. if done then Ret d else peer_moves e d s new startupp)
         else peer_moves e d s new startupp)"

text \<open>The partner asks for updates, and says that it has sent all of its own.\<close>

definition answer_update_request :: "db_env \<Rightarrow> db \<Rightarrow> nat \<Rightarrow> u32 \<Rightarrow> bool \<Rightarrow> db cres" where
  "answer_update_request e d s xid everythingp =
     cbind (dhcp_failover_generate_update_queue e (upd_peer s (\<lambda>p. p\<lparr>send_update_done := None\<rparr>) d) s everythingp)
       (\<lambda>d. let d = upd_peer s (\<lambda>p. p\<lparr>updxid := xid\<rparr>) d
            in case update_queue_tail (peers d s) of
                 Some t \<Rightarrow> dhcp_failover_send_updates e (upd_peer s (\<lambda>p. p\<lparr>send_update_done := Some t\<rparr>) d) s
               | None \<Rightarrow> drop_result (dhcp_failover_send_update_done e d s))"

definition dhcp_failover_process_update_request :: "db_env \<Rightarrow> db \<Rightarrow> nat \<Rightarrow> u32 \<Rightarrow> db cres" where
  "dhcp_failover_process_update_request e d s xid = answer_update_request e d s xid False"

definition dhcp_failover_process_update_request_all :: "db_env \<Rightarrow> db \<Rightarrow> nat \<Rightarrow> u32 \<Rightarrow> db cres" where
  "dhcp_failover_process_update_request_all e d s xid = answer_update_request e d s xid True"

definition dhcp_failover_process_update_done :: "db_env \<Rightarrow> db \<Rightarrow> nat \<Rightarrow> db cres" where
  "dhcp_failover_process_update_done e d s =
     (let d = upd_peer s (\<lambda>p. p\<lparr>curUPD := FTM_NONE\<rparr>) d;
          p = peers d s
      in case me_state p of
           potential_conflict \<Rightarrow>
             if partner_state p = conflict_done
             then go_to e d s (if i_am p = secondary then normal else shut_down)
             else if i_am p = primary then go_to e d s conflict_done else Ret d
         | recover \<Rightarrow>
             if cur_time d < me_stos p + mclt p \<and> partner_state p \<noteq> recover \<and> partner_state p \<noteq> recover_done
             then cbind (go_to e d s recover_wait)
                    (\<lambda>d. add_timeout d (c_int (me_stos (peers d s) + mclt (peers d s)), 0) (Some RECOVER_DONE) s)
             else dhcp_failover_recover_done e d s
         | _ \<Rightarrow> Ret d)"

end
