(* ===== verification/FailoverInv.thy ===== *)
theory FailoverInv
  imports FailoverState Expiry
begin

text \<open>
  That the failover state machine keeps the lease database consistent, and what it does: every
  operation returns, changes the states it is to change and no others, and balancing gives leases
  to the peer as long as this server has too many.
\<close>

section \<open>What the state machine keeps\<close>

text \<open>
  The invariant: the lease database is consistent, its leases have states to go to, and a hash
  bucket array has its 32 bytes.
\<close>

definition fo_ok :: "ptr set \<Rightarrow> db \<Rightarrow> bool" where
  "fo_ok S d \<longleftrightarrow> db_ok S d \<and> (\<forall>p. valid_next d p) \<and> (\<forall>s hb. hba (peers d s) = Some hb \<longrightarrow> length hb = 32)"

text \<open>The operations that do not change a failover state leave the peers' states and settings alone.\<close>

definition peers_kept :: "db \<Rightarrow> db \<Rightarrow> bool" where
  "peers_kept d d' \<longleftrightarrow> (\<forall>s. peer_frame (peers d s) (peers d' s)) \<and> pool_list d' = pool_list d \<and> cur_tv d' = cur_tv d \<and>
     (\<forall>p. failover_peer (pools d' p) = failover_peer (pools d p))"

definition keeps :: "ptr set \<Rightarrow> db \<Rightarrow> db cres \<Rightarrow> bool" where
  "keeps S d m \<longleftrightarrow> (\<exists>d'. m = Ret d' \<and> fo_ok S d' \<and> peers_kept d d')"

lemma peers_kept_refl [simp]: "peers_kept d d"
  by (simp add: peers_kept_def peer_frame_def)

lemma peers_kept_trans [trans]: "peers_kept d d' \<Longrightarrow> peers_kept d' d'' \<Longrightarrow> peers_kept d d''"
  by (auto simp: peers_kept_def peer_frame_def)

lemma keeps_Ret [simp]: "keeps S d (Ret d') \<longleftrightarrow> fo_ok S d' \<and> peers_kept d d'"
  by (simp add: keeps_def)

lemma keeps_bind:
  assumes "keeps S d m" "\<And>d'. fo_ok S d' \<Longrightarrow> peers_kept d d' \<Longrightarrow> keeps S d' (f d')"
  shows "keeps S d (cbind m f)"
  using assms peers_kept_trans unfolding keeps_def by fastforce

lemma keeps_trans: "peers_kept d d' \<Longrightarrow> keeps S d' m \<Longrightarrow> keeps S d m"
  using peers_kept_trans unfolding keeps_def by blast

lemma fq_frame_pool_list: "fq_frame d d' \<Longrightarrow> pool_list d' = pool_list d"
  using fq_frame_calm by (auto simp: calm_def)

lemma fq_frame_kept: "fq_frame d d' \<Longrightarrow> peers_kept d d'"
  using fq_frame_calm [of d d'] by (auto simp: peers_kept_def fq_frame_def calm_def)

lemma fo_okD:
  "fo_ok S d \<Longrightarrow> db_ok S d" "fo_ok S d \<Longrightarrow> valid_next d p" "fo_ok S d \<Longrightarrow> hba (peers d s) = Some hb \<Longrightarrow> length hb = 32"
  by (simp_all add: fo_ok_def)

lemma kept_hba: "peers_kept d d' \<Longrightarrow> hba (peers d' s) = hba (peers d s)"
  by (simp add: peers_kept_def peer_frame_def)

lemma calm_valid_next: "calm d d' \<Longrightarrow> valid_next d p \<Longrightarrow> valid_next d' p"
proof -
  assume c: "calm d d'" "valid_next d p"
  have "next_binding_state (heap d' a) = next_binding_state (heap d a)" for a
    using c(1) by (auto simp: calm_def state_view_def)
  moreover have "pool_leases d' p = pool_leases d p" using c(1) by (simp add: calm_def pool_leases_def)
  ultimately show ?thesis using c(2) by (simp add: valid_next_def)
qed

lemma fo_ok_frame:
  assumes "fo_ok S d" "fq_frame d d'" "\<exists>U A. fq_ok S d' U A"
  shows "fo_ok S d'"
proof -
  note c = fq_frame_calm [OF assms(2)] and D = db_okD [OF fo_okD(1) [OF assms(1)]]
  have "db_ok S d'" using D(3) calm_queues_ok [OF c D(1)] calm_on_queue [OF c] fq_frame_side [OF assms(2) D(2) assms(3)]
    by (simp add: db_ok_def)
  then show ?thesis using calm_valid_next [OF c fo_okD(2) [OF assms(1)]] assms(1) kept_hba [OF fq_frame_kept [OF assms(2)]]
    by (simp add: fo_ok_def)
qed

lemma fo_ok_queues: assumes "fo_ok S d" shows "\<exists>U A. fq_ok S d U A" "\<not> no_memory d" "\<not> isc_fails d"
  using db_okD(2) [OF fo_okD(1) [OF assms]] by (auto simp: side_ok_def rest_ok_def)

lemma fo_ok_same: "fo_ok S d \<Longrightarrow> fq_same d d' \<Longrightarrow> fo_ok S d'"
  using fo_ok_frame [of S d d'] fo_ok_queues(1) [of S d] fq_same_ok [of d d' S] fq_same_frame [of d d'] by metis

lemma keeps_same: "fo_ok S d \<Longrightarrow> fq_same d d' \<Longrightarrow> keeps S d (Ret d')"
  by (simp add: fo_ok_same fq_frame_kept fq_same_frame)

lemma keeps_add_timeout: assumes "fo_ok S d" shows "keeps S d (add_timeout d w f what)"
proof -
  obtain d' where d': "add_timeout d w f what = Ret d'"
    using add_timeout_returns [OF fo_ok_queues(2,3) [OF assms]] by blast
  show ?thesis unfolding d' by (rule keeps_same [OF assms fq_same_add_timeout(1) [OF d']])
qed

lemma keeps_send_updates: assumes "fo_ok S d" shows "keeps S d (dhcp_failover_send_updates e d s)"
proof -
  obtain U A where q: "fq_ok S d U A" using fo_ok_queues(1) [OF assms] by blast
  obtain d' U' A' where d': "dhcp_failover_send_updates e d s = Ret d'" "fq_ok S d' U' A'"
    using send_updates_returns [OF q fo_ok_queues(2,3) [OF assms]] by blast
  note fr = fq_frame_send_updates [OF d'(1)]
  have "fo_ok S d'" using fo_ok_frame [OF assms fr] d'(2) by blast
  then show ?thesis using d'(1) fq_frame_kept [OF fr] by simp
qed

lemma keeps_queue_update: assumes "fo_ok S d" "a \<in> S" shows "keeps S d (dhcp_failover_queue_update e d a i)"
proof -
  obtain U A where q: "fq_ok S d U A" using fo_ok_queues(1) [OF assms(1)] by blast
  obtain d' U' A' where d': "dhcp_failover_queue_update e d a i = Ret d'" "fq_ok S d' U' A'"
    using queue_update_returns [OF q assms(2) fo_ok_queues(2,3) [OF assms(1)]] by blast
  note fr = fq_frame_queue_update [OF d'(1)]
  have "fo_ok S d'" using fo_ok_frame [OF assms(1) fr] d'(2) by blast
  then show ?thesis using d'(1) fq_frame_kept [OF fr] by simp
qed

lemma keeps_pool_check: assumes "fo_ok S d" shows "keeps S d (dhcp_failover_pool_check e d p)"
proof -
  obtain U A where q: "fq_ok S d U A" using fo_ok_queues(1) [OF assms] by blast
  obtain d' where d': "dhcp_failover_pool_check e d p = Ret d'" "fq_ok S d' U A"
    using pool_check_returns [OF q fo_ok_queues(2,3) [OF assms]] by blast
  note fr = fq_frame_pool_check [OF d'(1)]
  have "fo_ok S d'" using fo_ok_frame [OF assms fr] d'(2) by blast
  then show ?thesis using d'(1) fq_frame_kept [OF fr] by simp
qed

lemma keeps_state_pool_check: "fo_ok S d \<Longrightarrow> keeps S d (dhcp_failover_state_pool_check e d s)"
proof -
  have "fo_ok S d \<Longrightarrow> keeps S d (state_pool_check_loop e d s ps)" for ps
    by (induction ps arbitrary: d) (auto intro!: keeps_bind keeps_pool_check)
  then show "fo_ok S d \<Longrightarrow> ?thesis" by (simp add: dhcp_failover_state_pool_check_def)
qed

lemma fq_same_link: "link_xid (peers d s) = Some x \<Longrightarrow> fq_same d (upd_peer s (\<lambda>p. p\<lparr>link_xid := Some y\<rparr>) d)"
  by (simp add: fq_same_def fq_frame_upd_peer peer_frame_def)

lemma fq_same_peer_steps:
  "fq_same d (upd_peer s (\<lambda>p. p\<lparr>curUPD := c\<rparr>) d)" "fq_same d (upd_peer s (\<lambda>p. p\<lparr>updxid := u p\<rparr>) d)"
  "fq_same d (upd_peer s (\<lambda>p. p\<lparr>send_update_done := v\<rparr>) d)" "fq_same d (upd_peer s (\<lambda>p. p\<lparr>last_balance := t\<rparr>) d)"
  "fq_same d (upd_peer s (\<lambda>p. p\<lparr>sched_balance := t\<rparr>) d)" "fq_same d (emit ev d)"
  by (simp_all add: fq_same_def fq_frame_upd_peer fq_frame_emit peer_frame_def)

lemma fo_ok_nomem: "fo_ok S d \<Longrightarrow> \<not> no_memory d" "fo_ok S d \<Longrightarrow> \<not> isc_fails d"
  using fo_ok_queues by blast+

text \<open>The messages leave everything as it is but the timers and the link.\<close>

lemma put_message_same:
  assumes "fo_ok S d" shows "\<exists>d' b. dhcp_failover_put_message e d s m = Ret (d', b) \<and> fq_same d d'"
  using put_message_ok [OF fo_ok_nomem [OF assms], of e s m] by blast

lemma put_numbered_same:
  assumes "fo_ok S d" shows "\<exists>d' r. put_numbered e d s m = Ret (d', r) \<and> fq_same d d'"
proof (cases "link_xid (peers d s)")
  case (Some x)
  let ?d = "upd_peer s (\<lambda>p. p\<lparr>link_xid := Some (x + 1)\<rparr>) d"
  have "fq_same d ?d" by (rule fq_same_link [OF Some])
  then obtain d' b where "dhcp_failover_put_message e ?d s (m x) = Ret (d', b)" "fq_same d d'"
    using put_message_same [OF fo_ok_same [OF assms], of ?d e s "m x"] fq_same_trans by blast
  then show ?thesis using Some by (simp add: put_numbered_def)
qed (simp add: put_numbered_def)

definition keepsr :: "ptr set \<Rightarrow> db \<Rightarrow> (db \<times> 'r) cres \<Rightarrow> bool" where
  "keepsr S d m \<longleftrightarrow> (\<exists>d' r. m = Ret (d', r) \<and> fo_ok S d' \<and> peers_kept d d')"

lemma keepsr_same: "fo_ok S d \<Longrightarrow> m = Ret (d', r) \<Longrightarrow> fq_same d d' \<Longrightarrow> keepsr S d m"
  by (auto simp: keepsr_def fo_ok_same fq_frame_kept fq_same_frame)

lemma keepsr_bind:
  assumes "keepsr S d m" "\<And>d' r. fo_ok S d' \<Longrightarrow> peers_kept d d' \<Longrightarrow> keepsr S d' (f (d', r))"
  shows "keepsr S d (cbind m f)"
  using assms peers_kept_trans unfolding keepsr_def by fastforce

lemma keepsr_bind_keeps:
  assumes "keepsr S d m" "\<And>d' r. fo_ok S d' \<Longrightarrow> peers_kept d d' \<Longrightarrow> keeps S d' (f (d', r))"
  shows "keeps S d (cbind m f)"
  using assms peers_kept_trans unfolding keepsr_def keeps_def by fastforce

lemma keepsr_drop: "keepsr S d m \<Longrightarrow> keeps S d (drop_result m)"
  by (auto simp: keepsr_def drop_result_def)

lemma keepsr_Ret [simp]: "keepsr S d (Ret (d', r)) \<longleftrightarrow> fo_ok S d' \<and> peers_kept d d'"
  by (simp add: keepsr_def)

lemma keepsr_put: "fo_ok S d \<Longrightarrow> keepsr S d (put_numbered e d s m)" "fo_ok S d \<Longrightarrow> keepsr S d (dhcp_failover_put_message e d s ev)"
  using put_numbered_same put_message_same keepsr_same by metis+

lemmas kept_steps = fq_same_peer_steps [THEN fq_same_frame, THEN fq_frame_kept]
lemmas ok_steps = fq_same_peer_steps [THEN [2] fo_ok_same]

lemma keepsr_messages:
  assumes "fo_ok S d"
  shows "keepsr S d (dhcp_failover_send_state e d s)" "keepsr S d (dhcp_failover_send_poolreq e d s)"
    "keepsr S d (dhcp_failover_send_poolresp e d s xid n)" "keepsr S d (dhcp_failover_send_update_request_all e d s)"
    "keepsr S d (dhcp_failover_send_update_request e d s)" "keepsr S d (dhcp_failover_send_update_done e d s)"
  using assms unfolding dhcp_failover_send_state_def dhcp_failover_send_poolreq_def dhcp_failover_send_poolresp_def
    dhcp_failover_send_update_request_all_def dhcp_failover_send_update_request_def dhcp_failover_send_update_done_def
    commit_leases_def Let_def
  by (auto intro!: keepsr_bind keepsr_put kept_steps ok_steps peers_kept_trans [OF kept_steps(2) kept_steps(6)])
section \<open>Sending updates again\<close>

definition rescinded :: "db_lease \<Rightarrow> db_lease" where
  "rescinded l = l\<lparr>flags := (flags l AND NOT ON_ACK_QUEUE) OR ON_UPDATE_QUEUE\<rparr>"

lemma rescind_flags_fold:
  assumes "sll (pend d) xs None" "distinct xs"
  shows "rescind_flags d (seg_head xs None) = Some (fold (\<lambda>a. upd_lease a rescinded) xs d)"
  using assms
proof (induction xs arbitrary: d)
  case (Cons a xs)
  let ?d = "upd_lease a rescinded d"
  have p: "pend ?d = pend d" by (simp add: fun_eq_iff pend_def rescinded_def)
  have "next_pending (heap ?d a) = seg_head xs None" using Cons.prems(1) by (cases xs) (simp_all add: pend_def rescinded_def)
  moreover have "rescind_flags ?d (seg_head xs None) = Some (fold (\<lambda>a. upd_lease a rescinded) xs ?d)"
    using Cons.prems by (intro Cons.IH) (simp_all only: p, simp_all)
  ultimately show ?case by (subst rescind_flags.simps) (simp add: Let_def rescinded_def [abs_def, symmetric])
qed (simp add: rescind_flags.simps)

lemma rescinded_step:
  "pend (upd_lease a rescinded d) = pend d" "on_update (upd_lease a rescinded d) = (\<lambda>b. b = a \<or> on_update d b)"
  "on_ack (upd_lease a rescinded d) = (\<lambda>b. b \<noteq> a \<and> on_ack d b)" "fq_frame d (upd_lease a rescinded d)"
proof -
  show "fq_frame d (upd_lease a rescinded d)"
    by (intro fq_frame_upd_lease) (auto simp: lease_frame_def rescinded_def bit_or_iff bit_and_iff bit_not_iff flag_bit_iff
        dest: bit_imp_le_length)
qed (auto simp: fun_eq_iff pend_def rescinded_def bit_or_iff flag_bit_iff)

lemma fold_rescinded:
  fixes xs d defines "d' \<equiv> fold (\<lambda>a. upd_lease a rescinded) xs d"
  shows "pend d' = pend d" "peers d' = peers d" "on_update d' = (\<lambda>a. a \<in> set xs \<or> on_update d a)"
    "on_ack d' = (\<lambda>a. a \<notin> set xs \<and> on_ack d a)" "fq_frame d d'"
proof -
  have "pend d' = pend d \<and> peers d' = peers d \<and> on_update d' = (\<lambda>a. a \<in> set xs \<or> on_update d a) \<and>
    on_ack d' = (\<lambda>a. a \<notin> set xs \<and> on_ack d a) \<and> fq_frame d d'" unfolding d'_def
  proof (induction xs arbitrary: d)
    case (Cons a xs)
    show ?case using Cons [of "upd_lease a rescinded d"] fq_frame_trans [OF rescinded_step(4) [of d a]]
      unfolding rescinded_step(1-3) by (auto simp: fun_eq_iff)
  qed simp
  then show "pend d' = pend d" "peers d' = peers d" "on_update d' = (\<lambda>a. a \<in> set xs \<or> on_update d a)"
    "on_ack d' = (\<lambda>a. a \<notin> set xs \<and> on_ack d a)" "fq_frame d d'" by blast+
qed

lemma linked_append:
  assumes "linked nx h (Some t) xs" "linked nx h' t' ys" "h' = Some b" "set xs \<inter> set ys = {}"
  shows "linked (nx(t := h')) h t' (xs @ ys)"
proof -
  obtain us where xs: "xs = us @ [t]" using assms(1) by (cases xs rule: rev_cases) (auto simp: linked_def)
  obtain vs where ys: "ys = b # vs" using assms(2,3) by (cases ys) (auto simp: linked_def)
  show ?thesis using assms unfolding xs ys by (cases us) (auto simp: linked_def sll_append)
qed

lemma linked_nothing: "linked nx h t [] \<longleftrightarrow> h = None \<and> t = None"
  by (simp add: linked_def)

lemma rescind_updates_ok:
  assumes ok: "fq_ok S d U A"
  shows "\<exists>d'. dhcp_failover_rescind_updates d s = Ret d' \<and> fq_ok S d' (U(s := A s @ U s)) (A(s := [])) \<and> fq_frame d d'"
proof (cases "ack_queue_tail (peers d s)")
  case None
  then have "A s = []" using linked_empty(2) [OF fq_okD(2) [OF ok]] by blast
  then have "A(s := []) = A" by auto
  then show ?thesis using None ok \<open>A s = []\<close> by (simp add: dhcp_failover_rescind_updates_def)
next
  case (Some t)
  note la = fq_okD(2) [OF ok, of s, unfolded Some] and lu = fq_okD(1) [OF ok, of s]
  define d1 where "d1 = fold (\<lambda>a. upd_lease a rescinded) (A s) d"
  have d1: "rescind_flags d (ack_queue_head (peers d s)) = Some d1"
    using la rescind_flags_fold [of d "A s"] by (simp add: d1_def linked_def)
  note f1 = fold_rescinded [where xs = "A s" and d = d, folded d1_def]
  define d2 where "d2 = (case update_queue_head (peers d s) of Some u \<Rightarrow> pending_reference d1 t u | None \<Rightarrow> d1)"
  have fr2: "fq_frame d d2" using f1(5) fq_frame_trans [OF f1(5) fq_frame_pending(1)] by (auto simp: d2_def split: option.split)
  define g :: "peer \<Rightarrow> peer" where "g = (\<lambda>p. p\<lparr>update_queue_head := ack_queue_head (peers d s),
      update_queue_tail := (if update_queue_tail (peers d s) = None then Some t else update_queue_tail (peers d s)),
      ack_queue_tail := None, ack_queue_head := None, cur_unacked_updates := (0::int)\<rparr>)"
  define d3 where "d3 = upd_peer s g d2"
  have t: "t \<in> set (A s)" "pend d t = None" using linked_tail_end [OF la] by auto
  have dis: "set (U s') \<inter> set (A s'') = {}" "s' \<noteq> s'' \<Longrightarrow> set (A s') \<inter> set (A s'') = {}"
    "s' \<noteq> s'' \<Longrightarrow> set (U s') \<inter> set (U s'') = {}" for s' s'' using fq_ok_disjoint [OF ok] by auto
  have p2: "pend d2 = (if update_queue_head (peers d s) = None then pend d else (pend d)(t := update_queue_head (peers d s)))"
    "on_update d2 = (\<lambda>a. a \<in> set (A s) \<or> on_update d a)" "on_ack d2 = (\<lambda>a. a \<notin> set (A s) \<and> on_ack d a)" "peers d2 = peers d"
    using f1 t(2) by (auto simp: d2_def split: option.split)
  have r: "dhcp_failover_rescind_updates d s = Ret d3"
    using Some d1 f1(2) by (cases "update_queue_head (peers d s)")
      (simp_all add: dhcp_failover_rescind_updates_def d3_def d2_def g_def upd_peer_def Let_def)
  have p3: "pend d3 = pend d2" "on_update d3 = on_update d2" "on_ack d3 = on_ack d2" "peers d3 = (peers d)(s := g (peers d s))"
    "peer_of d3 = peer_of d"
    using p2(4) fq_frame_peer_of [OF fr2] by (simp_all add: d3_def peer_of_def [abs_def])
  have new: "linked (pend d3) (ack_queue_head (peers d s)) (update_queue_tail (g (peers d s))) (A s @ U s)"
  proof (cases "update_queue_head (peers d s)")
    case None
    then have "U s = []" "update_queue_tail (peers d s) = None" using linked_empty [OF lu] by auto
    then show ?thesis using None la by (simp add: p3 p2 g_def)
  next
    case (Some u)
    then have "update_queue_tail (peers d s) \<noteq> None" using linked_empty [OF lu] by auto
    then show ?thesis using linked_append [OF la lu Some] dis(1) [of s s] Some by (auto simp: p3 p2 g_def)
  qed
  have old: "linked (pend d3) h tl xs" if "linked (pend d) h tl xs" "t \<notin> set xs" for h tl xs
    using linked_frame [OF that] that(1) by (simp add: p3 p2)
  have "fq_ok S d3 (U(s := A s @ U s)) (A(s := []))"
    unfolding fq_ok_def
  proof (intro conjI allI ballI impI)
    fix s' :: nat
    have oldU: "linked (pend d3) (update_queue_head (peers d s')) (update_queue_tail (peers d s')) (U s')" if "s' \<noteq> s"
      using old [OF fq_okD(1) [OF ok]] t(1) dis(1) [of s' s] by blast
    have oldA: "linked (pend d3) (ack_queue_head (peers d s')) (ack_queue_tail (peers d s')) (A s')" if "s' \<noteq> s"
      using old [OF fq_okD(2) [OF ok]] t(1) dis(2) [OF that] by blast
    show "linked (pend d3) (update_queue_head (peers d3 s')) (update_queue_tail (peers d3 s')) ((U(s := A s @ U s)) s')"
      using new oldU by (simp add: p3 g_def)
    show "linked (pend d3) (ack_queue_head (peers d3 s')) (ack_queue_tail (peers d3 s')) ((A(s := [])) s')"
      using oldA by (simp add: p3 g_def linked_nothing)
    show "cur_unacked_updates (peers d3 s') = int (length ((A(s := [])) s'))"
      using fq_okD(3) [OF ok] by (simp add: p3 g_def)
    fix a
    show "a \<in> set ((U(s := A s @ U s)) s') \<longleftrightarrow> a \<in> S \<and> peer_of d3 a = Some s' \<and> on_update d3 a"
      "a \<in> set ((A(s := [])) s') \<longleftrightarrow> a \<in> S \<and> peer_of d3 a = Some s' \<and> on_ack d3 a"
      using fq_okD(4,5) [OF ok, of a] by (auto simp: p3 p2)
  next
    fix a assume a: "a \<in> S"
    show "\<not> (on_update d3 a \<and> on_ack d3 a)" using fq_okD(5,6) [OF ok, of a] a by (auto simp: p3 p2)
    assume "\<not> on_update d3 a \<and> \<not> on_ack d3 a"
    then show "pend d3 a = None" using fq_okD(7) [OF ok, of a] a t(1) by (auto simp: p3 p2)
  qed
  then show ?thesis using r fq_frame_trans [OF fr2 fq_frame_upd_peer [of d2 s g]] by (auto simp: d3_def g_def peer_frame_def)
qed
lemma keeps_rescind: assumes "fo_ok S d" shows "keeps S d (dhcp_failover_rescind_updates d s)"
proof -
  obtain U A where q: "fq_ok S d U A" using fo_ok_queues(1) [OF assms] by blast
  obtain d' where d': "dhcp_failover_rescind_updates d s = Ret d'" "fq_ok S d' (U(s := A s @ U s)) (A(s := []))" "fq_frame d d'"
    using rescind_updates_ok [OF q] by blast
  have "fo_ok S d'" using fo_ok_frame [OF assms d'(3)] d'(2) by blast
  then show ?thesis using d'(1) fq_frame_kept [OF d'(3)] by simp
qed

section \<open>Moving leases leaves the peers' states alone\<close>

lemma kept_step:
  "peers_kept d d' \<Longrightarrow> peers_kept d (upd_lease a f d')" "peers_kept d d' \<Longrightarrow> peers_kept d (emit ev d')"
  "peers_kept d d' \<Longrightarrow> peers_kept d (upd_class c h d')"
  "peers_kept d d' \<Longrightarrow> failover_peer (g (pools d' p)) = failover_peer (pools d' p) \<Longrightarrow> peers_kept d (upd_pool p g d')"
  by (simp_all add: peers_kept_def)

lemma kept_unbill: "unbill_class d a = Ret d' \<Longrightarrow> peers_kept d d'"
  by (auto simp: unbill_class_def cres_simps Let_def split: option.splits if_splits intro!: kept_step)

lemma kept_forget: "forget_client d a = Ret d' \<Longrightarrow> peers_kept d d'"
  by (auto simp: forget_client_def cres_simps split: if_splits intro!: kept_step dest: kept_unbill)

lemma kept_events: "expire_event e d a = Ret d' \<Longrightarrow> peers_kept d d'" "release_event e d a = Ret d' \<Longrightarrow> peers_kept d d'"
  unfolding expire_event_def release_event_def Let_def
  by (auto dest!: kept_forget elim!: peers_kept_trans [rotated] intro!: kept_step split: option.splits)

lemma kept_transition: "make_binding_state_transition e d a = Ret d' \<Longrightarrow> peers_kept d d'"
  unfolding make_binding_state_transition_def Let_def
  by (auto simp: cres_simps split: if_splits intro!: kept_step dest: kept_events intro: peers_kept_trans)

lemma kept_enqueue: "lease_enqueue d a = (d', b) \<Longrightarrow> peers_kept d d'"
  by (auto simp: lease_enqueue_def Let_def count_queue_def set_queue_def split: option.splits queue_name.splits intro!: kept_step)

lemma kept_add_timeout: "add_timeout d w f what = Ret d' \<Longrightarrow> peers_kept d d'"
  by (rule fq_frame_kept, rule fq_frame_add_timeout)

lemma kept_arm: "arm_pool_timer d a p = Ret d' \<Longrightarrow> peers_kept d d'"
  by (auto simp: arm_pool_timer_def Let_def split: if_splits dest!: kept_add_timeout
      elim!: peers_kept_trans [rotated] intro!: kept_step)

lemma kept_save: "save_lease e d a p pg = (d', b) \<Longrightarrow> peers_kept d d'"
  by (auto simp: save_lease_def write_lease_def commit_leases_def Let_def split: if_splits intro!: kept_step)

lemma kept_tell: "tell_peer e d a p pg pimm chk = Ret d' \<Longrightarrow> peers_kept d d'"
  unfolding tell_peer_def
  by (auto simp: cres_simps split: if_splits dest!: fq_frame_pool_check [THEN fq_frame_kept] fq_frame_queue_update [THEN fq_frame_kept]
      elim!: peers_kept_trans [rotated] intro!: kept_step)

lemma kept_finish: "finish_move e d a p c pg pimm chk = Ret (d', r) \<Longrightarrow> peers_kept d d'"
  unfolding finish_move_def
  by (auto simp: cres_simps split: if_splits prod.splits dest!: kept_arm kept_save kept_tell intro: peers_kept_trans)

lemma kept_requeue: assumes "requeue_lease e d a p c pg pimm chk = Ret (d', r)" shows "peers_kept d d'"
proof -
  obtain d1 where d1: "(if c \<or> \<not> pimm then make_binding_state_transition e d a else Ret d) = Ret d1"
      "(case lease_enqueue d1 a of (d, queued) \<Rightarrow> if \<not> queued then Ret (d, Some False) else finish_move e d a p c pg pimm chk) = Ret (d', r)"
    using assms by (auto simp: requeue_lease_def cres_simps)
  obtain d2 b where d2: "lease_enqueue d1 a = (d2, b)" by fastforce
  have "peers_kept d d1" using d1(1) by (auto split: if_splits dest: kept_transition)
  also have "peers_kept d1 d2" by (rule kept_enqueue [OF d2])
  also have "peers_kept d2 d'" using d1(2) d2 by (auto split: if_splits dest: kept_finish)
  finally show ?thesis .
qed

lemma kept_move: "supersede_move e d a lease c pg pimm = Ret (d', r) \<Longrightarrow> peers_kept d d'"
  unfolding supersede_move_def Let_def
  by (auto simp: cres_simps count_queue_def set_queue_def split: if_splits option.splits queue_name.splits dest!: kept_requeue
      elim!: peers_kept_trans [rotated] intro!: kept_step)

lemma kept_core: "supersede_core e d a None c pg pimm = Ret (d', r) \<Longrightarrow> peers_kept d d'"
  by (auto simp: supersede_core_def split: if_splits dest: kept_move)

section \<open>Balancing\<close>

text \<open>Giving one lease to the peer moves it from one queue to the other and changes no other lease.\<close>

definition other_free :: "queue_name \<Rightarrow> queue_name" where
  "other_free q = (if q = FREE_LEASES then BACKUP_LEASES else FREE_LEASES)"

definition free_state :: "queue_name \<Rightarrow> binding_state" where
  "free_state q = (if q = FREE_LEASES then FTS_FREE else FTS_BACKUP)"

definition given :: "nat \<Rightarrow> queue_name \<Rightarrow> ptr \<Rightarrow> db \<Rightarrow> db \<Rightarrow> bool" where
  "given p q a d d' \<longleftrightarrow>
     queue (pools d' p) q = remove1 a (queue (pools d p) q) \<and>
     set (queue (pools d' p) (other_free q)) = insert a (set (queue (pools d p) (other_free q))) \<and>
     surplus d' = surplus d \<and> binding_state (heap d' a) = free_state (other_free q) \<and> ends (heap d' a) = ends (heap d a) \<and>
     (\<forall>b. b \<noteq> a \<longrightarrow> state_view (heap d' b) = state_view (heap d b))"

lemma balance_give_ok:
  assumes "fo_ok S d" "a \<in> set (queue (pools d p) q)" "q \<in> {FREE_LEASES, BACKUP_LEASES}"
  shows "\<exists>d'. balance_give e d a (free_state (other_free q)) = Ret d' \<and> fo_ok S d' \<and> peers_kept d d' \<and> given p q a d d'"
proof -
  define st where "st = free_state (other_free q)"
  define d1 where "d1 = upd_lease a (\<lambda>l. scrub_lease (l\<lparr>next_binding_state := st, tstp := cur_time d, starts := cur_time d\<rparr>)) d"
  note D = db_okD [OF fo_okD(1) [OF assms(1)]]
  have aS: "a \<in> S" using D(3) assms(2) by (auto simp: on_queue_def)
  have qa: "l_pool (heap d a) = Some p" "queue_of (heap d a) = Some q" using queues_okD(3,4) [OF D(1) assms(2)] by auto
  have st: "\<forall>x. st \<noteq> FTS_BOGUS x" "st \<in> {FTS_FREE, FTS_BACKUP}" by (auto simp: st_def free_state_def)
  have 1: "db_ok S d1" unfolding d1_def
    by (rule db_ok_upd [OF fo_okD(1) [OF assms(1)]]) (simp_all add: scrub_lease_def queue_view_def queue_of_def side_view_def)
  have rq: "request_ok S d1 a None" using aS st(1) by (simp add: request_ok_def d1_def scrub_lease_def)
  obtain d2 r where d2: "supersede_core e d1 a None False True False = Ret (d2, r)" "r \<noteq> Some True" "db_ok S d2"
      "lease_changed a (source_lease d1 a None) d1 d2" "bit (flags (heap d2 a)) 2 = bit (flags (heap d1 a)) 2"
    using supersede_core_ok [OF 1 rq, of False False e True] by auto
  have b2: "binding_state (heap d2 a) = st" "next_binding_state (heap d2 a) = st" "ends (heap d2 a) = ends (heap d a)"
      "l_pool (heap d2 a) = Some p" "\<forall>b. b \<noteq> a \<longrightarrow> state_view (heap d2 b) = state_view (heap d b)" "surplus d2 = surplus d" "others_stay a d d2"
    using d2(4) st(2) qa(1) by (auto simp: lease_changed_def source_lease_def d1_def scrub_lease_def after_state_def others_stay_def
        surplus_def fun_eq_iff)
  have q2: "queue_of (heap d2 a) = Some (other_free q)"
    using b2(1) d2(5) qa(2) assms(3) by (auto simp: queue_of_def st_def free_state_def other_free_def d1_def scrub_lease_def flag_bits
        split: binding_state.splits if_splits)
  have f: "filter (\<lambda>b. b \<noteq> a) (queue (pools d2 p) x) = filter (\<lambda>b. b \<noteq> a) (queue (pools d p) x)" for x
    using b2(7) by (simp add: others_stay_def)
  have on2: "a \<in> set (queue (pools d2 p) x) \<longleftrightarrow> x = other_free q" for x
    using on_queue_unique [OF db_okD(1) [OF d2(3)], of a] db_okD(3) [OF d2(3), of a] aS queues_okD(4) [OF db_okD(1) [OF d2(3)], of a p x]
      q2 b2(4) by auto
  have ne: "q \<noteq> other_free q" using assms(3) by (auto simp: other_free_def)
  have "queue (pools d2 p) q = remove1 a (queue (pools d p) q)"
  proof -
    have "filter (\<lambda>b. b \<noteq> a) (queue (pools d2 p) q) = queue (pools d2 p) q" using on2 [of q] ne by (auto simp: filter_id_conv)
    moreover have "filter (\<lambda>b. b \<noteq> a) (queue (pools d p) q) = remove1 a (queue (pools d p) q)"
      using queues_okD(1) [OF D(1), of p q] by (simp add: distinct_remove1_removeAll removeAll_filter_not_eq) (rule filter_cong, auto)
    ultimately show ?thesis using f [of q] by simp
  qed
  moreover have "set (queue (pools d2 p) (other_free q)) = insert a (set (queue (pools d p) (other_free q)))"
    using arg_cong [OF f [of "other_free q"], of set] on2 [of "other_free q"] by auto
  ultimately have g: "given p q a d d2" using b2 by (simp add: given_def st_def)
  have "valid_next d2 p'" for p'
    by (rule valid_next_changed [where a = a, OF fo_okD(1) [OF assms(1)] d2(3) _ _ fo_okD(2) [OF assms(1)]]) (use b2(2,4,5) qa(1) st(1) in \<open>simp_all\<close>)
  moreover have kept: "peers_kept d d2"
    using kept_core [OF d2(1)] by (simp add: peers_kept_def d1_def)
  ultimately have ok2: "fo_ok S d2" using d2(3) assms(1) kept_hba [OF kept] by (simp add: fo_ok_def)
  have "\<exists>b. balance_give e d a st = Ret (if b then write_lease d2 a else d2)"
    using d2(1,2) b2(1,2) unfolding balance_give_def d1_def [symmetric] Let_def supersede_lease_def by (cases r) auto
  moreover have "fo_ok S (write_lease d2 a)" "peers_kept d (write_lease d2 a)" "given p q a d (write_lease d2 a)"
    using ok_steps(6) [OF ok2] kept_step(2) [OF kept] g by (simp_all add: write_lease_def given_def surplus_def [abs_def])
  ultimately show ?thesis using ok2 kept g unfolding st_def by (metis (full_types))
qed

text \<open>What giving \<open>k\<close> leases of the queue \<open>q\<close> of the pool \<open>p\<close> does.\<close>

definition gives :: "nat \<Rightarrow> queue_name \<Rightarrow> nat \<Rightarrow> db \<Rightarrow> db \<Rightarrow> bool" where
  "gives p q k d d' \<longleftrightarrow>
     length (queue (pools d' p) q) + k = length (queue (pools d p) q) \<and>
     set (queue (pools d' p) q) \<subseteq> set (queue (pools d p) q) \<and>
     set (queue (pools d' p) (other_free q)) =
       set (queue (pools d p) (other_free q)) \<union> (set (queue (pools d p) q) - set (queue (pools d' p) q)) \<and>
     surplus d' = surplus d \<and>
     (\<forall>b. b \<notin> set (queue (pools d p) q) - set (queue (pools d' p) q) \<longrightarrow> state_view (heap d' b) = state_view (heap d b))"

lemma gives_refl [simp]: "gives p q 0 d d"
  by (simp add: gives_def)

lemma gives_trans: "gives p q k d d' \<Longrightarrow> gives p q k' d' d'' \<Longrightarrow> gives p q (k + k') d d''"
  unfolding gives_def by auto

lemma given_gives:
  assumes "fo_ok S d" "a \<in> set (queue (pools d p) q)" "given p q a d d'"
  shows "gives p q 1 d d'"
proof -
  have "distinct (queue (pools d p) q)" by (rule queues_okD(1) [OF db_okD(1) [OF fo_okD(1) [OF assms(1)]]])
  moreover have "length (queue (pools d p) q) > 0" using assms(2) by auto
  ultimately show ?thesis using assms(2,3) by (auto simp: gives_def given_def length_remove1)
qed

text \<open>The result of the loop: how many leases it gives, and when it stops.\<close>

definition walked :: "ptr set \<Rightarrow> nat \<Rightarrow> queue_name \<Rightarrow> int \<Rightarrow> ptr list \<Rightarrow> db \<Rightarrow> int \<Rightarrow> int \<Rightarrow> (db \<times> int \<times> int) cres option \<Rightarrow> bool" where
  "walked S p q hold ys d lts n r \<longleftrightarrow>
     (\<exists>d' k. r = Some (Ret (d', lts - int k, n + int k)) \<and> fo_ok S d' \<and> peers_kept d d' \<and> gives p q k d d' \<and>
       (0 < k \<longrightarrow> - hold \<le> lts - int k) \<and> (lts - int k \<le> hold \<or> queue (pools d' p) q = ys))"

lemma walked_stop: "fo_ok S d \<Longrightarrow> lts \<le> hold \<or> queue (pools d p) q = ys \<Longrightarrow> walked S p q hold ys d lts n (Some (Ret (d, lts, n)))"
  unfolding walked_def by (intro exI [of _ d] exI [of _ 0]) simp

lemma walked_step:
  assumes "walked S p q hold ys d' (lts - 1) (n + 1) r" "peers_kept d d'" "gives p q 1 d d'" "- hold \<le> lts - 1"
  shows "walked S p q hold ys d lts n r"
proof -
  obtain d'' k where k: "r = Some (Ret (d'', lts - 1 - int k, n + 1 + int k))" "fo_ok S d''" "peers_kept d' d''" "gives p q k d' d''"
      "0 < k \<longrightarrow> - hold \<le> lts - 1 - int k" "lts - 1 - int k \<le> hold \<or> queue (pools d'' p) q = ys"
    using assms(1) unfolding walked_def by blast
  have "gives p q (1 + k) d d''" by (rule gives_trans [OF assms(3) k(4)])
  then show ?thesis unfolding walked_def using k assms(4) peers_kept_trans [OF assms(2) k(3)]
    by (intro exI [of _ d''] exI [of _ "1 + k"]) (auto simp: algebra_simps)
qed

lemma remove1_middle: "distinct (ys @ a # zs) \<Longrightarrow> remove1 a (ys @ a # zs) = ys @ zs"
  by (auto simp: remove1_append)

lemma walk_second:
  assumes "fo_ok S d" "queue (pools d p) q = ys @ zs" "q \<in> {FREE_LEASES, BACKUP_LEASES}" "0 \<le> hold"
  shows "walked S p q hold ys d lts n (balance_walk e p q (free_state (other_free q)) hold d (seg_head zs None) True lts n)"
  using assms(1,2)
proof (induction zs arbitrary: d lts n)
  case Nil
  then show ?case by (simp add: balance_walk.simps walked_stop)
next
  case (Cons a zs)
  have dis: "distinct (ys @ a # zs)" using queues_okD(1) [OF db_okD(1) [OF fo_okD(1) [OF Cons.prems(1)]], of p q] Cons.prems(2) by simp
  have aq: "a \<in> set (queue (pools d p) q)" using Cons.prems(2) by simp
  obtain d1 where d1: "balance_give e d a (free_state (other_free q)) = Ret d1" "fo_ok S d1" "peers_kept d d1" "given p q a d d1"
    using balance_give_ok [OF Cons.prems(1) aq assms(3)] by blast
  have q1: "queue (pools d1 p) q = ys @ zs" using d1(4) Cons.prems(2) remove1_middle [OF dis] by (simp add: given_def)
  note w = walked_step [OF Cons.IH [OF d1(2) q1] d1(3) given_gives [OF Cons.prems(1) aq d1(4)]]
  have nx: "next_on (queue (pools d p) q) a = seg_head zs None" unfolding Cons.prems(2) by (rule next_on_split [OF dis])
  show ?case
  proof (cases "balanced_enough hold True (heap d a) lts")
    case True
    then have "lts \<le> hold" using assms(4) by (auto simp: balanced_enough_def split: if_splits)
    then show ?thesis using True Cons.prems(1) by (simp add: balance_walk.simps walked_stop)
  next
    case False
    then have l: "- hold \<le> lts - 1" using assms(4) by (auto simp: balanced_enough_def split: if_splits)
    have "balance_walk e p q (free_state (other_free q)) hold d (Some a) True lts n =
        balance_walk e p q (free_state (other_free q)) hold d1 (seg_head zs None) True (lts - 1) (n + 1)"
      using False d1(1) nx by (cases zs) (simp_all add: balance_walk.simps [of _ _ _ _ _ _ "Some a"] balance_walk.simps [of _ _ _ _ _ _ None])
    then show ?thesis using w [OF l] by simp
  qed
qed

lemma peer_wants_returns:
  assumes "fo_ok S d" shows "\<exists>b. peer_wants_lease d a = Ret b"
  using fo_okD(3) [OF assms] by (auto simp: peer_wants_lease_def loadb_p_hash_eq hba_bit_eq Let_def split: option.split)

lemma walk_first:
  assumes "fo_ok S d" "queue (pools d p) q = ys @ zs" "q \<in> {FREE_LEASES, BACKUP_LEASES}" "0 \<le> hold" "zs = [] \<longrightarrow> ys = []"
  shows "walked S p q hold [] d lts n (balance_walk e p q (free_state (other_free q)) hold d (seg_head zs None) False lts n)"
  using assms(1,2,5)
proof (induction zs arbitrary: d ys lts n)
  case Nil
  then show ?case by (simp add: balance_walk.simps walked_stop)
next
  case (Cons a zs)
  let ?W = "balance_walk e p q (free_state (other_free q)) hold"
  have dis: "distinct (ys @ a # zs)" using queues_okD(1) [OF db_okD(1) [OF fo_okD(1) [OF Cons.prems(1)]], of p q] Cons.prems(2) by simp
  have aq: "a \<in> set (queue (pools d p) q)" using Cons.prems(2) by simp
  have nx: "next_on (queue (pools d p) q) a = seg_head zs None" unfolding Cons.prems(2) by (rule next_on_split [OF dis])
  have go: "walked S p q hold [] d' lts' n' (case seg_head zs None of Some b \<Rightarrow> ?W d' (Some b) False lts' n'
      | None \<Rightarrow> ?W d' (seg_head (queue (pools d' p) q) None) True lts' n')"
    if "fo_ok S d'" "queue (pools d' p) q = xs @ zs" for d' xs lts' n'
  proof (cases zs)
    case Nil
    then show ?thesis using walk_second [OF that(1) _ assms(3,4), of p "[]" "queue (pools d' p) q"] by simp
  next
    case (Cons b bs)
    then show ?thesis using Cons.IH [OF that] by simp
  qed
  obtain b where b: "peer_wants_lease d a = Ret b" using peer_wants_returns [OF Cons.prems(1)] by blast
  obtain d1 where d1: "balance_give e d a (free_state (other_free q)) = Ret d1" "fo_ok S d1" "peers_kept d d1" "given p q a d d1"
    using balance_give_ok [OF Cons.prems(1) aq assms(3)] by blast
  have q1: "queue (pools d1 p) q = ys @ zs" using d1(4) Cons.prems(2) remove1_middle [OF dis] by (simp add: given_def)
  show ?case
  proof (cases "balanced_enough hold False (heap d a) lts")
    case True
    then have "lts \<le> hold" using assms(4) by (auto simp: balanced_enough_def)
    then show ?thesis using True Cons.prems(1) by (simp add: balance_walk.simps walked_stop)
  next
    case False
    then have l: "- hold \<le> lts - 1" by (auto simp: balanced_enough_def)
    show ?thesis
    proof (cases b)
      case True
      have "?W d (Some a) False lts n = (case seg_head zs None of Some b \<Rightarrow> ?W d1 (Some b) False (lts - 1) (n + 1)
          | None \<Rightarrow> ?W d1 (seg_head (queue (pools d1 p) q) None) True (lts - 1) (n + 1))"
        using False True b d1(1) nx by (subst balance_walk.simps) (simp split: option.split)
      then show ?thesis
        using walked_step [OF go [OF d1(2) q1] d1(3) given_gives [OF Cons.prems(1) aq d1(4)] l] by simp
    next
      case nb: False
      have "?W d (Some a) False lts n = (case seg_head zs None of Some b \<Rightarrow> ?W d (Some b) False lts n
          | None \<Rightarrow> ?W d (seg_head (queue (pools d p) q) None) True lts n)"
        using False nb b nx by (subst balance_walk.simps) (simp split: option.split)
      then show ?thesis using go [OF Cons.prems(1), of "ys @ [a]"] Cons.prems(2) by simp
    qed
  qed
qed

lemma gives_calm: "gives p q k d d1 \<Longrightarrow> calm d1 d' \<Longrightarrow> gives p q k d d'"
  using calm_surplus [of d1 d'] unfolding gives_def calm_def by (simp add: fun_eq_iff)

lemma percent_of_nonneg: "0 \<le> percent_of n pct"
  by (simp add: percent_of_def)

text \<open>The queue of the free leases that are this server's.\<close>

definition my_free :: "db \<Rightarrow> nat \<Rightarrow> queue_name" where
  "my_free d s = (if i_am (peers d s) = primary then FREE_LEASES else BACKUP_LEASES)"

definition most_owned :: "db \<Rightarrow> nat \<Rightarrow> nat \<Rightarrow> int" where
  "most_owned d s p = percent_of (backup_leases (pools d p) + free_leases (pools d p)) (max_lease_ownership (peers d s))"

lemma balance_pool_ok:
  assumes "fo_ok S d"
  shows "\<exists>d' k. balance_pool e s d p = Ret (d', int k) \<and> fo_ok S d' \<and> peers_kept d d' \<and> gives p (my_free d s) k d d' \<and>
     (0 < k \<longrightarrow> - most_owned d s p \<le> lease_surplus (peers d s) (pools d p) - int k) \<and>
     (lease_surplus (peers d s) (pools d p) - int k \<le> most_owned d s p \<or> queue (pools d' p) (my_free d s) = [])"
proof -
  let ?q = "my_free d s" and ?hold = "most_owned d s p" and ?lts = "lease_surplus (peers d s) (pools d p)"
  have q: "?q \<in> {FREE_LEASES, BACKUP_LEASES}" "(if i_am (peers d s) = primary then (FTS_BACKUP, FREE_LEASES) else (FTS_FREE, BACKUP_LEASES)) =
      (free_state (other_free ?q), ?q)"
    by (auto simp: my_free_def free_state_def other_free_def)
  have "walked S p ?q ?hold [] d ?lts 0
      (balance_walk e p ?q (free_state (other_free ?q)) ?hold d (seg_head (queue (pools d p) ?q) None) False ?lts 0)"
    using walk_first [OF assms, of p ?q "[]" "queue (pools d p) ?q" ?hold] q(1) percent_of_nonneg by (simp add: most_owned_def)
  then obtain d1 k where w: "balance_walk e p ?q (free_state (other_free ?q)) ?hold d (seg_head (queue (pools d p) ?q) None) False ?lts 0 =
        Some (Ret (d1, ?lts - int k, int k))" "fo_ok S d1" "peers_kept d d1" "gives p ?q k d d1"
      "0 < k \<longrightarrow> - ?hold \<le> ?lts - int k" "?lts - int k \<le> ?hold \<or> queue (pools d1 p) ?q = []"
    unfolding walked_def by auto
  obtain d2 where d2: "dhcp_failover_pool_check e d1 p = Ret d2" "fo_ok S d2" "peers_kept d1 d2"
    using keeps_pool_check [OF w(2)] unfolding keeps_def by blast
  have c: "calm d1 d2" by (rule fq_frame_calm [OF fq_frame_pool_check [OF d2(1)]])
  have "balance_pool e s d p = Ret (d2, int k)"
    using w(1) d2(1) unfolding balance_pool_def Let_def q(2) by (simp add: most_owned_def)
  moreover have "queue (pools d2 p) ?q = queue (pools d1 p) ?q" using c by (simp add: calm_def)
  ultimately show ?thesis using d2(2) peers_kept_trans [OF w(3) d2(3)] gives_calm [OF w(4) c] w(5,6) by metis
qed

lemma balance_pools_ok:
  "fo_ok S d \<Longrightarrow> keepsr S d (balance_pools e s d ps n req)"
proof (induction ps arbitrary: d n req)
  case (Cons p ps)
  obtain d1 k where "balance_pool e s d p = Ret (d1, int k)" "fo_ok S d1" "peers_kept d d1"
    using balance_pool_ok [OF Cons.prems, of e s p] by blast
  then have "keepsr S d (balance_pool e s d p)" by simp
  then show ?case using Cons by (auto simp: Let_def intro: keepsr_bind)
qed simp

lemma keepsr_trans: "peers_kept d d' \<Longrightarrow> keepsr S d' m \<Longrightarrow> keepsr S d m"
  using peers_kept_trans unfolding keepsr_def by blast

lemma keepsr_dobalance: assumes "fo_ok S d" shows "keepsr S d (dhcp_failover_pool_dobalance e d s)"
proof -
  have "keepsr S d (balance_pools e s (upd_peer s (\<lambda>p. p\<lparr>last_balance := cur_time d\<rparr>) d) (pool_list d) 0 False)"
    by (rule keepsr_trans [OF kept_steps(4) balance_pools_ok [OF ok_steps(4) [OF assms]]])
  then have "keepsr S d (cbind (balance_pools e s (upd_peer s (\<lambda>p. p\<lparr>last_balance := cur_time d\<rparr>) d) (pool_list d) 0 False)
      (\<lambda>(d, queued, req). Ret (if queued \<noteq> 0 then commit_leases d else d, queued, req)))"
    by (rule keepsr_bind) (simp add: commit_leases_def ok_steps(6) kept_steps(6) split: prod.split)
  then show ?thesis using assms by (simp add: dhcp_failover_pool_dobalance_def)
qed

lemma cancel_steps:
  "fo_ok S d \<Longrightarrow> fo_ok S (cancel_timeout d f what)" "peers_kept d (cancel_timeout d f what)"
  using fo_ok_same [OF _ fq_same_cancel] fq_frame_kept [OF fq_frame_cancel_timeout] by blast+

lemma balance_start:
  assumes "fo_ok S d"
  shows "keepsr S d (dhcp_failover_pool_dobalance e (upd_peer s (\<lambda>p. p\<lparr>sched_balance := 0\<rparr>) (cancel_timeout d f what)) s)"
    "keepsr S d (dhcp_failover_pool_dobalance e (upd_peer s (\<lambda>p. p\<lparr>sched_balance := 0\<rparr>) d) s)"
  by (rule keepsr_trans [OF peers_kept_trans [OF cancel_steps(2) kept_steps(5)] keepsr_dobalance [OF ok_steps(5) [OF cancel_steps(1) [OF assms]]]],
      rule keepsr_trans [OF kept_steps(5) keepsr_dobalance [OF ok_steps(5) [OF assms]]])

lemma keeps_pool_balance: "fo_ok S d \<Longrightarrow> keeps S d (dhcp_failover_pool_balance e d s)"
  unfolding dhcp_failover_pool_balance_def by (auto intro!: keepsr_bind_keeps [OF balance_start(1)])

lemma keeps_pool_rebalance: "fo_ok S d \<Longrightarrow> keeps S d (dhcp_failover_pool_rebalance e d s)"
  unfolding dhcp_failover_pool_rebalance_def
  by (auto intro!: keepsr_bind_keeps [OF balance_start(2)] keeps_bind keeps_send_updates keepsr_bind_keeps [OF keepsr_messages(2)])

lemma keeps_pool_reqbalance: "fo_ok S d \<Longrightarrow> keeps S d (dhcp_failover_pool_reqbalance e d s xid)"
  unfolding dhcp_failover_pool_reqbalance_def
  by (auto intro!: keepsr_bind_keeps [OF balance_start(1)] keeps_send_updates keepsr_bind_keeps [OF keepsr_messages(3)])

section \<open>Generating updates\<close>

lemma keeps_for_all:
  assumes "\<And>d x. fo_ok S d \<Longrightarrow> x \<in> set xs \<Longrightarrow> keeps S d (f d x)" "fo_ok S d"
  shows "keeps S d (for_all f d xs)"
  using assms by (induction xs arbitrary: d) (auto intro!: keeps_bind)

lemma keeps_generate: assumes "fo_ok S d" "a \<in> S" shows "keeps S d (generate_update e ev q d a)"
proof -
  let ?d = "upd_lease a (\<lambda>l. l\<lparr>desired_binding_state := binding_state l\<rparr>) d"
  have c: "calm d ?d" by (rule calm_upd_lease) (simp add: state_view_def queue_view_def queue_of_def)
  have "db_ok S ?d" by (rule db_ok_upd [OF fo_okD(1) [OF assms(1)]]) (simp_all add: queue_view_def queue_of_def side_view_def)
  then have "fo_ok S ?d" using calm_valid_next [OF c fo_okD(2) [OF assms(1)]] assms(1) by (simp add: fo_ok_def)
  then have "keeps S d (dhcp_failover_queue_update e ?d a False)"
    by (rule keeps_trans [OF kept_step(1) [OF peers_kept_refl] keeps_queue_update [OF _ assms(2)]])
  then show ?thesis using assms(1) by (simp add: generate_update_def Let_def)
qed

lemma keeps_generate_queues: "fo_ok S d \<Longrightarrow> keeps S d (generate_queues e ev d p qs)"
proof (induction qs arbitrary: d)
  case (Cons q qs)
  have "a \<in> S" if "a \<in> set (queue (pools d p) q)" for a
    using db_okD(3) [OF fo_okD(1) [OF Cons.prems]] that by (auto simp: on_queue_def)
  then show ?case using Cons by (auto intro!: keeps_bind keeps_for_all keeps_generate)
qed simp

lemma keeps_generate_update_queue: "fo_ok S d \<Longrightarrow> keeps S d (dhcp_failover_generate_update_queue e d s ev)"
  unfolding dhcp_failover_generate_update_queue_def by (auto intro!: keeps_for_all keeps_generate_queues)

section \<open>Entering a state\<close>

text \<open>The leases that wait for the peer are in the order in which they ended.\<close>

definition expired_by_end :: "db \<Rightarrow> nat \<Rightarrow> bool" where
  "expired_by_end d s \<longleftrightarrow> (\<forall>p. failover_peer (pools d p) = Some s \<longrightarrow>
     sorted_wrt (\<lambda>a b. ends (heap d a) \<le> ends (heap d b)) (queue (pools d p) EXPIRED_LEASES))"

lemma await_fold:
  "fold (\<lambda>a d. upd_lease a (await_mclt (peers d s)) d) xs d =
     d\<lparr>heap := \<lambda>a. if a \<in> set xs then await_mclt (peers d s) (heap d a) else heap d a\<rparr>"
proof (induction xs arbitrary: d)
  case (Cons a xs)
  have i: "await_mclt p (await_mclt p l) = await_mclt p l" for p l by (simp add: await_mclt_def Let_def)
  let ?d = "upd_lease a (await_mclt (peers d s)) d"
  have "fold (\<lambda>a d. upd_lease a (await_mclt (peers d s)) d) (a # xs) d =
      ?d\<lparr>heap := \<lambda>b. if b \<in> set xs then await_mclt (peers ?d s) (heap ?d b) else heap ?d b\<rparr>"
    using Cons.IH [of ?d] by simp
  also have "\<dots> = d\<lparr>heap := \<lambda>b. if b \<in> set (a # xs) then await_mclt (peers d s) (heap d b) else heap d b\<rparr>"
  proof -
    have "(\<lambda>b. if b \<in> set xs then await_mclt (peers ?d s) (heap ?d b) else heap ?d b) =
        (\<lambda>b. if b \<in> set (a # xs) then await_mclt (peers d s) (heap d b) else heap d b)" by (auto simp: i)
    then show ?thesis by (simp add: upd_lease_def)
  qed
  finally show ?case .
qed simp

lemma await_heap_ok:
  assumes "fo_ok S d" "expired_by_end d s" "failover_peer (pools d p) = Some s"
  defines "d' \<equiv> d\<lparr>heap := \<lambda>a. if a \<in> set (queue (pools d p) EXPIRED_LEASES) then await_mclt (peers d s) (heap d a) else heap d a\<rparr>"
  shows "fo_ok S d'"
proof -
  note D = db_okD [OF fo_okD(1) [OF assms(1)]]
  have l: "l_pool (heap d' a) = l_pool (heap d a)" "queue_of (heap d' a) = queue_of (heap d a)"
    "side_view (heap d' a) = side_view (heap d a)" "billing_class (heap d' a) = billing_class (heap d a)"
    "next_binding_state (heap d' a) = next_binding_state (heap d a)" for a
    by (simp_all add: d'_def await_mclt_def Let_def queue_of_def side_view_def)
  have "time_sorted (heap d') (queue (pools d p') q)" for p' q
  proof (cases "p' = p \<and> q = EXPIRED_LEASES")
    case True
    show ?thesis using assms(2,3) True unfolding time_sorted_def expired_by_end_def
      by (auto simp: d'_def await_mclt_def Let_def elim!: allE [of _ p] intro: sorted_wrt_mono_rel [rotated])
  next
    case False
    then have "a \<notin> set (queue (pools d p) EXPIRED_LEASES)" if "a \<in> set (queue (pools d p') q)" for a
      using queues_okD(3,4) [OF D(1)] that by (metis option.inject)
    then have "sort_time (heap d' a) = sort_time (heap d a)" if "a \<in> set (queue (pools d p') q)" for a
      using that by (simp add: d'_def)
    then show ?thesis using queues_okD(2) [OF D(1), of p' q] unfolding time_sorted_def
      by (auto intro: sorted_wrt_mono_rel [of "queue (pools d p') q" "\<lambda>a b. sort_time (heap d a) \<le> sort_time (heap d b)"])
  qed
  moreover have s: "pools d' = pools d" "peers d' = peers d" "classes d' = classes d" "uid_hash d' = uid_hash d" "hw_hash d' = hw_hash d"
    "no_memory d' = no_memory d" "isc_fails d' = isc_fails d" by (simp_all add: d'_def)
  ultimately have "queues_ok d'" using D(1) by (simp add: queues_ok_def l)
  moreover have "side_ok S d' = side_ok S d" by (rule side_ok_cong) (simp_all add: l s)
  ultimately have "db_ok S d'" using D(2,3) by (simp add: db_ok_def on_queue_def s)
  then show ?thesis using assms(1) by (simp add: fo_ok_def valid_next_def pool_leases_def l s)
qed

lemma await_pool_ok:
  assumes "fo_ok S d" "expired_by_end d s"
  shows "\<exists>d'. await_pool s d p = Ret d' \<and> fo_ok S d' \<and> peers_kept d d' \<and> expired_by_end d' s"
proof (cases "failover_peer (pools d p) = Some s")
  case True
  define d1 where "d1 = d\<lparr>heap := \<lambda>a. if a \<in> set (queue (pools d p) EXPIRED_LEASES) then await_mclt (peers d s) (heap d a) else heap d a\<rparr>"
  have ok1: "fo_ok S d1" unfolding d1_def by (rule await_heap_ok [OF assms True])
  have k1: "peers_kept d d1" by (simp add: peers_kept_def peer_frame_def d1_def)
  have e1: "ends (heap d1 a) = ends (heap d a)" for a by (simp add: d1_def await_mclt_def Let_def)
  have x1: "expired_by_end d1 s" using assms(2) unfolding expired_by_end_def e1 by (simp add: d1_def)
  define d2 where "d2 t = upd_pool p (\<lambda>pl. pl\<lparr>next_event_time := t\<rparr>) d1" for t
  have ok2: "fo_ok S (d2 t)" for t
    using next_event_ok [OF fo_okD(1) [OF ok1], of p t] ok1 by (auto simp: fo_ok_def d2_def valid_next_def pool_leases_def)
  have 2: "\<exists>d'. add_timeout (d2 t) (t, 0) (Some POOL_TIMER) p = Ret d' \<and> fo_ok S d' \<and> peers_kept d d' \<and> expired_by_end d' s" for t
  proof -
    obtain d3 where d3: "add_timeout (d2 t) (t, 0) (Some POOL_TIMER) p = Ret d3" "fo_ok S d3" "peers_kept (d2 t) d3"
      using keeps_add_timeout [OF ok2] unfolding keeps_def by blast
    have c: "calm (d2 t) d3" by (rule calm_add_timeout [OF d3(1)])
    have "expired_by_end d3 s" using x1 c unfolding expired_by_end_def calm_def state_view_def by (simp add: d2_def)
    moreover have "peers_kept d (d2 t)" using k1 by (simp add: d2_def kept_step)
    ultimately show ?thesis using d3 peers_kept_trans by blast
  qed
  show ?thesis
  proof (cases "queue (pools d p) EXPIRED_LEASES")
    case Nil
    then have "await_pool s d p = Ret d" using True by (simp add: await_pool_def)
    then show ?thesis using assms by simp
  next
    case (Cons a xs)
    let ?t = "sort_time (heap d1 a)"
    have "await_pool s d p = (if ?t < next_event_time (pools d1 p) then add_timeout (d2 ?t) (?t, 0) (Some POOL_TIMER) p else Ret d1)"
      using True Cons await_fold [of s "queue (pools d p) EXPIRED_LEASES" d, folded d1_def] unfolding await_pool_def d2_def by (simp add: Let_def)
    then show ?thesis using 2 [of ?t] ok1 k1 x1 by simp
  qed
qed (use assms in \<open>simp add: await_pool_def\<close>)

lemma keeps_await:
  "fo_ok S d \<Longrightarrow> expired_by_end d s \<Longrightarrow> keeps S d (for_all (await_pool s) d ps)"
proof (induction ps arbitrary: d)
  case (Cons p ps)
  obtain d1 where d1: "await_pool s d p = Ret d1" "fo_ok S d1" "peers_kept d d1" "expired_by_end d1 s"
    using await_pool_ok [OF Cons.prems] by blast
  show ?case using keeps_trans [OF d1(3) Cons.IH [OF d1(2,4)]] d1(1) by simp
qed simp

lemma keeps_enter_state:
  assumes "fo_ok S d" "st = partner_down \<Longrightarrow> expired_by_end d s"
  shows "keeps S d (enter_state e d s st)"
proof (cases "st = partner_down")
  case True
  then show ?thesis using keeps_await assms by (simp add: enter_state_def)
next
  case False
  have n: "keeps S d (cbind (dhcp_failover_pool_balance e d s)
      (\<lambda>d. cbind (dhcp_failover_generate_update_queue e d s False)
        (\<lambda>d. if update_queue_tail (peers d s) \<noteq> None then dhcp_failover_send_updates e d s else Ret d)))"
    using assms(1) by (auto intro!: keeps_bind keeps_pool_balance keeps_generate_update_queue keeps_send_updates)
  show ?thesis using False assms(1) n keepsr_drop [OF keepsr_messages(4) [OF assms(1)]] keepsr_drop [OF keepsr_messages(5) [OF assms(1)]]
      keeps_add_timeout [OF assms(1)] by (cases st) (simp_all add: enter_state_def Let_def del: cbind.simps)
qed

section \<open>Changing the state\<close>

text \<open>
  The service that the states of the two servers allow. Clients are answered in four states only,
  and not at all while the partner, having been alone, is resolving conflicts or waits for this
  server to recover.
\<close>

definition resolving :: "failover_state set" where
  "resolving = {partner_down, potential_conflict, conflict_done, resolution_interrupted}"

definition allowed_service :: "failover_state \<Rightarrow> failover_state \<Rightarrow> service_state" where
  "allowed_service mine partner =
     (if partner \<in> resolving then not_responding
      else if mine = normal then cooperating
      else if mine = communications_interrupted then not_cooperating
      else if mine = partner_down then service_partner_down
      else if mine = startup then service_startup
      else not_responding)"

definition known_failover_state :: "failover_state \<Rightarrow> bool" where
  "known_failover_state st = (case st of other_state _ \<Rightarrow> False | _ \<Rightarrow> True)"

definition service_ok :: "peer \<Rightarrow> bool" where
  "service_ok p \<longleftrightarrow> known_failover_state (me_state p) \<and> p_service_state p = allowed_service (me_state p) (partner_state p)"

lemma own_service_known:
  "known_failover_state st \<Longrightarrow> \<exists>sv why. own_service st = Ret (sv, why) \<and> (\<forall>x. allowed_service st x = (if x \<in> resolving then not_responding else sv))"
  by (cases st) (simp_all add: own_service_def known_failover_state_def allowed_service_def)

text \<open>Changing a peer's record, but not its queues.\<close>

definition queue_fields :: "peer \<Rightarrow> ptr option \<times> ptr option \<times> ptr option \<times> ptr option \<times> int \<times> byte list option" where
  "queue_fields p = (update_queue_head p, update_queue_tail p, ack_queue_head p, ack_queue_tail p, cur_unacked_updates p, hba p)"

lemma fo_ok_upd_peer:
  assumes "fo_ok S d" "queue_fields (f (peers d s)) = queue_fields (peers d s)"
  shows "fo_ok S (upd_peer s f d)"
proof -
  let ?d = "upd_peer s f d"
  note D = db_okD [OF fo_okD(1) [OF assms(1)]]
  have q: "queue_fields (peers ?d s') = queue_fields (peers d s')" for s' using assms(2) by simp
  have "fq_ok S ?d U A = fq_ok S d U A" for U A
    using q by (intro fq_ok_cong) (simp_all add: queue_fields_def peer_of_def [abs_def])
  moreover have "uid_ok ?d H = uid_ok d H" "hw_ok ?d H = hw_ok d H" for H
    by (simp_all add: uid_ok_def uid_key_def find_lease_by_uid_def [abs_def] hw_ok_def hw_key_def find_lease_by_hw_addr_def [abs_def]
        cong: if_cong)
  moreover have "billing_ok S ?d = billing_ok S d" by (simp add: billing_ok_def)
  ultimately have "side_ok S ?d" using D(2) by (simp add: side_ok_def rest_ok_def)
  moreover have "queues_ok ?d" using D(1) by (simp add: queues_ok_def)
  ultimately have "db_ok S ?d" using D(3) by (simp add: db_ok_def on_queue_def)
  then show ?thesis using assms(1) q by (simp add: fo_ok_def valid_next_def pool_leases_def queue_fields_def)
qed

lemma calm_upd_peer: "calm d (upd_peer s f d)"
  by (simp add: calm_def)

lemma service_update:
  assumes "known_failover_state (me_state (peers d s))"
  shows "\<exists>sv why. dhcp_failover_set_service_state d s = Ret (upd_peer s (\<lambda>p. p\<lparr>p_service_state := sv, nrr := why\<rparr>) d) \<and>
     service_ok ((peers d s)\<lparr>p_service_state := sv, nrr := why\<rparr>)"
proof -
  obtain sv why where o: "own_service (me_state (peers d s)) = Ret (sv, why)"
      "\<And>x. allowed_service (me_state (peers d s)) x = (if x \<in> resolving then not_responding else sv)"
    using own_service_known [OF assms] by blast
  define r where "r = (if sv = not_responding then (sv, why)
             else case partner_state (peers d s) of
                    partner_down \<Rightarrow> (not_responding, '' (peer demands: recovering)'')
                  | potential_conflict \<Rightarrow> (not_responding, '' (peer demands: resolving conflicts)'')
                  | conflict_done \<Rightarrow> (not_responding, '' (peer demands: resolving conflicts)'')
                  | resolution_interrupted \<Rightarrow> (not_responding, '' (peer demands: resolving conflicts)'')
                  | _ \<Rightarrow> (sv, why))"
  have "fst r = (if partner_state (peers d s) \<in> resolving then not_responding else sv)"
    by (cases "partner_state (peers d s)") (auto simp: r_def resolving_def)
  then have "service_ok ((peers d s)\<lparr>p_service_state := fst r, nrr := snd r\<rparr>)" using o(2) assms by (simp add: service_ok_def)
  moreover have "dhcp_failover_set_service_state d s = Ret (upd_peer s (\<lambda>p. p\<lparr>p_service_state := fst r, nrr := snd r\<rparr>) d)"
    unfolding dhcp_failover_set_service_state_def o(1) cbind.simps prod.case Let_def r_def [symmetric] by (simp add: split_beta)
  ultimately show ?thesis by blast
qed

text \<open>A change of the state of peer \<open>s\<close>: what becomes of the peers, and that no lease is touched.\<close>

definition settings :: "peer \<Rightarrow> role \<times> int \<times> failover_state \<times> int \<times> byte list option" where
  "settings p = (i_am p, mclt p, partner_state p, partner_stos p, hba p)"

definition others_kept :: "nat \<Rightarrow> db \<Rightarrow> db \<Rightarrow> bool" where
  "others_kept s d d' \<longleftrightarrow> (\<forall>s'. s' \<noteq> s \<longrightarrow> peer_frame (peers d s') (peers d' s')) \<and> pool_list d' = pool_list d \<and> cur_tv d' = cur_tv d \<and>
     (\<forall>p. failover_peer (pools d' p) = failover_peer (pools d p)) \<and> settings (peers d' s) = settings (peers d s)"

lemma others_kept_trans [trans]: "others_kept s d d' \<Longrightarrow> others_kept s d' d'' \<Longrightarrow> others_kept s d d''"
  by (auto simp: others_kept_def peer_frame_def)

lemma kept_others: "peers_kept d d' \<Longrightarrow> others_kept s d d'"
  by (simp add: peers_kept_def others_kept_def peer_frame_def settings_def)

lemma others_upd_peer: "settings (f (peers d s)) = settings (peers d s) \<Longrightarrow> others_kept s d (upd_peer s f d)"
  by (simp add: others_kept_def peer_frame_def)

lemma stop_sending_ok:
  assumes "fo_ok S d" shows "\<exists>d'. stop_sending d s = Ret d' \<and> fo_ok S d' \<and> fq_frame d d'"
proof -
  obtain U A where q: "fq_ok S d U A" using fo_ok_queues(1) [OF assms] by blast
  obtain d1 where d1: "dhcp_failover_rescind_updates d s = Ret d1" "fq_ok S d1 (U(s := A s @ U s)) (A(s := []))" "fq_frame d d1"
    using rescind_updates_ok [OF q] by blast
  have ok1: "fo_ok S d1" using fo_ok_frame [OF assms d1(3)] d1(2) by blast
  show ?thesis using assms d1(1) cancel_steps(1) [OF ok1] fq_frame_trans [OF d1(3) fq_frame_cancel_timeout]
    by (simp add: stop_sending_def)
qed

lemma record_state_eq:
  "record_state e d s = (if write_failover_state_ok e then commit_leases (write_failover_state d s) else write_failover_state d s,
     write_failover_state_ok e \<and> commit_leases_ok e)"
  by (simp add: record_state_def Let_def)

lemma record_state_same: "fq_same d (fst (record_state e d s))"
  by (auto simp: record_state_eq write_failover_state_def commit_leases_def Let_def intro: fq_same_peer_steps(6)
      fq_same_trans [OF fq_same_peer_steps(6) fq_same_peer_steps(6)])

lemma tentative_sel [simp]:
  "me_state (tentative t st p) = st" "queue_fields (tentative t st p) = queue_fields p" "settings (tentative t st p) = settings p"
  by (simp_all add: tentative_def Let_def queue_fields_def settings_def)

lemma send_state_same:
  assumes "fo_ok S d" shows "\<exists>d'. drop_result (dhcp_failover_send_state e d s) = Ret d' \<and> fq_same d d'"
proof -
  let ?m = "\<lambda>xid. EvState s xid (shown_state (peers d s)) (p_service_state (peers d s) = service_startup) (me_stos (peers d s))"
  obtain d' r where "put_numbered e d s ?m = Ret (d', r)" "fq_same d d'" using put_numbered_same [OF assms] by blast
  then show ?thesis by (auto simp: dhcp_failover_send_state_def drop_result_def Let_def)
qed

text \<open>The states the machine can be in: the states of the protocol, and startup over one of them.\<close>

definition machine_ok :: "peer \<Rightarrow> bool" where
  "machine_ok p \<longleftrightarrow> known_failover_state (me_state p) \<and> known_failover_state (saved_state p) \<and> saved_state p \<noteq> startup"

lemma tentative_machine: "machine_ok p \<Longrightarrow> known_failover_state st \<Longrightarrow> machine_ok (tentative t st p)"
  by (simp add: machine_ok_def tentative_def Let_def)

lemma peer_frame_machine: "peer_frame p p' \<Longrightarrow> machine_ok p' = machine_ok p"
  by (simp add: peer_frame_def machine_ok_def)

lemma kept_machine: "peers_kept d d' \<Longrightarrow> machine_ok (peers d' s) = machine_ok (peers d s)"
  by (simp add: peers_kept_def peer_frame_machine)

text \<open>When the server says to have entered the state: coming out of startup it has been in it before.\<close>

definition since_when :: "db \<Rightarrow> nat \<Rightarrow> failover_state \<Rightarrow> int" where
  "since_when d s st =
     (if st = recover_wait \<or> st = startup \<or> me_state (peers d s) = startup then me_stos (peers d s) else cur_time d)"

text \<open>The recorded change, up to what is done on entering the state.\<close>

definition entering :: "ptr set \<Rightarrow> nat \<Rightarrow> failover_state \<Rightarrow> db \<Rightarrow> db \<Rightarrow> bool" where
  "entering S s st d d' \<longleftrightarrow> fo_ok S d' \<and> calm d d' \<and> others_kept s d d' \<and> me_state (peers d' s) = st \<and> service_ok (peers d' s) \<and>
     (st \<noteq> recover \<longrightarrow> me_stos (peers d' s) = since_when d s st) \<and>
     (machine_ok (peers d s) \<longrightarrow> machine_ok (peers d' s))"

lemma peer_frame_service: "peer_frame p p' \<Longrightarrow> service_ok p \<Longrightarrow> service_ok p'"
  by (simp add: peer_frame_def service_ok_def)

lemma set_state_enters:
  assumes "fo_ok S d" "known_failover_state st" "write_failover_state_ok e" "commit_leases_ok e"
  shows "\<exists>d'. entering S s st d d' \<and>
     dhcp_failover_set_state e d s st =
       cbind (if st = recover_wait \<and> me_stos (peers d' s) + mclt (peers d' s) \<le> cur_time d'
              then drop_result (dhcp_failover_set_state e d' s recover_done) else enter_state e d' s st)
         (\<lambda>d. Ret (d, ISC_R_SUCCESS))"
proof -
  obtain d1 where d1: "stop_sending d s = Ret d1" "fo_ok S d1" "fq_frame d d1" using stop_sending_ok [OF assms(1)] by blast
  define d2 where "d2 = upd_peer s (tentative (cur_time d1) st) d1"
  define d3 where "d3 = fst (record_state e d2 s)"
  define d4 where "d4 = (if st \<noteq> startup \<and> me_state (peers d1 s) = startup then cancel_timeout d3 (Some STARTUP_TIMEOUT) s else d3)"
  define d5 where "d5 = cancel_timeout d4 (Some AUTO_PARTNER_DOWN) s"
  have 2: "fo_ok S d2" "calm d1 d2" "others_kept s d1 d2" unfolding d2_def
    by (rule fo_ok_upd_peer [OF d1(2)], simp, rule calm_upd_peer, rule others_upd_peer, simp)
  have 25: "fq_same d2 d5" unfolding d5_def d4_def d3_def
    using record_state_same [of d2 e s] fq_same_trans [OF fq_same_trans [OF record_state_same fq_same_cancel] fq_same_cancel]
      fq_same_trans [OF record_state_same fq_same_cancel] by auto
  have ok5: "fo_ok S d5" by (rule fo_ok_same [OF 2(1) 25])
  have k25: "peers_kept d2 d5" by (rule fq_frame_kept [OF fq_same_frame [OF 25]])
  have st5: "me_state (peers d5 s) = st" using k25 by (simp add: peers_kept_def peer_frame_def d2_def)
  have so5: "me_stos (peers d5 s) = since_when d s st" if "st \<noteq> recover"
    using k25 fq_frame_kept [OF d1(3)] that by (auto simp: peers_kept_def peer_frame_def d2_def since_when_def tentative_def Let_def)
  obtain sv why where sv: "dhcp_failover_set_service_state d5 s = Ret (upd_peer s (\<lambda>p. p\<lparr>p_service_state := sv, nrr := why\<rparr>) d5)"
      "service_ok ((peers d5 s)\<lparr>p_service_state := sv, nrr := why\<rparr>)"
    using service_update [of d5 s] st5 assms(2) by auto
  define d6 where "d6 = upd_peer s (\<lambda>p. p\<lparr>p_service_state := sv, nrr := why\<rparr>) d5"
  have 6: "fo_ok S d6" "calm d5 d6" "others_kept s d5 d6" unfolding d6_def
    by (rule fo_ok_upd_peer [OF ok5], simp add: queue_fields_def, rule calm_upd_peer, rule others_upd_peer, simp add: settings_def)
  obtain d7 where d7: "(if link_xid (peers d6 s) \<noteq> None then drop_result (dhcp_failover_send_state e d6 s) else Ret d6) = Ret d7"
      "fq_same d6 d7"
    using send_state_same [OF 6(1), of e s] by (cases "link_xid (peers d6 s)") auto
  have ok7: "fo_ok S d7" by (rule fo_ok_same [OF 6(1) d7(2)])
  have k67: "peers_kept d6 d7" by (rule fq_frame_kept [OF fq_same_frame [OF d7(2)]])
  have "calm d d7"
    using calm_trans [OF fq_frame_calm [OF d1(3)] calm_trans [OF 2(2) calm_trans [OF fq_frame_calm [OF fq_same_frame [OF 25]]
      calm_trans [OF 6(2) fq_frame_calm [OF fq_same_frame [OF d7(2)]]]]]] .
  moreover have "others_kept s d d7"
    using others_kept_trans [OF kept_others [OF fq_frame_kept [OF d1(3)]] others_kept_trans [OF 2(3) others_kept_trans [OF kept_others [OF k25]
      others_kept_trans [OF 6(3) kept_others [OF k67]]]]] .
  moreover have "peer_frame (peers d6 s) (peers d7 s)" using k67 by (simp add: peers_kept_def)
  moreover have "machine_ok (peers d s) \<longrightarrow> machine_ok (peers d7 s)"
  proof -
    have "machine_ok (peers d6 s) = machine_ok (peers d5 s)" by (simp add: d6_def machine_ok_def)
    then have "machine_ok (peers d7 s) = machine_ok (peers d2 s)" "machine_ok (peers d1 s) = machine_ok (peers d s)"
      using kept_machine [OF k67, of s] kept_machine [OF k25, of s] kept_machine [OF fq_frame_kept [OF d1(3)], of s] by simp_all
    then show ?thesis using tentative_machine [OF _ assms(2), of "peers d1 s"] by (simp add: d2_def)
  qed
  ultimately have "me_state (peers d7 s) = st" "service_ok (peers d7 s)" "st \<noteq> recover \<longrightarrow> me_stos (peers d7 s) = since_when d s st"
      "machine_ok (peers d s) \<longrightarrow> machine_ok (peers d7 s)" "calm d d7" "others_kept s d d7"
    using peer_frame_service [of "peers d6 s" "peers d7 s"] sv(2) st5 so5 by (auto simp: d6_def peer_frame_def)
  then have "entering S s st d d7" using ok7 by (simp add: entering_def)
  moreover have "dhcp_failover_set_state e d s st =
       cbind (if st = recover_wait \<and> me_stos (peers d7 s) + mclt (peers d7 s) \<le> cur_time d7
              then drop_result (dhcp_failover_set_state e d7 s recover_done) else enter_state e d7 s st)
         (\<lambda>d. Ret (d, ISC_R_SUCCESS))"
  proof -
    have rs: "record_state e d2 s = (d3, True)" using assms(3,4) by (simp add: d3_def record_state_eq)
    show ?thesis
      unfolding dhcp_failover_set_state.simps [of e d s st] d1(1) cbind.simps Let_def d2_def [symmetric] rs prod.case not_True_eq_False if_False
        d4_def [symmetric] d5_def [symmetric] sv(1) d6_def [symmetric] d7(1) ..
  qed
  ultimately show ?thesis by blast
qed

lemma set_state_unrecorded:
  assumes "fo_ok S d" "\<not> (write_failover_state_ok e \<and> commit_leases_ok e)"
  shows "\<exists>d'. dhcp_failover_set_state e d s st = Ret (d', ISC_R_IOERROR) \<and> fo_ok S d' \<and> calm d d' \<and> others_kept s d d' \<and>
     me_state (peers d' s) = me_state (peers d s) \<and> me_stos (peers d' s) = me_stos (peers d s) \<and>
     p_service_state (peers d' s) = p_service_state (peers d s) \<and>
     (st \<noteq> startup \<longrightarrow> saved_state (peers d' s) = saved_state (peers d s)) \<and>
     (machine_ok (peers d s) \<longrightarrow> machine_ok (peers d' s))"
proof -
  obtain d1 where d1: "stop_sending d s = Ret d1" "fo_ok S d1" "fq_frame d d1" using stop_sending_ok [OF assms(1)] by blast
  define d2 where "d2 = upd_peer s (tentative (cur_time d1) st) d1"
  define d3 where "d3 = fst (record_state e d2 s)"
  define d4 where "d4 = upd_peer s (\<lambda>p. p\<lparr>me_state := me_state (peers d1 s), me_stos := me_stos (peers d1 s)\<rparr>) d3"
  have 2: "fo_ok S d2" "calm d1 d2" "others_kept s d1 d2" unfolding d2_def
    by (rule fo_ok_upd_peer [OF d1(2)], simp, rule calm_upd_peer, rule others_upd_peer, simp)
  have 3: "fq_same d2 d3" unfolding d3_def by (rule record_state_same)
  note k3 = fq_frame_kept [OF fq_same_frame [OF 3]]
  have 4: "fo_ok S d4" "calm d3 d4" "others_kept s d3 d4" unfolding d4_def
    by (rule fo_ok_upd_peer [OF fo_ok_same [OF 2(1) 3]], simp add: queue_fields_def, rule calm_upd_peer, rule others_upd_peer, simp add: settings_def)
  have rs: "record_state e d2 s = (d3, False)" using assms(2) by (simp add: d3_def record_state_eq)
  have eq: "dhcp_failover_set_state e d s st = Ret (d4, ISC_R_IOERROR)"
    unfolding dhcp_failover_set_state.simps [of e d s st] d1(1) cbind.simps Let_def d2_def [symmetric] rs prod.case not_False_eq_True if_True
      d4_def ..
  have "calm d d4"
    using calm_trans [OF fq_frame_calm [OF d1(3)] calm_trans [OF 2(2) calm_trans [OF fq_frame_calm [OF fq_same_frame [OF 3]] 4(2)]]] .
  moreover have "others_kept s d d4"
    using others_kept_trans [OF kept_others [OF fq_frame_kept [OF d1(3)]] others_kept_trans [OF 2(3) others_kept_trans [OF kept_others [OF k3] 4(3)]]] .
  moreover have "me_state (peers d4 s) = me_state (peers d s)" "me_stos (peers d4 s) = me_stos (peers d s)"
      "p_service_state (peers d4 s) = p_service_state (peers d s)" "machine_ok (peers d s) \<longrightarrow> machine_ok (peers d4 s)"
      "st \<noteq> startup \<longrightarrow> saved_state (peers d4 s) = saved_state (peers d s)"
    using fq_frame_kept [OF d1(3)] k3
    by (simp_all add: d4_def d2_def peers_kept_def peer_frame_def tentative_def machine_ok_def Let_def)
  ultimately show ?thesis using eq 4(1) by blast
qed

lemma calm_expired: "calm d d' \<Longrightarrow> expired_by_end d s \<Longrightarrow> expired_by_end d' s"
  unfolding expired_by_end_def calm_def state_view_def by simp

text \<open>The state a server is in after a recorded change.\<close>

definition reached :: "db \<Rightarrow> nat \<Rightarrow> failover_state \<Rightarrow> failover_state" where
  "reached d s st =
     (if st = recover_wait \<and> me_stos (peers d s) + mclt (peers d s) \<le> cur_time d then recover_done else st)"

lemma set_state_recorded:
  assumes "fo_ok S d" "known_failover_state st" "write_failover_state_ok e" "commit_leases_ok e"
    "st = partner_down \<Longrightarrow> expired_by_end d s"
  shows "\<exists>d'. dhcp_failover_set_state e d s st = Ret (d', ISC_R_SUCCESS) \<and> fo_ok S d' \<and> others_kept s d d' \<and>
     me_state (peers d' s) = reached d s st \<and> service_ok (peers d' s) \<and> (machine_ok (peers d s) \<longrightarrow> machine_ok (peers d' s))"
proof -
  have enter: "\<exists>d2. cbind (enter_state e d1 s st) (\<lambda>d. Ret (d, ISC_R_SUCCESS)) = Ret (d2, ISC_R_SUCCESS) \<and> fo_ok S d2 \<and>
      others_kept s d0 d2 \<and> me_state (peers d2 s) = st \<and> service_ok (peers d2 s) \<and> (machine_ok (peers d0 s) \<longrightarrow> machine_ok (peers d2 s))"
    if "entering S s st d0 d1" "st = partner_down \<Longrightarrow> expired_by_end d0 s" for d0 d1 st
  proof -
    have k: "keeps S d1 (enter_state e d1 s st)"
      using that calm_expired [of d0 d1 s] by (intro keeps_enter_state) (auto simp: entering_def)
    then obtain d2 where d2: "enter_state e d1 s st = Ret d2" "fo_ok S d2" "peers_kept d1 d2" unfolding keeps_def by blast
    have f: "peer_frame (peers d1 s) (peers d2 s)" using d2(3) by (simp add: peers_kept_def)
    show ?thesis using d2 that(1) others_kept_trans [OF _ kept_others [OF d2(3)]] peer_frame_service [OF f] peer_frame_machine [OF f] f
      by (simp add: entering_def peer_frame_def)
  qed
  obtain d1 where d1: "entering S s st d d1" "dhcp_failover_set_state e d s st =
       cbind (if st = recover_wait \<and> me_stos (peers d1 s) + mclt (peers d1 s) \<le> cur_time d1
              then drop_result (dhcp_failover_set_state e d1 s recover_done) else enter_state e d1 s st)
         (\<lambda>d. Ret (d, ISC_R_SUCCESS))"
    using set_state_enters [OF assms(1-4)] by blast
  have c: "me_stos (peers d1 s) + mclt (peers d1 s) \<le> cur_time d1 \<longleftrightarrow> me_stos (peers d s) + mclt (peers d s) \<le> cur_time d"
    if "st = recover_wait"
    using d1(1) that by (simp add: entering_def others_kept_def settings_def since_when_def)
  show ?thesis
  proof (cases "st = recover_wait \<and> me_stos (peers d s) + mclt (peers d s) \<le> cur_time d")
    case True
    have ok1: "fo_ok S d1" "others_kept s d d1" using d1(1) by (simp_all add: entering_def)
    obtain d2 where d2: "entering S s recover_done d1 d2" "dhcp_failover_set_state e d1 s recover_done =
        cbind (enter_state e d2 s recover_done) (\<lambda>d. Ret (d, ISC_R_SUCCESS))"
      using set_state_enters [OF ok1(1) _ assms(3,4), of recover_done s] by (auto simp: known_failover_state_def)
    obtain d3 where d3: "dhcp_failover_set_state e d1 s recover_done = Ret (d3, ISC_R_SUCCESS)" "fo_ok S d3" "others_kept s d1 d3"
        "me_state (peers d3 s) = recover_done" "service_ok (peers d3 s)" "machine_ok (peers d1 s) \<longrightarrow> machine_ok (peers d3 s)"
      using enter [OF d2(1)] d2(2) by auto
    show ?thesis using True c d1 d3 others_kept_trans [OF ok1(2) d3(3)] by (simp add: drop_result_def reached_def entering_def)
  next
    case False
    then have "dhcp_failover_set_state e d s st = cbind (enter_state e d1 s st) (\<lambda>d. Ret (d, ISC_R_SUCCESS))"
      using d1(2) c by auto
    then show ?thesis using enter [OF d1(1) assms(5)] False by (auto simp: reached_def)
  qed
qed

section \<open>Reacting to events\<close>

abbreviation recording :: "db_env \<Rightarrow> bool" where
  "recording e \<equiv> write_failover_state_ok e \<and> commit_leases_ok e"

text \<open>An operation of the machine of peer \<open>s\<close>: it returns, and what it leaves in order.\<close>

definition machine_step :: "ptr set \<Rightarrow> nat \<Rightarrow> db \<Rightarrow> db \<Rightarrow> bool" where
  "machine_step S s d d' \<longleftrightarrow> fo_ok S d' \<and> others_kept s d d' \<and> (machine_ok (peers d s) \<longrightarrow> machine_ok (peers d' s)) \<and>
     (service_ok (peers d s) \<longrightarrow> service_ok (peers d' s))"

lemma machine_step_refl [simp]: "machine_step S s d d \<longleftrightarrow> fo_ok S d"
  by (simp add: machine_step_def others_kept_def peer_frame_def)

lemma machine_step_trans [trans]: "machine_step S s d d' \<Longrightarrow> machine_step S s d' d'' \<Longrightarrow> machine_step S s d d''"
  using others_kept_trans by (auto simp: machine_step_def)

lemma keeps_step: "fo_ok S d' \<Longrightarrow> peers_kept d d' \<Longrightarrow> machine_step S s d d'"
  using peer_frame_service [of "peers d s" "peers d' s"] by (simp add: machine_step_def kept_others kept_machine) (simp add: peers_kept_def)

lemma go_to_ok:
  assumes "fo_ok S d" "known_failover_state st" "st = partner_down \<Longrightarrow> expired_by_end d s"
  shows "\<exists>d'. go_to e d s st = Ret d' \<and> machine_step S s d d' \<and>
     (if recording e then me_state (peers d' s) = reached d s st \<and> service_ok (peers d' s)
      else calm d d' \<and> me_state (peers d' s) = me_state (peers d s) \<and> p_service_state (peers d' s) = p_service_state (peers d s) \<and>
           me_stos (peers d' s) = me_stos (peers d s) \<and> (st \<noteq> startup \<longrightarrow> saved_state (peers d' s) = saved_state (peers d s)))"
proof (cases "recording e")
  case True
  then obtain d' where d': "dhcp_failover_set_state e d s st = Ret (d', ISC_R_SUCCESS)" "fo_ok S d'" "others_kept s d d'"
     "me_state (peers d' s) = reached d s st" "service_ok (peers d' s)" "machine_ok (peers d s) \<longrightarrow> machine_ok (peers d' s)"
    using set_state_recorded [OF assms(1,2) _ _ assms(3)] by blast
  then show ?thesis using True by (simp add: drop_result_def machine_step_def)
next
  case False
  then show ?thesis using set_state_unrecorded [OF assms(1) False, of s st]
    by (auto simp: drop_result_def machine_step_def service_ok_def others_kept_def settings_def)
qed

text \<open>The state that a reaction leads to, when it leads anywhere.\<close>

definition reaction_target :: "reaction \<Rightarrow> failover_state option" where
  "reaction_target r = (case r of RGo st \<Rightarrow> Some st | RSendGo st \<Rightarrow> Some st | _ \<Rightarrow> None)"

lemma reaction_targets:
  "reaction_target (peer_reaction mine prev new iu sp) = Some st \<Longrightarrow>
     known_failover_state st \<and> st \<noteq> startup \<and> st \<noteq> recover_wait"
  by (cases mine; cases new) (auto simp: peer_reaction_def reaction_target_def known_failover_state_def split: if_splits)

lemma calm_send_updates: "dhcp_failover_send_updates e d s = Ret d' \<Longrightarrow> calm d d'"
  by (rule fq_frame_calm, rule fq_frame_send_updates)

lemma message_calm:
  assumes "fo_ok S d"
  shows "\<exists>d'. drop_result (dhcp_failover_send_update_request e d s) = Ret d' \<and> fo_ok S d' \<and> fq_frame d d'"
    "\<exists>d'. drop_result (dhcp_failover_send_update_request_all e d s) = Ret d' \<and> fo_ok S d' \<and> fq_frame d d'"
    "\<exists>d'. dhcp_failover_state_pool_check e d s = Ret d' \<and> fo_ok S d' \<and> fq_frame d d'"
proof -
  have f: "\<exists>d'. cbind (put_numbered e d s m) (\<lambda>(d, r). Ret (upd_peer s (\<lambda>p. p\<lparr>curUPD := c\<rparr>) d, r)) = Ret d' \<and> fo_ok S (fst d') \<and> fq_frame d (fst d')" for m c
  proof -
    obtain d1 r where d1: "put_numbered e d s m = Ret (d1, r)" "fq_same d d1" using put_numbered_same [OF assms] by blast
    have "fq_same d (upd_peer s (\<lambda>p. p\<lparr>curUPD := c\<rparr>) d1)" by (rule fq_same_trans [OF d1(2) fq_same_peer_steps(1)])
    then show ?thesis using d1(1) fo_ok_same [OF assms] fq_same_frame by auto
  qed
  show "\<exists>d'. drop_result (dhcp_failover_send_update_request_all e d s) = Ret d' \<and> fo_ok S d' \<and> fq_frame d d'"
    using f [of "EvUpdReqAll s" FTM_UPDREQALL] assms by (auto simp: dhcp_failover_send_update_request_all_def drop_result_def)
  then show "\<exists>d'. drop_result (dhcp_failover_send_update_request e d s) = Ret d' \<and> fo_ok S d' \<and> fq_frame d d'"
    using f [of "EvUpdReq s" FTM_UPDREQ] assms by (auto simp: dhcp_failover_send_update_request_def drop_result_def)
  have "\<exists>d'. state_pool_check_loop e d s ps = Ret d' \<and> fo_ok S d' \<and> fq_frame d d'" for ps
    using assms
  proof (induction ps arbitrary: d)
    case (Cons p ps)
    obtain d1 where d1: "dhcp_failover_pool_check e d p = Ret d1" "fo_ok S d1" using keeps_pool_check [OF Cons.prems] by (auto simp: keeps_def)
    obtain d2 where "state_pool_check_loop e d1 s ps = Ret d2" "fo_ok S d2" "fq_frame d1 d2" using Cons.IH [OF d1(2)] by blast
    then show ?case using d1(1) fq_frame_trans [OF fq_frame_pool_check [OF d1(1)]] Cons by auto
  qed simp
  then show "\<exists>d'. dhcp_failover_state_pool_check e d s = Ret d' \<and> fo_ok S d' \<and> fq_frame d d'"
    by (simp add: dhcp_failover_state_pool_check_def)
qed

lemma reached_other: "st \<noteq> recover_wait \<Longrightarrow> reached d s st = st"
  by (simp add: reached_def)

lemma react_ok:
  assumes "fo_ok S d" "r \<noteq> RFatal" "expired_by_end d s"
    "\<And>st. reaction_target r = Some st \<Longrightarrow> known_failover_state st \<and> st \<noteq> startup \<and> st \<noteq> recover_wait"
  shows "\<exists>d'. react e d s r = Ret d' \<and> machine_step S s d d' \<and>
     (if recording e \<and> reaction_target r \<noteq> None then reaction_target r = Some (me_state (peers d' s))
      else calm d d' \<and> me_state (peers d' s) = me_state (peers d s) \<and> me_stos (peers d' s) = me_stos (peers d s) \<and>
           saved_state (peers d' s) = saved_state (peers d s))"
proof -
  have frame: "\<exists>d'. m = Ret d' \<and> machine_step S s d d' \<and> calm d d' \<and> me_state (peers d' s) = me_state (peers d s) \<and>
      me_stos (peers d' s) = me_stos (peers d s) \<and> saved_state (peers d' s) = saved_state (peers d s)"
    if "\<exists>d'. m = Ret d' \<and> fo_ok S d' \<and> fq_frame d d'" for m
    using that fq_frame_calm fq_frame_kept keeps_step by (fastforce simp: peers_kept_def peer_frame_def)
  have go: "\<exists>d'. go_to e d0 s st = Ret d' \<and> machine_step S s d d' \<and>
     (if recording e then me_state (peers d' s) = st
      else calm d d' \<and> me_state (peers d' s) = me_state (peers d s) \<and> me_stos (peers d' s) = me_stos (peers d s) \<and>
           saved_state (peers d' s) = saved_state (peers d s))"
    if T: "reaction_target r = Some st" "fo_ok S d0" "fq_frame d d0" for st d0
  proof -
    have st: "known_failover_state st" "st \<noteq> startup" "st \<noteq> recover_wait" using assms(4) [OF T(1)] by auto
    note c = fq_frame_calm [OF T(3)] and k = fq_frame_kept [OF T(3)]
    obtain d' where d': "go_to e d0 s st = Ret d'" "machine_step S s d0 d'"
        "if recording e then me_state (peers d' s) = reached d0 s st \<and> service_ok (peers d' s)
         else calm d0 d' \<and> me_state (peers d' s) = me_state (peers d0 s) \<and> p_service_state (peers d' s) = p_service_state (peers d0 s) \<and>
           me_stos (peers d' s) = me_stos (peers d0 s) \<and> (st \<noteq> startup \<longrightarrow> saved_state (peers d' s) = saved_state (peers d0 s))"
      using go_to_ok [OF T(2) st(1), of s e] calm_expired [OF c assms(3)] by blast
    have "machine_step S s d d'" by (rule machine_step_trans [OF keeps_step [OF T(2) k] d'(2)])
    then show ?thesis using d'(1,3) st(2,3) k calm_trans [OF c] by (auto simp: reached_other peers_kept_def peer_frame_def)
  qed
  show ?thesis
  proof (cases r)
    case (RSendGo st)
    obtain d1 where d1: "dhcp_failover_send_updates e d s = Ret d1" "fo_ok S d1" using keeps_send_updates [OF assms(1)] by (auto simp: keeps_def)
    show ?thesis using go [OF _ d1(2) fq_frame_send_updates [OF d1(1)], of st] RSendGo d1(1) by (cases "recording e") (auto simp: react_def reaction_target_def)
  next
    case (RGo st)
    then show ?thesis using go [OF _ assms(1) fq_frame_refl, of st] by (cases "recording e") (auto simp: react_def reaction_target_def)
  qed (use assms(1,2) frame [OF message_calm(1) [OF assms(1)]] frame [OF message_calm(2) [OF assms(1)]]
      frame [OF message_calm(3) [OF assms(1)]] in \<open>simp_all add: react_def reaction_target_def\<close>)
qed

text \<open>Where a server is when it has dealt with the partner's change of state.\<close>

definition after_startup :: "db \<Rightarrow> nat \<Rightarrow> failover_state" where
  "after_startup d s = (if me_state (peers d s) = startup then reached d s (saved_state (peers d s)) else me_state (peers d s))"

lemma service_step:
  assumes "fo_ok S d" "machine_ok (peers d s)"
  shows "\<exists>d'. dhcp_failover_set_service_state d s = Ret d' \<and> machine_step S s d d' \<and> me_state (peers d' s) = me_state (peers d s) \<and>
     service_ok (peers d' s)"
proof -
  obtain sv why where sv: "dhcp_failover_set_service_state d s = Ret (upd_peer s (\<lambda>p. p\<lparr>p_service_state := sv, nrr := why\<rparr>) d)"
      "service_ok ((peers d s)\<lparr>p_service_state := sv, nrr := why\<rparr>)"
    using service_update [of d s] assms(2) by (auto simp: machine_ok_def)
  let ?d = "upd_peer s (\<lambda>p. p\<lparr>p_service_state := sv, nrr := why\<rparr>) d"
  have "fo_ok S ?d" by (rule fo_ok_upd_peer [OF assms(1)]) (simp add: queue_fields_def)
  moreover have "others_kept s d ?d" by (rule others_upd_peer) (simp add: settings_def)
  ultimately show ?thesis using sv by (auto simp: machine_step_def machine_ok_def)
qed

lemma finish_startup_ok:
  assumes "fo_ok S d" "machine_ok (peers d s)" "me_state (peers d s) = startup \<Longrightarrow> expired_by_end d s"
  shows "\<exists>d'. finish_startup e d s = Ret d' \<and> machine_step S s d d' \<and> service_ok (peers d' s) \<and>
     (recording e \<longrightarrow> me_state (peers d' s) = after_startup d s)"
proof (cases "me_state (peers d s) = startup")
  case True
  have kn: "known_failover_state (saved_state (peers d s))" "saved_state (peers d s) \<noteq> startup" using assms(2) by (auto simp: machine_ok_def)
  obtain d1 where d1: "go_to e d s (saved_state (peers d s)) = Ret d1" "machine_step S s d d1"
      "recording e \<longrightarrow> me_state (peers d1 s) = reached d s (saved_state (peers d s))"
    using go_to_ok [OF assms(1) kn(1), of s e] assms(3) [OF True] by (auto split: if_splits)
  have ok1: "fo_ok S d1" "machine_ok (peers d1 s)" using d1(2) assms(2) by (auto simp: machine_step_def)
  obtain d2 where d2: "dhcp_failover_set_service_state d1 s = Ret d2" "machine_step S s d1 d2" "me_state (peers d2 s) = me_state (peers d1 s)"
      "service_ok (peers d2 s)" using service_step [OF ok1] by blast
  then show ?thesis using d1 True kn(2) machine_step_trans [OF d1(2) d2(2)] by (auto simp: finish_startup_def after_startup_def)
next
  case False
  then show ?thesis using service_step [OF assms(1,2)] by (auto simp: finish_startup_def after_startup_def)
qed

text \<open>
  The transitions that the partner's state requires, for each state of the partner the states of
  this server that change and what they change to. \<open>fresh\<close>: this server is in startup, and \<open>mine\<close> the state
  before it; \<open>sp\<close>: the partner says that it is in startup. Two servers that have served clients without each other, or may have, go to
  potential-conflict; partner-down is entered when the partner recovers or shuts down, and normal
  when the partner has nothing left to resolve.
\<close>

definition required_state :: "failover_state \<Rightarrow> failover_state \<Rightarrow> bool \<Rightarrow> bool \<Rightarrow> failover_state option" where
  "required_state mine new fresh sp =
     (if mine = partner_down \<and> sp then None
      else if new = normal then
        if mine \<in> {communications_interrupted, recover_done, conflict_done} then Some normal
        else if mine \<in> {recover, partner_down, resolution_interrupted} then Some potential_conflict
        else if mine = potential_conflict then Some shut_down else None
      else if new = communications_interrupted then
        if mine = communications_interrupted then Some normal
        else if mine \<in> {partner_down, resolution_interrupted} then Some potential_conflict else None
      else if new = partner_down then
        if mine = normal \<and> fresh then Some recover
        else if mine \<in> {normal, communications_interrupted, partner_down, resolution_interrupted} then Some potential_conflict else None
      else if new \<in> {potential_conflict, resolution_interrupted, conflict_done} then
        if mine \<in> {recover, partner_down, communications_interrupted, resolution_interrupted} then Some potential_conflict
        else if mine = normal then Some shut_down else None
      else if new = recover then
        if mine \<in> {normal, communications_interrupted} then Some partner_down
        else if mine = potential_conflict then Some recover
        else if mine = resolution_interrupted then Some potential_conflict else None
      else if new = recover_wait then
        if mine = communications_interrupted then Some normal
        else if mine = resolution_interrupted then Some potential_conflict else None
      else if new = recover_done then
        if mine \<in> {partner_down, communications_interrupted, recover_done} then Some normal
        else if mine = resolution_interrupted then Some potential_conflict else None
      else if new = shut_down then
        if mine \<in> {normal, communications_interrupted, recover, recover_done, potential_conflict, resolution_interrupted}
        then Some partner_down else if mine = conflict_done then Some shut_down else None
      else if new = paused \<and> mine = normal then Some communications_interrupted else None)"

text \<open>The reaction that the partner's state calls for, and the state that it leads to.\<close>

abbreviation reaction_to :: "db \<Rightarrow> nat \<Rightarrow> failover_state \<Rightarrow> bool \<Rightarrow> reaction" where
  "reaction_to d s new sp \<equiv>
     peer_reaction (shown_state (peers d s)) (partner_state (peers d s)) new (me_state (peers d s) = startup) sp"

lemma reaction_required: "reaction_target (peer_reaction mine prev new fresh sp) = required_state mine new fresh sp"
  by (cases mine; cases new) (simp_all add: peer_reaction_def reaction_target_def required_state_def)

definition next_failover_state :: "db \<Rightarrow> nat \<Rightarrow> failover_state \<Rightarrow> bool \<Rightarrow> failover_state" where
  "next_failover_state d s new sp =
     (case required_state (shown_state (peers d s)) new (me_state (peers d s) = startup) sp of
        Some st \<Rightarrow> st
      | None \<Rightarrow> after_startup d s)"

lemma partner_update:
  fixes new s e
  assumes "fo_ok S d"
  defines "d' \<equiv> fst (record_state e (upd_peer s (\<lambda>p. p\<lparr>partner_state := new, partner_stos := cur_time d\<rparr>) d) s)"
  shows "fo_ok S d'" "calm d d'" "partner_state (peers d' s) = new" "me_state (peers d' s) = me_state (peers d s)"
    "saved_state (peers d' s) = saved_state (peers d s)" "me_stos (peers d' s) = me_stos (peers d s)" "mclt (peers d' s) = mclt (peers d s)"
    "\<forall>s'. s' \<noteq> s \<longrightarrow> peer_frame (peers d s') (peers d' s')" "i_am (peers d' s) = i_am (peers d s)" "cur_tv d' = cur_tv d"
proof -
  let ?d = "upd_peer s (\<lambda>p. p\<lparr>partner_state := new, partner_stos := cur_time d\<rparr>) d"
  have 1: "fo_ok S ?d" by (rule fo_ok_upd_peer [OF assms(1)]) (simp add: queue_fields_def)
  have s: "fq_same ?d d'" unfolding d'_def by (rule record_state_same)
  have k: "peers_kept ?d d'" by (rule fq_frame_kept [OF fq_same_frame [OF s]])
  show "fo_ok S d'" by (rule fo_ok_same [OF 1 s])
  show "calm d d'" by (rule calm_trans [OF calm_upd_peer fq_frame_calm [OF fq_same_frame [OF s]]])
  have f: "peer_frame (peers ?d s') (peers d' s')" for s' using k by (simp add: peers_kept_def)
  show "\<forall>s'. s' \<noteq> s \<longrightarrow> peer_frame (peers d s') (peers d' s')"
  proof (intro allI impI)
    fix s' assume "s' \<noteq> s" then show "peer_frame (peers d s') (peers d' s')" using f [of s'] by simp
  qed
  show "partner_state (peers d' s) = new" "me_state (peers d' s) = me_state (peers d s)"
    "saved_state (peers d' s) = saved_state (peers d s)" "me_stos (peers d' s) = me_stos (peers d s)" "mclt (peers d' s) = mclt (peers d s)"
    "i_am (peers d' s) = i_am (peers d s)"
    using f [of s] by (simp_all add: peer_frame_def)
  show "cur_tv d' = cur_tv d" using k by (simp add: peers_kept_def)
qed

lemma peer_moves_ok:
  assumes "fo_ok S d" "machine_ok (peers d s)" "expired_by_end d s" "known_failover_state new" "reaction_to d s new sp \<noteq> RFatal"
  shows "\<exists>d'. peer_moves e d s new sp = Ret d' \<and> fo_ok S d' \<and> machine_ok (peers d' s) \<and> service_ok (peers d' s) \<and>
     partner_state (peers d' s) = new \<and> (\<forall>s'. s' \<noteq> s \<longrightarrow> peer_frame (peers d s') (peers d' s')) \<and>
     (recording e \<longrightarrow> me_state (peers d' s) = next_failover_state d s new sp)"
proof -
  define d1 where "d1 = fst (record_state e (upd_peer s (\<lambda>p. p\<lparr>partner_state := new, partner_stos := cur_time d\<rparr>) d) s)"
  note P = partner_update [OF assms(1), where e = e and s = s and new = new, folded d1_def]
  let ?r = "reaction_to d s new sp"
  have m1: "machine_ok (peers d1 s)" using assms(2) P(4,5) by (simp add: machine_ok_def)
  have r1: "peer_reaction (shown_state (peers d1 s)) (partner_state (peers d s)) new (me_state (peers d1 s) = startup) sp = ?r"
    using P(4,5) by (simp add: shown_state_def)
  have rt: "known_failover_state st \<and> st \<noteq> startup \<and> st \<noteq> recover_wait" if "reaction_target ?r = Some st" for st
    using that by (rule reaction_targets)
  obtain d2 where d2: "react e d1 s ?r = Ret d2" "machine_step S s d1 d2"
     "if recording e \<and> reaction_target ?r \<noteq> None then reaction_target ?r = Some (me_state (peers d2 s))
      else calm d1 d2 \<and> me_state (peers d2 s) = me_state (peers d1 s) \<and> me_stos (peers d2 s) = me_stos (peers d1 s) \<and>
           saved_state (peers d2 s) = saved_state (peers d1 s)"
    using react_ok [OF P(1) assms(5) calm_expired [OF P(2) assms(3)] rt, of e] by blast
  have ok2: "fo_ok S d2" "machine_ok (peers d2 s)" using d2(2) m1 by (auto simp: machine_step_def)
  have x2: "expired_by_end d2 s" if "me_state (peers d2 s) = startup"
    using d2(3) that reaction_targets calm_expired [OF _ calm_expired [OF P(2) assms(3)]] by (auto split: if_splits)
  obtain d3 where d3: "finish_startup e d2 s = Ret d3" "machine_step S s d2 d3" "service_ok (peers d3 s)"
      "recording e \<longrightarrow> me_state (peers d3 s) = after_startup d2 s"
    using finish_startup_ok [OF ok2 x2] by blast
  have st: "machine_step S s d1 d3" by (rule machine_step_trans [OF d2(2) d3(2)])
  have "peer_moves e d s new sp = Ret d3"
    using assms(4) d2(1) d3(1) unfolding peer_moves_def Let_def d1_def [symmetric] r1 by (cases new) (simp_all add: known_failover_state_def)
  moreover have "partner_state (peers d3 s) = new" using st P(3) by (simp add: machine_step_def others_kept_def settings_def)
  moreover have "\<forall>s'. s' \<noteq> s \<longrightarrow> peer_frame (peers d s') (peers d3 s')"
    using st P(8) by (auto simp: machine_step_def others_kept_def peer_frame_def)
  moreover have rq: "next_failover_state d s new sp = (case reaction_target ?r of Some st \<Rightarrow> st | None \<Rightarrow> after_startup d s)"
    by (simp add: next_failover_state_def reaction_required)
  moreover have "me_state (peers d3 s) = next_failover_state d s new sp" if "recording e"
  proof (cases "reaction_target ?r")
    case None
    have "mclt (peers d2 s) = mclt (peers d1 s)" "cur_tv d2 = cur_tv d1"
      using d2(2) by (simp_all add: machine_step_def others_kept_def settings_def)
    then show ?thesis using d2(3) d3(4) that None P by (simp add: rq after_startup_def reached_def)
  next
    case (Some st)
    then show ?thesis using d2(3) d3(4) that reaction_targets [OF Some] by (simp add: rq after_startup_def)
  qed
  ultimately show ?thesis using d3 ok2 st m1 by (auto simp: machine_step_def)
qed

lemma reaction_fatal:
  assumes "machine_ok p"
  shows "peer_reaction (shown_state p) prev new iu sp = RFatal \<longleftrightarrow>
     shown_state p = conflict_done \<and> new \<notin> {normal, shut_down, potential_conflict, resolution_interrupted}"
proof -
  have "known_failover_state (shown_state p)" "shown_state p \<noteq> startup" using assms by (auto simp: machine_ok_def shown_state_def)
  then show ?thesis by (cases "shown_state p"; cases new) (auto simp: peer_reaction_def known_failover_state_def)
qed

lemma repeated_known: "machine_ok p \<Longrightarrow> \<exists>b. repeated_state (me_state p) = Ret b"
  by (cases "me_state p") (auto simp: machine_ok_def known_failover_state_def repeated_state_def)

text \<open>The state after a message about the partner's state, in all cases.\<close>

definition peer_next :: "db \<Rightarrow> nat \<Rightarrow> failover_state \<Rightarrow> bool \<Rightarrow> failover_state" where
  "peer_next d s new sp =
     (let p = peers d s
      in if partner_state p = new \<and> me_state p = startup
         then reached d s (if saved_state p = resolution_interrupted then potential_conflict else saved_state p)
         else if partner_state p = new \<and> me_state p \<in> {normal, potential_conflict, recover_done, shut_down, paused, recover_wait}
         then me_state p
         else if \<not> known_failover_state new then shut_down
         else next_failover_state d s new sp)"

text \<open>The messages that end the server: while it is in conflict-done, the partner may be in four states only.\<close>

definition fatal_report :: "db \<Rightarrow> nat \<Rightarrow> failover_state \<Rightarrow> bool" where
  "fatal_report d s new \<longleftrightarrow> shown_state (peers d s) = conflict_done \<and> known_failover_state new \<and>
     new \<notin> {normal, shut_down, potential_conflict, resolution_interrupted} \<and>
     \<not> (partner_state (peers d s) = new \<and> me_state (peers d s) = startup)"

lemma peer_state_changed_fatal:
  assumes "fo_ok S d" "machine_ok (peers d s)" "fatal_report d s new"
  shows "dhcp_failover_peer_state_changed e d s new sp = Fatal"
proof -
  define d1 where "d1 = fst (record_state e (upd_peer s (\<lambda>p. p\<lparr>partner_state := new, partner_stos := cur_time d\<rparr>) d) s)"
  note P = partner_update [OF assms(1), where e = e and s = s and new = new, folded d1_def]
  have "machine_ok (peers d1 s)" "shown_state (peers d1 s) = conflict_done"
    using assms(2,3) P(4,5) by (auto simp: machine_ok_def fatal_report_def shown_state_def split: if_splits)
  then have "peer_reaction (shown_state (peers d1 s)) (partner_state (peers d s)) new (me_state (peers d1 s) = startup) sp = RFatal"
    using assms(3) by (subst reaction_fatal) (auto simp: fatal_report_def)
  then have m: "peer_moves e d s new sp = Fatal"
    using assms(3) unfolding peer_moves_def Let_def d1_def [symmetric] by (cases new) (simp_all add: fatal_report_def known_failover_state_def react_def)
  have "me_state (peers d s) = startup \<or> me_state (peers d s) = conflict_done"
    using assms(3) by (auto simp: fatal_report_def shown_state_def split: if_splits)
  then show ?thesis using m assms(3) by (auto simp: dhcp_failover_peer_state_changed_def Let_def fatal_report_def repeated_state_def)
qed

lemma peer_state_changed_ok:
  assumes ok: "fo_ok S d" "machine_ok (peers d s)" "service_ok (peers d s)" "expired_by_end d s" and rec: "recording e"
    and new: "\<not> fatal_report d s new"
  shows "\<exists>d'. dhcp_failover_peer_state_changed e d s new sp = Ret d' \<and> fo_ok S d' \<and> machine_ok (peers d' s) \<and>
     service_ok (peers d' s) \<and> partner_state (peers d' s) = new \<and> me_state (peers d' s) = peer_next d s new sp \<and>
     (\<forall>s'. s' \<noteq> s \<longrightarrow> peer_frame (peers d s') (peers d' s'))"
proof -
  let ?p = "peers d s"
  have go: "\<exists>d'. go_to e d0 s st = Ret d' \<and> fo_ok S d' \<and> machine_ok (peers d' s) \<and> service_ok (peers d' s) \<and>
      partner_state (peers d' s) = partner_state (peers d0 s) \<and> me_state (peers d' s) = reached d0 s st \<and>
      (\<forall>s'. s' \<noteq> s \<longrightarrow> peer_frame (peers d0 s') (peers d' s'))"
    if "fo_ok S d0" "machine_ok (peers d0 s)" "known_failover_state st" "expired_by_end d0 s" for d0 st
    using go_to_ok [OF that(1,3), of s e] that(2,4) rec by (auto simp: machine_step_def others_kept_def settings_def)
  have moves: "\<exists>d'. peer_moves e d s new sp = Ret d' \<and> fo_ok S d' \<and> machine_ok (peers d' s) \<and> service_ok (peers d' s) \<and>
      partner_state (peers d' s) = new \<and> me_state (peers d' s) = (if known_failover_state new then next_failover_state d s new sp else shut_down) \<and>
      (\<forall>s'. s' \<noteq> s \<longrightarrow> peer_frame (peers d s') (peers d' s'))"
    if un: "\<not> (partner_state ?p = new \<and> me_state ?p = startup)"
  proof (cases "known_failover_state new")
    case True
    then have "reaction_to d s new sp \<noteq> RFatal" using reaction_fatal [OF ok(2)] new un by (auto simp: fatal_report_def)
    then show ?thesis using peer_moves_ok [OF ok(1,2,4), of new sp e] rec True by auto
  next
    case False
    define d1 where "d1 = fst (record_state e (upd_peer s (\<lambda>p. p\<lparr>partner_state := new, partner_stos := cur_time d\<rparr>) d) s)"
    note P = partner_update [OF ok(1), where e = e and s = s and new = new, folded d1_def]
    have "machine_ok (peers d1 s)" using ok(2) P(4,5) by (simp add: machine_ok_def)
    then obtain d2 where d2: "go_to e d1 s shut_down = Ret d2" "fo_ok S d2" "machine_ok (peers d2 s)" "service_ok (peers d2 s)"
        "partner_state (peers d2 s) = new" "me_state (peers d2 s) = reached d1 s shut_down" "\<forall>s'. s' \<noteq> s \<longrightarrow> peer_frame (peers d1 s') (peers d2 s')"
      using go [OF P(1), of shut_down] calm_expired [OF P(2) ok(4)] P(3) by (auto simp: known_failover_state_def)
    moreover have "peer_moves e d s new sp = go_to e d1 s shut_down"
      using False unfolding peer_moves_def Let_def d1_def [symmetric] by (cases new) (simp_all add: known_failover_state_def)
    moreover have "\<forall>s'. s' \<noteq> s \<longrightarrow> peer_frame (peers d s') (peers d2 s')" using P(8) d2(7) by (auto simp: peer_frame_def)
    ultimately show ?thesis using False by (simp add: reached_other)
  qed
  show ?thesis
  proof (cases "partner_state ?p = new \<and> me_state ?p \<noteq> unknown_state")
    case same: True
    show ?thesis
    proof (cases "me_state ?p = startup")
      case True
      have "known_failover_state (if saved_state ?p = resolution_interrupted then potential_conflict else saved_state ?p)"
        using ok(2) by (auto simp: machine_ok_def known_failover_state_def)
      then show ?thesis using go [OF ok(1,2) _ ok(4)] True same by (simp add: dhcp_failover_peer_state_changed_def peer_next_def Let_def)
    next
      case False
      then obtain b where b: "repeated_state (me_state ?p) = Ret b" using repeated_known [OF ok(2)] by blast
      have "b \<longleftrightarrow> me_state ?p \<in> {normal, potential_conflict, recover_done, shut_down, paused, recover_wait}"
        using b False same by (cases "me_state ?p") (auto simp: repeated_state_def)
      then show ?thesis using b False same moves ok
        by (cases b) (auto simp: dhcp_failover_peer_state_changed_def peer_next_def Let_def peer_frame_def)
    qed
  next
    case False
    then show ?thesis using moves by (auto simp: dhcp_failover_peer_state_changed_def peer_next_def Let_def)
  qed
qed

section \<open>The other events\<close>

lemma set_state_step:
  assumes "fo_ok S d" "known_failover_state st" "st = partner_down \<Longrightarrow> expired_by_end d s"
  shows "\<exists>d' r. dhcp_failover_set_state e d s st = Ret (d', r) \<and> machine_step S s d d'"
  using go_to_ok [OF assms, of e] by (cases "dhcp_failover_set_state e d s st") (auto simp: drop_result_def)

lemma lose_link_kept: "fo_ok S d \<Longrightarrow> fo_ok S (lose_link d s)" "peers_kept d (lose_link d s)" "calm d (lose_link d s)"
proof -
  let ?d = "upd_peer s (\<lambda>p. p\<lparr>link_xid := None\<rparr>) d"
  have s: "fq_same ?d (lose_link d s)"
    unfolding lose_link_def Let_def by (intro fq_same_trans [OF fq_same_trans [OF fq_same_cancel fq_same_cancel] fq_same_cancel])
  have f: "fq_frame d ?d" by (rule fq_frame_upd_peer) (simp add: peer_frame_def)
  note fr = fq_frame_trans [OF f fq_same_frame [OF s]]
  show "peers_kept d (lose_link d s)" "calm d (lose_link d s)" by (rule fq_frame_kept [OF fr], rule fq_frame_calm [OF fr])
  assume "fo_ok S d"
  then have "fo_ok S ?d" by (rule fo_ok_upd_peer) (simp add: queue_fields_def)
  then show "fo_ok S (lose_link d s)" by (rule fo_ok_same [OF _ s])
qed

lemma stay_ok:
  assumes "fo_ok S d" "machine_ok (peers d s)" "expired_by_end d s"
  shows "\<exists>d' r. stay e d s = Ret (d', r) \<and> machine_step S s d d'"
proof (cases "me_state (peers d s) = startup")
  case True
  have "known_failover_state (saved_state (peers d s))" using assms(2) by (simp add: machine_ok_def)
  then show ?thesis using set_state_step [OF assms(1) _ assms(3), of _ e] True by (simp add: stay_def)
qed (use assms in \<open>simp add: stay_def\<close>)

lemma disconnect_ok:
  assumes "fo_ok S d" "machine_ok (peers d s)" "expired_by_end d s"
  shows "\<exists>d' r. dhcp_failover_state_transition e d s ''disconnect'' = Ret (d', r) \<and> machine_step S s d d'"
proof -
  let ?d = "lose_link d s"
  note L = lose_link_kept(1) [OF assms(1), of s] lose_link_kept(2) [of d s]
  have m: "machine_ok (peers ?d s)" "machine_step S s d ?d" using kept_machine [OF L(2)] assms(2) keeps_step [OF L] by auto
  have x: "expired_by_end ?d s" by (rule calm_expired [OF lose_link_kept(3) assms(3)])
  have step: "\<exists>d' r. m = Ret (d', r) \<and> machine_step S s d d'" if "\<exists>d' r. m = Ret (d', r) \<and> machine_step S s ?d d'" for m :: "(db \<times> isc_result) cres"
    using that machine_step_trans [OF m(2)] by blast
  have st: "\<exists>d' r. stay e ?d s = Ret (d', r) \<and> machine_step S s d d'" by (rule step [OF stay_ok [OF L(1) m(1) x]])
  have set: "\<exists>d' r. dhcp_failover_set_state e ?d s st = Ret (d', r) \<and> machine_step S s d d'"
    if "known_failover_state st" "st \<noteq> partner_down" for st
    by (rule step [OF set_state_step [OF L(1) that(1)]]) (use that(2) in simp)
  obtain d1 where d1: "dhcp_failover_rescind_updates ?d s = Ret d1" "fo_ok S d1" "fq_frame ?d d1"
  proof -
    obtain U A where q: "fq_ok S ?d U A" using fo_ok_queues(1) [OF L(1)] by blast
    obtain d1 where "dhcp_failover_rescind_updates ?d s = Ret d1" "fq_ok S d1 (U(s := A s @ U s)) (A(s := []))" "fq_frame ?d d1"
      using rescind_updates_ok [OF q] by blast
    then show ?thesis using that fo_ok_frame [OF L(1)] by blast
  qed
  have k1: "machine_ok (peers d1 s)" "expired_by_end d1 s" "machine_step S s ?d d1"
    using kept_machine [OF fq_frame_kept [OF d1(3)]] m(1) calm_expired [OF fq_frame_calm [OF d1(3)] x]
      keeps_step [OF d1(2) fq_frame_kept [OF d1(3)]] by auto
  have re: "\<exists>d' r. cbind (dhcp_failover_rescind_updates ?d s) (\<lambda>d. stay e d s) = Ret (d', r) \<and> machine_step S s d d'"
    using stay_ok [OF d1(2) k1(1,2), of e] machine_step_trans [OF machine_step_trans [OF m(2) k1(3)]] d1(1) by auto
  have "known_failover_state (shown_state (peers ?d s))" "shown_state (peers ?d s) \<noteq> startup"
    using m(1) by (auto simp: machine_ok_def shown_state_def)
  then show ?thesis using st set re
    by (cases "shown_state (peers ?d s)") (simp_all add: dhcp_failover_state_transition_def Let_def known_failover_state_def del: cbind.simps)
qed

lemma send_state_step:
  assumes "fo_ok S d" shows "\<exists>d' r. dhcp_failover_send_state e d s = Ret (d', r) \<and> machine_step S s d d'"
  using keepsr_messages(1) [OF assms, of e s] keeps_step by (auto simp: keepsr_def)

lemma connect_ok:
  assumes "fo_ok S d" "machine_ok (peers d s)"
  shows "\<exists>d' r. dhcp_failover_state_transition e d s ''connect'' = Ret (d', r) \<and> machine_step S s d d'"
proof -
  have set: "\<exists>d' r. dhcp_failover_set_state e d s st = Ret (d', r) \<and> machine_step S s d d'"
    if "known_failover_state st" "st \<noteq> partner_down" for st
    by (rule set_state_step [OF assms(1) that(1)]) (use that(2) in simp)
  have up: "\<exists>d' r. cbind (dhcp_failover_set_state e d s normal)
      (\<lambda>(d, r). cbind (dhcp_failover_send_updates e d s) (\<lambda>d. Ret (d, r))) = Ret (d', r) \<and> machine_step S s d d'"
  proof -
    obtain d1 r where d1: "dhcp_failover_set_state e d s normal = Ret (d1, r)" "machine_step S s d d1"
      using set [of normal] by (auto simp: known_failover_state_def)
    then obtain d2 where d2: "dhcp_failover_send_updates e d1 s = Ret d2" "fo_ok S d2" "peers_kept d1 d2"
      using keeps_send_updates [of S d1 e s] by (auto simp: machine_step_def keeps_def)
    show ?thesis using d1(1) d2(1) machine_step_trans [OF d1(2) keeps_step [OF d2(2,3)]] by simp
  qed
  have "known_failover_state (me_state (peers d s))" using assms(2) by (simp add: machine_ok_def)
  then show ?thesis using up set send_state_step [OF assms(1)]
    by (cases "me_state (peers d s)") (simp_all add: dhcp_failover_state_transition_def known_failover_state_def del: cbind.simps)
qed

lemma startup_ok:
  assumes "fo_ok S d"
  shows "\<exists>d' r. dhcp_failover_state_transition e d s ''startup'' = Ret (d', r) \<and> machine_step S s d d'"
  using set_state_step [OF assms, of startup s e] by (auto simp: dhcp_failover_state_transition_def known_failover_state_def)

lemma connect_timeout_ok:
  assumes "fo_ok S d" "machine_ok (peers d s)"
  shows "\<exists>d' r. dhcp_failover_state_transition e d s ''connect-timeout'' = Ret (d', r) \<and> machine_step S s d d'"
proof -
  have set: "\<exists>d' r. dhcp_failover_set_state e d s st = Ret (d', r) \<and> machine_step S s d d'"
    if "known_failover_state st" "st \<noteq> partner_down" for st
    by (rule set_state_step [OF assms(1) that(1)]) (use that(2) in simp)
  have "known_failover_state (me_state (peers d s))" using assms(2) by (simp add: machine_ok_def)
  then show ?thesis using set assms(1)
    by (cases "me_state (peers d s)") (simp_all add: dhcp_failover_state_transition_def known_failover_state_def)
qed

lemma keeps_update_request: assumes "fo_ok S d" shows "keeps S d (answer_update_request e d s xid ev)"
  unfolding answer_update_request_def
proof (rule keeps_bind)
  show "keeps S d (dhcp_failover_generate_update_queue e (upd_peer s (\<lambda>p. p\<lparr>send_update_done := None\<rparr>) d) s ev)"
    by (rule keeps_trans [OF kept_steps(3) keeps_generate_update_queue [OF ok_steps(3) [OF assms]]])
  fix d2 assume "fo_ok S d2"
  let ?d = "upd_peer s (\<lambda>p. p\<lparr>updxid := xid\<rparr>) d2"
  have 3: "fo_ok S ?d" "peers_kept d2 ?d" by (rule ok_steps(2) [OF \<open>fo_ok S d2\<close>], rule kept_steps(2))
  have "keeps S d2 (dhcp_failover_send_updates e (upd_peer s (\<lambda>p. p\<lparr>send_update_done := v\<rparr>) ?d) s)" for v
    by (rule keeps_trans [OF peers_kept_trans [OF 3(2) kept_steps(3)] keeps_send_updates [OF ok_steps(3) [OF 3(1)]]])
  moreover have "keeps S d2 (drop_result (dhcp_failover_send_update_done e ?d s))"
    by (rule keeps_trans [OF 3(2) keepsr_drop [OF keepsr_messages(6) [OF 3(1)]]])
  ultimately show "keeps S d2 (let d = ?d in case update_queue_tail (peers d s) of
        Some t \<Rightarrow> dhcp_failover_send_updates e (upd_peer s (\<lambda>p. p\<lparr>send_update_done := Some t\<rparr>) d) s
      | None \<Rightarrow> drop_result (dhcp_failover_send_update_done e d s))"
    unfolding Let_def by (simp split: option.split)
qed

lemma update_done_ok:
  assumes "fo_ok S d" "machine_ok (peers d s)"
  shows "\<exists>d'. dhcp_failover_process_update_done e d s = Ret d' \<and> machine_step S s d d'"
proof -
  let ?d = "upd_peer s (\<lambda>p. p\<lparr>curUPD := FTM_NONE\<rparr>) d"
  have ok: "fo_ok S ?d" "machine_step S s d ?d"
    using ok_steps(1) [OF assms(1)] keeps_step [OF ok_steps(1) [OF assms(1)] kept_steps(1)] by auto
  have go: "\<exists>d'. go_to e ?d s st = Ret d' \<and> machine_step S s d d'" if "known_failover_state st" "st \<noteq> partner_down" for st
    using set_state_step [OF ok(1) that(1), of s e] that(2) machine_step_trans [OF ok(2)] by (auto simp: drop_result_def)
  have wait: "\<exists>d'. cbind (go_to e ?d s recover_wait) (\<lambda>d. add_timeout d (w d) (Some RECOVER_DONE) s) = Ret d' \<and> machine_step S s d d'" for w
  proof -
    obtain d1 where d1: "go_to e ?d s recover_wait = Ret d1" "machine_step S s d d1"
      using go [of recover_wait] by (auto simp: known_failover_state_def)
    then obtain d2 where "add_timeout d1 (w d1) (Some RECOVER_DONE) s = Ret d2" "fo_ok S d2" "peers_kept d1 d2"
      using keeps_add_timeout [of S d1 "w d1"] by (auto simp: machine_step_def keeps_def)
    then show ?thesis using d1(1) machine_step_trans [OF d1(2) keeps_step] by auto
  qed
  have "known_failover_state (me_state (peers d s))" using assms(2) by (simp add: machine_ok_def)
  then show ?thesis using go wait ok(2)
    by (cases "me_state (peers d s)") (auto simp: dhcp_failover_process_update_done_def dhcp_failover_recover_done_def Let_def
        known_failover_state_def simp del: cbind.simps)
qed

end
