(* ===== verification/FailoverBind.thy ===== *)
theory FailoverBind
  imports FailoverInv
begin

text \<open>
  Binding updates that the partner sends and its acknowledgements of ours (\<open>server/failover.c\<close>): which
  are accepted, what they do to a lease, and that they keep the lease database consistent.
\<close>

unbundle bit_operations_syntax

section \<open>Messages\<close>

text \<open>
  The fields of a BNDUPD or BNDACK. \<open>options_present\<close> has a bit for each option that the message
  has; the numbers of the options themselves are other constants.
\<close>

definition FTB_ASSIGNED_IP_ADDRESS :: u32 where "FTB_ASSIGNED_IP_ADDRESS = 0x00000004"
definition FTB_ADDRESSES_TRANSFERRED :: u32 where "FTB_ADDRESSES_TRANSFERRED = 0x00000002"
definition FTB_BINDING_STATUS :: u32 where "FTB_BINDING_STATUS = 0x00000008"
definition FTB_CLIENT_IDENTIFIER :: u32 where "FTB_CLIENT_IDENTIFIER = 0x00000010"
definition FTB_CHADDR :: u32 where "FTB_CHADDR = 0x00000020"
definition FTB_CLTT :: u32 where "FTB_CLTT = 0x00000040"
definition FTB_IP_FLAGS :: u32 where "FTB_IP_FLAGS = 0x00001000"
definition FTB_LEASE_EXPIRY :: u32 where "FTB_LEASE_EXPIRY = 0x00002000"
definition FTB_POTENTIAL_EXPIRY :: u32 where "FTB_POTENTIAL_EXPIRY = 0x00040000"
definition FTB_REJECT_REASON :: u32 where "FTB_REJECT_REASON = 0x00200000"
definition FTB_STOS :: u32 where "FTB_STOS = 0x02000000"
definition FTO_POTENTIAL_EXPIRY :: u32 where "FTO_POTENTIAL_EXPIRY = 18"

definition FTR_ILLEGAL_IP_ADDR :: nat where "FTR_ILLEGAL_IP_ADDR = 1"
definition FTR_FATAL_CONFLICT :: nat where "FTR_FATAL_CONFLICT = 2"
definition FTR_MISSING_BINDINFO :: nat where "FTR_MISSING_BINDINFO = 3"
definition FTR_MISC_REJECT :: nat where "FTR_MISC_REJECT = 6"
definition FTR_LESS_CRIT_BIND_INFO :: nat where "FTR_LESS_CRIT_BIND_INFO = 16"
definition FTR_IP_NOT_RESERVED :: nat where "FTR_IP_NOT_RESERVED = 19"

definition FTF_IP_FLAG_RESERVE :: u16 where "FTF_IP_FLAG_RESERVE = 1"
definition FTF_IP_FLAG_BOOTP :: u16 where "FTF_IP_FLAG_BOOTP = 2"

text \<open>The size of \<open>hbuf\<close> in \<open>struct hardware\<close>.\<close>

definition HBUF_SIZE :: nat where "HBUF_SIZE = 21"

record failover_message =
  options_present :: u32
  msg_xid :: u32
  binding_status :: binding_state
  ip_flags :: u16
  assigned_addr :: "byte list"
  msg_cltt :: u32
  expiry :: u32
  potential_expiry :: u32
  stos :: u32
  msg_chaddr :: "byte list"
  msg_client_identifier :: "byte list"

abbreviation has_option :: "failover_message \<Rightarrow> u32 \<Rightarrow> bool" where
  "has_option m b \<equiv> options_present m AND b \<noteq> 0"

section \<open>A binding update\<close>

text \<open>Whether our update of a lease, not acknowledged yet, is to win over the partner's.\<close>

definition failover_lease_is_better :: "peer \<Rightarrow> db_lease \<Rightarrow> failover_message \<Rightarrow> bool cres" where
  "failover_lease_is_better p l m =
     (let local_state = (if binding_state l \<noteq> desired_binding_state l then desired_binding_state l else binding_state l);
          t = (if has_option m FTB_CLTT then uint (msg_cltt m) else 0);
          otherwise = Ret (binding_status m \<noteq> FTS_ACTIVE \<and> i_am p = primary)
      in case local_state of
           FTS_BOGUS _ \<Rightarrow> Fatal
         | FTS_ACTIVE \<Rightarrow>
             if binding_status m = FTS_ACTIVE
             then Ret (t < cltt l \<or> t = cltt l \<and> i_am p = primary)
             else if binding_status m = FTS_EXPIRED then Ret False
             else otherwise
         | _ \<Rightarrow> otherwise)"

text \<open>
  The markup of the copy \<open>l\<close> of the lease: the hardware address, the client identifier, the times
  and the flags, each with the reason for which the update is refused. The first two also say
  whether the client changed. A copy whose identifier is in allocated memory keeps that memory,
  which is larger than \<open>uid_buf\<close>; when there was memory for the copy there is for its identifier.
\<close>

definition mark_chaddr :: "failover_message \<Rightarrow> db_lease \<Rightarrow> nat + db_lease \<times> bool" where
  "mark_chaddr m l =
     (if has_option m FTB_CHADDR then
        if binding_status m = FTS_ABANDONED then Inl FTR_MISC_REJECT
        else if HBUF_SIZE < length (msg_chaddr m) then Inl FTR_MISC_REJECT
        else Inr (l\<lparr>hardware_addr := msg_chaddr m\<rparr>, hardware_addr l \<noteq> msg_chaddr m)
      else if binding_status m = FTS_ACTIVE \<or> binding_status m = FTS_EXPIRED \<or> binding_status m = FTS_RELEASED
      then Inl FTR_MISSING_BINDINFO
      else if binding_status m = FTS_ABANDONED then Inr (l\<lparr>hardware_addr := [], scope := None\<rparr>, True)
      else Inr (l, False))"

definition mark_ident :: "failover_message \<Rightarrow> db_lease \<Rightarrow> nat + db_lease \<times> bool" where
  "mark_ident m l =
     (if has_option m FTB_CLIENT_IDENTIFIER then
        if binding_status m = FTS_ABANDONED then Inl FTR_MISC_REJECT
        else
          let u = msg_client_identifier m;
              in_buf = (if uid l \<noteq> None \<and> \<not> uid_in_buf l then False else length u \<le> UID_BUF_SIZE)
          in Inr (l\<lparr>uid := Some u, uid_in_buf := in_buf\<rparr>, uid l \<noteq> Some u)
      else if uid l \<noteq> None \<and> binding_status m \<noteq> FTS_RESET \<and> binding_status m \<noteq> FTS_FREE \<and> binding_status m \<noteq> FTS_BACKUP
      then Inr (l\<lparr>uid := None\<rparr>, True)
      else Inr (l, False))"

definition mark_times :: "failover_message \<Rightarrow> db_lease \<Rightarrow> db_lease" where
  "mark_times m l =
     (let l = (if has_option m FTB_STOS then l\<lparr>starts := uint (stos m)\<rparr> else l);
          l = (if has_option m FTB_LEASE_EXPIRY then l\<lparr>ends := uint (expiry m)\<rparr> else l)
      in if has_option m FTB_POTENTIAL_EXPIRY
         then l\<lparr>tsfp := uint (potential_expiry m), atsfp := uint (potential_expiry m)\<rparr> else l)"

text \<open>\<open>cur\<close> is the lease itself: a lease that is ours to give can only be reserved by us.\<close>

definition mark_flags :: "peer \<Rightarrow> failover_message \<Rightarrow> db_lease \<Rightarrow> db_lease \<Rightarrow> nat + db_lease" where
  "mark_flags p m cur l =
     (let ours = (i_am p = primary \<and> binding_state cur = FTS_FREE \<or> i_am p = secondary \<and> binding_state cur = FTS_BACKUP)
      in if has_option m FTB_IP_FLAGS then
           if ip_flags m AND FTF_IP_FLAG_RESERVE \<noteq> 0 \<and> ours \<and> \<not> has_flag cur RESERVED_LEASE then Inl FTR_IP_NOT_RESERVED
           else
             let l = l\<lparr>flags := (if ip_flags m AND FTF_IP_FLAG_RESERVE \<noteq> 0 then flags l OR RESERVED_LEASE
                                 else flags l AND NOT RESERVED_LEASE)\<rparr>
             in if ip_flags m AND FTF_IP_FLAG_BOOTP \<noteq> 0 \<and> ours \<and> \<not> has_flag cur BOOTP_LEASE then Inl FTR_MISC_REJECT
                else Inr (l\<lparr>flags := (if ip_flags m AND FTF_IP_FLAG_BOOTP \<noteq> 0 then flags l OR BOOTP_LEASE
                                      else flags l AND NOT BOOTP_LEASE)\<rparr>)
         else Inr (l\<lparr>flags := flags l AND NOT (RESERVED_LEASE OR BOOTP_LEASE)\<rparr>))"

definition secondary_not_hoarding :: "peer \<Rightarrow> pool \<Rightarrow> bool" where
  "secondary_not_hoarding p pl \<longleftrightarrow>
     - percent_of (free_leases pl + backup_leases pl) (max_lease_ownership p) <
       (free_leases pl - backup_leases pl) sdiv 2"

text \<open>A negative acknowledgement is sent at once; whether it could be is not noticed.\<close>

definition reject_update :: "db_env \<Rightarrow> db \<Rightarrow> nat \<Rightarrow> failover_message \<Rightarrow> nat \<Rightarrow> db cres" where
  "reject_update e d s m reason =
     cbind (dhcp_failover_send_bind_ack e d s (msg_xid m) reason) (\<lambda>(d, _). Ret d)"

text \<open>Giving the lease back to the peer that its client will ask, when the peer does not have too many.\<close>

definition give_back :: "db_env \<Rightarrow> db \<Rightarrow> ptr \<Rightarrow> db cres" where
  "give_back e d a =
     cbind (supersede_lease e (upd_lease a (\<lambda>l. l\<lparr>next_binding_state := FTS_BACKUP, tstp := cur_time d, starts := cur_time d\<rparr>) d)
              a None False True False False)
       (\<lambda>(d, ok). Ret (if ok then write_lease d a else d))"

text \<open>What the copy \<open>lt\<close> is given at last, and how it is installed in the lease \<open>a\<close>.\<close>

definition installed_state :: "binding_state \<Rightarrow> binding_state" where
  "installed_state st = (if st = FTS_EXPIRED \<or> st = FTS_RELEASED \<or> st = FTS_RESET then FTS_FREE else st)"

definition install_update :: "db_env \<Rightarrow> db \<Rightarrow> nat \<Rightarrow> ptr \<Rightarrow> failover_message \<Rightarrow> ptr \<Rightarrow> binding_state \<Rightarrow> db cres" where
  "install_update e d s lt m a new =
     (let idle = (new = FTS_EXPIRED \<or> new = FTS_RELEASED \<or> new = FTS_RESET);
          nx = installed_state new;
          d = upd_lease lt (\<lambda>l. l\<lparr>next_binding_state := nx\<rparr>) d
      in cbind (if idle \<and> i_am (peers d s) = primary \<and> \<not> has_flag (heap d lt) (RESERVED_LEASE OR BOOTP_LEASE)
                then peer_wants_lease d lt else Ret False)
           (\<lambda>send_to_backup.
              cbind (supersede_lease e (upd_lease a (\<lambda>l. l\<lparr>rewind_binding_state := nx\<rparr>) d) a (Some lt) False False False False)
                (\<lambda>(d, ok).
                   let written = write_lease_ok e (heap d a);
                       d = (if ok then write_lease d a else d)
                   in if \<not> (ok \<and> written) then reject_update e d s m FTR_MISC_REJECT
                      else cbind (dhcp_failover_queue_ack e d s (msg_xid m))
                             (\<lambda>d. case l_pool (heap d a) of
                                    None \<Rightarrow> if send_to_backup then Undef else Ret d
                                  | Some p \<Rightarrow>
                                      if send_to_backup \<and> secondary_not_hoarding (peers d s) (pools d p)
                                      then cbind (give_back e d a) (\<lambda>d. dhcp_failover_send_updates e d s)
                                      else Ret d))))"

definition check_update :: "db \<Rightarrow> nat \<Rightarrow> failover_message \<Rightarrow> ptr \<Rightarrow> binding_state cres" where
  "check_update d s m a =
     (if me_state (peers d s) = normal
      then normal_binding_state_transition_check (cur_time d) (heap d a) (peers d s) (binding_status m) (uint (potential_expiry m))
      else conflict_binding_state_transition_check (cur_time d) (heap d a) (peers d s) (binding_status m) (uint (potential_expiry m)))"

text \<open>
  The update of the lease \<open>a\<close>, whose copy is to be made in the newly allocated \<open>lt\<close>. When the client
  of an active lease changes, the lease's DNS entries and variables are removed.
\<close>

definition apply_update :: "db_env \<Rightarrow> db \<Rightarrow> nat \<Rightarrow> ptr \<Rightarrow> failover_message \<Rightarrow> ptr \<Rightarrow> db cres" where
  "apply_update e d s lt m a =
     (case lease_copy d lt a of
        None \<Rightarrow> reject_update e d s m FTR_MISC_REJECT
      | Some d \<Rightarrow>
          (case mark_chaddr m (heap d lt) of
             Inl r \<Rightarrow> reject_update e d s m r
           | Inr (l, chaddr_changed) \<Rightarrow>
               (case mark_ident m l of
                  Inl r \<Rightarrow> reject_update e d s m r
                | Inr (l, ident_changed) \<Rightarrow>
                    let d = (if binding_status m = FTS_ACTIVE \<and> (chaddr_changed \<or> ident_changed)
                             then upd_lease a (\<lambda>l. l\<lparr>scope := None\<rparr>) (emit (EvDdnsRemovals a) d) else d)
                    in case mark_flags (peers d s) m (heap d a) (mark_times m l) of
                         Inl r \<Rightarrow> reject_update e d s m r
                       | Inr l \<Rightarrow>
                           let d = upd_lease lt (\<lambda>_. l) d
                           in cbind (check_update d s m a)
                                (\<lambda>new. if new \<noteq> binding_status m then reject_update e d s m FTR_FATAL_CONFLICT
                                       else install_update e d s lt m a new))))"

definition dhcp_failover_process_bind_update :: "db_env \<Rightarrow> db \<Rightarrow> nat \<Rightarrow> ptr \<Rightarrow> failover_message \<Rightarrow> db cres" where
  "dhcp_failover_process_bind_update e d s lt m =
     (if \<not> (has_option m FTB_ASSIGNED_IP_ADDRESS \<and> has_option m FTB_BINDING_STATUS)
      then reject_update e d s m FTR_MISSING_BINDINFO
      else case find_lease_by_ip_addr d (assigned_addr m) of
             None \<Rightarrow> reject_update e d s m FTR_ILLEGAL_IP_ADDR
           | Some a \<Rightarrow>
               if lease_peer d (heap d a) \<noteq> Some s then reject_update e d s m FTR_ILLEGAL_IP_ADDR
               else if \<not> has_flag (heap d a) ON_ACK_QUEUE then apply_update e d s lt m a
               else cbind (failover_lease_is_better (peers d s) (heap d a) m)
                      (\<lambda>better. if better then reject_update e d s m FTR_LESS_CRIT_BIND_INFO
                                else cbind (dhcp_failover_ack_queue_remove d s a) (\<lambda>d. apply_update e d s lt m a)))"

section \<open>An acknowledgement\<close>

text \<open>
  The label \<open>unqueue\<close>: the lease leaves the queue of unacknowledged updates, an update-done message
  that waits for it is sent, and the next updates are sent.
\<close>

definition unqueue_ack :: "db_env \<Rightarrow> db \<Rightarrow> nat \<Rightarrow> ptr \<Rightarrow> bool \<Rightarrow> db cres" where
  "unqueue_ack e d s a send_to_backup =
     cbind (dhcp_failover_ack_queue_remove d s a)
       (\<lambda>d. cbind (if send_update_done (peers d s) = Some a
                   then drop_result (dhcp_failover_send_update_done e (upd_peer s (\<lambda>p. p\<lparr>send_update_done := None\<rparr>) d) s)
                   else Ret d)
         (\<lambda>d. cbind (case l_pool (heap d a) of
                       None \<Rightarrow> if send_to_backup then Undef else Ret d
                     | Some p \<Rightarrow>
                         if send_to_backup \<and> secondary_not_hoarding (peers d s) (pools d p)
                         then cbind (give_back e d a) (\<lambda>d. Ret (if me_state (peers d s) = normal then commit_leases d else d))
                         else Ret d)
           (\<lambda>d. dhcp_failover_send_updates e d s)))"

text \<open>
  The time that the partner acknowledges, as the code computes it: it tests \<open>options_present\<close> with the
  number of the option and not with its bit. The variable has 32 bits.
\<close>

definition acked_expiry :: "failover_message \<Rightarrow> db_lease \<Rightarrow> int" where
  "acked_expiry m l = (if has_option m FTO_POTENTIAL_EXPIRY then uint (potential_expiry m) else tstp l mod 2 ^ 32)"

definition ack_transition :: "db_env \<Rightarrow> db \<Rightarrow> nat \<Rightarrow> failover_message \<Rightarrow> ptr \<Rightarrow> (db \<times> bool) cres" where
  "ack_transition e d s m a =
     (let t = acked_expiry m (heap d a);
          d = upd_lease a (\<lambda>l. l\<lparr>atsfp := t, tsfp := t\<rparr>) d
      in if desired_binding_state (heap d a) \<in> {FTS_EXPIRED, FTS_RESET, FTS_RELEASED}
         then
           let nx = (if i_am (peers d s) = secondary \<and> has_flag (heap d a) RESERVED_LEASE then FTS_BACKUP else FTS_FREE);
               d = upd_lease a (\<lambda>l. l\<lparr>next_binding_state := nx, desired_binding_state := nx, rewind_binding_state := nx\<rparr>) d
           in cbind (supersede_lease e d a None False False False False)
                (\<lambda>(d, _).
                   let d = write_lease d a
                   in cbind (if i_am (peers d s) = primary \<and> \<not> has_flag (heap d a) (RESERVED_LEASE OR BOOTP_LEASE)
                             then peer_wants_lease d a else Ret False)
                        (\<lambda>b. Ret (if \<not> b \<and> me_state (peers d s) = normal then commit_leases d else d, b)))
         else
           cbind (if desired_binding_state (heap d a) \<noteq> binding_state (heap d a)
                  then cbind (supersede_lease e (upd_lease a (\<lambda>l. l\<lparr>next_binding_state := desired_binding_state l\<rparr>) d)
                                a None False False False False) (\<lambda>(d, _). Ret d)
                  else Ret d)
             (\<lambda>d. cbind (add_timeout (write_lease d a) (cur_time d + 2, 0) (Some COMMIT_LEASES) 0) (\<lambda>d. Ret (d, False))))"

definition dhcp_failover_process_bind_ack :: "db_env \<Rightarrow> db \<Rightarrow> nat \<Rightarrow> failover_message \<Rightarrow> db cres" where
  "dhcp_failover_process_bind_ack e d s m =
     (case find_lease_by_ip_addr d (assigned_addr m) of
        None \<Rightarrow> Ret d
      | Some a \<Rightarrow>
          if has_option m FTB_REJECT_REASON \<or> last_xid (heap d a) = 0 then unqueue_ack e d s a False
          else if last_xid (heap d a) \<noteq> msg_xid m then Ret d
          else cbind (ack_transition e d s m a) (\<lambda>(d, b). unqueue_ack e d s a b))"

section \<open>What a change of a lease keeps\<close>

lemma copy_frame_kept: "copy_frame a d d' \<Longrightarrow> peers_kept d d'"
  by (simp add: copy_frame_def peers_kept_def peer_frame_def)

lemma kept_core_copy:
  assumes "db_ok S d" "request_ok S d a (Some s)" "supersede_core e d a (Some s) c pg pimm = Ret (d', r)"
  shows "peers_kept d d'"
proof -
  obtain d1 where d1: "supersede_copy d a s = Ret d1" "copy_frame a d d1"
    using supersede_copy_ok [OF assms(1), of a s] assms(2) by (auto simp: request_ok_def)
  show ?thesis using assms(3) d1 kept_move peers_kept_trans [OF copy_frame_kept [OF d1(2)]]
    by (auto simp: supersede_core_def split: if_splits)
qed

lemma kept_supersede_core:
  assumes "db_ok S d" "request_ok S d a lease" "supersede_core e d a lease c pg pimm = Ret (d', r)"
  shows "peers_kept d d'"
  using assms kept_core kept_core_copy by (cases lease) auto

lemma kept_timer_walk_step:
  assumes "timer_walk e p q d lease n = Some r" shows "\<forall>d' n'. r = Ret (d', n') \<longrightarrow> peers_kept d d'"
proof (rule timer_walk.raw_induct [where P = "\<lambda>e p q d lease n r. \<forall>d' n'. r = Ret (d', n') \<longrightarrow> peers_kept d d'", OF _ assms],
    intro allI impI)
  fix loop e p q d lease n r d' n'
  assume ih: "\<And>e p q d lease n r. loop e p q d lease n = Some r \<Longrightarrow> \<forall>d' n'. r = Ret (d', n') \<longrightarrow> peers_kept d d'" and r: "r = Ret (d', n')"
    and body: "(case lease of
        None \<Rightarrow> Some (Ret (d, n))
      | Some a \<Rightarrow>
          let nx = next_on (queue (pools d p) q) a;
              l = heap d a
          in if cur_time d < sort_time l
             then Some (Ret (d, if sort_time l < n then sort_time l else n))
             else if next_binding_state l \<noteq> binding_state l
             then (let d = (if may_rewind d l
                            then upd_lease a (\<lambda>l. l\<lparr>next_binding_state := rewind_binding_state l\<rparr>) d else d)
                   in case supersede_core e d a None True True True of
                        Undef \<Rightarrow> Some Undef
                      | Fatal \<Rightarrow> Some Fatal
                      | Ret (d, _) \<Rightarrow> loop e p q d nx n)
             else loop e p q d nx n) = Some r"
  have go: "loop e p q d1 x n = Some (Ret (d', n')) \<Longrightarrow> peers_kept d1 d'" for d1 x using ih by blast
  have rw: "peers_kept d (if b then upd_lease a (\<lambda>l. l\<lparr>next_binding_state := rewind_binding_state l\<rparr>) d else d)" for a b
    by (simp add: peers_kept_def peer_frame_def)
  have step: "peers_kept d d'" if "supersede_core e (rewound d a) a None True True True = Ret (d1, x)" "peers_kept d1 d'" for a d1 x
    using peers_kept_trans [OF rw peers_kept_trans [OF kept_core that(2)]] that(1) unfolding rewound_def by blast
  show "peers_kept d d'"
  proof (cases lease)
    case None
    then show ?thesis using body r by simp
  next
    case (Some a)
    then show ?thesis using body r go step unfolding Let_def rewound_def [symmetric]
      by (auto split: if_splits cres.splits)
  qed
qed

lemma kept_timer_walk: "timer_walk e p q d lease n = Some (Ret (d', n')) \<Longrightarrow> peers_kept d d'"
  using kept_timer_walk_step by blast

lemma kept_timer_queues: "timer_queues e p qs d n = Ret (d', n') \<Longrightarrow> peers_kept d d'"
proof (induction qs arbitrary: d n)
  case (Cons q qs)
  then show ?case using kept_timer_walk peers_kept_trans
    by (fastforce simp: cres_simps split: list.splits if_splits option.splits)
qed simp

lemma kept_pool_timer: "pool_timer e d p = Ret d' \<Longrightarrow> peers_kept d d'"
proof -
  assume "pool_timer e d p = Ret d'"
  then obtain d1 n where d1: "timer_queues e p lptr d MAX_TIME = Ret (d1, n)"
      "add_timeout (upd_pool p (\<lambda>pl. pl\<lparr>next_event_time := n\<rparr>) d1) (n, 0) (Some POOL_TIMER) p = Ret d' \<or>
       d' = upd_pool p (\<lambda>pl. pl\<lparr>next_event_time := MIN_TIME\<rparr>) d1"
    by (auto simp: pool_timer_def cres_simps split: if_splits)
  have "peers_kept d1 d'" using d1(2) kept_add_timeout by (auto simp: peers_kept_def peer_frame_def)
  with kept_timer_queues [OF d1(1)] show ?thesis by (rule peers_kept_trans)
qed


text \<open>
  A change after which the lease is not overdue: it ends later, or its new state lasts. Then no
  other lease changes.
\<close>

definition settled :: "int \<Rightarrow> db_lease \<Rightarrow> bool" where
  "settled now src \<longleftrightarrow> now \<le> ends src \<or> next_binding_state src = FTS_FREE \<or> next_binding_state src = FTS_BACKUP"

lemma fo_supersede:
  assumes "fo_ok S d" "request_ok S d a lease" "c \<or> \<not> pimm"
  shows "\<exists>d' b. supersede_lease e d a lease c pg pimm fp = Ret (d', b) \<and> fo_ok S d' \<and> peers_kept d d' \<and>
     (settled (cur_time d) (source_lease d a lease) \<longrightarrow> lease_changed a (source_lease d a lease) d d')"
proof -
  let ?src = "source_lease d a lease"
  obtain d1 r where d1: "supersede_core e d a lease c pg pimm = Ret (d1, r)" "r \<noteq> Some True" "db_ok S d1" "lease_changed a ?src d d1"
    using supersede_core_ok [OF fo_okD(1) [OF assms(1)] assms(2,3)] by blast
  have k1: "peers_kept d d1" by (rule kept_supersede_core [OF fo_okD(1) [OF assms(1)] assms(2) d1(1)])
  have nx: "next_binding_state ?src \<noteq> FTS_BOGUS x" for x
    using assms(2) by (auto simp: request_ok_def source_lease_def split: option.splits)
  have n1: "next_binding_state (heap d1 a) \<noteq> FTS_BOGUS x" for x
    using d1(4) nx by (cases "next_binding_state ?src") (auto simp: lease_changed_def after_state_def)
  have "valid_next d1 p" for p
    by (rule valid_next_changed [where a = a, OF fo_okD(1) [OF assms(1)] d1(3) _ _ fo_okD(2) [OF assms(1)] n1])
      (use d1(4) in \<open>simp_all add: lease_changed_def\<close>)
  then have ok1: "fo_ok S d1" using d1(3) assms(1) kept_hba [OF k1] by (simp add: fo_ok_def)
  obtain p where p: "l_pool (heap d1 a) = Some p"
    using state_of_lease [OF d1(3), of a] assms(2) by (auto simp: request_ok_def)
  obtain d2 where d2: "pool_timer e d1 p = Ret d2" "fo_ok S d2" "peers_kept d d2"
  proof -
    obtain d2 where d2: "pool_timer e d1 p = Ret d2" "db_ok S d2" "\<forall>p'. valid_next d1 p' \<longrightarrow> valid_next d2 p'"
      using pool_timer_ok [OF d1(3) fo_okD(2) [OF ok1]] by blast
    have "peers_kept d1 d2" by (rule kept_pool_timer [OF d2(1)])
    then show ?thesis using d2 ok1 kept_hba [OF \<open>peers_kept d1 d2\<close>] peers_kept_trans [OF k1]
      by (intro that [OF d2(1)]) (simp_all add: fo_ok_def)
  qed
  have stays: "\<not> (sort_time (heap d1 a) < cur_time d1 \<and> next_binding_state (heap d1 a) \<noteq> binding_state (heap d1 a))"
    if "settled (cur_time d) ?src"
    using that d1(4) by (auto simp: settled_def lease_changed_def after_state_def)
  show ?thesis using d1 ok1 k1 d2 p stays unfolding supersede_lease_def by (cases r) auto
qed

section \<open>The steps keep the invariant\<close>

lemma keepsr_send_ack: assumes "fo_ok S d" shows "keepsr S d (dhcp_failover_send_bind_ack e d s x r)"
proof -
  obtain d' b where "dhcp_failover_send_bind_ack e d s x r = Ret (d', b)" "fq_same d d'"
    using send_bind_ack_ok [OF fo_ok_nomem [OF assms]] by blast
  then show ?thesis by (rule keepsr_same [OF assms])
qed

lemma keeps_reject: "fo_ok S d \<Longrightarrow> keeps S d (reject_update e d s m r)"
  unfolding reject_update_def by (rule keepsr_bind_keeps [OF keepsr_send_ack]) simp_all

lemma queue_ack_same:
  assumes "fo_ok S d" shows "\<exists>d'. dhcp_failover_queue_ack e d s x = Ret d' \<and> fq_same d d'"
proof -
  let ?d = "upd_peer s (\<lambda>p. p\<lparr>toack_queue := toack_queue p @ [x], pending_acks := pending_acks p + 1\<rparr>) d"
  let ?flush = "if int (partner_max_flying_updates (peers ?d s) div 2) \<le> pending_acks (peers ?d s)
     then cbind (dhcp_failover_send_acks e ?d s) (\<lambda>(d, _). Ret d) else Ret ?d"
  have same: "fq_same d ?d" by (simp add: fq_same_def fq_frame_upd_peer peer_frame_def)
  have ok: "fo_ok S ?d" by (rule fo_ok_same [OF assms same])
  obtain d1 b where d1: "dhcp_failover_send_acks e ?d s = Ret (d1, b)" "fq_same ?d d1"
    using send_acks_ok [OF fo_ok_nomem [OF ok]] by blast
  obtain d2 where d2: "?flush = Ret d2" "fq_same d d2"
    using that [of d1] that [of ?d] d1(1) same fq_same_trans [OF same d1(2)] by (cases "int (partner_max_flying_updates (peers ?d s) div 2) \<le> pending_acks (peers ?d s)") auto
  obtain d3 where d3: "add_timeout d2 (cur_time d2 + 2, 0) (Some TOACK_QUEUE_TIMEOUT) s = Ret d3"
    using add_timeout_returns [OF fo_ok_nomem [OF fo_ok_same [OF assms d2(2)]]] by blast
  show ?thesis using d2 d3 fq_same_trans [OF d2(2) fq_same_add_timeout(1) [OF d3]] unfolding dhcp_failover_queue_ack_def Let_def d2(1)
    by auto
qed

lemma ack_scan_None:
  assumes "sll (\<lambda>b. next_pending (h b)) xs None" "a \<notin> set xs"
  shows "ack_scan h a (seg_head xs None) = Some None"
  using assms
proof (induction xs)
  case (Cons x xs)
  then have "next_pending (h x) = seg_head xs None" "seg_head xs None \<noteq> Some a" by (cases xs; auto)+
  then show ?case using Cons by (simp add: ack_scan.simps [of _ _ "Some x"])
qed (simp add: ack_scan.simps)

lemma keeps_ack_remove: assumes "fo_ok S d" "a \<in> S" shows "keeps S d (dhcp_failover_ack_queue_remove d s a)"
proof -
  obtain U A where q: "fq_ok S d U A" using fo_ok_queues(1) [OF assms(1)] by blast
  consider "\<not> on_ack d a" | "on_ack d a" "peer_of d a = Some s" | "a \<notin> set (A s)" "on_ack d a" using fq_okD(5) [OF q] by blast
  then show ?thesis
  proof cases
    case 1
    then show ?thesis using assms(1) by (simp add: dhcp_failover_ack_queue_remove_def on_ack_def)
  next
    case 2
    obtain d' where d': "dhcp_failover_ack_queue_remove d s a = Ret d'" "fq_ok S d' U (A(s := remove1 a (A s)))"
      using ack_queue_remove_ok [OF q 2(2,1) assms(2)] by blast
    note fr = fq_frame_ack_queue_remove [OF d'(1)]
    show ?thesis using d' fo_ok_frame [OF assms(1) fr] fq_frame_kept [OF fr] by auto
  next
    case 3
    have l: "linked (pend d) (ack_queue_head (peers d s)) (ack_queue_tail (peers d s)) (A s)" by (rule fq_okD(2) [OF q])
    then have "ack_scan (heap d) a (ack_queue_head (peers d s)) = Some None" "ack_queue_head (peers d s) \<noteq> Some a"
      using ack_scan_None [of "heap d" "A s" a] 3(1) by (cases "A s"; auto simp: linked_def pend_def [abs_def])+
    then show ?thesis using assms(1) 3(2) by (simp add: dhcp_failover_ack_queue_remove_def ack_queue_unlink_def on_ack_def)
  qed
qed

section \<open>What an update does\<close>

text \<open>
  Preparing an update, or refusing it: no lease but the copy \<open>lt\<close> changes its state, and neither do the
  pools, the link and the queue of updates to acknowledge.
\<close>

definition reservation :: "db_lease \<Rightarrow> bool \<times> bool" where
  "reservation l = (has_flag l RESERVED_LEASE, has_flag l BOOTP_LEASE)"

lemma fq_frame_reservation: assumes "fq_frame d d'" shows "reservation (heap d' a) = reservation (heap d a)"
  using assms by (simp add: fq_frame_def lease_frame_def reservation_def flag_bits)

definition prepared :: "ptr set \<Rightarrow> nat \<Rightarrow> ptr \<Rightarrow> db \<Rightarrow> db \<Rightarrow> bool" where
  "prepared S s lt d d' \<longleftrightarrow> fo_ok S d' \<and> peers_kept d d' \<and> pools d' = pools d \<and>
     (\<forall>b. b \<noteq> lt \<longrightarrow> state_view (heap d' b) = state_view (heap d b) \<and> reservation (heap d' b) = reservation (heap d b)) \<and>
     link_xid (peers d' s) = link_xid (peers d s) \<and> toack_queue (peers d' s) = toack_queue (peers d s)"

lemma prepared_trans [trans]: "prepared S s lt d d' \<Longrightarrow> prepared S s lt d' d'' \<Longrightarrow> prepared S s lt d d''"
  unfolding prepared_def using peers_kept_trans by auto

lemma prepared_refl: "fo_ok S d \<Longrightarrow> prepared S s lt d d"
  by (simp add: prepared_def)

lemma prepared_emit: "fo_ok S d \<Longrightarrow> prepared S s lt d (emit ev d)"
  using ok_steps(6) kept_steps(6) by (simp add: prepared_def)

lemma prepared_ack_remove:
  assumes "fo_ok S d" "a \<in> S"
  shows "\<exists>d'. dhcp_failover_ack_queue_remove d s a = Ret d' \<and> prepared S s lt d d' \<and> fq_frame d d'"
proof -
  obtain d' where d': "dhcp_failover_ack_queue_remove d s a = Ret d'" "fo_ok S d'" "peers_kept d d'"
    using keeps_ack_remove [OF assms] unfolding keeps_def by blast
  note fr = fq_frame_ack_queue_remove [OF d'(1)]
  show ?thesis using d' fr fq_frame_sel(6) [OF fr] fq_frame_calm [OF fr] fq_frame_reservation [OF fr] ack_remove_link [OF d'(1)]
    by (simp add: prepared_def calm_def)
qed

lemma fo_ok_copy:
  assumes "fo_ok S d" "lt \<notin> S" "n_uid (f (heap d lt)) = None" "n_hw (f (heap d lt)) = None"
  shows "fo_ok S (upd_lease lt f d)"
proof -
  have db: "db_ok S (upd_lease lt f d)" by (rule db_ok_copy [where f = f, OF fo_okD(1) [OF assms(1)] assms(2-4)])
  have "valid_next (upd_lease lt f d) p" for p
    using fo_okD(2) [OF assms(1), of p] assms(2) pool_leases_iff [OF db] pool_leases_iff [OF fo_okD(1) [OF assms(1)]]
    by (auto simp: valid_next_def pool_leases_def on_queue_def)
  then show ?thesis using db assms(1) by (simp add: fo_ok_def)
qed

lemma prepared_copy:
  assumes "fo_ok S d" "lt \<notin> S" "n_uid (f (heap d lt)) = None" "n_hw (f (heap d lt)) = None"
  shows "prepared S s lt d (upd_lease lt f d)"
  using fo_ok_copy [where f = f, OF assms] by (simp add: prepared_def peers_kept_def peer_frame_def)

lemma fo_ok_upd:
  assumes "fo_ok S d" "queue_view (f (heap d a)) = queue_view (heap d a)" "side_view (f (heap d a)) = side_view (heap d a)"
    "billing_class (f (heap d a)) = billing_class (heap d a)"
    "a \<in> S \<Longrightarrow> \<forall>x. next_binding_state (f (heap d a)) \<noteq> FTS_BOGUS x"
  shows "fo_ok S (upd_lease a f d)"
proof -
  have db: "db_ok S (upd_lease a f d)" by (rule db_ok_upd [where f = f, OF fo_okD(1) [OF assms(1)] assms(2-4)])
  have "valid_next (upd_lease a f d) p" for p
    using fo_okD(2) [OF assms(1), of p] assms(5) pool_leases_iff [OF fo_okD(1) [OF assms(1)]]
    by (auto simp: valid_next_def pool_leases_def)
  then show ?thesis using db assms(1) by (simp add: fo_ok_def)
qed

lemma prepared_scope:
  assumes "fo_ok S d" shows "prepared S s lt d (upd_lease a (\<lambda>l. l\<lparr>scope := None\<rparr>) (emit ev d))"
proof -
  have "prepared S s lt d (emit ev d)" by (rule prepared_emit [OF assms])
  also have "prepared S s lt (emit ev d) (upd_lease a (\<lambda>l. l\<lparr>scope := None\<rparr>) (emit ev d))"
  proof -
    have ok: "fo_ok S (emit ev d)" by (rule ok_steps(6) [OF assms])
    have "fo_ok S (upd_lease a (\<lambda>l. l\<lparr>scope := None\<rparr>) (emit ev d))"
    proof (rule fo_ok_upd [OF ok])
      assume "a \<in> S"
      then have "\<forall>x. next_binding_state (heap d a) \<noteq> FTS_BOGUS x"
        using state_of_lease [OF fo_okD(1) [OF assms]] fo_okD(2) [OF assms] pool_leases_iff [OF fo_okD(1) [OF assms]]
        by (fastforce simp: valid_next_def)
      then show "\<forall>x. next_binding_state ((heap (emit ev d) a)\<lparr>scope := None\<rparr>) \<noteq> FTS_BOGUS x" by simp
    qed (simp_all add: queue_view_def queue_of_def side_view_def)
    then show ?thesis by (auto simp: prepared_def peers_kept_def peer_frame_def state_view_def queue_view_def queue_of_def reservation_def)
  qed
  finally show ?thesis .
qed

text \<open>The answer to an update that is refused.\<close>

lemma reject_update_ok:
  assumes "fo_ok S d"
  shows "\<exists>d'. reject_update e d s m r = Ret d' \<and> prepared S s lt d d' \<and>
     (link_xid (peers d s) \<noteq> None \<and> put_message_ok e \<longrightarrow> EvBindAck s (msg_xid m) r \<in> set (events d'))"
proof (cases "link_xid (peers d s) = None \<or> \<not> put_message_ok e")
  case True
  then show ?thesis using prepared_refl [OF assms] prepared_emit [OF assms]
    by (auto simp: reject_update_def dhcp_failover_send_bind_ack_def dhcp_failover_put_message_def)
next
  case False
  let ?d = "emit (EvBindAck s (msg_xid m) r) d" and ?w = "(cur_time d + c_int (partner_max_response_delay (peers d s)) sdiv 3, 0)"
  have ok: "fo_ok S ?d" by (rule ok_steps(6) [OF assms])
  obtain d' where d': "add_timeout ?d ?w (Some SEND_CONTACT) s = Ret d'" "fo_ok S d'" "peers_kept ?d d'"
    using keeps_add_timeout [OF ok] unfolding keeps_def by blast
  have fr: "heap d' = heap d" "pools d' = pools d" "peers d' = peers d" "events d' = events ?d"
    by (subst add_timeout_frame [OF d'(1)], simp)+
  have "peers_kept d d'" by (rule peers_kept_trans [OF kept_steps(6) d'(3)])
  then have "prepared S s lt d d'" using d'(2) fr by (simp add: prepared_def)
  then show ?thesis using False d'(1) fr(4)
    by (auto simp: reject_update_def dhcp_failover_send_bind_ack_def dhcp_failover_put_message_def)
qed

text \<open>
  What is needed of the leases that an update can be about: the address table finds leases of
  the database, they have no fixed addresses, an identifier in the buffer of a lease fits it, and
  an update that was sent was for one of the states.
\<close>

definition copyable :: "ptr set \<Rightarrow> db \<Rightarrow> bool" where
  "copyable S d \<longleftrightarrow> (\<forall>a \<in> S. \<not> has_flag (heap d a) STATIC_LEASE \<and>
     (\<forall>u. uid (heap d a) = Some u \<and> uid_in_buf (heap d a) \<longrightarrow> length u \<le> UID_BUF_SIZE))"

definition bindable :: "ptr set \<Rightarrow> db \<Rightarrow> bool" where
  "bindable S d \<longleftrightarrow> copyable S d \<and> (\<forall>k a. ip_hash d k = Some a \<longrightarrow> a \<in> S) \<and>
     (\<forall>a \<in> S. on_ack d a \<or> last_xid (heap d a) \<noteq> 0 \<longrightarrow> known_state (desired_binding_state (heap d a)))"

text \<open>A copy that can be installed.\<close>

definition markup :: "db_lease \<Rightarrow> bool" where
  "markup l \<longleftrightarrow> n_uid l = None \<and> n_hw l = None \<and> \<not> has_flag l STATIC_LEASE \<and>
     (\<forall>u. uid l = Some u \<and> uid_in_buf l \<longrightarrow> length u \<le> UID_BUF_SIZE)"

lemma mark_chaddr_markup: "mark_chaddr m l = Inr (l', c) \<Longrightarrow> markup l' = markup l \<and> ends l' = ends l"
  by (auto simp: mark_chaddr_def markup_def split: if_splits)

lemma mark_ident_markup: "mark_ident m l = Inr (l', c) \<Longrightarrow> markup l \<Longrightarrow> markup l' \<and> ends l' = ends l"
  by (auto simp: mark_ident_def markup_def Let_def split: if_splits)

definition updated_end :: "failover_message \<Rightarrow> int \<Rightarrow> int" where
  "updated_end m t = (if has_option m FTB_LEASE_EXPIRY then uint (expiry m) else t)"

lemma mark_times_markup: "markup (mark_times m l) = markup l" "ends (mark_times m l) = updated_end m (ends l)"
  by (simp_all add: mark_times_def markup_def updated_end_def Let_def)

lemma mark_flags_markup:
  assumes "mark_flags p m cur l = Inr l'" shows "markup l' = markup l" "ends l' = ends l"
proof -
  have "n_uid l' = n_uid l" "n_hw l' = n_hw l" "uid l' = uid l" "uid_in_buf l' = uid_in_buf l" "ends l' = ends l"
    "bit (flags l') 0 = bit (flags l) 0"
    using assms by (auto simp: mark_flags_def Let_def RESERVED_LEASE_def BOOTP_LEASE_def bit_or_iff bit_and_iff bit_not_iff
        split: if_splits)
  then show "markup l' = markup l" "ends l' = ends l" by (simp_all add: markup_def flag_bits)
qed

lemma lease_copy_markup:
  assumes "copyable S d" "a \<in> S" "\<not> no_memory d"
  shows "\<exists>c. lease_copy d lt a = Some (upd_lease lt (\<lambda>_. c) d) \<and> markup c \<and> ends c = ends (heap d a)"
proof -
  define c where "c = heap (the (lease_copy d lt a)) lt"
  have "lease_copy d lt a = Some (upd_lease lt (\<lambda>_. c) d)" "ends c = ends (heap d a)" "markup c"
    using assms by (auto simp: c_def lease_copy_def Let_def upd_lease_def markup_def copyable_def new_lease_def)
  then show ?thesis by blast
qed

lemma member_next:
  assumes "fo_ok S d" "a \<in> S" shows "\<exists>p. l_pool (heap d a) = Some p" "next_binding_state (heap d a) \<noteq> FTS_BOGUS x"
proof -
  show "\<exists>p. l_pool (heap d a) = Some p" using state_of_lease [OF fo_okD(1) [OF assms(1)] assms(2)] by blast
  then show "next_binding_state (heap d a) \<noteq> FTS_BOGUS x"
    using fo_okD(2) [OF assms(1)] pool_leases_iff [OF fo_okD(1) [OF assms(1)]] assms(2) by (fastforce simp: valid_next_def)
qed

text \<open>Giving a lease to the peer, with no other lease changed.\<close>

definition only_changes :: "ptr set \<Rightarrow> db \<Rightarrow> db \<Rightarrow> bool" where
  "only_changes A d d' \<longleftrightarrow> (\<forall>b. b \<notin> A \<longrightarrow> state_view (heap d' b) = state_view (heap d b))"

lemma only_changes_trans [trans]: "only_changes A d d' \<Longrightarrow> only_changes A d' d'' \<Longrightarrow> only_changes A d d''"
  by (simp add: only_changes_def)

lemma fq_same_views: "fq_same d d' \<Longrightarrow> state_view (heap d' b) = state_view (heap d b)"
  using fq_frame_calm [OF fq_same_frame] by (simp add: calm_def)

lemma give_back_ok:
  assumes "fo_ok S d" "a \<in> S"
  shows "\<exists>d'. give_back e d a = Ret d' \<and> fo_ok S d' \<and> peers_kept d d' \<and> binding_state (heap d' a) = FTS_BACKUP \<and> only_changes {a} d d'"
proof -
  let ?f = "\<lambda>l. l\<lparr>next_binding_state := FTS_BACKUP, tstp := cur_time d, starts := cur_time d\<rparr>"
  let ?d = "upd_lease a ?f d"
  have ok: "fo_ok S ?d" by (rule fo_ok_upd [OF assms(1)]) (simp_all add: queue_view_def queue_of_def side_view_def)
  have k: "peers_kept d ?d" by (simp add: peers_kept_def peer_frame_def)
  have "request_ok S ?d a None" using assms(2) by (simp add: request_ok_def)
  then obtain d1 b where d1: "supersede_lease e ?d a None False True False False = Ret (d1, b)" "fo_ok S d1" "peers_kept ?d d1"
      "lease_changed a (heap ?d a) ?d d1"
    using fo_supersede [OF ok, of a None False False e True False] by (auto simp: settled_def source_lease_def)
  have "binding_state (heap d1 a) = FTS_BACKUP" "only_changes {a} d d1"
    using d1(4) by (simp_all add: lease_changed_def only_changes_def)
  moreover have "fo_ok S (write_lease d1 a)" "peers_kept d (write_lease d1 a)" "peers_kept d d1"
    using ok_steps(6) [OF d1(2)] peers_kept_trans [OF peers_kept_trans [OF k d1(3)] kept_steps(6)] peers_kept_trans [OF k d1(3)]
    by (simp_all add: write_lease_def)
  ultimately show ?thesis using d1(1,2) unfolding give_back_def
    by (cases b) (auto simp: write_lease_def only_changes_def)
qed

text \<open>
  The lease \<open>a\<close> has the state of the update, or has gone on from it to be free, or backup when the
  secondary is going to be asked for it; no other lease but the copy has changed.
\<close>

definition installed :: "peer \<Rightarrow> ptr \<Rightarrow> ptr \<Rightarrow> binding_state \<Rightarrow> db \<Rightarrow> db \<Rightarrow> bool" where
  "installed p lt a st d d' \<longleftrightarrow> only_changes {a, lt} d d' \<and>
     (if st \<in> {FTS_EXPIRED, FTS_RELEASED, FTS_RESET}
      then binding_state (heap d' a) = FTS_FREE \<or> i_am p = primary \<and> binding_state (heap d' a) = FTS_BACKUP
      else binding_state (heap d' a) = st)"

lemma installedI:
  assumes "only_changes {a, lt} d d'" "binding_state (heap d' a) = installed_state st \<or>
      i_am p = primary \<and> installed_state st \<noteq> st \<and> binding_state (heap d' a) = FTS_BACKUP"
  shows "installed p lt a st d d'"
  using assms by (auto simp: installed_def installed_state_def split: if_splits)

lemma reject_same:
  assumes "fo_ok S d" shows "\<exists>d'. reject_update e d s m r = Ret d' \<and> fq_same d d'"
proof -
  obtain d' b where "dhcp_failover_send_bind_ack e d s (msg_xid m) r = Ret (d', b)" "fq_same d d'"
    using send_bind_ack_ok [OF fo_ok_nomem [OF assms]] by blast
  then show ?thesis by (simp add: reject_update_def)
qed

text \<open>Giving the lease back, when it is to be, and sending the update.\<close>

lemma return_lease_ok:
  assumes "fo_ok S d" "a \<in> S"
  shows "\<exists>d'. (case l_pool (heap d a) of
                 None \<Rightarrow> if bk then Undef else Ret d
               | Some p \<Rightarrow> if bk \<and> secondary_not_hoarding (peers d s) (pools d p)
                            then cbind (give_back e d a) (\<lambda>d. dhcp_failover_send_updates e d s) else Ret d) = Ret d' \<and>
     fo_ok S d' \<and> peers_kept d d' \<and> only_changes {a} d d' \<and>
     (binding_state (heap d' a) = binding_state (heap d a) \<or> bk \<and> binding_state (heap d' a) = FTS_BACKUP)"
proof -
  obtain p where p: "l_pool (heap d a) = Some p" using member_next(1) [OF assms] by blast
  obtain d1 where d1: "give_back e d a = Ret d1" "fo_ok S d1" "peers_kept d d1" "binding_state (heap d1 a) = FTS_BACKUP" "only_changes {a} d d1"
    using give_back_ok [OF assms] by blast
  obtain d2 where d2: "dhcp_failover_send_updates e d1 s = Ret d2" "fo_ok S d2" "peers_kept d1 d2"
    using keeps_send_updates [OF d1(2)] unfolding keeps_def by blast
  have "state_view (heap d2 b) = state_view (heap d1 b)" for b using calm_send_updates [OF d2(1)] by (simp add: calm_def)
  then have "only_changes {a} d d2" "binding_state (heap d2 a) = FTS_BACKUP"
    using d1(4,5) by (auto simp: only_changes_def state_view_def)
  moreover have "only_changes {a} d d" by (simp add: only_changes_def)
  ultimately show ?thesis using p d1(1) d2 peers_kept_trans [OF d1(3) d2(3)] assms(1) by auto
qed

lemma install_update_ok:
  assumes "fo_ok S d" "lt \<notin> S" "a \<in> S" "markup (heap d lt)" "known_state new"
  shows "\<exists>d'. install_update e d s lt m a new = Ret d' \<and> fo_ok S d' \<and> peers_kept d d' \<and>
     (new \<in> {FTS_ACTIVE, FTS_ABANDONED} \<and> ends (heap d lt) < cur_time d \<or> installed (peers d s) lt a new d d')"
proof -
  let ?nx = "installed_state new"
  define d1 where "d1 = upd_lease lt (\<lambda>l. l\<lparr>next_binding_state := ?nx\<rparr>) d"
  define d2 where "d2 = upd_lease a (\<lambda>l. l\<lparr>rewind_binding_state := ?nx\<rparr>) d1"
  have ne: "lt \<noteq> a" using assms(2,3) by auto
  have mk: "n_uid (heap d lt) = None" "n_hw (heap d lt) = None" using assms(4) by (simp_all add: markup_def)
  have ok1: "fo_ok S d1" unfolding d1_def by (rule fo_ok_copy [OF assms(1,2)]) (simp_all add: mk)
  have ok2: "fo_ok S d2" unfolding d2_def
    by (rule fo_ok_upd [OF ok1]) (use member_next(2) [OF ok1 assms(3)] in \<open>simp_all add: queue_view_def queue_of_def side_view_def\<close>)
  have k2: "peers_kept d d2" by (simp add: d1_def d2_def peers_kept_def peer_frame_def)
  have lt2: "heap d2 lt = (heap d lt)\<lparr>next_binding_state := ?nx\<rparr>" using ne by (simp add: d1_def d2_def)
  have nx: "?nx \<noteq> FTS_BOGUS x" for x using assms(5) by (auto simp: installed_state_def known_state_def)
  have "request_ok S d2 a (Some lt)"
    using assms(2-4) nx by (auto simp: request_ok_def sample_ok_def lt2 markup_def)
  then obtain d3 b where d3: "supersede_lease e d2 a (Some lt) False False False False = Ret (d3, b)" "fo_ok S d3" "peers_kept d2 d3"
      "settled (cur_time d) (heap d2 lt) \<longrightarrow> lease_changed a (heap d2 lt) d2 d3"
    using fo_supersede [OF ok2, of a "Some lt" False False e False False] by (auto simp: source_lease_def d1_def d2_def)
  define P where "P \<longleftrightarrow> new \<in> {FTS_ACTIVE, FTS_ABANDONED} \<and> ends (heap d lt) < cur_time d"
  have st: "settled (cur_time d) (heap d2 lt)" if "\<not> P"
    using that assms(5) by (cases new) (auto simp: settled_def lt2 installed_state_def P_def known_state_def)
  have c3: "binding_state (heap d3 a) = ?nx" "only_changes {a, lt} d d3" if "\<not> P"
    using d3(4) st [OF that] lt2 ne by (auto simp: lease_changed_def only_changes_def d1_def d2_def)
  have k3: "peers_kept d d3" by (rule peers_kept_trans [OF k2 d3(3)])
  have fin: "\<exists>d'. M = Ret d' \<and> fo_ok S d' \<and> peers_kept d d' \<and> (P \<or> installed (peers d s) lt a new d d')"
    if "\<exists>d'. M = Ret d' \<and> fo_ok S d' \<and> peers_kept d3 d' \<and> only_changes {a} d3 d' \<and>
          (binding_state (heap d' a) = binding_state (heap d3 a) \<or>
           i_am (peers d s) = primary \<and> ?nx \<noteq> new \<and> binding_state (heap d' a) = FTS_BACKUP)" for M
    using that c3 peers_kept_trans [OF k3] by (fastforce intro!: installedI simp: only_changes_def)
  have backup: "\<exists>bk. (if ?nx \<noteq> new \<and> i_am (peers d1 s) = primary \<and> \<not> has_flag (heap d1 lt) (RESERVED_LEASE OR BOOTP_LEASE)
        then peer_wants_lease d1 lt else Ret False) = Ret bk \<and> (bk \<longrightarrow> i_am (peers d s) = primary \<and> ?nx \<noteq> new)"
    using peer_wants_returns [OF ok1, of lt] by (auto simp: d1_def)
  have wl: "fo_ok S (write_lease d3 a)" "peers_kept d3 (write_lease d3 a)" "heap (write_lease d3 a) = heap d3"
    using ok_steps(6) [OF d3(2)] kept_steps(6) by (simp_all add: write_lease_def)
  have same: "\<exists>d'. reject_update e d4 s m r = Ret d' \<and> fo_ok S d' \<and> peers_kept d3 d' \<and> only_changes {a} d3 d' \<and>
      binding_state (heap d' a) = binding_state (heap d3 a)" if T: "fo_ok S d4" "peers_kept d3 d4" "heap d4 = heap d3" for d4 r
  proof -
    obtain d' where d': "reject_update e d4 s m r = Ret d'" "fq_same d4 d'" using reject_same [OF T(1)] by blast
    have "state_view (heap d' b) = state_view (heap d3 b)" for b using fq_same_views [OF d'(2)] T(3) by simp
    then show ?thesis using d' fo_ok_same [OF T(1) d'(2)] peers_kept_trans [OF T(2) fq_frame_kept [OF fq_same_frame [OF d'(2)]]]
      by (auto simp: only_changes_def state_view_def)
  qed
  have ack: "\<exists>d'. cbind (dhcp_failover_queue_ack e (write_lease d3 a) s (msg_xid m))
      (\<lambda>d. case l_pool (heap d a) of None \<Rightarrow> if bk then Undef else Ret d
           | Some p \<Rightarrow> if bk \<and> secondary_not_hoarding (peers d s) (pools d p)
                        then cbind (give_back e d a) (\<lambda>d. dhcp_failover_send_updates e d s) else Ret d) = Ret d' \<and>
      fo_ok S d' \<and> peers_kept d3 d' \<and> only_changes {a} d3 d' \<and>
      (binding_state (heap d' a) = binding_state (heap d3 a) \<or> bk \<and> binding_state (heap d' a) = FTS_BACKUP)" for bk
  proof -
    obtain d4 where d4: "dhcp_failover_queue_ack e (write_lease d3 a) s (msg_xid m) = Ret d4" "fq_same (write_lease d3 a) d4"
      using queue_ack_same [OF wl(1)] by blast
    have v: "state_view (heap d4 b) = state_view (heap d3 b)" for b using fq_same_views [OF d4(2)] wl(3) by simp
    have k4: "peers_kept d3 d4" by (rule peers_kept_trans [OF wl(2) fq_frame_kept [OF fq_same_frame [OF d4(2)]]])
    show ?thesis using return_lease_ok [OF fo_ok_same [OF wl(1) d4(2)] assms(3), of bk s e] d4(1) v peers_kept_trans [OF k4]
      by (fastforce simp: only_changes_def state_view_def)
  qed
  obtain bk where bk: "(if ?nx \<noteq> new \<and> i_am (peers d1 s) = primary \<and> \<not> has_flag (heap d1 lt) (RESERVED_LEASE OR BOOTP_LEASE)
        then peer_wants_lease d1 lt else Ret False) = Ret bk" "bk \<longrightarrow> i_am (peers d s) = primary \<and> ?nx \<noteq> new"
    using backup by blast
  have idle: "(new = FTS_EXPIRED \<or> new = FTS_RELEASED \<or> new = FTS_RESET) \<longleftrightarrow> ?nx \<noteq> new" by (auto simp: installed_state_def)
  have eq: "install_update e d s lt m a new =
      (let d4 = (if b then write_lease d3 a else d3)
       in if \<not> (b \<and> write_lease_ok e (heap d3 a)) then reject_update e d4 s m FTR_MISC_REJECT
          else cbind (dhcp_failover_queue_ack e d4 s (msg_xid m))
            (\<lambda>d. case l_pool (heap d a) of None \<Rightarrow> if bk then Undef else Ret d
                 | Some p \<Rightarrow> if bk \<and> secondary_not_hoarding (peers d s) (pools d p)
                              then cbind (give_back e d a) (\<lambda>d. dhcp_failover_send_updates e d s) else Ret d))"
    unfolding install_update_def Let_def d1_def [symmetric] d2_def [symmetric] idle using bk(1) d3(1) by simp
  show ?thesis unfolding P_def [symmetric] eq Let_def
    by (rule fin) (use same [OF d3(2) peers_kept_refl] same [OF wl] ack [of bk] bk(2) in \<open>auto split: if_splits\<close>)
qed

text \<open>
  The reasons for which an update is refused, in the order of the checks: what it says of the lease;
  and whether it is about a lease that we share with the partner, is not older than an update of
  ours, and is to a state that the lease may be in next.
\<close>

definition content_reason :: "peer \<Rightarrow> failover_message \<Rightarrow> db_lease \<Rightarrow> nat option" where
  "content_reason p m l =
     (let st = binding_status m;
          ours = (i_am p = primary \<and> binding_state l = FTS_FREE \<or> i_am p = secondary \<and> binding_state l = FTS_BACKUP);
          asked = (\<lambda>b. has_option m FTB_IP_FLAGS \<and> ip_flags m AND b \<noteq> 0)
      in if has_option m FTB_CHADDR \<and> (st = FTS_ABANDONED \<or> HBUF_SIZE < length (msg_chaddr m)) then Some FTR_MISC_REJECT
         else if \<not> has_option m FTB_CHADDR \<and> st \<in> {FTS_ACTIVE, FTS_EXPIRED, FTS_RELEASED} then Some FTR_MISSING_BINDINFO
         else if has_option m FTB_CLIENT_IDENTIFIER \<and> st = FTS_ABANDONED then Some FTR_MISC_REJECT
         else if asked FTF_IP_FLAG_RESERVE \<and> ours \<and> \<not> has_flag l RESERVED_LEASE then Some FTR_IP_NOT_RESERVED
         else if asked FTF_IP_FLAG_BOOTP \<and> ours \<and> \<not> has_flag l BOOTP_LEASE then Some FTR_MISC_REJECT
         else None)"

text \<open>
  The changes of state that are believed. In normal state, an active lease of the primary can only be released or
  abandoned by the partner; the partner cannot free a lease before the time it was promised, nor
  let one expire early. In other states only active leases are protected.
\<close>

definition believable :: "int \<Rightarrow> peer \<Rightarrow> db_lease \<Rightarrow> binding_state \<Rightarrow> int \<Rightarrow> bool" where
  "believable now p l st promised \<longleftrightarrow>
     st = binding_state l \<or>
     (let freed = (st = FTS_FREE \<or> st = FTS_BACKUP);
          early = (st = FTS_EXPIRED \<and> now + 65 < ends l)
      in if me_state p = normal
         then (binding_state l = FTS_ACTIVE \<and> i_am p = primary \<longrightarrow> st = FTS_RELEASED \<or> st = FTS_ABANDONED) \<and>
              (binding_state l = FTS_ACTIVE \<longrightarrow> \<not> early) \<and>
              (binding_state l \<in> {FTS_ACTIVE, FTS_EXPIRED, FTS_RESET} \<and> freed \<longrightarrow> promised \<le> now)
         else binding_state l = FTS_ACTIVE \<longrightarrow> \<not> freed \<and> \<not> early)"

lemma check_believable:
  assumes "known_state (binding_state (heap d a))" "known_state (binding_status m)"
  shows "check_update d s m a = Ret (binding_status m) \<longleftrightarrow>
    believable (cur_time d) (peers d s) (heap d a) (binding_status m) (uint (potential_expiry m))"
proof (cases "binding_status m = binding_state (heap d a)")
  case True
  then show ?thesis by (simp add: check_update_def believable_def normal_binding_state_transition_check_def
      conflict_binding_state_transition_check_def)
next
  case False
  then show ?thesis using assms
    by (cases "binding_state (heap d a)"; cases "binding_status m")
      (auto simp: check_update_def believable_def normal_binding_state_transition_check_def known_state_def
        conflict_binding_state_transition_check_def unless_promised_def FUDGE_def Let_def)
qed

text \<open>
  Of two updates for a lease that cross, ours wins when it is of a later transaction of an active
  lease, and otherwise the primary's, except that active wins over the other states.
\<close>

definition our_update_wins :: "peer \<Rightarrow> db_lease \<Rightarrow> failover_message \<Rightarrow> bool" where
  "our_update_wins p l m \<longleftrightarrow>
     (let t = (if has_option m FTB_CLTT then uint (msg_cltt m) else 0)
      in if binding_status m = FTS_ACTIVE
         then desired_binding_state l = FTS_ACTIVE \<and> (t < cltt l \<or> t = cltt l \<and> i_am p = primary)
         else i_am p = primary \<and> \<not> (desired_binding_state l = FTS_ACTIVE \<and> binding_status m = FTS_EXPIRED))"

lemma is_better_wins: "known_state (desired_binding_state l) \<Longrightarrow> failover_lease_is_better p l m = Ret (our_update_wins p l m)"
  by (cases "desired_binding_state l") (auto simp: failover_lease_is_better_def our_update_wins_def known_state_def Let_def)

definition lease_reason :: "db \<Rightarrow> nat \<Rightarrow> failover_message \<Rightarrow> ptr \<Rightarrow> nat option" where
  "lease_reason d s m a =
     (case content_reason (peers d s) m (heap d a) of
        Some r \<Rightarrow> Some r
      | None \<Rightarrow> if believable (cur_time d) (peers d s) (heap d a) (binding_status m) (uint (potential_expiry m)) then None
                else Some FTR_FATAL_CONFLICT)"

definition update_reason :: "db \<Rightarrow> nat \<Rightarrow> failover_message \<Rightarrow> nat option" where
  "update_reason d s m =
     (if \<not> (has_option m FTB_ASSIGNED_IP_ADDRESS \<and> has_option m FTB_BINDING_STATUS) then Some FTR_MISSING_BINDINFO
      else case find_lease_by_ip_addr d (assigned_addr m) of
             None \<Rightarrow> Some FTR_ILLEGAL_IP_ADDR
           | Some a \<Rightarrow> if lease_peer d (heap d a) \<noteq> Some s then Some FTR_ILLEGAL_IP_ADDR
                       else if on_ack d a \<and> our_update_wins (peers d s) (heap d a) m then Some FTR_LESS_CRIT_BIND_INFO
                       else lease_reason d s m a)"

lemma mark_chaddr_cases:
  "mark_chaddr m l = Inl r \<Longrightarrow> content_reason p m l0 = Some r"
  "mark_chaddr m l = Inr x \<Longrightarrow> \<not> (has_option m FTB_CHADDR \<and> (binding_status m = FTS_ABANDONED \<or> HBUF_SIZE < length (msg_chaddr m))) \<and>
     \<not> (\<not> has_option m FTB_CHADDR \<and> binding_status m \<in> {FTS_ACTIVE, FTS_EXPIRED, FTS_RELEASED})"
  by (auto simp: mark_chaddr_def content_reason_def split: if_splits)

lemma mark_ident_cases:
  "mark_ident m l = Inl r \<Longrightarrow> r = FTR_MISC_REJECT \<and> has_option m FTB_CLIENT_IDENTIFIER \<and> binding_status m = FTS_ABANDONED"
  "mark_ident m l = Inr x \<Longrightarrow> \<not> (has_option m FTB_CLIENT_IDENTIFIER \<and> binding_status m = FTS_ABANDONED)"
  by (auto simp: mark_ident_def Let_def split: if_splits)

lemma mark_content:
  assumes "mark_chaddr m c = Inr x"
  shows "mark_ident m l1 = Inl r \<Longrightarrow> content_reason p m cur = Some r"
    "mark_ident m l1 = Inr y \<Longrightarrow>
      content_reason p m cur = (case mark_flags p m cur l2 of Inl r \<Rightarrow> Some r | Inr _ \<Rightarrow> None)"
proof -
  note ch = mark_chaddr_cases(2) [OF assms]
  show "content_reason p m cur = Some r" if "mark_ident m l1 = Inl r"
    using ch mark_ident_cases(1) [OF that] by (simp add: content_reason_def)
  show "content_reason p m cur = (case mark_flags p m cur l2 of Inl r \<Rightarrow> Some r | Inr _ \<Rightarrow> None)" if "mark_ident m l1 = Inr y"
    unfolding content_reason_def Let_def if_not_P [OF conjunct1 [OF ch]] if_not_P [OF conjunct2 [OF ch]] if_not_P [OF mark_ident_cases(2) [OF that]]
      mark_flags_def by auto
qed

lemma content_reason_cong:
  "reservation l = reservation l' \<Longrightarrow> binding_state l = binding_state l' \<Longrightarrow> i_am p = i_am p' \<Longrightarrow> content_reason p m l = content_reason p' m l'"
  unfolding content_reason_def reservation_def Let_def by (simp del: not_not cong: if_cong)

text \<open>
  The update is refused for a reason: no lease but the copy changes its state, the update is not
  among those to acknowledge, and the partner is told the reason, when it can be told anything.
\<close>

definition refused :: "db_env \<Rightarrow> nat \<Rightarrow> failover_message \<Rightarrow> ptr \<Rightarrow> nat \<Rightarrow> db \<Rightarrow> db \<Rightarrow> bool" where
  "refused e s m lt r d d' \<longleftrightarrow> only_changes {lt} d d' \<and> toack_queue (peers d' s) = toack_queue (peers d s) \<and>
     (link_xid (peers d s) \<noteq> None \<and> put_message_ok e \<longrightarrow> EvBindAck s (msg_xid m) r \<in> set (events d'))"

text \<open>
  What an update of the lease \<open>a\<close> does; one that makes the lease active or abandoned in the past also
  runs the timer of the pool.
\<close>

definition update_outcome :: "db_env \<Rightarrow> nat \<Rightarrow> failover_message \<Rightarrow> ptr \<Rightarrow> ptr \<Rightarrow> nat option \<Rightarrow> db \<Rightarrow> db \<Rightarrow> bool" where
  "update_outcome e s m lt a reason d d' \<longleftrightarrow>
     (case reason of
        Some r \<Rightarrow> refused e s m lt r d d'
      | None \<Rightarrow> binding_status m \<in> {FTS_ACTIVE, FTS_ABANDONED} \<and> updated_end m (ends (heap d a)) < cur_time d \<or>
          installed (peers d s) lt a (binding_status m) d d')"

definition handles ::
    "ptr set \<Rightarrow> db_env \<Rightarrow> nat \<Rightarrow> failover_message \<Rightarrow> ptr \<Rightarrow> ptr \<Rightarrow> nat option \<Rightarrow> db \<Rightarrow> db cres \<Rightarrow> bool" where
  "handles S e s m lt a reason d r \<longleftrightarrow>
     (\<exists>d'. r = Ret d' \<and> fo_ok S d' \<and> peers_kept d d' \<and> update_outcome e s m lt a reason d d')"

lemma handles_reject:
  assumes "prepared S s lt d d1" shows "handles S e s m lt a (Some r) d (reject_update e d1 s m r)"
proof -
  have ok: "fo_ok S d1" using assms(1) by (simp add: prepared_def)
  obtain d' where d': "reject_update e d1 s m r = Ret d'" "prepared S s lt d1 d'"
      "link_xid (peers d1 s) \<noteq> None \<and> put_message_ok e \<longrightarrow> EvBindAck s (msg_xid m) r \<in> set (events d')"
    using reject_update_ok [OF ok, of e s m r lt] by blast
  have p: "prepared S s lt d d'" by (rule prepared_trans [OF assms(1) d'(2)])
  then have "refused e s m lt r d d'" using d'(3) assms unfolding refused_def prepared_def only_changes_def by auto
  then show ?thesis using d'(1) p by (auto simp: handles_def update_outcome_def prepared_def)
qed

lemma prepared_lease:
  assumes "prepared S s lt d d'" "a \<noteq> lt"
  shows "binding_state (heap d' a) = binding_state (heap d a)" "ends (heap d' a) = ends (heap d a)" "l_pool (heap d' a) = l_pool (heap d a)"
    "cur_tv d' = cur_tv d"
  using assms by (auto simp: prepared_def state_view_def queue_view_def peers_kept_def)

lemma prepared_reservation:
  assumes "prepared S s lt d d'" "a \<noteq> lt"
  shows "reservation (heap d' a) = reservation (heap d a)" "binding_state (heap d' a) = binding_state (heap d a)"
    "i_am (peers d' s) = i_am (peers d s)"
  using assms by (simp_all add: prepared_def peers_kept_def peer_frame_def prepared_lease(1) [OF assms])

lemma prepared_check:
  assumes "prepared S s lt d d'" "a \<noteq> lt" shows "check_update d' s m a = check_update d s m a"
proof -
  have "me_state (peers d' s) = me_state (peers d s)" and i: "i_am (peers d' s) = i_am (peers d s)"
    using assms(1) by (simp_all add: prepared_def peers_kept_def peer_frame_def)
  then show ?thesis
    unfolding check_update_def normal_binding_state_transition_check_def conflict_binding_state_transition_check_def Let_def i
      prepared_lease [OF assms] by simp
qed

lemma member_known:
  assumes "fo_ok S d" "a \<in> S" shows "known_state (binding_state (heap d a))"
  using state_of_lease [OF fo_okD(1) [OF assms(1)] assms(2)] by (auto simp: queue_of_def known_state_def split: binding_state.splits)

lemma check_update_known:
  assumes "fo_ok S d" "a \<in> S" "known_state (binding_status m)"
  shows "\<exists>st. check_update d s m a = Ret st"
proof -
  have "known_state (binding_state (heap d a))" by (rule member_known [OF assms(1,2)])
  then show ?thesis using normal_check_safe [OF _ assms(3)] conflict_check_safe [OF _ assms(3)] unfolding check_update_def by (metis (no_types))
qed

lemma handles_install:
  assumes "prepared S s lt d d1" "lt \<notin> S" "a \<in> S" "markup (heap d1 lt)" "known_state (binding_status m)"
    "ends (heap d1 lt) = updated_end m (ends (heap d a))"
  shows "handles S e s m lt a None d (install_update e d1 s lt m a (binding_status m))"
proof -
  have ok: "fo_ok S d1" "peers_kept d d1" using assms(1) by (simp_all add: prepared_def)
  obtain d' where d': "install_update e d1 s lt m a (binding_status m) = Ret d'" "fo_ok S d'" "peers_kept d1 d'"
      "binding_status m \<in> {FTS_ACTIVE, FTS_ABANDONED} \<and> ends (heap d1 lt) < cur_time d1 \<or> installed (peers d1 s) lt a (binding_status m) d1 d'"
    using install_update_ok [OF ok(1) assms(2-5)] by blast
  have "installed (peers d s) lt a (binding_status m) d d'" if "installed (peers d1 s) lt a (binding_status m) d1 d'"
    using that assms(1) by (auto simp: installed_def only_changes_def prepared_def peers_kept_def peer_frame_def)
  moreover have "cur_tv d1 = cur_tv d" using ok(2) by (simp add: peers_kept_def)
  ultimately show ?thesis using d' assms(6) peers_kept_trans [OF ok(2)] by (auto simp: handles_def update_outcome_def)
qed

text \<open>The copy is marked up, or the update refused for what it says of the lease; then the new state is checked.\<close>

definition judge_update :: "db_env \<Rightarrow> db \<Rightarrow> nat \<Rightarrow> ptr \<Rightarrow> failover_message \<Rightarrow> ptr \<Rightarrow> db cres" where
  "judge_update e d s lt m a =
     cbind (check_update d s m a)
       (\<lambda>new. if new \<noteq> binding_status m then reject_update e d s m FTR_FATAL_CONFLICT else install_update e d s lt m a new)"

definition marked :: "db_env \<Rightarrow> nat \<Rightarrow> ptr \<Rightarrow> failover_message \<Rightarrow> ptr \<Rightarrow> db \<Rightarrow> db \<Rightarrow> db cres \<Rightarrow> bool" where
  "marked e s lt m a d d' r \<longleftrightarrow>
     (case content_reason (peers d s) m (heap d a) of
        Some x \<Rightarrow> r = reject_update e d' s m x
      | None \<Rightarrow> markup (heap d' lt) \<and> ends (heap d' lt) = updated_end m (ends (heap d a)) \<and> r = judge_update e d' s lt m a)"

lemma apply_update_marked:
  assumes "prepared S s lt d d1" "lt \<notin> S" "a \<in> S" "copyable S d1"
  shows "\<exists>d'. prepared S s lt d d' \<and> marked e s lt m a d d' (apply_update e d1 s lt m a)"
proof -
  have ok: "fo_ok S d1" and ne: "a \<noteq> lt" using assms(1-3) by (auto simp: prepared_def)
  obtain c where c: "lease_copy d1 lt a = Some (upd_lease lt (\<lambda>_. c) d1)" "markup c" "ends c = ends (heap d1 a)"
    using lease_copy_markup [OF assms(4,3) fo_ok_nomem(1) [OF ok], of lt] by blast
  define d2 where "d2 = upd_lease lt (\<lambda>_. c) d1"
  have "prepared S s lt d1 d2" unfolding d2_def by (rule prepared_copy [OF ok assms(2)]) (use c(2) in \<open>simp_all add: markup_def\<close>)
  then have p2: "prepared S s lt d d2" by (rule prepared_trans [OF assms(1)])
  have h2: "heap d2 lt = c" by (simp add: d2_def)
  consider r where "mark_chaddr m c = Inl r" | l1 c1 r where "mark_chaddr m c = Inr (l1, c1)" "mark_ident m l1 = Inl r"
    | l1 c1 l2 c2 where "mark_chaddr m c = Inr (l1, c1)" "mark_ident m l1 = Inr (l2, c2)"
    by (metis obj_sumE surj_pair)
  then show ?thesis
  proof cases
    case 1
    then show ?thesis using p2 c(1) mark_chaddr_cases(1) [OF 1]
      by (intro exI [of _ d2]) (simp add: apply_update_def d2_def [symmetric] h2 marked_def)
  next
    case 2
    then show ?thesis using p2 c(1) mark_content(1) [OF 2]
      by (intro exI [of _ d2]) (simp add: apply_update_def d2_def [symmetric] h2 marked_def)
  next
    case 3
    have m2: "markup l2" "ends l2 = ends (heap d a)"
      using mark_chaddr_markup [OF 3(1)] mark_ident_markup [OF 3(2)] c(2,3) prepared_lease(2) [OF assms(1) ne] by auto
    define d3 where "d3 = (if binding_status m = FTS_ACTIVE \<and> (c1 \<or> c2)
                           then upd_lease a (\<lambda>l. l\<lparr>scope := None\<rparr>) (emit (EvDdnsRemovals a) d2) else d2)"
    have "fo_ok S d2" using p2 by (simp add: prepared_def)
    then have "prepared S s lt d2 d3" unfolding d3_def using prepared_scope prepared_refl by simp
    then have p3: "prepared S s lt d d3" by (rule prepared_trans [OF p2])
    have ap: "apply_update e d1 s lt m a =
        (case mark_flags (peers d3 s) m (heap d3 a) (mark_times m l2) of
           Inl r \<Rightarrow> reject_update e d3 s m r
         | Inr l \<Rightarrow> judge_update e (upd_lease lt (\<lambda>_. l) d3) s lt m a)"
      unfolding apply_update_def c(1) d2_def [symmetric] option.case h2 3 sum.case prod.case Let_def d3_def [symmetric] judge_update_def ..
    have there: "content_reason (peers d s) m (heap d a) =
        (case mark_flags (peers d3 s) m (heap d3 a) (mark_times m l2) of Inl r \<Rightarrow> Some r | Inr _ \<Rightarrow> None)"
      using content_reason_cong [OF prepared_reservation [OF p3 ne], of m] mark_content(2) [OF 3] by simp
    show ?thesis
    proof (cases "mark_flags (peers d3 s) m (heap d3 a) (mark_times m l2)")
      case (Inl r)
      then show ?thesis using p3 there by (intro exI [of _ d3]) (simp add: ap marked_def)
    next
      case (Inr l)
      have ml: "markup l" "ends l = updated_end m (ends (heap d a))"
        using mark_flags_markup [OF Inr] m2 by (simp_all add: mark_times_markup)
      have ok3: "fo_ok S d3" using p3 by (simp add: prepared_def)
      have "prepared S s lt d3 (upd_lease lt (\<lambda>_. l) d3)"
        by (rule prepared_copy [OF ok3 assms(2)]) (use ml(1) in \<open>simp_all add: markup_def\<close>)
      then have "prepared S s lt d (upd_lease lt (\<lambda>_. l) d3)" by (rule prepared_trans [OF p3])
      then show ?thesis using Inr there ml by (intro exI [of _ "upd_lease lt (\<lambda>_. l) d3"]) (simp add: ap marked_def)
    qed
  qed
qed

lemma handles_apply:
  assumes "prepared S s lt d d1" "lt \<notin> S" "a \<in> S" "copyable S d1" "known_state (binding_status m)"
  shows "handles S e s m lt a (lease_reason d s m a) d (apply_update e d1 s lt m a)"
proof -
  obtain d4 where d4: "prepared S s lt d d4" "marked e s lt m a d d4 (apply_update e d1 s lt m a)"
    using apply_update_marked [OF assms(1-4), of e m] by blast
  have ok: "fo_ok S d4" and ne: "a \<noteq> lt" using d4(1) assms(2,3) by (auto simp: prepared_def)
  obtain st where st: "check_update d4 s m a = Ret st" using check_update_known [OF ok assms(3,5)] by blast
  have "known_state (binding_state (heap d a))" using member_known [OF ok assms(3)] prepared_lease(1) [OF d4(1) ne] by simp
  note bel = check_believable [OF this assms(5), of s]
  show ?thesis using d4 st bel prepared_check [OF d4(1) ne, of m] handles_reject [OF d4(1)] handles_install [OF d4(1) assms(2,3) _ assms(5)]
    by (auto simp: marked_def lease_reason_def judge_update_def split: option.splits)
qed

lemma fq_frame_copyable: assumes "fq_frame d d'" "copyable S d" shows "copyable S d'"
proof -
  have l: "lease_frame (heap d a) (heap d' a)" for a using assms(1) by (simp add: fq_frame_def)
  have "uid (heap d' a) = uid (heap d a) \<and> uid_in_buf (heap d' a) = uid_in_buf (heap d a) \<and> bit (flags (heap d' a)) 0 = bit (flags (heap d a)) 0" for a
    using l [of a] by (cases "heap d a"; cases "heap d' a"; simp add: lease_frame_def)
  then show ?thesis using assms(2) by (simp add: copyable_def flag_bits)
qed

lemma bind_update_handled:
  assumes "fo_ok S d" "lt \<notin> S" "bindable S d" "known_state (binding_status m)"
  shows "\<exists>d'. dhcp_failover_process_bind_update e d s lt m = Ret d' \<and> fo_ok S d' \<and> peers_kept d d' \<and>
     (case update_reason d s m of
        Some r \<Rightarrow> refused e s m lt r d d'
      | None \<Rightarrow> \<exists>a. find_lease_by_ip_addr d (assigned_addr m) = Some a \<and> update_outcome e s m lt a None d d')"
proof (cases "\<exists>a. find_lease_by_ip_addr d (assigned_addr m) = Some a \<and> lease_peer d (heap d a) = Some s \<and>
      has_option m FTB_ASSIGNED_IP_ADDRESS \<and> has_option m FTB_BINDING_STATUS")
  case False
  have p: "prepared S s lt d d" by (rule prepared_refl [OF assms(1)])
  have "\<exists>r. update_reason d s m = Some r \<and> dhcp_failover_process_bind_update e d s lt m = reject_update e d s m r"
  proof (cases "has_option m FTB_ASSIGNED_IP_ADDRESS \<and> has_option m FTB_BINDING_STATUS")
    case opts: True
    show ?thesis
    proof (cases "find_lease_by_ip_addr d (assigned_addr m)")
      case (Some a)
      then have "lease_peer d (heap d a) \<noteq> Some s" using False opts by blast
      then show ?thesis using opts Some by (simp add: update_reason_def dhcp_failover_process_bind_update_def)
    qed (use opts in \<open>simp add: update_reason_def dhcp_failover_process_bind_update_def\<close>)
  qed (auto simp: update_reason_def dhcp_failover_process_bind_update_def)
  then obtain r where "update_reason d s m = Some r" "dhcp_failover_process_bind_update e d s lt m = reject_update e d s m r"
    by blast
  then show ?thesis using handles_reject [OF p, of e m undefined r] by (simp add: handles_def update_outcome_def)
next
  case True
  then obtain a where a: "find_lease_by_ip_addr d (assigned_addr m) = Some a" "lease_peer d (heap d a) = Some s"
      "has_option m FTB_ASSIGNED_IP_ADDRESS" "has_option m FTB_BINDING_STATUS" by blast
  have p: "prepared S s lt d d" by (rule prepared_refl [OF assms(1)])
  have aS: "a \<in> S" using assms(3) a(1) by (auto simp: bindable_def find_lease_by_ip_addr_def)
  have cp: "copyable S d" using assms(3) by (simp add: bindable_def)
  have "handles S e s m lt a (update_reason d s m) d (dhcp_failover_process_bind_update e d s lt m)"
  proof (cases "on_ack d a")
    case False
    then show ?thesis using handles_apply [OF p assms(2) aS cp assms(4), of e] a
      by (simp add: dhcp_failover_process_bind_update_def update_reason_def on_ack_def)
  next
    case True
    then have b: "failover_lease_is_better (peers d s) (heap d a) m = Ret (our_update_wins (peers d s) (heap d a) m)"
      using is_better_wins [of "heap d a"] assms(3) aS by (auto simp: bindable_def)
    obtain d1 where d1: "dhcp_failover_ack_queue_remove d s a = Ret d1" "prepared S s lt d d1" "fq_frame d d1"
      using prepared_ack_remove [OF assms(1) aS] by blast
    show ?thesis using True b d1(1) a handles_reject [OF p, of e m a FTR_LESS_CRIT_BIND_INFO]
        handles_apply [OF d1(2) assms(2) aS fq_frame_copyable [OF d1(3) cp] assms(4), of e]
      by (simp add: dhcp_failover_process_bind_update_def update_reason_def on_ack_def)
  qed
  then show ?thesis using a(1) by (auto simp: handles_def update_outcome_def split: option.splits)
qed

section \<open>What an acknowledgement does\<close>

lemma update_done_same:
  assumes "fo_ok S d" shows "\<exists>d'. drop_result (dhcp_failover_send_update_done e d s) = Ret d' \<and> fq_same d d'"
proof -
  obtain d1 b where d1: "dhcp_failover_put_message e d s (EvUpdDone s (updxid (peers d s))) = Ret (d1, b)" "fq_same d d1"
    using put_message_same [OF assms] by blast
  have "fq_same d (emit EvCommitLeases (upd_peer s (\<lambda>p. p\<lparr>updxid := updxid p - 1\<rparr>) d1))"
    by (rule fq_same_trans [OF d1(2) fq_same_trans [OF fq_same_peer_steps(2) fq_same_peer_steps(6)]])
  then show ?thesis using d1(1) by (simp add: dhcp_failover_send_update_done_def drop_result_def commit_leases_def Let_def)
qed

lemma unqueue_ack_ok:
  assumes "fo_ok S d" "a \<in> S"
  shows "\<exists>d'. unqueue_ack e d s a bk = Ret d' \<and> fo_ok S d' \<and> peers_kept d d' \<and> only_changes {a} d d' \<and>
     (state_view (heap d' a) = state_view (heap d a) \<or> bk \<and> binding_state (heap d' a) = FTS_BACKUP)"
proof -
  obtain d1 where d1: "dhcp_failover_ack_queue_remove d s a = Ret d1" "prepared S s a d d1" "fq_frame d d1"
    using prepared_ack_remove [OF assms] by blast
  have ok1: "fo_ok S d1" "peers_kept d d1" using d1(2) by (simp_all add: prepared_def)
  let ?u = "upd_peer s (\<lambda>p. p\<lparr>send_update_done := None\<rparr>) d1"
  have oku: "fo_ok S ?u" "peers_kept d1 ?u" by (rule ok_steps(3) [OF ok1(1)], rule kept_steps(3))
  obtain d2 where d2: "(if send_update_done (peers d1 s) = Some a then drop_result (dhcp_failover_send_update_done e ?u s) else Ret d1) = Ret d2"
      "fo_ok S d2" "peers_kept d1 d2" "\<And>b. state_view (heap d2 b) = state_view (heap d1 b)"
  proof (cases "send_update_done (peers d1 s) = Some a")
    case True
    obtain d2 where d2: "drop_result (dhcp_failover_send_update_done e ?u s) = Ret d2" "fq_same ?u d2"
      using update_done_same [OF oku(1)] by blast
    show ?thesis using that [of d2] d2(1) True fo_ok_same [OF oku(1) d2(2)] fq_same_views [OF d2(2)]
        peers_kept_trans [OF oku(2) fq_frame_kept [OF fq_same_frame [OF d2(2)]]] by simp
  qed (use that [of d1] ok1(1) in simp)
  have v2: "state_view (heap d2 b) = state_view (heap d b)" for b
    using d2(4) [of b] fq_frame_calm [OF d1(3)] by (simp add: calm_def)
  have k2: "peers_kept d d2" by (rule peers_kept_trans [OF ok1(2) d2(3)])
  obtain p where p: "l_pool (heap d2 a) = Some p" using member_next(1) [OF d2(2) assms(2)] by blast
  obtain d3 where d3: "(if bk \<and> secondary_not_hoarding (peers d2 s) (pools d2 p)
        then cbind (give_back e d2 a) (\<lambda>d. Ret (if me_state (peers d s) = normal then commit_leases d else d)) else Ret d2) = Ret d3"
      "fo_ok S d3" "peers_kept d2 d3" "only_changes {a} d2 d3"
      "state_view (heap d3 a) = state_view (heap d2 a) \<or> bk \<and> binding_state (heap d3 a) = FTS_BACKUP"
  proof (cases "bk \<and> secondary_not_hoarding (peers d2 s) (pools d2 p)")
    case True
    obtain g where g: "give_back e d2 a = Ret g" "fo_ok S g" "peers_kept d2 g" "binding_state (heap g a) = FTS_BACKUP" "only_changes {a} d2 g"
      using give_back_ok [OF d2(2) assms(2)] by blast
    have c: "fo_ok S (commit_leases g)" "peers_kept d2 (commit_leases g)" "heap (commit_leases g) = heap g"
      using ok_steps(6) [OF g(2)] peers_kept_trans [OF g(3) kept_steps(6)] by (simp_all add: commit_leases_def)
    show ?thesis using True g c that [of g] that [of "commit_leases g"]
      by (cases "me_state (peers g s) = normal") (simp_all add: only_changes_def)
  next
    case False
    show ?thesis by (rule that [of d2]) (use False d2(2) in \<open>auto simp: only_changes_def\<close>)
  qed
  obtain d4 where d4: "dhcp_failover_send_updates e d3 s = Ret d4" "fo_ok S d4" "peers_kept d3 d4"
    using keeps_send_updates [OF d3(2)] unfolding keeps_def by blast
  have v4: "state_view (heap d4 b) = state_view (heap d3 b)" for b using calm_send_updates [OF d4(1)] by (simp add: calm_def)
  have "unqueue_ack e d s a bk = Ret d4"
    using d1(1) d2(1) d3(1) d4(1) p by (simp add: unqueue_ack_def)
  moreover have "peers_kept d d4" by (rule peers_kept_trans [OF k2 peers_kept_trans [OF d3(3) d4(3)]])
  moreover have "only_changes {a} d d4" "state_view (heap d4 a) = state_view (heap d a) \<or> bk \<and> binding_state (heap d4 a) = FTS_BACKUP"
    using v2 v4 d3(4,5) by (auto simp: only_changes_def state_view_def)
  ultimately show ?thesis using d4(2) by blast
qed

text \<open>
  An acknowledgement of the right number for a lease that ended makes the lease available; one for
  another state gives the lease that state.
\<close>

definition acked_state :: "peer \<Rightarrow> db_lease \<Rightarrow> binding_state" where
  "acked_state p l =
     (if desired_binding_state l \<in> {FTS_EXPIRED, FTS_RESET, FTS_RELEASED}
      then if i_am p = secondary \<and> has_flag l RESERVED_LEASE then FTS_BACKUP else FTS_FREE
      else desired_binding_state l)"

lemma fo_ok_upd_next:
  assumes "fo_ok S d" "known_state (next_binding_state (f (heap d a)))" "queue_view (f (heap d a)) = queue_view (heap d a)"
    "side_view (f (heap d a)) = side_view (heap d a)" "billing_class (f (heap d a)) = billing_class (heap d a)"
  shows "fo_ok S (upd_lease a f d)" "peers_kept d (upd_lease a f d)"
proof -
  show "fo_ok S (upd_lease a f d)"
    by (rule fo_ok_upd [where f = f, OF assms(1,3-5)]) (use assms(2) in \<open>auto simp: known_state_def\<close>)
  show "peers_kept d (upd_lease a f d)" by (simp add: peers_kept_def peer_frame_def)
qed

lemma supersede_to:
  assumes "fo_ok S d" "a \<in> S" "next_binding_state (heap d a) = st" "known_state st"
  shows "\<exists>d' b. supersede_lease e d a None False False False False = Ret (d', b) \<and> fo_ok S d' \<and> peers_kept d d' \<and>
     (cur_time d \<le> ends (heap d a) \<or> st \<in> {FTS_FREE, FTS_BACKUP} \<longrightarrow> binding_state (heap d' a) = st \<and> only_changes {a} d d')"
proof -
  have "request_ok S d a None" using assms(2-4) by (auto simp: request_ok_def known_state_def)
  then obtain d' b where "supersede_lease e d a None False False False False = Ret (d', b)" "fo_ok S d'" "peers_kept d d'"
      "settled (cur_time d) (heap d a) \<longrightarrow> lease_changed a (heap d a) d d'"
    using fo_supersede [OF assms(1), of a None False False e False False] by (auto simp: source_lease_def)
  then show ?thesis using assms(3) by (auto simp: settled_def lease_changed_def only_changes_def)
qed

lemma ack_transition_ok:
  assumes "fo_ok S d" "a \<in> S" "known_state (desired_binding_state (heap d a))"
  shows "\<exists>d' bk. ack_transition e d s m a = Ret (d', bk) \<and> fo_ok S d' \<and> peers_kept d d' \<and>
     (bk \<longrightarrow> acked_state (peers d s) (heap d a) = FTS_FREE) \<and>
     (cur_time d \<le> ends (heap d a) \<or> acked_state (peers d s) (heap d a) \<in> {FTS_FREE, FTS_BACKUP} \<longrightarrow>
        binding_state (heap d' a) = acked_state (peers d s) (heap d a) \<and> only_changes {a} d d')"
proof -
  let ?t = "acked_expiry m (heap d a)" and ?st = "acked_state (peers d s) (heap d a)"
  define d1 where "d1 = upd_lease a (\<lambda>l. l\<lparr>atsfp := ?t, tsfp := ?t\<rparr>) d"
  have nk: "known_state (next_binding_state (heap d a))"
    using member_next(2) [OF assms(1,2)] by (auto simp: known_state_def split: binding_state.split)
  have 1: "fo_ok S d1" "peers_kept d d1" unfolding d1_def
    by (rule fo_ok_upd_next [OF assms(1)]; use nk in \<open>simp add: queue_view_def queue_of_def side_view_def\<close>)+
  have h1: "desired_binding_state (heap d1 a) = desired_binding_state (heap d a)" "peers d1 = peers d" "flags (heap d1 a) = flags (heap d a)"
      "binding_state (heap d1 a) = binding_state (heap d a)" "ends (heap d1 a) = ends (heap d a)" "cur_tv d1 = cur_tv d"
      "only_changes {a} d d1" by (simp_all add: d1_def only_changes_def)
  have ks: "known_state ?st" using assms(3) by (simp add: acked_state_def known_state_def)
  show ?thesis
  proof (cases "desired_binding_state (heap d a) \<in> {FTS_EXPIRED, FTS_RESET, FTS_RELEASED}")
    case True
    define d2 where "d2 = upd_lease a (\<lambda>l. l\<lparr>next_binding_state := ?st, desired_binding_state := ?st, rewind_binding_state := ?st\<rparr>) d1"
    have 2: "fo_ok S d2" "peers_kept d1 d2" unfolding d2_def
      by (rule fo_ok_upd_next [OF 1(1)]; use ks in \<open>simp add: queue_view_def queue_of_def side_view_def\<close>)+
    have fb: "?st \<in> {FTS_FREE, FTS_BACKUP}" using True by (simp add: acked_state_def)
    obtain d3 b where d3: "supersede_lease e d2 a None False False False False = Ret (d3, b)" "fo_ok S d3" "peers_kept d2 d3"
        "binding_state (heap d3 a) = ?st" "only_changes {a} d2 d3"
      using supersede_to [OF 2(1) assms(2) _ ks, of e] fb by (auto simp: d2_def)
    define d4 where "d4 = write_lease d3 a"
    have 4: "fo_ok S d4" "peers_kept d3 d4" "heap d4 = heap d3"
      using ok_steps(6) [OF d3(2)] kept_steps(6) by (simp_all add: d4_def write_lease_def)
    obtain w where w: "peer_wants_lease d4 a = Ret w" using peer_wants_returns [OF 4(1), of a] by blast
    define bk where "bk \<longleftrightarrow> i_am (peers d4 s) = primary \<and> \<not> has_flag (heap d4 a) (RESERVED_LEASE OR BOOTP_LEASE) \<and> w"
    have bk: "(if i_am (peers d4 s) = primary \<and> \<not> has_flag (heap d4 a) (RESERVED_LEASE OR BOOTP_LEASE)
        then peer_wants_lease d4 a else Ret False) = Ret bk" "bk \<longrightarrow> i_am (peers d4 s) = primary"
      using w by (auto simp: bk_def)
    define d5 where "d5 = (if \<not> bk \<and> me_state (peers d4 s) = normal then commit_leases d4 else d4)"
    have 5: "fo_ok S d5" "peers_kept d4 d5" "heap d5 = heap d4"
      using ok_steps(6) [OF 4(1)] kept_steps(6) 4(1) by (simp_all add: d5_def commit_leases_def)
    have k: "peers_kept d d5" by (rule peers_kept_trans [OF 1(2) peers_kept_trans [OF 2(2) peers_kept_trans [OF d3(3) peers_kept_trans [OF 4(2) 5(2)]]]])
    have "i_am (peers d4 s) = i_am (peers d s)"
      using peers_kept_trans [OF 1(2) peers_kept_trans [OF 2(2) peers_kept_trans [OF d3(3) 4(2)]]] by (simp add: peers_kept_def peer_frame_def)
    then have b: "bk \<longrightarrow> ?st = FTS_FREE" using bk(2) True by (auto simp: acked_state_def)
    have oc: "only_changes {a} d d5" using d3(5) h1(7) 4(3) 5(3) by (auto simp: only_changes_def d2_def)
    have nx: "(if i_am (peers d1 s) = secondary \<and> has_flag (heap d1 a) RESERVED_LEASE then FTS_BACKUP else FTS_FREE) = ?st"
      and ended: "desired_binding_state (heap d1 a) \<in> {FTS_EXPIRED, FTS_RESET, FTS_RELEASED}"
      using True h1(1-3) by (simp_all add: acked_state_def)
    have eq: "ack_transition e d s m a = Ret (d5, bk)"
      unfolding ack_transition_def Let_def d1_def [symmetric] if_P [OF ended] nx d2_def [symmetric] d3(1) cbind.simps prod.case
        d4_def [symmetric] bk(1) d5_def ..
    show ?thesis using eq 5(1,3) k b oc d3(4) 4(3) by simp
  next
    case False
    then have st: "?st = desired_binding_state (heap d a)" by (simp add: acked_state_def)
    obtain d2 where d2: "(if desired_binding_state (heap d1 a) \<noteq> binding_state (heap d1 a)
        then cbind (supersede_lease e (upd_lease a (\<lambda>l. l\<lparr>next_binding_state := desired_binding_state l\<rparr>) d1) a None False False False False)
               (\<lambda>(d, _). Ret d) else Ret d1) = Ret d2" "fo_ok S d2" "peers_kept d1 d2"
      "cur_time d \<le> ends (heap d a) \<or> ?st \<in> {FTS_FREE, FTS_BACKUP} \<longrightarrow> binding_state (heap d2 a) = ?st \<and> only_changes {a} d1 d2"
    proof (cases "desired_binding_state (heap d1 a) = binding_state (heap d1 a)")
      case True
      then show ?thesis using that [of d1] 1(1) st h1(1) by (auto simp: only_changes_def)
    next
      case ne: False
      define d0 where "d0 = upd_lease a (\<lambda>l. l\<lparr>next_binding_state := desired_binding_state l\<rparr>) d1"
      have 0: "fo_ok S d0" "peers_kept d1 d0" unfolding d0_def
        by (rule fo_ok_upd_next [OF 1(1)]; use ks st h1(1) in \<open>simp add: queue_view_def queue_of_def side_view_def\<close>)+
      have n0: "next_binding_state (heap d0 a) = ?st" "cur_tv d0 = cur_tv d" "ends (heap d0 a) = ends (heap d a)" "only_changes {a} d1 d0"
        using st h1 by (simp_all add: d0_def only_changes_def)
      obtain d2 b where d2: "supersede_lease e d0 a None False False False False = Ret (d2, b)" "fo_ok S d2" "peers_kept d0 d2"
          "cur_time d0 \<le> ends (heap d0 a) \<or> ?st \<in> {FTS_FREE, FTS_BACKUP} \<longrightarrow> binding_state (heap d2 a) = ?st \<and> only_changes {a} d0 d2"
        using supersede_to [OF 0(1) assms(2) n0(1) ks, of e] by blast
      show ?thesis using that [of d2] d2 ne n0 peers_kept_trans [OF 0(2) d2(3)] only_changes_trans [OF n0(4)] by (simp add: d0_def [symmetric])
    qed
    define d3 where "d3 = write_lease d2 a"
    have 3: "fo_ok S d3" "peers_kept d2 d3" "heap d3 = heap d2"
      using ok_steps(6) [OF d2(2)] kept_steps(6) by (simp_all add: d3_def write_lease_def)
    obtain d4 where d4: "add_timeout d3 (cur_time d2 + 2, 0) (Some COMMIT_LEASES) 0 = Ret d4" "fo_ok S d4" "peers_kept d3 d4"
      using keeps_add_timeout [OF 3(1)] unfolding keeps_def by blast
    have h4: "heap d4 = heap d2" using 3(3) by (subst add_timeout_frame [OF d4(1)]) simp
    have k: "peers_kept d d4" by (rule peers_kept_trans [OF 1(2) peers_kept_trans [OF d2(3) peers_kept_trans [OF 3(2) d4(3)]]])
    have eq: "ack_transition e d s m a = Ret (d4, False)"
      unfolding ack_transition_def Let_def d1_def [symmetric] using False h1(1) d2(1) d4(1) by (simp add: d3_def)
    show ?thesis using eq d4(2) k d2(4) h4 h1(7) by (auto simp: only_changes_def)
  qed
qed


definition acked :: "nat \<Rightarrow> failover_message \<Rightarrow> db \<Rightarrow> ptr \<Rightarrow> bool" where
  "acked s m d a \<longleftrightarrow> find_lease_by_ip_addr d (assigned_addr m) = Some a \<and> \<not> has_option m FTB_REJECT_REASON \<and>
     last_xid (heap d a) \<noteq> 0 \<and> last_xid (heap d a) = msg_xid m"

lemma bind_ack_handled:
  assumes "fo_ok S d" "bindable S d"
  shows "\<exists>d'. dhcp_failover_process_bind_ack e d s m = Ret d' \<and> fo_ok S d' \<and> peers_kept d d' \<and>
     ((\<nexists>a. acked s m d a) \<longrightarrow> only_changes {} d d') \<and>
     (\<forall>a. acked s m d a \<and> (cur_time d \<le> ends (heap d a) \<or> acked_state (peers d s) (heap d a) \<in> {FTS_FREE, FTS_BACKUP}) \<longrightarrow>
        only_changes {a} d d' \<and>
        (binding_state (heap d' a) = acked_state (peers d s) (heap d a) \<or>
         acked_state (peers d s) (heap d a) = FTS_FREE \<and> binding_state (heap d' a) = FTS_BACKUP))"
proof (cases "find_lease_by_ip_addr d (assigned_addr m)")
  case None
  then show ?thesis using assms(1) by (simp add: dhcp_failover_process_bind_ack_def acked_def only_changes_def)
next
  case (Some a)
  have aS: "a \<in> S" using assms(2) Some by (auto simp: bindable_def find_lease_by_ip_addr_def)
  consider "has_option m FTB_REJECT_REASON \<or> last_xid (heap d a) = 0"
    | "\<not> (has_option m FTB_REJECT_REASON \<or> last_xid (heap d a) = 0)" "last_xid (heap d a) \<noteq> msg_xid m"
    | "acked s m d a" using Some by (auto simp: acked_def)
  then show ?thesis
  proof cases
    case 1
    have na: "\<not> acked s m d b" for b using 1 Some by (auto simp: acked_def)
    obtain d' where d': "unqueue_ack e d s a False = Ret d'" "fo_ok S d'" "peers_kept d d'" "only_changes {a} d d'"
        "state_view (heap d' a) = state_view (heap d a)"
      using unqueue_ack_ok [OF assms(1) aS, of e s False] by auto
    have "state_view (heap d' b) = state_view (heap d b)" for b using d'(4,5) by (cases "b = a") (auto simp: only_changes_def)
    then show ?thesis using Some 1 na d'(1-3) by (auto simp: dhcp_failover_process_bind_ack_def only_changes_def)
  next
    case 2
    then have na: "\<not> acked s m d b" for b using Some by (auto simp: acked_def)
    show ?thesis using 2 Some na assms(1) by (simp add: dhcp_failover_process_bind_ack_def only_changes_def)
  next
    case 3
    then have un: "acked s m d b \<longleftrightarrow> b = a" for b using Some by (auto simp: acked_def)
    have kd: "known_state (desired_binding_state (heap d a))" using assms(2) aS 3 by (auto simp: bindable_def acked_def)
    let ?st = "acked_state (peers d s) (heap d a)"
    obtain d1 bk where d1: "ack_transition e d s m a = Ret (d1, bk)" "fo_ok S d1" "peers_kept d d1" "bk \<longrightarrow> ?st = FTS_FREE"
        "cur_time d \<le> ends (heap d a) \<or> ?st \<in> {FTS_FREE, FTS_BACKUP} \<longrightarrow> binding_state (heap d1 a) = ?st \<and> only_changes {a} d d1"
      using ack_transition_ok [OF assms(1) aS kd, of e s m] by blast
    obtain d2 where d2: "unqueue_ack e d1 s a bk = Ret d2" "fo_ok S d2" "peers_kept d1 d2" "only_changes {a} d1 d2"
        "state_view (heap d2 a) = state_view (heap d1 a) \<or> bk \<and> binding_state (heap d2 a) = FTS_BACKUP"
      using unqueue_ack_ok [OF d1(2) aS, of e s bk] by blast
    have "dhcp_failover_process_bind_ack e d s m = Ret d2"
      using 3 d1(1) d2(1) by (auto simp: dhcp_failover_process_bind_ack_def acked_def)
    moreover have "binding_state (heap d2 a) = binding_state (heap d1 a) \<or> ?st = FTS_FREE \<and> binding_state (heap d2 a) = FTS_BACKUP"
      using d2(5) d1(4) by (auto simp: state_view_def)
    ultimately show ?thesis using d1(5) d2(2,4) peers_kept_trans [OF d1(3) d2(3)] only_changes_trans [of "{a}" d d1 d2] un by auto
  qed
qed
section \<open>Changes by the rest of the server\<close>

text \<open>
  What the rest of the server does to the leases: it supersedes, releases and abandons them, and
  the timers of the pools run.
\<close>

lemma keeps_supersede:
  assumes "fo_ok S d" "request_ok S d a lease" "c \<or> \<not> pimm"
  shows "keeps S d (cbind (supersede_lease e d a lease c pg pimm fp) (\<lambda>(d, _). Ret d))"
  using fo_supersede [OF assms, of e pg fp] by (auto simp: keeps_def)

lemma keeps_pool_timer:
  assumes "fo_ok S d" shows "keeps S d (pool_timer e d p)"
proof -
  obtain d' where d': "pool_timer e d p = Ret d'" "db_ok S d'" "\<forall>p'. valid_next d p' \<longrightarrow> valid_next d' p'"
    using pool_timer_ok [OF fo_okD(1,2) [OF assms]] by blast
  have k: "peers_kept d d'" by (rule kept_pool_timer [OF d'(1)])
  then have "hba (peers d' s) = hba (peers d s)" for s by (simp add: peers_kept_def peer_frame_def)
  then show ?thesis using d' k assms by (auto simp: keeps_def fo_ok_def)
qed

lemma keeps_release:
  assumes "fo_ok S d" "a \<in> S" shows "keeps S d (release_lease e d a)"
proof -
  define d1 where "d1 = emit (EvDdnsRemovals a) d"
  define d2 where "d2 = (case on_release (heap d1 a) of
                 Some st \<Rightarrow> upd_lease a (\<lambda>l. l\<lparr>scope := run_statements e st (scope l), on_release := None\<rparr>) (emit (EvExecute st a) d1)
               | None \<Rightarrow> d1)"
  define d3 where "d3 = upd_lease a (\<lambda>l. l\<lparr>on_expiry := None\<rparr>) d2"
  define d4 where "d4 = upd_lease a (\<lambda>l. l\<lparr>on_commit := None, scope := None, ends := cur_time d3, tstp := cur_time d3\<rparr>) d3"
  define d5 where "d5 = upd_lease a (\<lambda>l. l\<lparr>next_binding_state := released_state d4 l\<rparr>) d4"
  have step: "fo_ok S (upd_lease a f x) \<and> peers_kept x (upd_lease a f x)"
    if T: "fo_ok S x" "\<forall>y. next_binding_state (f (heap x a)) \<noteq> FTS_BOGUS y" "queue_view (f (heap x a)) = queue_view (heap x a)"
      "side_view (f (heap x a)) = side_view (heap x a)" "billing_class (f (heap x a)) = billing_class (heap x a)" for f x
    using fo_ok_upd_next [where f = f, OF T(1) _ T(3-5)] T(2) by (auto simp: known_state_def split: binding_state.split)
  note nx = member_next(2) [OF _ assms(2)]
  have 1: "fo_ok S d1" "peers_kept d d1" using ok_steps(6) [OF assms(1)] kept_steps(6) by (simp_all add: d1_def)
  have 2: "fo_ok S d2 \<and> peers_kept d1 d2"
  proof (cases "on_release (heap d1 a)")
    case (Some st)
    have e: "fo_ok S (emit (EvExecute st a) d1)" "peers_kept d1 (emit (EvExecute st a) d1)"
      using ok_steps(6) [OF 1(1)] kept_steps(6) by simp_all
    show ?thesis
      using step [OF e(1), of "\<lambda>l. l\<lparr>scope := run_statements e st (scope l), on_release := None\<rparr>"] nx [OF e(1)] peers_kept_trans [OF e(2)] Some
      by (simp add: d2_def queue_view_def queue_of_def side_view_def)
  qed (simp add: d2_def 1)
  have 3: "fo_ok S d3 \<and> peers_kept d2 d3" unfolding d3_def
    by (rule step) (use 2 nx in \<open>simp_all add: queue_view_def queue_of_def side_view_def\<close>)
  have 4: "fo_ok S d4 \<and> peers_kept d3 d4" unfolding d4_def
    by (rule step) (use 3 nx in \<open>simp_all add: queue_view_def queue_of_def side_view_def\<close>)
  have rs: "released_state x l \<in> {FTS_FREE, FTS_BACKUP, FTS_RELEASED}" for x l by (auto simp: released_state_def split: option.split)
  have 5: "fo_ok S d5 \<and> peers_kept d4 d5" unfolding d5_def
    by (rule step) (use 4 rs [of d4 "heap d4 a"] in \<open>auto simp: queue_view_def queue_of_def side_view_def\<close>)
  have "request_ok S d5 a None" using assms(2) rs [of d4 "heap d4 a"] by (auto simp: request_ok_def d5_def)
  then have "keeps S d5 (cbind (supersede_lease e d5 a None True True True False) (\<lambda>(d, _). Ret d))"
    using keeps_supersede [of S d5 a None True True e True False] 5 by simp
  moreover have "peers_kept d d3" using 1 2 3 peers_kept_trans by blast
  moreover have "peers_kept d d5" using calculation 4 5 peers_kept_trans by blast
  ultimately show ?thesis unfolding release_lease_def Let_def d1_def [symmetric] d2_def [symmetric] d3_def [symmetric] d4_def [symmetric] d5_def [symmetric]
    using 3 peers_kept_trans [of d d5] by (auto simp: keeps_def)
qed

lemma keeps_abandon:
  assumes "fo_ok S d" "a \<in> S" "lt \<notin> S" "\<not> has_flag (heap d a) STATIC_LEASE" shows "keeps S d (abandon_lease e d lt a)"
proof -
  define d1 where "d1 = emit (EvDdnsRemovals a) d"
  have 1: "fo_ok S d1" "peers_kept d d1" "heap d1 = heap d" using ok_steps(6) [OF assms(1)] kept_steps(6) by (simp_all add: d1_def)
  obtain c where c: "lease_copy d1 lt a = Some (upd_lease lt (\<lambda>_. c) d1)" "n_uid c = None" "n_hw c = None" "flags c = flags (heap d1 a)"
    using lease_copy_sel [OF fo_ok_nomem(1) [OF 1(1)], of lt a] by blast
  define d2 where "d2 = upd_lease lt (\<lambda>_. c) d1"
  have 2: "fo_ok S d2" "peers_kept d1 d2" unfolding d2_def
    using fo_ok_copy [OF 1(1) assms(3), where f = "\<lambda>_. c"] c(2,3) by (simp_all add: peers_kept_def peer_frame_def)
  define d3 where "d3 = upd_lease lt (\<lambda>l. l\<lparr>scope := None, ends := abandon_ends e d2, next_binding_state := FTS_ABANDONED,
                                        hardware_addr := [], uid := None\<rparr>) d2"
  have 3: "fo_ok S d3" unfolding d3_def by (rule fo_ok_copy [OF 2(1) assms(3)]) (simp_all add: d2_def c)
  have k: "peers_kept d2 d3" by (simp add: d3_def peers_kept_def peer_frame_def)
  have "request_ok S d3 a (Some lt)" using assms(2-4) c(4) 1(3) by (simp add: request_ok_def sample_ok_def d3_def d2_def)
  then have "keeps S d3 (cbind (supersede_lease e d3 a (Some lt) True True True False) (\<lambda>(d, _). Ret d))"
    using keeps_supersede [of S d3 a "Some lt" True True e True False] 3 by simp
  moreover have "peers_kept d d3" using 1(2) 2(2) k peers_kept_trans by blast
  ultimately show ?thesis using peers_kept_trans [of d d3]
    by (auto simp: keeps_def abandon_lease_def Let_def d1_def [symmetric] c(1) d2_def [symmetric] d3_def [symmetric])
qed

end
