(* ===== verification/FailoverRun.thy ===== *)
theory FailoverRun
  imports FailoverBind
begin

text \<open>
  Runs of the failover code of a server, and its properties: what every event keeps, which state
  the server is in after it, how the leases are balanced, what updates do, and that the two
  servers of a pair do not both give the same address away.
\<close>

section \<open>The contract of a handler\<close>

text \<open>What holds throughout.\<close>

definition failover_ok :: "ptr set \<Rightarrow> nat \<Rightarrow> db \<Rightarrow> bool" where
  "failover_ok S s d \<longleftrightarrow> fo_ok S d \<and> machine_ok (peers d s) \<and> service_ok (peers d s)"

lemma failover_ok_step: "failover_ok S s d \<Longrightarrow> machine_step S s d d' \<Longrightarrow> failover_ok S s d'"
  by (simp add: failover_ok_def machine_step_def)


text \<open>
  The rest of the server calls the failover code when something happens. What it relies on: from a
  state that is in order, and when the handler's condition holds, the handler returns and leaves
  the state in order.
\<close>

locale failover_handler =
  fixes S :: "ptr set" and s :: nat and guard :: "db \<Rightarrow> bool" and handle :: "db \<Rightarrow> db cres"
  assumes handled: "failover_ok S s d \<Longrightarrow> guard d \<Longrightarrow> \<exists>d'. handle d = Ret d' \<and> failover_ok S s d'"
begin

lemma not_stuck: "failover_ok S s d \<Longrightarrow> guard d \<Longrightarrow> handle d \<noteq> Fatal \<and> handle d \<noteq> Undef"
  using handled by force

lemma stays_ok: "failover_ok S s d \<Longrightarrow> guard d \<Longrightarrow> handle d = Ret d' \<Longrightarrow> failover_ok S s d'"
  using handled by force

lemma repeated_ok:
  "(\<lambda>d d'. guard d \<and> handle d = Ret d')\<^sup>*\<^sup>* d d' \<Longrightarrow> failover_ok S s d \<Longrightarrow> failover_ok S s d'"
  by (induction rule: rtranclp_induct) (auto intro: stays_ok)

end




section \<open>The handlers\<close>

definition link_signals :: "string set" where
  "link_signals = {''disconnect'', ''connect'', ''startup'', ''connect-timeout''}"

lemma signal_ok:
  assumes "fo_ok S d" "machine_ok (peers d s)" "expired_by_end d s" "name \<in> link_signals"
  shows "\<exists>d' r. dhcp_failover_state_transition e d s name = Ret (d', r) \<and> machine_step S s d d'"
  using assms(4) disconnect_ok [OF assms(1-3)] connect_ok [OF assms(1,2)] startup_ok [OF assms(1)] connect_timeout_ok [OF assms(1,2)]
  unfolding link_signals_def by blast

interpretation partner_state: failover_handler S s
    "\<lambda>d. expired_by_end d s \<and> recording e \<and> \<not> fatal_report d s st" "\<lambda>d. dhcp_failover_peer_state_changed e d s st sp" for S s e st sp
proof
  fix d assume "failover_ok S s d" "expired_by_end d s \<and> recording e \<and> \<not> fatal_report d s st"
  then show "\<exists>d'. dhcp_failover_peer_state_changed e d s st sp = Ret d' \<and> failover_ok S s d'"
    using peer_state_changed_ok [of S d s e st sp] by (auto simp: failover_ok_def)
qed













section \<open>Runs of the server\<close>




text \<open>No report of the partner leaves the server without an answer, but for those that end it.\<close>

lemma failover_progress:
  assumes "failover_ok S s d" "recording e" "expired_by_end d s"
  shows "(\<exists>d'. dhcp_failover_peer_state_changed e d s st sp = Ret d') \<longleftrightarrow> \<not> fatal_report d s st"
proof
  assume "\<exists>d'. dhcp_failover_peer_state_changed e d s st sp = Ret d'"
  then show "\<not> fatal_report d s st" using peer_state_changed_fatal [of S d s st e sp] assms(1) by (auto simp: failover_ok_def)
next
  assume "\<not> fatal_report d s st"
  then show "\<exists>d'. dhcp_failover_peer_state_changed e d s st sp = Ret d'"
    using partner_state.handled [OF assms(1)] assms(2,3) by blast
qed

text \<open>
  On entering partner-down the leases that wait for the partner get new times, without being
  sorted again. If a lease is before one that ends earlier, and ends after the time for
  which all wait, the queue is no longer in the order of time.
\<close>

lemma await_pool_unsorts:
  assumes "failover_peer (pools d p) = Some s" "queue (pools d p) EXPIRED_LEASES = xs @ a # ys @ b # zs"
    "ends (heap d b) < ends (heap d a)" "me_stos (peers d s) + mclt (peers d s) < ends (heap d a)"
    "await_pool s d p = Ret d'"
  shows "queue (pools d' p) EXPIRED_LEASES = queue (pools d p) EXPIRED_LEASES" "\<not> time_sorted (heap d') (queue (pools d' p) EXPIRED_LEASES)"
proof -
  let ?Q = "queue (pools d p) EXPIRED_LEASES"
  let ?d = "d\<lparr>heap := \<lambda>a. if a \<in> set ?Q then await_mclt (peers d s) (heap d a) else heap d a\<rparr>"
  obtain x ws where ne: "?Q = x # ws" using assms(2) by (cases xs) auto
  have h: "heap d' = heap ?d \<and> queue (pools d' p) EXPIRED_LEASES = ?Q"
  proof (cases "sort_time (heap ?d x) < next_event_time (pools d p)")
    case True
    let ?d2 = "upd_pool p (\<lambda>pl. pl\<lparr>next_event_time := sort_time (heap ?d x)\<rparr>) ?d"
    have "add_timeout ?d2 (sort_time (heap ?d x), 0) (Some POOL_TIMER) p = Ret d'"
      using assms(1,5) True by (simp add: await_pool_def await_fold ne Let_def)
    from add_timeout_frame [OF this] have "heap d' = heap ?d2" "pools d' = pools ?d2" by (cases d'; simp)+
    then show ?thesis by simp
  next
    case False
    then have "d' = ?d" using assms(1,5) by (simp add: await_pool_def await_fold ne Let_def)
    then show ?thesis by simp
  qed
  then show q: "queue (pools d' p) EXPIRED_LEASES = ?Q" by blast
  have "sort_time (heap d' b) < sort_time (heap d' a)"
    using assms(2-4) h by (auto simp: await_mclt_def Let_def)
  then show "\<not> time_sorted (heap d') (queue (pools d' p) EXPIRED_LEASES)"
    unfolding q assms(2) time_sorted_def by (auto simp: sorted_wrt_append)
qed

section \<open>A small failover server\<close>

text \<open>
  The primary of a pair, in normal state like its partner, at time 100, with one pool: leases 1 to 3
  are free, lease 4 expired at 90 and waits for the partner's acknowledgement. The servers are
  connected. Leases 1 and 4 have the addresses 10.0.0.1 and 10.0.0.4.
\<close>

definition exr_peer :: peer where
  "exr_peer = new_peer\<lparr>me_state := normal, partner_state := normal, p_service_state := cooperating, i_am := primary,
     mclt := 3600, max_lease_ownership := 10, link_xid := Some 9, ack_queue_head := Some 4, ack_queue_tail := Some 4,
     cur_unacked_updates := 1\<rparr>"

definition exr_expired :: db_lease where
  "exr_expired = (ext_lease FTS_EXPIRED FTS_FREE 90)\<lparr>desired_binding_state := FTS_EXPIRED, flags := ON_ACK_QUEUE, last_xid := 5, tstp := 90\<rparr>"

definition exr_db :: db where
  "exr_db = new_db\<lparr>cur_tv := (100, 0),
     heap := (\<lambda>_. new_lease)(1 := ext_lease FTS_FREE FTS_FREE 50, 2 := ext_lease FTS_FREE FTS_FREE 60,
                             3 := ext_lease FTS_FREE FTS_FREE 70, 4 := exr_expired),
     pools := (\<lambda>_. new_pool)(0 := new_pool\<lparr>queue := (\<lambda>_. [])(FREE_LEASES := [1, 2, 3], EXPIRED_LEASES := [4]),
                             lease_count := 4, free_leases := 3, failover_peer := Some 0\<rparr>),
     pool_list := [0], peers := (\<lambda>_. new_peer)(0 := exr_peer),
     ip_hash := [[10, 0, 0, 1] \<mapsto> 1, [10, 0, 0, 4] \<mapsto> 4]\<rparr>"

lemma exr_db_sel [simp]:
  "cur_tv exr_db = (100, 0)" "classes exr_db = classes new_db" "peers exr_db = (\<lambda>_. new_peer)(0 := exr_peer)"
  "uid_hash exr_db = (\<lambda>_. None)" "hw_hash exr_db = (\<lambda>_. None)" "\<not> no_memory exr_db" "\<not> isc_fails exr_db"
  "failover_peer (pools exr_db p) = (if p = 0 then Some 0 else None)" "timeouts exr_db = []" "pool_list exr_db = [0]"
  "heap exr_db = (\<lambda>_. new_lease)(1 := ext_lease FTS_FREE FTS_FREE 50, 2 := ext_lease FTS_FREE FTS_FREE 60,
                             3 := ext_lease FTS_FREE FTS_FREE 70, 4 := exr_expired)"
  "queue (pools exr_db p) = (if p = 0 then (\<lambda>_. [])(FREE_LEASES := [1, 2, 3], EXPIRED_LEASES := [4]) else (\<lambda>_. []))"
  "next_event_time (pools exr_db p) = MIN_TIME" "free_leases (pools exr_db p) = (if p = 0 then 3 else 0)"
  "backup_leases (pools exr_db p) = 0" "ip_hash exr_db = [[10, 0, 0, 1] \<mapsto> 1, [10, 0, 0, 4] \<mapsto> 4]"
  by (simp_all add: exr_db_def new_db_def new_pool_def)

lemma exr_expired_sel [simp]:
  "binding_state exr_expired = FTS_EXPIRED" "next_binding_state exr_expired = FTS_FREE" "desired_binding_state exr_expired = FTS_EXPIRED"
  "ends exr_expired = 90" "sort_time exr_expired = 90" "flags exr_expired = ON_ACK_QUEUE" "l_pool exr_expired = Some 0"
  "next_pending exr_expired = None" "last_xid exr_expired = 5" "uid exr_expired = None" "hardware_addr exr_expired = []"
  "billing_class exr_expired = None" "n_uid exr_expired = None" "n_hw exr_expired = None" "tstp exr_expired = 90"
  by (simp_all add: exr_expired_def ext_lease_def new_lease_def)

lemma exr_on_queue: "on_queue exr_db a \<longleftrightarrow> a \<in> {1, 2, 3, 4}"
proof
  assume "on_queue exr_db a"
  then show "a \<in> {1, 2, 3, 4}" by (auto simp: on_queue_def split: if_splits)
next
  assume "a \<in> {1, 2, 3, 4}"
  then have "a \<in> set (queue (pools exr_db 0) FREE_LEASES) \<or> a \<in> set (queue (pools exr_db 0) EXPIRED_LEASES)" by simp
  then show "on_queue exr_db a" unfolding on_queue_def by blast
qed

lemma exr_queues: "queues_ok exr_db"
  unfolding queues_ok_def
proof (intro allI)
  fix p q
  show "distinct (queue (pools exr_db p) q) \<and> time_sorted (heap exr_db) (queue (pools exr_db p) q) \<and>
      (\<forall>a \<in> set (queue (pools exr_db p) q). l_pool (heap exr_db a) = Some p \<and> queue_of (heap exr_db a) = Some q)"
    by (cases "p = 0"; cases q) (simp_all add: time_sorted_def queue_of_def)
qed

lemma exr_side: "side_ok {1, 2, 3, 4} exr_db"
proof -
  have bill: "billing_ok {1, 2, 3, 4} exr_db" by (simp add: billing_ok_def new_db_def new_lease_def)
  have "uid_ok exr_db (\<lambda>_. [])" "hw_ok exr_db (\<lambda>_. [])"
    by (simp_all add: uid_ok_def hw_ok_def index_ok_def find_lease_by_uid_def find_lease_by_hw_addr_def new_lease_def)
  moreover have "fq_ok {1, 2, 3, 4} exr_db (\<lambda>_. []) ((\<lambda>_. [])(0 := [4]))"
  proof -
    have v: "pend exr_db = (\<lambda>_. None)" "on_update exr_db = (\<lambda>_. False)" "on_ack exr_db = (\<lambda>a. a = 4)"
      by (simp_all add: fun_eq_iff pend_def on_update_def on_ack_def ON_ACK_QUEUE_def ON_UPDATE_QUEUE_def new_lease_def)
    have p: "peer_of exr_db 4 = Some 0" by (simp add: peer_of_def)
    show ?thesis unfolding fq_ok_def v
      by (intro conjI allI ballI; (auto simp: linked_def new_peer_def exr_peer_def p split: if_splits)[1])
  qed
  ultimately have "rest_ok {1, 2, 3, 4} exr_db" unfolding rest_ok_def unindexed_def by (metis empty_iff exr_db_sel(6,7) list.set(1))
  with bill show ?thesis by (simp add: side_ok_def)
qed

lemma exr_ok: "fo_ok {1, 2, 3, 4} exr_db"
proof -
  have db: "db_ok {1, 2, 3, 4} exr_db" using exr_queues exr_side exr_on_queue by (simp add: db_ok_def)
  have "valid_next exr_db p" for p
    unfolding valid_next_def by (auto simp: pool_leases_iff [OF db])
  then show ?thesis using db by (auto simp: fo_ok_def exr_peer_def new_peer_def)
qed

lemma exr_machine: "machine_ok (peers exr_db 0)" "service_ok (peers exr_db 0)" "expired_by_end exr_db 0"
  by (simp_all add: machine_ok_def known_failover_state_def service_ok_def allowed_service_def known_failover_state_def resolving_def expired_by_end_def
      exr_peer_def new_peer_def)

section \<open>Properties\<close>

text \<open>
  The server is alone and has waited long enough for the partner to have no client on the lease:
  it is in partner-down, and MCLT has gone by since it entered that state and since the time
  the partner was promised, whichever was later; for a lease that ended, the time for which it waits is over.
\<close>

definition waited :: "int \<Rightarrow> peer \<Rightarrow> db_lease \<Rightarrow> bool" where
  "waited now p l \<longleftrightarrow> me_state p = partner_down \<and> partner_state p \<notin> resolving \<and>
     (if binding_state l \<in> {FTS_EXPIRED, FTS_RELEASED, FTS_RESET} then tsfp l < now
      else max (me_stos p) (tsfp l) + mclt p < now)"

lemma partner_down_service:
  assumes "service_ok p" "p_service_state p = service_partner_down" shows "me_state p = partner_down \<and> partner_state p \<notin> resolving"
  using assms by (auto simp: service_ok_def allowed_service_def split: if_splits)

lemma reallocate_waited:
  assumes "service_ok p" "mine_to_reallocate now p l = Ret True"
  shows "waited now p l \<or> i_am p = primary \<and> binding_state l \<in> {FTS_FREE, FTS_ABANDONED} \<or> i_am p = secondary \<and> binding_state l = FTS_BACKUP \<or>
    binding_state l \<in> {FTS_EXPIRED, FTS_RELEASED} \<and> rewind_binding_state l = (if i_am p = primary then FTS_FREE else FTS_BACKUP)"
  using assms(2) partner_down_service [OF assms(1)]
  by (cases "binding_state l"; cases "i_am p") (auto simp: mine_to_reallocate_def peer_gone_def waited_def max_def split: if_splits)

text \<open>
  C6. When the two servers of a pair agree on the state of a lease, and on the state that it
  goes back to, they can both give it to a new client only if one of them is alone: it is in
  partner-down, and has waited MCLT since it entered that state and since the time promised to
  the partner, or, for a lease that ended, until the time set for it. For a free or abandoned lease it is the secondary
  that must have waited, for a backup lease the primary, and an active lease neither gives away. Each server only
  has to serve clients as its own state and the one it has heard of the other allow. (That the
  servers agree is what binding updates are for; it is a hypothesis here.)
\<close>

theorem failover_exclusive:
  assumes "lease_peer d (heap d a) = Some s" "lease_peer d' (heap d' a') = Some s'"
    "i_am (peers d s) = primary" "i_am (peers d' s') = secondary"
    "service_ok (peers d s)" "service_ok (peers d' s')"
    "binding_state (heap d' a') = binding_state (heap d a)" "rewind_binding_state (heap d' a') = rewind_binding_state (heap d a)"
    "lease_mine_to_reallocate d (Some a) = Ret True" "lease_mine_to_reallocate d' (Some a') = Ret True"
  shows "binding_state (heap d a) \<noteq> FTS_ACTIVE \<and>
     (waited (cur_time d) (peers d s) (heap d a) \<or> waited (cur_time d') (peers d' s') (heap d' a')) \<and>
     (binding_state (heap d a) \<in> {FTS_FREE, FTS_ABANDONED} \<longrightarrow> waited (cur_time d') (peers d' s') (heap d' a')) \<and>
     (binding_state (heap d a) = FTS_BACKUP \<longrightarrow> waited (cur_time d) (peers d s) (heap d a))"
proof -
  have m: "mine_to_reallocate (cur_time d) (peers d s) (heap d a) = Ret True" "mine_to_reallocate (cur_time d') (peers d' s') (heap d' a') = Ret True"
    using assms(1,2,9,10) by (simp_all add: lease_mine_to_reallocate_def)
  have "binding_state (heap d a) \<noteq> FTS_ACTIVE" using m(1) by (auto simp: mine_to_reallocate_def)
  then show ?thesis using reallocate_waited [OF assms(5) m(1)] reallocate_waited [OF assms(6) m(2)] assms(3,4,7,8) by auto
qed

theorem failover_exclusive_witness:
  "waited 5000 (exr_peer\<lparr>i_am := secondary, me_state := partner_down, p_service_state := service_partner_down\<rparr>) (heap exr_db 1)"
proof -
  let ?p = "exr_peer\<lparr>i_am := secondary, me_state := partner_down, p_service_state := service_partner_down\<rparr>"
  let ?d = "exr_db\<lparr>cur_tv := (5000, 0), peers := \<lambda>_. ?p\<rparr>"
  have "lease_mine_to_reallocate exr_db (Some 1) = Ret True" "lease_mine_to_reallocate ?d (Some 1) = Ret True"
    by (simp_all add: lease_mine_to_reallocate_def mine_to_reallocate_def peer_gone_def lease_peer_def exr_peer_def new_peer_def ext_lease_def
        new_lease_def)
  moreover have "service_ok ?p" by (simp add: service_ok_def allowed_service_def known_failover_state_def resolving_def exr_peer_def)
  moreover have "i_am (peers exr_db 0) = primary" by (simp add: exr_peer_def)
  ultimately show ?thesis using failover_exclusive [of exr_db 1 0 ?d 1 0] exr_machine(2) by (simp add: lease_peer_def)
qed

text \<open>
  C7. \<open>dhcp_failover_set_state\<close> makes the transition and keeps the lease database consistent,
  whatever it does on entering the state: the server is in the new state (in recover-done, when it
  enters recover-wait and there is nothing left to wait for), its service is the one that its
  state and the partner's allow (\<open>allowed_service\<close>), and the states of other peers are left alone. When the
  state cannot be recorded the transition is not made: the state, the time of its beginning and
  the service stay as they were, and no lease changes its queue, states or end. (That is not all
  that was done before: the updates that were not acknowledged stay rescinded, the keepalive timer
  stays cancelled, and on the way to startup \<open>saved_state\<close> keeps its new value.)
\<close>

theorem set_state_correct:
  assumes "fo_ok S d" "known_failover_state st" "st = partner_down \<longrightarrow> expired_by_end d s"
  shows "\<exists>d' r. dhcp_failover_set_state e d s st = Ret (d', r) \<and> fo_ok S d' \<and> others_kept s d d' \<and>
     (if recording e then r = ISC_R_SUCCESS \<and> me_state (peers d' s) = reached d s st \<and> service_ok (peers d' s)
      else r = ISC_R_IOERROR \<and> calm d d' \<and> me_state (peers d' s) = me_state (peers d s) \<and>
           me_stos (peers d' s) = me_stos (peers d s) \<and> p_service_state (peers d' s) = p_service_state (peers d s))"
proof (cases "recording e")
  case True
  then show ?thesis using set_state_recorded [OF assms(1,2), of e s] assms(3) by auto
next
  case False
  then show ?thesis using set_state_unrecorded [OF assms(1) False, of s st] by auto
qed

theorem set_state_correct_witness:
  "\<exists>d'. dhcp_failover_set_state plain_env exr_db 0 partner_down = Ret (d', ISC_R_SUCCESS) \<and> fo_ok {1, 2, 3, 4} d' \<and>
     me_state (peers d' 0) = partner_down \<and> p_service_state (peers d' 0) = service_partner_down"
proof -
  obtain d' where d': "dhcp_failover_set_state plain_env exr_db 0 partner_down = Ret (d', ISC_R_SUCCESS)" "fo_ok {1, 2, 3, 4} d'"
      "others_kept 0 exr_db d'" "me_state (peers d' 0) = partner_down" "service_ok (peers d' 0)"
    using set_state_correct [OF exr_ok, of partner_down 0 plain_env] exr_machine(3)
    by (auto simp: known_failover_state_def plain_env_def reached_def)
  moreover have "partner_state (peers d' 0) = normal" using d'(3) by (simp add: others_kept_def settings_def exr_peer_def)
  ultimately show ?thesis by (auto simp: service_ok_def allowed_service_def known_failover_state_def resolving_def)
qed





text \<open>
  C29. Balancing a pool returns. Of the queue of leases that are this server's to give it moves some
  to the peer's queue and changes no other lease. Let the surplus be half of what this
  server has counted more of its own free leases than of the peer's, rounded towards zero, and the share \<open>max-lease-ownership\<close>
  percent of all of them. When leases are given the surplus, less what was given, is not below
  minus the share; when the server stops it is at most the share, or nothing is left to give. Leases
  can be given also when there is no surplus, those that the peer would serve: the
  share is the only bound, and \<open>max-lease-misbalance\<close>, below which the manual says a pool is skipped, plays no part.
\<close>

theorem balance_pool_correct:
  assumes "fo_ok S d"
  shows "\<exists>d' k. balance_pool e s d p = Ret (d', int k) \<and> fo_ok S d' \<and> peers_kept d d' \<and>
     (let free = free_leases (pools d p); backup = backup_leases (pools d p);
          (q, lead) = (case i_am (peers d s) of primary \<Rightarrow> (FREE_LEASES, free - backup) | secondary \<Rightarrow> (BACKUP_LEASES, backup - free));
          surplus = sgn lead * (\<bar>lead\<bar> div 2);
          share = ((free + backup) * max_lease_ownership (peers d s) + 50) mod 2 ^ 32 div 100
      in gives p q k d d' \<and> (0 < k \<longrightarrow> - share \<le> surplus - int k) \<and> (surplus - int k \<le> share \<or> queue (pools d' p) q = []))"
  using balance_pool_ok [OF assms, of e s p]
  by (cases "i_am (peers d s)")
    (simp_all add: lease_surplus_def signed_divide_int_def most_owned_def percent_of_def my_free_def Let_def add.commute)

theorem balance_pool_correct_witness:
  "\<exists>d'. balance_pool plain_env 0 exr_db 0 = Ret (d', 1) \<and> length (queue (pools d' 0) FREE_LEASES) = 2 \<and>
     (\<exists>a. set (queue (pools d' 0) BACKUP_LEASES) = {a} \<and> a \<in> {1, 2, 3})"
proof -
  have m: "i_am (peers exr_db 0) = primary" "max_lease_ownership (peers exr_db 0) = 10" by (simp_all add: exr_peer_def)
  obtain d' k where d': "balance_pool plain_env 0 exr_db 0 = Ret (d', int k)" "gives 0 FREE_LEASES k exr_db d'"
      "0 < k \<longrightarrow> 0 \<le> 1 - int k" "1 - int k \<le> 0 \<or> queue (pools d' 0) FREE_LEASES = []" "fo_ok {1, 2, 3, 4} d'"
    using balance_pool_correct [OF exr_ok, of plain_env 0 0] m by (auto simp: Let_def)
  let ?Q = "queue (pools d' 0) FREE_LEASES"
  have g: "length ?Q + k = 3" "set ?Q \<subseteq> {1, 2, 3}" "set (queue (pools d' 0) BACKUP_LEASES) = {1, 2, 3} - set ?Q"
    using d'(2) by (auto simp: gives_def other_free_def)
  have k: "k = 1" using d'(3,4) g(1) by auto
  have "distinct ?Q" by (rule queues_okD(1) [OF db_okD(1) [OF fo_okD(1) [OF d'(5)]]])
  then have "card (set ?Q) = 2" using g(1) k by (simp add: distinct_card)
  then have "card (set (queue (pools d' 0) BACKUP_LEASES)) = 1" using g(2,3) by (simp add: card_Diff_subset)
  then obtain a where "set (queue (pools d' 0) BACKUP_LEASES) = {a}" by (rule card_1_singletonE)
  then show ?thesis using d'(1) g k by auto
qed

text \<open>
  C33. Each of the four signals of the connection is handled in every state of the protocol: the
  handler returns, the server is again in a state of the protocol with a service that it and
  the partner's state allow, and the lease database is consistent. A signal of another name is
  refused and changes nothing.
\<close>

theorem state_transition_total:
  assumes "failover_ok S s d" "expired_by_end d s"
  shows "\<exists>d' r. dhcp_failover_state_transition e d s name = Ret (d', r) \<and> failover_ok S s d' \<and>
     (name \<notin> {''disconnect'', ''connect'', ''startup'', ''connect-timeout''} \<longrightarrow> d' = d \<and> r = DHCP_R_INVALIDARG)"
proof (cases "name \<in> link_signals")
  case True
  then obtain d' r where "dhcp_failover_state_transition e d s name = Ret (d', r)" "machine_step S s d d'"
    using signal_ok [of S d s name e] assms by (auto simp: failover_ok_def)
  then show ?thesis using True failover_ok_step [OF assms(1)] by (simp add: link_signals_def)
next
  case False
  then show ?thesis using assms(1) by (simp add: dhcp_failover_state_transition_def link_signals_def)
qed

theorem state_transition_total_witness:
  "\<exists>d' r. dhcp_failover_state_transition plain_env exr_db 0 ''disconnect'' = Ret (d', r) \<and> failover_ok {1, 2, 3, 4} 0 d'"
proof -
  have "failover_ok {1, 2, 3, 4} 0 exr_db" using exr_ok exr_machine by (simp add: failover_ok_def)
  from state_transition_total [OF this exr_machine(3), of plain_env "''disconnect''"] show ?thesis by auto
qed

text \<open>
  C39. A number that is not a state of the protocol ends the server when it is made the state,
  because its service cannot be determined. Nothing between the management protocol, where the
  administrator sets \<open>local-state\<close>, and \<open>dhcp_failover_set_state\<close> checks the number.
\<close>

theorem set_state_invalid_fatal:
  assumes "fo_ok S d" "recording e"
  shows "dhcp_failover_set_state e d s (other_state b) = Fatal"
proof -
  obtain d1 where d1: "stop_sending d s = Ret d1" using stop_sending_ok [OF assms(1)] by blast
  let ?d2 = "upd_peer s (tentative (cur_time d1) (other_state b)) d1"
  obtain d3 where d3: "record_state e ?d2 s = (d3, True)" using assms(2) by (simp add: record_state_def Let_def)
  have same: "fq_same ?d2 d3" using record_state_same [of ?d2 e s] d3 by simp
  have "dhcp_failover_set_service_state d' s = Fatal" if "fq_same ?d2 d'" for d'
  proof -
    have "me_state (peers d' s) = other_state b"
      using fq_frame_kept [OF fq_same_frame [OF that]] by (simp add: peers_kept_def peer_frame_def tentative_def Let_def)
    then show ?thesis by (simp add: dhcp_failover_set_service_state_def own_service_def)
  qed
  then have "dhcp_failover_set_service_state (cancel_timeout d3 (Some AUTO_PARTNER_DOWN) s) s = Fatal"
      "dhcp_failover_set_service_state (cancel_timeout (cancel_timeout d3 (Some STARTUP_TIMEOUT) s) (Some AUTO_PARTNER_DOWN) s) s = Fatal"
    using fq_same_trans [OF same fq_same_cancel] fq_same_trans [OF fq_same_trans [OF same fq_same_cancel] fq_same_cancel] by auto
  then show ?thesis using d1 d3 by (simp add: dhcp_failover_set_state.simps [of e d s] Let_def)
qed

theorem set_state_invalid_fatal_witness: "dhcp_failover_set_state plain_env exr_db 0 (other_state 99) = Fatal"
  by (rule set_state_invalid_fatal [OF exr_ok]) (simp add: plain_env_def)

lemma await_no_timer:
  assumes "ts = me_stos (peers d s) + mclt (peers d s)" "MIN_TIME \<le> ts" "\<forall>p \<in> set ps. failover_peer (pools d p) = Some s \<longrightarrow> next_event_time (pools d p) = MIN_TIME"
  shows "\<exists>h. for_all (await_pool s) d ps = Ret (d\<lparr>heap := h\<rparr>) \<and>
    (\<forall>a. ends (h a) = ends (heap d a) \<and> (sort_time (heap d a) = max ts (ends (heap d a)) \<longrightarrow> sort_time (h a) = sort_time (heap d a))) \<and>
    (\<forall>p \<in> set ps. failover_peer (pools d p) = Some s \<longrightarrow>
       (\<forall>a \<in> set (queue (pools d p) EXPIRED_LEASES). sort_time (h a) = max ts (ends (heap d a))))"
  using assms
proof (induction ps arbitrary: d)
  case Nil
  show ?case by (intro exI [of _ "heap d"]) simp
next
  case (Cons p ps)
  define h where "h = (\<lambda>a. if failover_peer (pools d p) = Some s \<and> a \<in> set (queue (pools d p) EXPIRED_LEASES)
     then await_mclt (peers d s) (heap d a) else heap d a)"
  have 1: "await_pool s d p = Ret (d\<lparr>heap := h\<rparr>)"
    using Cons.prems by (auto simp: await_pool_def await_fold await_mclt_def h_def Let_def fun_eq_iff split: list.split)
  have h: "ends (h a) = ends (heap d a)" "sort_time (heap d a) = max ts (ends (heap d a)) \<Longrightarrow> sort_time (h a) = sort_time (heap d a)"
      "failover_peer (pools d p) = Some s \<Longrightarrow> a \<in> set (queue (pools d p) EXPIRED_LEASES) \<Longrightarrow> sort_time (h a) = max ts (ends (heap d a))" for a
    using Cons.prems(1) by (auto simp: h_def await_mclt_def Let_def)
  from Cons.IH [of "d\<lparr>heap := h\<rparr>"] Cons.prems obtain h' where
    h': "for_all (await_pool s) (d\<lparr>heap := h\<rparr>) ps = Ret (d\<lparr>heap := h'\<rparr>)"
      "\<And>a. ends (h' a) = ends (h a)" "\<And>a. sort_time (h a) = max ts (ends (h a)) \<Longrightarrow> sort_time (h' a) = sort_time (h a)"
      "\<forall>p \<in> set ps. failover_peer (pools d p) = Some s \<longrightarrow>
         (\<forall>a \<in> set (queue (pools d p) EXPIRED_LEASES). sort_time (h' a) = max ts (ends (h a)))"
    by auto
  show ?case using 1 h h' by (intro exI [of _ h']) auto
qed

text \<open>
  C38. On entering partner-down the leases that wait for the partner get the time at which they
  become free, but nothing happens then in a pool that has no timer, which is when its
  \<open>next_event_time\<close> is \<open>MIN_TIME\<close>: no timeout is set, because the test for an earlier event lacks the
  case of no event, which \<open>supersede_lease\<close> has. Only the leases change.
\<close>

theorem partner_down_no_timer:
  assumes "MIN_TIME \<le> me_stos (peers d s) + mclt (peers d s)"
    "\<forall>p. failover_peer (pools d p) = Some s \<longrightarrow> next_event_time (pools d p) = MIN_TIME"
  shows "\<exists>h. enter_state e d s partner_down = Ret (d\<lparr>heap := h\<rparr>) \<and>
    (\<forall>p a. p \<in> set (pool_list d) \<longrightarrow> failover_peer (pools d p) = Some s \<longrightarrow> a \<in> set (queue (pools d p) EXPIRED_LEASES) \<longrightarrow>
       sort_time (h a) = max (me_stos (peers d s) + mclt (peers d s)) (ends (heap d a)))"
  using await_no_timer [of _ d s "pool_list d"] assms by (auto simp: enter_state_def Let_def)

theorem partner_down_no_timer_witness:
  "\<exists>d'. enter_state plain_env exr_db 0 partner_down = Ret d' \<and> timeouts d' = [] \<and> 4 \<in> set (queue (pools d' 0) EXPIRED_LEASES) \<and>
     sort_time (heap d' 4) = max (me_stos exr_peer + mclt exr_peer) 90"
proof -
  obtain h where "enter_state plain_env exr_db 0 partner_down = Ret (exr_db\<lparr>heap := h\<rparr>)"
      "sort_time (h 4) = max (me_stos exr_peer + mclt exr_peer) 90"
    using partner_down_no_timer [of exr_db 0 plain_env] by (auto simp: exr_peer_def new_peer_def ext_lease_def MIN_TIME_def)
  then show ?thesis by simp
qed

text \<open>
  C32. No update is lost or reordered when the connection breaks: if updates were sent and the
  peer has not acknowledged them, \<open>dhcp_failover_rescind_updates\<close> puts them back in front of those that
  wait, so that the queue is the unacknowledged updates followed by the queue as it was before
  the sending, none is unacknowledged, and the queues of other peers are as they were.
\<close>

theorem send_rescind_updates:
  assumes "fq_ok S d U A" "\<not> no_memory d" "\<not> isc_fails d"
    "link_xid (peers d s) \<noteq> None" "put_message_ok e" "length (U s) + length (A s) < 2 ^ 32"
  shows "\<exists>d' d''. dhcp_failover_send_updates e d s = Ret d' \<and> dhcp_failover_rescind_updates d' s = Ret d'' \<and>
    fq_ok S d'' (U(s := A s @ U s)) (A(s := [])) \<and> fq_frame d' d''"
proof -
  let ?n = "window d s (length (U s)) (length (A s))"
  obtain d' where d': "dhcp_failover_send_updates e d s = Ret d'"
      "fq_ok S d' (U(s := drop ?n (U s))) (A(s := A s @ take ?n (U s)))"
    using send_updates_sent [OF assms] by blast
  show ?thesis using rescind_updates_ok [OF d'(2), of s] d'(1) by auto
qed

theorem send_rescind_updates_witness:
  "\<exists>d' d''. dhcp_failover_send_updates plain_env exf_db 0 = Ret d' \<and> dhcp_failover_rescind_updates d' 0 = Ret d'' \<and>
     fq_ok {1, 2, 3} d'' ((\<lambda>_. [])(0 := [1, 2])) ((\<lambda>_. [])(0 := []))"
proof -
  have "\<not> no_memory exf_db" "\<not> isc_fails exf_db" "link_xid (peers exf_db 0) \<noteq> None" "put_message_ok plain_env"
    by (simp_all add: exf_db_def new_db_def plain_env_def)
  with send_rescind_updates [OF exf_ok, of 0 plain_env] show ?thesis by auto
qed

lemma exr_bindable: "bindable {1, 2, 3, 4} exr_db"
  by (auto simp: bindable_def copyable_def on_ack_def known_state_def new_lease_def ext_lease_def ON_ACK_QUEUE_def STATIC_LEASE_def split: if_splits)


text \<open>The partner makes lease 1 active until 500, and says nothing of the client, or something.\<close>

definition exr_update :: "u32 \<Rightarrow> failover_message" where
  "exr_update opts = \<lparr>options_present = opts, msg_xid = 77, binding_status = FTS_ACTIVE, ip_flags = 0, assigned_addr = [10, 0, 0, 1],
     msg_cltt = 100, expiry = 500, potential_expiry = 800, stos = 100, msg_chaddr = [1, 2, 3, 4, 5, 6, 7], msg_client_identifier = []\<rparr>"


text \<open>
  C10. An acknowledgement of the partner, whatever its contents, leaves the lease database consistent
  and the failover states alone. Only one that is not negative and has the number of the update that was sent last
  for the lease it names changes a lease, that one: a lease that ended becomes free (backup, when it is reserved and this
  server is the secondary), unless the primary gives it to the partner at once; any other lease gets the state
  that was sent. (When that is neither free nor backup and the end of the lease is in the
  past, the timer of the pool runs as well, and only the consistency is stated.)
\<close>

theorem bind_ack_correct:
  assumes "fo_ok S d" "bindable S d"
  shows "\<exists>d'. dhcp_failover_process_bind_ack e d s m = Ret d' \<and> fo_ok S d' \<and> peers_kept d d' \<and>
     ((\<nexists>a. acked s m d a) \<longrightarrow> only_changes {} d d') \<and>
     (\<forall>a. acked s m d a \<and> (cur_time d \<le> ends (heap d a) \<or> acked_state (peers d s) (heap d a) \<in> {FTS_FREE, FTS_BACKUP}) \<longrightarrow>
        only_changes {a} d d' \<and>
        (binding_state (heap d' a) = acked_state (peers d s) (heap d a) \<or>
         acked_state (peers d s) (heap d a) = FTS_FREE \<and> binding_state (heap d' a) = FTS_BACKUP))"
  by (rule bind_ack_handled [OF assms])

definition exr_ack :: "u32 \<Rightarrow> failover_message" where
  "exr_ack xid = (exr_update 0)\<lparr>msg_xid := xid, binding_status := FTS_EXPIRED, assigned_addr := [10, 0, 0, 4]\<rparr>"

theorem bind_ack_correct_witness:
  "(\<exists>d'. dhcp_failover_process_bind_ack plain_env exr_db 0 (exr_ack 5) = Ret d' \<and> fo_ok {1, 2, 3, 4} d' \<and>
      (binding_state (heap d' 4) = FTS_FREE \<or> binding_state (heap d' 4) = FTS_BACKUP)) \<and>
   (\<exists>d'. dhcp_failover_process_bind_ack plain_env exr_db 0 (exr_ack 6) = Ret d' \<and> binding_state (heap d' 4) = FTS_EXPIRED)"
proof -
  have a: "acked 0 (exr_ack 5) exr_db 4" "\<not> acked 0 (exr_ack 6) exr_db a" for a
    by (auto simp: acked_def exr_ack_def exr_update_def find_lease_by_ip_addr_def split: if_splits)
  have st: "acked_state (peers exr_db 0) (heap exr_db 4) = FTS_FREE"
    by (simp add: acked_state_def exr_peer_def)
  show ?thesis
    using bind_ack_correct [OF exr_ok exr_bindable, of plain_env 0 "exr_ack 5"] bind_ack_correct [OF exr_ok exr_bindable, of plain_env 0 "exr_ack 6"] a st
    by (auto simp: only_changes_def state_view_def)
qed

text \<open>
  An acknowledgement with a potential expiry is read as if it had none, unless it also has
  a client identifier or the number of addresses transferred: the code tests \<open>options_present\<close> with the number of the option,
  18, whose bits are those of these two, and not with the bit of the option. The lease then
  keeps as acknowledged the time that was sent, in 32 bits, and not the one that the partner accepted.
\<close>

theorem bind_ack_ignores_expiry:
  assumes "options_present m AND (FTB_ADDRESSES_TRANSFERRED OR FTB_CLIENT_IDENTIFIER) = 0"
  shows "acked_expiry m l = tstp l mod 2 ^ 32"
proof -
  have "FTO_POTENTIAL_EXPIRY = FTB_ADDRESSES_TRANSFERRED OR FTB_CLIENT_IDENTIFIER"
    by (simp add: FTO_POTENTIAL_EXPIRY_def FTB_ADDRESSES_TRANSFERRED_def FTB_CLIENT_IDENTIFIER_def)
  then show ?thesis using assms by (simp add: acked_expiry_def)
qed

theorem bind_ack_ignores_expiry_witness:
  "has_option (exr_update FTB_POTENTIAL_EXPIRY) FTB_POTENTIAL_EXPIRY \<and> potential_expiry (exr_update FTB_POTENTIAL_EXPIRY) = 800 \<and>
   acked_expiry (exr_update FTB_POTENTIAL_EXPIRY) exr_expired = 90"
proof -
  have "options_present (exr_update FTB_POTENTIAL_EXPIRY) AND (FTB_ADDRESSES_TRANSFERRED OR FTB_CLIENT_IDENTIFIER) = 0"
    by (simp add: exr_update_def FTB_POTENTIAL_EXPIRY_def FTB_ADDRESSES_TRANSFERRED_def FTB_CLIENT_IDENTIFIER_def)
  from bind_ack_ignores_expiry [OF this, of exr_expired] show ?thesis
    by (simp add: exr_update_def FTB_POTENTIAL_EXPIRY_def)
qed

end
