(* ===== verification/Spec2Isabelle.thy ===== *)
theory Spec2Isabelle
  imports Prelude Convert Inet NsName LeaseQueue LeaseChain LeaseList Dispatch LeaseTypes FailoverQueue
    ClientHash Billing LeaseDb LeaseDbInv PoolTimer Expiry LoadBalance FailoverState FailoverInv FailoverBind FailoverRun
begin

text \<open>
  A verification of parts of ISC DHCP 4.3.6-P1 (\<open>src/dhcp-4.3.6-P1\<close>), the server's lease database
  above all.

  \<^bold>\<open>The program.\<close> \<open>dhcpd\<close> keeps leases in pools. Each pool has six queues, one for each kind of
  lease state, ordered by the time at which the lease changes by itself (\<open>server/mdb.c\<close>, with either
  the linear lists there or the arrays of \<open>server/leasechain.c\<close>). A lease is also found by its
  address, its client identifier and its hardware address; it can be billed to a class
  (\<open>server/class.c\<close>); and with a failover peer every change of it is queued to be sent to the peer
  (\<open>server/failover.c\<close>). Changes go through \<open>supersede_lease\<close>, and those that time brings about through
  \<open>pool_timer\<close>, which the timeouts of \<open>common/dispatch.c\<close> call. Below that are libraries for numbers
  (\<open>omapip/convert.c\<close>), addresses (\<open>common/inet.c\<close>) and domain names (\<open>common/ns_name.c\<close>).

  \<^bold>\<open>Theories.\<close>
  \<^item> \<open>Prelude\<close>: bytes, C results, and facts on lists and words that the others share. A C function that
    ends the server is \<open>Fatal\<close>, one that has undefined behaviour or does not return is \<open>Undef\<close>.
  \<^item> \<open>Convert\<close> (\<open>omapip/convert.c\<close>): reading and writing integers in network order; writing numbers in
    a base. Round trips, the number of digits, and the base for which the code gets it wrong.
  \<^item> \<open>Inet\<close> (\<open>common/inet.c\<close>): addresses of any length; \<open>range2cidr\<close> returns and partitions the range.
  \<^item> \<open>NsName\<close> (\<open>common/ns_name.c\<close>): names as text, on the wire, and compressed. Decompression is safe
    on every message, and the round trips hold.
  \<^item> \<open>LeaseQueue\<close>: the heap of leases with links and reference counts, and the contract of a queue
    ordered by time, as a locale.
  \<^item> \<open>LeaseChain\<close> (\<open>server/leasechain.c\<close>) and \<open>LeaseList\<close> (\<open>lease_insert\<close>, \<open>lease_remove\<close> of
    \<open>server/mdb.c\<close>): the two implementations, each an interpretation of that locale.
  \<^item> \<open>Dispatch\<close> (\<open>common/dispatch.c\<close>): the list of timeouts, and running those that are due. What the
    functions of the timeouts must keep is a locale.
  \<^item> \<open>LeaseTypes\<close>: the state of the database, from \<open>includes/dhcpd.h\<close> and \<open>includes/failover.h\<close>. A lease is
    a \<open>struct lease\<close>, the heap maps addresses to leases, a queue is the list of the leases on it.
  \<^item> \<open>FailoverQueue\<close> (\<open>server/failover.c\<close>): the queues of updates to send and updates sent, acknowledgements,
    and when a pool is to be rebalanced.
  \<^item> \<open>ClientHash\<close> (\<open>server/mdb.c\<close>): the chains of the leases of a client; their common laws are a
    locale with an interpretation for each of the two indexes.
  \<^item> \<open>Billing\<close> (\<open>server/class.c\<close>): billing leases to classes.
  \<^item> \<open>LeaseDb\<close> (\<open>server/mdb.c\<close>): \<open>supersede_lease\<close> and all it does, releasing, abandoning, the timer of
    a pool, and building the queues at startup.
  \<^item> \<open>LeaseDbInv\<close>: the invariant \<open>db_ok\<close> of the whole database, kept by \<open>supersede_lease\<close>.
  \<^item> \<open>PoolTimer\<close>: \<open>pool_timer\<close> ends and what it does; releasing and abandoning leases.
  \<^item> \<open>Expiry\<close>: the timeouts and the database together, the interpretation of the locale of \<open>Dispatch\<close>,
    and the theorems on the database.
  \<^item> \<open>LoadBalance\<close> (\<open>server/failover.c\<close>): which of the two servers of a failover pair serves a client, which
    binding updates of the other are believed, and which leases a server may give to a new client.
  \<^item> \<open>FailoverState\<close> (\<open>server/failover.c\<close>): the state machine of a server: transitions, the reaction to
    the partner's states and requests, and the balancing of the leases of a pool.
  \<^item> \<open>FailoverInv\<close>: the state machine keeps the database consistent and does what it is to do.
  \<^item> \<open>FailoverBind\<close> (\<open>server/failover.c\<close>): the binding updates of the partner and its acknowledgements of ours,
    and that these and the changes by the rest of the server keep what the state machine relies on.
  \<^item> \<open>FailoverRun\<close>: the contract of an event handler as a locale, with an interpretation for each handler; the
    runs of a server as a step relation; and the theorems on failover.

  \<^bold>\<open>How code is modelled.\<close> Functions that change the database take it and return the changed one. A
  loop over linked leases is a \<open>partial_function\<close> whose value is \<open>None\<close> when it does not end; the
  theorems show that it ends, with no bound to choose. Times are integers, since the code compares
  them as signed 64-bit numbers far from overflow; flags, identifiers and addresses are words and
  bytes. Reference counts are modelled in \<open>LeaseQueue\<close>, \<open>LeaseChain\<close> and \<open>LeaseList\<close>; above these a
  reference is a link. Calls that leave the database are events, in order: DNS removals, statements
  that are executed, leases written, messages to the peer. Whether a write or a message succeeds and
  what statements make of a lease's variables is told by the record \<open>db_env\<close>, which is arbitrary in
  every theorem. The database uses the order that the linear queues give leases that are due at the
  same time; the theorem at the end of this theory shows that they carry out its list operations.

  \<^bold>\<open>What is shown.\<close> For the queues: they stay ordered and linked, and every lease is counted as often
  as it is referred to. For the database: every operation returns, keeps \<open>db_ok\<close>, makes the change
  it should and no other. For the clock: once it is set to a time, the leases that have ended are
  free, in a server without failover peers. For failover: every event, under the conditions of the step relation \<open>failover_event\<close>, leaves the
  server in a state of the protocol, with the service that this state and the partner's allow
  (\<open>allowed_service\<close>) and \<open>db_ok\<close>; the transitions are those of a table organised by the partner's state (\<open>required_state\<close>); if two
  servers that agree on the state of a lease both take it for theirs to give away, one of them is in
  partner-down and has waited as long as the protocol demands; updates and acknowledgements are
  refused for a reason or change the one lease they are about; and balancing and resending of updates do what they are to do.
  These specifications do not use the code's own tables. The conditions of the step relation are not shown to be kept: a step to partner-down
  has the hypothesis \<open>expired_by_end\<close>, that the leases which wait for the
  partner are queued in the order of their ends, because the code gives them new sort times in
  place (lemma \<open>await_pool_unsorts\<close> shows the order broken without it), and one with an update \<open>bindable\<close>. The
  theorems with \<open>forgets\<close>, \<open>uninitialised\<close>, \<open>overflow\<close>, \<open>decimal\<close>, \<open>no_timer\<close>, \<open>ignores\<close>, \<open>unsorts\<close> or \<open>fatal\<close> in their
  names show behaviour that the code does not mean to have.

  \<^bold>\<open>Not modelled.\<close> The failover link, the messages and their encoding, and the loss of the link within a call that cannot send (it is the
  event of a next step); the shortcut of \<open>lease_insert\<close> at startup within the database (in \<open>LeaseList\<close> it is modelled); the
  freeing of leases; the hash tables (maps here), the lease file, the configuration language and option evaluation, DHCPv4
  and DHCPv6 message processing, DNS updates, OMAPI, the client, the relay agent, and Kea, a
  separate server in C++. Printing functions of \<open>common/inet.c\<close> depend on the C library's formatting.
\<close>

section \<open>The queues of the database\<close>

text \<open>
  C14. The lease database works on queues that are lists of leases. \<open>lease_insert\<close> and \<open>lease_remove\<close>
  of the linear queues implement them: on the links of the leases they carry out exactly
  \<open>queue_insert\<close> and \<open>queue_remove\<close> on the list the links stand for, and where \<open>queue_remove\<close> ends the
  server \<open>lease_remove\<close> does.
\<close>

theorem linear_queue_refines:
  fixes h :: "'a heap"
  assumes "lq_holds h q xs"
  shows "(lq_loose h a \<and> a \<notin> set xs \<longrightarrow>
            (\<exists>h' q'. lease_insert False h q a = Ret (h', q') \<and> lq_holds h' q' (queue_insert h a xs))) \<and>
         (case queue_remove b xs of
            Ret ys \<Rightarrow> \<exists>h' q'. lease_remove h q b = Ret (h', q') \<and> lq_holds h' q' ys
          | r \<Rightarrow> lease_remove h q b = Fatal)"
proof
  let ?P = "\<lambda>x. sort_time (h x) < sort_time (h a)"
  show "lq_loose h a \<and> a \<notin> set xs \<longrightarrow>
      (\<exists>h' q'. lease_insert False h q a = Ret (h', q') \<and> lq_holds h' q' (queue_insert h a xs))"
  proof
    assume a: "lq_loose h a \<and> a \<notin> set xs"
    have "lq_follow False q xs" by (simp add: lq_follow_def)
    then obtain h' q' ys zs where r: "lease_insert False h q a = Ret (h', q')" "xs = ys @ zs"
        "lq_holds h' q' (ys @ a # zs)" "ys = takeWhile ?P xs"
      using lease_insert_holds [OF assms, of a False] a by blast
    have "ys @ zs = ys @ dropWhile ?P xs" using r(2,4) takeWhile_dropWhile_id [of ?P xs] by (simp only:)
    then have "zs = dropWhile ?P xs" by (simp only: same_append_eq)
    then show "\<exists>h' q'. lease_insert False h q a = Ret (h', q') \<and> lq_holds h' q' (queue_insert h a xs)"
      using r(1,3,4) unfolding queue_insert_def by blast
  qed
  show "case queue_remove b xs of
            Ret ys \<Rightarrow> \<exists>h' q'. lease_remove h q b = Ret (h', q') \<and> lq_holds h' q' ys
          | r \<Rightarrow> lease_remove h q b = Fatal"
  proof (cases "b \<in> set xs")
    case True
    then obtain ys zs where xs: "xs = ys @ b # zs" by (auto dest: split_list)
    moreover have "b \<notin> set ys" using assms xs by (simp add: lq_holds_def)
    ultimately show ?thesis using lease_remove_holds [of h q ys b zs] assms True by (auto simp: queue_remove_def remove1_append)
  next
    case False
    then show ?thesis using lease_remove_missing [OF assms False] by (simp add: queue_remove_def)
  qed
qed

theorem linear_queue_refines_witness:
  "\<exists>h' q'. lease_insert False exq_heap exq_queue 4 = Ret (h', q') \<and> lq_holds h' q' (queue_insert exq_heap 4 [1, 2, 3])"
  using linear_queue_refines [OF exq_holds, of 4 1] exq_loose by simp

end
